(* ===== verification/KPrelude.thy ===== *)
theory KPrelude
  imports Main "HOL-Library.Word"
begin

text \<open>
  The prelude of the development: the machine integer types of \<^verbatim>\<open>types.h\<close>, the monad in
  which the kernel's C functions are written, its weakest-precondition calculus, pointer chains
  (the kernel's intrusive linked lists) and the little-endian byte layout of C structures.

  A kernel function is a state transformer that either returns a value with the new state or
  stops for good. There are three ways to stop: \<open>Panic msg\<close>, the call \<^verbatim>\<open>panic(msg)\<close> of
  \<^verbatim>\<open>console.c\<close>, which halts the machine; \<open>Spin\<close>, a loop that never ends (a device
  poll whose condition cannot come true, or a walk along a cyclic list); and \<open>Fault\<close>, an access
  outside an array or through a null pointer, or a signed overflow, whose outcome C leaves undefined.
\<close>

unbundle bit_operations_syntax

type_synonym uchar = "8 word"
type_synonym ushort = "16 word"
type_synonym uint = "32 word"

abbreviation INT_MAX :: int where "INT_MAX \<equiv> 2147483647"
abbreviation INT_MIN :: int where "INT_MIN \<equiv> - 2147483648"

datatype stop = Panic string | Spin | Fault

type_synonym ('s, 'a) kern = "'s \<Rightarrow> stop + 'a \<times> 's"

named_theorems kern_simps "unfolding rules of the kernel monad"
named_theorems wp_intro "weakest-precondition rules of the kernel's functions"

section \<open>The kernel monad\<close>

definition ret :: "'a \<Rightarrow> ('s, 'a) kern" where
  "ret x s = Inr (x, s)"

definition bindK :: "('s, 'a) kern \<Rightarrow> ('a \<Rightarrow> ('s, 'b) kern) \<Rightarrow> ('s, 'b) kern" where
  "bindK m k s = (case m s of Inl e \<Rightarrow> Inl e | Inr (x, s') \<Rightarrow> k x s')"

definition thenK :: "('s, 'a) kern \<Rightarrow> ('s, 'b) kern \<Rightarrow> ('s, 'b) kern" where
  "thenK m k = bindK m (\<lambda>_. k)"

definition panic :: "string \<Rightarrow> ('s, 'a) kern" where
  "panic msg s = Inl (Panic msg)"

definition spin :: "('s, 'a) kern" where
  "spin s = Inl Spin"

definition fault :: "('s, 'a) kern" where
  "fault s = Inl Fault"

definition getK :: "('s \<Rightarrow> 'a) \<Rightarrow> ('s, 'a) kern" where
  "getK f s = Inr (f s, s)"

definition modK :: "('s \<Rightarrow> 's) \<Rightarrow> ('s, unit) kern" where
  "modK f s = Inr ((), f s)"

definition whenK :: "bool \<Rightarrow> ('s, unit) kern \<Rightarrow> ('s, unit) kern" where
  "whenK b m = (if b then m else ret ())"

lemma bindK_Inr [simp]: "m s = Inr (x, s') \<Longrightarrow> bindK m k s = k x s'"
  by (simp add: bindK_def)

lemma bindK_Inl [simp]: "m s = Inl e \<Longrightarrow> bindK m k s = Inl e"
  by (simp add: bindK_def)

lemma thenK_Inr [simp]: "m s = Inr (x, s') \<Longrightarrow> thenK m k s = k s'"
  by (simp add: thenK_def)

lemma thenK_Inl [simp]: "m s = Inl e \<Longrightarrow> thenK m k s = Inl e"
  by (simp add: thenK_def)

lemma kern_basic [simp, kern_simps]:
  "ret x s = Inr (x, s)"
  "panic msg s = Inl (Panic msg)"
  "spin s = Inl Spin"
  "fault s = Inl Fault"
  "getK f s = Inr (f s, s)"
  "modK g s = Inr ((), g s)"
  by (simp_all add: ret_def panic_def spin_def fault_def getK_def modK_def)

lemma bindK_getK [simp]: "bindK (getK f) k s = k (f s) s"
  by simp

lemma bindK_ret [simp]: "bindK (ret x) k s = k x s"
  by simp

lemma thenK_modK [simp]: "thenK (modK f) k s = k (f s)"
  by simp

lemma whenK_apply [simp]: "whenK b m s = (if b then m s else Inr ((), s))"
  by (simp add: whenK_def)

lemma bindK_eq_Inr:
  "bindK m k s = Inr (y, s'') \<longleftrightarrow> (\<exists>x s'. m s = Inr (x, s') \<and> k x s' = Inr (y, s''))"
  by (auto simp: bindK_def split: sum.splits)

lemma thenK_eq_Inr:
  "thenK m k s = Inr (y, s'') \<longleftrightarrow> (\<exists>x s'. m s = Inr (x, s') \<and> k s' = Inr (y, s''))"
  by (auto simp: thenK_def bindK_eq_Inr)

lemma bindK_assoc: "bindK (bindK m k) l = bindK m (\<lambda>x. bindK (k x) l)"
  by (rule ext) (simp add: bindK_def split: sum.split prod.split)

section \<open>Weakest preconditions\<close>

text \<open>
  \<open>wpK m Q s\<close>: started in \<open>s\<close>, the function \<open>m\<close> returns (it neither panics nor
  spins) and its result and final state satisfy \<open>Q\<close>.
\<close>

definition wpK :: "('s, 'a) kern \<Rightarrow> ('a \<Rightarrow> 's \<Rightarrow> bool) \<Rightarrow> 's \<Rightarrow> bool" where
  "wpK m Q s = (case m s of Inl _ \<Rightarrow> False | Inr (x, s') \<Rightarrow> Q x s')"

lemma wpK_iff: "wpK m Q s \<longleftrightarrow> (\<exists>x s'. m s = Inr (x, s') \<and> Q x s')"
  by (auto simp: wpK_def split: sum.splits)

lemma wpK_I: "m s = Inr (x, s') \<Longrightarrow> Q x s' \<Longrightarrow> wpK m Q s"
  by (simp add: wpK_def)

lemma wpK_E:
  assumes "wpK m Q s"
  obtains x s' where "m s = Inr (x, s')" and "Q x s'"
  using assms by (auto simp: wpK_iff)

lemma wpK_mono: "wpK m Q s \<Longrightarrow> (\<And>x s'. m s = Inr (x, s') \<Longrightarrow> Q x s' \<Longrightarrow> R x s') \<Longrightarrow> wpK m R s"
  by (auto simp: wpK_iff)

lemma wpK_conj: "wpK m Q s \<Longrightarrow> wpK m R s \<Longrightarrow> wpK m (\<lambda>x t. Q x t \<and> R x t) s"
  by (auto simp: wpK_iff)

lemma wpK_ret [simp]: "wpK (ret x) Q s = Q x s"
  by (simp add: wpK_def)

lemma wpK_panic [simp]: "wpK (panic msg) Q s = False"
  by (simp add: wpK_def)

lemma wpK_spin [simp]: "wpK spin Q s = False"
  by (simp add: wpK_def)

lemma wpK_fault [simp]: "wpK fault Q s = False"
  by (simp add: wpK_def)

lemma wpK_getK [simp]: "wpK (getK f) Q s = Q (f s) s"
  by (simp add: wpK_def)

lemma wpK_modK [simp]: "wpK (modK g) Q s = Q () (g s)"
  by (simp add: wpK_def)

lemma wpK_bindK [simp]: "wpK (bindK m k) Q s = wpK m (\<lambda>x. wpK (k x) Q) s"
  by (auto simp: wpK_def bindK_def split: sum.splits)

lemma wpK_thenK [simp]: "wpK (thenK m l) Q s = wpK m (\<lambda>x. wpK l Q) s"
  by (simp add: thenK_def)

lemmas wpK_simps = wpK_ret wpK_panic wpK_spin wpK_fault wpK_getK wpK_modK wpK_bindK wpK_thenK

lemma wpK_seq: "wpK m P s \<Longrightarrow> (\<And>x t. P x t \<Longrightarrow> wpK k Q t) \<Longrightarrow> wpK (thenK m k) Q s"
  by (auto simp: wpK_iff)

lemma wpK_let: "wpK m P s \<Longrightarrow> (\<And>x t. P x t \<Longrightarrow> wpK (k x) Q t) \<Longrightarrow> wpK (bindK m k) Q s"
  by (auto simp: wpK_iff bindK_eq_Inr)

lemma wpK_Inr [simp]: "wpK (\<lambda>s. Inr (f s, g s)) Q s = Q (f s) (g s)"
  by (simp add: wpK_def)

lemma wpK_if [simp]: "wpK (if b then m else l) Q s = (if b then wpK m Q s else wpK l Q s)"
  by simp

lemma wpK_whenK [simp]: "wpK (whenK b m) Q s = (if b then wpK m Q s else Q () s)"
  by (simp add: whenK_def)

section \<open>Counting loops\<close>

text \<open>
  \<open>for_range i n body\<close> is \<^verbatim>\<open>for (; i < n; i++) body\<close>. The loop rule takes an
  invariant indexed by the counter.
\<close>

function for_range :: "nat \<Rightarrow> nat \<Rightarrow> (nat \<Rightarrow> ('s, unit) kern) \<Rightarrow> ('s, unit) kern" where
  "for_range i n body =
     (if i < n then thenK (body i) (for_range (Suc i) n body) else ret ())"
  by pat_completeness auto
termination
  by (relation "measure (\<lambda>(i, n, body). n - i)") auto

declare for_range.simps [simp del]

lemma for_range_done [simp]: "n \<le> i \<Longrightarrow> for_range i n body s = Inr ((), s)"
  by (simp add: for_range.simps)

lemma for_range_step:
  "i < n \<Longrightarrow> for_range i n body s = thenK (body i) (for_range (Suc i) n body) s"
  by (simp add: for_range.simps)

lemma wpK_for_range:
  assumes body: "\<And>k t. i \<le> k \<Longrightarrow> k < n \<Longrightarrow> I k t \<Longrightarrow> wpK (body k) (\<lambda>_. I (Suc k)) t"
    and start: "I i s" and le: "i \<le> n"
  shows "wpK (for_range i n body) (\<lambda>_. I n) s"
  using assms
proof (induction "n - i" arbitrary: i s)
  case 0
  then show ?case by (simp add: wpK_def)
next
  case (Suc d)
  then have lt: "i < n" by simp
  have "wpK (body i) (\<lambda>_. I (Suc i)) s"
    using Suc.prems lt by simp
  then show ?case
  proof (rule wpK_E)
    fix x t assume run: "body i s = Inr (x, t)" and inv: "I (Suc i) t"
    have "wpK (for_range (Suc i) n body) (\<lambda>_. I n) t"
      using Suc.hyps(1) [of "Suc i" t] Suc.hyps(2) Suc.prems(1) lt inv by simp
    with run lt show ?thesis
      by (simp add: for_range_step wpK_iff)
  qed
qed

section \<open>Facts on 32-bit words\<close>

lemma unat_uint_less: "unat (x :: uint) < 4294967296"
  using unsigned_less [of x, where 'a = nat] by simp

lemma unat_uint_le: "unat (x :: uint) \<le> 4294967295"
  using unat_uint_less [of x] by simp

lemma unat_minus_1_uint: "unat (- 1 :: uint) = 4294967295"
  by (simp add: unsigned_minus_1_eq_mask mask_eq_exp_minus_1)

lemma unat_add_uint:
  "unat (a :: uint) + unat b < 4294967296 \<Longrightarrow> unat (a + b) = unat a + unat b"
  by (simp add: unat_word_ariths)

lemma unat_of_nat_uint: "n < 4294967296 \<Longrightarrow> unat (of_nat n :: uint) = n"
  by (simp add: unat_of_nat)

lemma mask_FF: "(0xFF :: uint) = mask 8"
  by (simp add: mask_eq_exp_minus_1)

end
