(* ===== verification/Spinlock.thy ===== *)
theory Spinlock
  imports KPrelude
begin

text \<open>
  \<^verbatim>\<open>spinlock.c\<close>: the nesting counter that turns interrupts off and on. The state is the part
  of \<^verbatim>\<open>struct cpu\<close> these functions touch (\<^verbatim>\<open>ncli\<close>, \<^verbatim>\<open>intena\<close>) and the interrupt flag of
  the processor's \<^verbatim>\<open>eflags\<close> register; every other component of the kernel extends this record,
  so that its functions can call \<open>pushcli\<close> and \<open>popcli\<close> as the code does. The kernel runs on
  one processor (\<^verbatim>\<open>mycpu()\<close> is \<^verbatim>\<open>&cpus[0]\<close>). \<^verbatim>\<open>ncli\<close> is a 32-bit \<^verbatim>\<open>int\<close>: an increment or a decrement
  that leaves its range is a fault.
\<close>

record kcpu =
  eflags_if :: bool
  ncli :: int
  intena :: bool

definition readeflags_if :: "('z kcpu_scheme, bool) kern" where
  "readeflags_if = getK eflags_if"

definition cli :: "('z kcpu_scheme, unit) kern" where
  "cli = modK (\<lambda>s. s\<lparr>eflags_if := False\<rparr>)"

definition sti :: "('z kcpu_scheme, unit) kern" where
  "sti = modK (\<lambda>s. s\<lparr>eflags_if := True\<rparr>)"

definition pushcli :: "('z kcpu_scheme, unit) kern" where
  "pushcli =
     bindK readeflags_if (\<lambda>eflags.
     thenK cli (
     bindK (getK ncli) (\<lambda>n.
     thenK (whenK (n = 0) (modK (\<lambda>s. s\<lparr>intena := eflags\<rparr>)))
     (if n \<ge> INT_MAX then fault else modK (\<lambda>s. s\<lparr>ncli := ncli s + 1\<rparr>)))))"

definition popcli :: "('z kcpu_scheme, unit) kern" where
  "popcli =
     bindK readeflags_if (\<lambda>eflags.
     if eflags then panic ''popcli - interruptible'' else
     bindK (getK ncli) (\<lambda>n.
     thenK (if n \<le> INT_MIN then fault else modK (\<lambda>s. s\<lparr>ncli := ncli s - 1\<rparr>)) (
     bindK (getK ncli) (\<lambda>n.
     if n < 0 then panic ''popcli'' else
     bindK (getK intena) (\<lambda>ie.
     whenK (n = 0 \<and> ie) sti)))))"

text \<open>
  \<^verbatim>\<open>getcallerpcs\<close> walks the chain of saved frame pointers. \<open>mem\<close> reads the 32-bit word at an
  address; the walk starts two words below the argument's address \<open>v\<close>.
\<close>

fun pcs_walk :: "(uint \<Rightarrow> uint) \<Rightarrow> uint \<Rightarrow> nat \<Rightarrow> uint list" where
  "pcs_walk mem ebp 0 = []"
| "pcs_walk mem ebp (Suc n) =
     (if ebp = 0 \<or> ebp = 0xffffffff then replicate (Suc n) 0
      else mem (ebp + 4) # pcs_walk mem (mem ebp) n)"

definition getcallerpcs :: "(uint \<Rightarrow> uint) \<Rightarrow> uint \<Rightarrow> uint list" where
  "getcallerpcs mem v = pcs_walk mem (v - 8) 10"

section \<open>Effect of one call\<close>

text \<open>
  \<open>cpu_wf\<close> is the invariant of the pair outside a section: the depth is never negative, there is room in the
  counter for one more section, and interrupts are off while the depth is positive. \<open>settle\<close> is what a matched pair leaves behind: interrupts and depth as
  before, and \<open>intena\<close> refreshed when the pair was the outermost one.
\<close>

definition cpu_wf :: "'z kcpu_scheme \<Rightarrow> bool" where
  "cpu_wf s \<longleftrightarrow> 0 \<le> ncli s \<and> ncli s < INT_MAX \<and> (0 < ncli s \<longrightarrow> \<not> eflags_if s)"

definition settle :: "'z kcpu_scheme \<Rightarrow> 'z kcpu_scheme" where
  "settle s = s\<lparr>intena := (if ncli s = 0 then eflags_if s else intena s)\<rparr>"

lemmas spinlock_defs = readeflags_if_def cli_def sti_def pushcli_def popcli_def

lemma pushcli_eq [simp]:
  "ncli s < INT_MAX \<Longrightarrow> pushcli s = Inr ((), s\<lparr>eflags_if := False,
     intena := (if ncli s = 0 then eflags_if s else intena s), ncli := ncli s + 1\<rparr>)"
  by (simp add: spinlock_defs)

lemma popcli_eq:
  "popcli s =
     (if eflags_if s then Inl (Panic ''popcli - interruptible'')
      else if ncli s \<le> INT_MIN then Inl Fault
      else if ncli s \<le> 0 then Inl (Panic ''popcli'')
      else Inr ((), s\<lparr>ncli := ncli s - 1,
             eflags_if := (ncli s = 1 \<and> intena s)\<rparr>))"
  by (auto simp: spinlock_defs)

lemma popcli_inside [simp]:
  "\<not> eflags_if s \<Longrightarrow> 0 < ncli s \<Longrightarrow>
   popcli s = Inr ((), s\<lparr>ncli := ncli s - 1, eflags_if := (ncli s = 1 \<and> intena s)\<rparr>)"
  by (simp add: popcli_eq)

lemma settle_simps [simp]:
  "eflags_if (settle s) = eflags_if s"
  "ncli (settle s) = ncli s"
  "settle (settle s) = settle s"
  "cpu_wf (settle s) = cpu_wf s"
  by (simp_all add: settle_def cpu_wf_def)

lemma push_pop_settle:
  assumes "cpu_wf s"
  shows "thenK pushcli popcli s = Inr ((), settle s)"
proof (cases "ncli s = 0")
  case True
  with assms show ?thesis by (simp add: settle_def)
next
  case False
  with assms show ?thesis by (simp add: settle_def cpu_wf_def)
qed

section \<open>Matched sequences\<close>

datatype cliop = Push | Pop

fun cli_run :: "cliop list \<Rightarrow> ('z kcpu_scheme, unit) kern" where
  "cli_run [] = ret ()"
| "cli_run (Push # w) = thenK pushcli (cli_run w)"
| "cli_run (Pop # w) = thenK popcli (cli_run w)"

inductive matched :: "cliop list \<Rightarrow> bool" where
  nil: "matched []"
| nest: "matched u \<Longrightarrow> matched v \<Longrightarrow> matched (Push # u @ Pop # v)"

text \<open>The greatest depth that a sequence reaches from depth \<open>d\<close>.\<close>

fun peak :: "int \<Rightarrow> cliop list \<Rightarrow> int" where
  "peak d [] = d"
| "peak d (Push # w) = max d (peak (d + 1) w)"
| "peak d (Pop # w) = max d (peak (d - 1) w)"

fun depth :: "int \<Rightarrow> cliop list \<Rightarrow> int" where
  "depth d [] = d"
| "depth d (Push # w) = depth (d + 1) w"
| "depth d (Pop # w) = depth (d - 1) w"

lemma peak_start: "d \<le> peak d w"
  by (cases "(d, w)" rule: peak.cases) auto

lemma peak_append: "peak d (u @ v) = max (peak d u) (peak (depth d u) v)"
  by (induction d u rule: peak.induct) (auto simp: max.assoc max_absorb2 [OF peak_start])

lemma depth_append [simp]: "depth d (u @ v) = depth (depth d u) v"
  by (induction d u rule: depth.induct) auto

lemma depth_matched [simp]: "matched w \<Longrightarrow> depth d w = d"
  by (induction arbitrary: d rule: matched.induct) auto

lemma cli_run_append:
  "cli_run (u @ v) s = (case cli_run u s of Inl e \<Rightarrow> Inl e | Inr (_, t) \<Rightarrow> cli_run v t)"
  by (induction u arbitrary: s rule: cli_run.induct)
     (simp_all add: thenK_def bindK_def split: sum.splits prod.splits)

lemma matched_run:
  assumes "matched w" "0 \<le> ncli s" "0 < ncli s \<Longrightarrow> \<not> eflags_if s" "peak (ncli s) w \<le> INT_MAX"
  shows "cli_run w s = Inr ((), if w = [] then s else settle s)"
  using assms
proof (induction arbitrary: s rule: matched.induct)
  case nil
  then show ?case by simp
next
  case (nest u v)
  have p: "peak (ncli s + 1) u \<le> INT_MAX" "peak (ncli s) v \<le> INT_MAX"
    using nest.prems(3) nest.hyps(1) by (simp_all add: peak_append)
  have room: "ncli s < INT_MAX" using p(1) peak_start [of "ncli s + 1" u] by simp
  define t where "t = s\<lparr>eflags_if := False, intena := (if ncli s = 0 then eflags_if s else intena s), ncli := ncli s + 1\<rparr>"
  have t: "pushcli s = Inr ((), t)" using room by (simp add: t_def)
  have u: "cli_run u t = Inr ((), if u = [] then t else settle t)"
    using nest.prems p by (intro nest.IH(1)) (simp_all add: t_def)
  have pop: "popcli (if u = [] then t else settle t) = Inr ((), settle s)"
    using nest.prems by (auto simp: settle_def t_def)
  have v: "cli_run v (settle s) = Inr ((), settle s)"
    using nest.IH(2) [of "settle s"] nest.prems p by simp
  show ?case
    using t u pop v by (simp add: cli_run_append)
qed

lemma length_pcs_walk [simp]: "length (pcs_walk mem ebp n) = n"
  by (induction n arbitrary: ebp) auto

section \<open>Properties\<close>

definition demo_cpu :: kcpu where
  "demo_cpu = \<lparr>eflags_if = True, ncli = 0, intena = False\<rparr>"

text \<open>
  C33: properly nested \<open>pushcli\<close>/\<open>popcli\<close> sections whose depth stays within the range of the
  32-bit counter never panic and give the interrupt flag and the nesting depth back as they found them.
\<close>

theorem cli_sections_nest:
  assumes "matched w" "0 \<le> ncli s" "0 < ncli s \<longrightarrow> \<not> eflags_if s" "peak (ncli s) w \<le> INT_MAX"
  shows "\<exists>t. cli_run w s = Inr ((), t) \<and> eflags_if t = eflags_if s \<and> ncli t = ncli s"
  using matched_run [of w s] assms by simp

theorem cli_sections_nest_witness:
  "\<exists>t. cli_run [Push, Push, Pop, Pop] demo_cpu = Inr ((), t) \<and> eflags_if t \<and> ncli t = 0"
proof -
  have "matched [Push, Push, Pop, Pop]"
    using matched.nest [OF matched.nest [OF matched.nil matched.nil] matched.nil] by simp
  then show ?thesis using cli_sections_nest [of "[Push, Push, Pop, Pop]" demo_cpu]
    by (simp add: demo_cpu_def)
qed

fun balanced :: "int \<Rightarrow> cliop list \<Rightarrow> bool" where
  "balanced d [] = True"
| "balanced d (Push # w) = balanced (d + 1) w"
| "balanced d (Pop # w) = (0 < d \<and> balanced (d - 1) w)"

text \<open>
  A sequence of calls that stays in range runs to its end exactly when no \<open>popcli\<close> comes without a \<open>pushcli\<close> before
  it; otherwise it panics, so an unbalanced \<open>popcli\<close> cannot go unnoticed.
\<close>

lemma cli_run_balanced:
  assumes "0 \<le> ncli s" "0 < ncli s \<Longrightarrow> \<not> eflags_if s" "peak (ncli s) w \<le> INT_MAX"
  shows "if balanced (ncli s) w then \<exists>t. cli_run w s = Inr ((), t) else \<exists>msg. cli_run w s = Inl (Panic msg)"
  using assms
proof (induction w arbitrary: s rule: cli_run.induct)
  case (2 w)
  have "ncli s < INT_MAX" using "2.prems"(3) peak_start [of "ncli s + 1" w] by simp
  then obtain t where t: "pushcli s = Inr ((), t)" "ncli t = ncli s + 1" "\<not> eflags_if t" by simp
  with "2.IH" [of t] "2.prems" show ?case by simp
next
  case (3 w)
  show ?case
  proof (cases "0 < ncli s")
    case True
    then obtain t where t: "popcli s = Inr ((), t)" "ncli t = ncli s - 1" "0 < ncli t \<Longrightarrow> \<not> eflags_if t"
      using "3.prems" by simp
    with "3.IH" [of t] "3.prems" True show ?thesis by simp
  next
    case False
    then show ?thesis using popcli_eq [of s] "3.prems"(1) by (cases "eflags_if s") simp_all
  qed
qed simp

lemma cli_run_balanced_example:
  "(\<exists>t. cli_run [Push, Pop] demo_cpu = Inr ((), t)) \<and> (\<exists>msg. cli_run [Push, Pop, Pop] demo_cpu = Inl (Panic msg))"
  using cli_run_balanced [of demo_cpu "[Push, Pop]"] cli_run_balanced [of demo_cpu "[Push, Pop, Pop]"]
  by (simp add: demo_cpu_def)

end
