(* ===== verification/KBytes.thy ===== *)
theory KBytes
  imports KPrelude
begin

text \<open>
  Byte-level layout of C data: a block or a structure in memory is a list of bytes, a field is
  a slice of it, and integers are stored little-endian as on the x86. The lemmas are the
  read-over-write laws that the layers above use for the fields of \<^verbatim>\<open>struct dinode\<close>, the
  entries of an indirect block, directory entries and the log header.
\<close>

section \<open>Slices of a byte array\<close>

definition slice :: "nat \<Rightarrow> nat \<Rightarrow> 'a list \<Rightarrow> 'a list" where
  "slice off n bs = take n (drop off bs)"

definition overwrite :: "nat \<Rightarrow> 'a list \<Rightarrow> 'a list \<Rightarrow> 'a list" where
  "overwrite off xs bs = take off bs @ xs @ drop (off + length xs) bs"

lemma length_slice [simp]: "off + n \<le> length bs \<Longrightarrow> length (slice off n bs) = n"
  by (simp add: slice_def)

lemma length_overwrite [simp]:
  "off + length xs \<le> length bs \<Longrightarrow> length (overwrite off xs bs) = length bs"
  by (simp add: overwrite_def)

lemma nth_slice: "i < n \<Longrightarrow> off + n \<le> length bs \<Longrightarrow> slice off n bs ! i = bs ! (off + i)"
  by (simp add: slice_def)

lemma nth_overwrite:
  assumes "off + length xs \<le> length bs" and "i < length bs"
  shows "overwrite off xs bs ! i =
    (if off \<le> i \<and> i < off + length xs then xs ! (i - off) else bs ! i)"
  using assms by (auto simp: overwrite_def nth_append min_def)

lemma slice_overwrite_same [simp]:
  "off + length xs \<le> length bs \<Longrightarrow> n = length xs \<Longrightarrow> slice off n (overwrite off xs bs) = xs"
  by (simp add: slice_def overwrite_def)

lemma slice_overwrite_other:
  assumes fit: "off + length xs \<le> length bs" "off' + n \<le> length bs"
    and disj: "off' + n \<le> off \<or> off + length xs \<le> off'"
  shows "slice off' n (overwrite off xs bs) = slice off' n bs"
proof (rule nth_equalityI)
  show "length (slice off' n (overwrite off xs bs)) = length (slice off' n bs)"
    using fit by simp
next
  fix i assume "i < length (slice off' n (overwrite off xs bs))"
  with fit have i: "i < n" by simp
  have "slice off' n (overwrite off xs bs) ! i = overwrite off xs bs ! (off' + i)"
    using i fit by (simp add: nth_slice)
  also have "\<dots> = bs ! (off' + i)"
    using i fit disj by (subst nth_overwrite) auto
  finally show "slice off' n (overwrite off xs bs) ! i = slice off' n bs ! i"
    using i fit by (simp add: nth_slice)
qed

lemma overwrite_slice: "off + n \<le> length bs \<Longrightarrow> overwrite off (slice off n bs) bs = bs"
  by (simp add: overwrite_def slice_def min_def)
     (metis append_take_drop_id drop_drop add.commute)

lemma overwrite_overwrite [simp]:
  "off + length xs \<le> length bs \<Longrightarrow> length ys = length xs \<Longrightarrow>
   overwrite off ys (overwrite off xs bs) = overwrite off ys bs"
  by (simp add: overwrite_def)

lemma slice_slice: "off' + n' \<le> n \<Longrightarrow> slice off' n' (slice off n bs) = slice (off + off') n' bs"
  by (simp add: slice_def drop_take add.commute min_def)

lemma slice_full: "n = length bs \<Longrightarrow> slice 0 n bs = bs"
  by (simp add: slice_def)

lemma overwrite_full: "length xs = length bs \<Longrightarrow> overwrite 0 xs bs = xs"
  by (simp add: overwrite_def)

lemma slice_replicate: "off + n \<le> m \<Longrightarrow> slice off n (replicate m x) = replicate n x"
  by (simp add: slice_def)

section \<open>Little-endian integers\<close>

definition uint_bytes :: "uint \<Rightarrow> uchar list" where
  "uint_bytes w =
     [ucast w, ucast (drop_bit 8 w), ucast (drop_bit 16 w), ucast (drop_bit 24 w)]"

definition le_uint :: "uchar list \<Rightarrow> uint" where
  "le_uint bs = ucast (bs ! 0) OR push_bit 8 (ucast (bs ! 1)) OR
     push_bit 16 (ucast (bs ! 2)) OR push_bit 24 (ucast (bs ! 3))"

definition ushort_bytes :: "ushort \<Rightarrow> uchar list" where
  "ushort_bytes w = [ucast w, ucast (drop_bit 8 w)]"

definition le_ushort :: "uchar list \<Rightarrow> ushort" where
  "le_ushort bs = ucast (bs ! 0) OR push_bit 8 (ucast (bs ! 1))"

lemma length_uint_bytes [simp]: "length (uint_bytes w) = 4"
  by (simp add: uint_bytes_def)

lemma length_ushort_bytes [simp]: "length (ushort_bytes w) = 2"
  by (simp add: ushort_bytes_def)

lemma le_uint_bytes [simp]: "le_uint (uint_bytes w) = w"
  unfolding le_uint_def uint_bytes_def
proof (rule bit_word_eqI, goal_cases)
  case (1 n)
  then consider "n < 8" | "8 \<le> n" "n < 16" | "16 \<le> n" "n < 24" | "24 \<le> n" "n < 32"
    by fastforce
  then show ?case by cases (auto simp: bit_simps)
qed

lemma le_ushort_bytes [simp]: "le_ushort (ushort_bytes w) = w"
  unfolding le_ushort_def ushort_bytes_def
  by (rule bit_word_eqI) (auto simp: bit_simps)

lemma uint_bytes_le:
  assumes "length bs = 4"
  shows "uint_bytes (le_uint bs) = bs"
proof -
  obtain a b c d where bs: "bs = [a, b, c, d]"
    using assms by (auto simp: length_Suc_conv eval_nat_numeral)
  have "ucast (le_uint bs) = a" "ucast (drop_bit 8 (le_uint bs)) = b"
    "ucast (drop_bit 16 (le_uint bs)) = c" "ucast (drop_bit 24 (le_uint bs)) = d"
    unfolding bs le_uint_def
    by (rule bit_word_eqI; auto simp: bit_simps dest: bit_imp_le_length)+
  then show ?thesis by (simp add: uint_bytes_def bs)
qed

lemma ushort_bytes_le:
  assumes "length bs = 2"
  shows "ushort_bytes (le_ushort bs) = bs"
proof -
  obtain a b where bs: "bs = [a, b]"
    using assms by (auto simp: length_Suc_conv eval_nat_numeral)
  have "ucast (le_ushort bs) = a" "ucast (drop_bit 8 (le_ushort bs)) = b"
    unfolding bs le_ushort_def
    by (rule bit_word_eqI; auto simp: bit_simps dest: bit_imp_le_length)+
  then show ?thesis by (simp add: ushort_bytes_def bs)
qed

section \<open>Arrays of integers inside a block\<close>

definition get_uint :: "nat \<Rightarrow> uchar list \<Rightarrow> uint" where
  "get_uint k bs = le_uint (slice (4 * k) 4 bs)"

definition put_uint :: "nat \<Rightarrow> uint \<Rightarrow> uchar list \<Rightarrow> uchar list" where
  "put_uint k w bs = overwrite (4 * k) (uint_bytes w) bs"

lemma length_put_uint [simp]: "4 * k + 4 \<le> length bs \<Longrightarrow> length (put_uint k w bs) = length bs"
  by (simp add: put_uint_def)

lemma get_put_uint:
  assumes "4 * j + 4 \<le> length bs" "4 * k + 4 \<le> length bs"
  shows "get_uint j (put_uint k w bs) = (if j = k then w else get_uint j bs)"
proof (cases "j = k")
  case True
  with assms show ?thesis by (simp add: get_uint_def put_uint_def)
next
  case False
  then have "4 * j + 4 \<le> 4 * k \<or> 4 * k + 4 \<le> 4 * j" by linarith
  with assms False show ?thesis
    by (simp add: get_uint_def put_uint_def slice_overwrite_other)
qed

lemma get_uint_zero: "4 * k + 4 \<le> n \<Longrightarrow> get_uint k (replicate n 0) = 0"
  by (simp add: get_uint_def slice_replicate le_uint_def eval_nat_numeral)

end
