(* ===== verification/Cstring.thy ===== *)
theory Cstring
  imports KBytes
begin

text \<open>
  \<^verbatim>\<open>string.c\<close> on a flat 32-bit memory of bytes, with the C loops as recursions over the number
  of bytes left and pointers as wrapping 32-bit words. Then the specification of each routine
  on byte lists, and the lemmas that the loops implement it; the layers that keep names and
  blocks as byte lists use those list functions.
\<close>

type_synonym memory = "uint \<Rightarrow> uchar"

section \<open>The routines\<close>

fun stosb :: "memory \<Rightarrow> uint \<Rightarrow> uchar \<Rightarrow> nat \<Rightarrow> memory" where
  "stosb m d c 0 = m"
| "stosb m d c (Suc n) = stosb (m(d := c)) (d + 1) c n"

fun stosl :: "memory \<Rightarrow> uint \<Rightarrow> uint \<Rightarrow> nat \<Rightarrow> memory" where
  "stosl m d w 0 = m"
| "stosl m d w (Suc n) =
     stosl (m(d := ucast w, d + 1 := ucast (drop_bit 8 w),
              d + 2 := ucast (drop_bit 16 w), d + 3 := ucast (drop_bit 24 w))) (d + 4) w n"

definition memset :: "memory \<Rightarrow> uint \<Rightarrow> uint \<Rightarrow> uint \<Rightarrow> memory" where
  "memset m dst c n =
     (if dst mod 4 = 0 \<and> n mod 4 = 0 then
        (let c = c AND 0xFF
         in stosl m dst (push_bit 24 c OR push_bit 16 c OR push_bit 8 c OR c) (unat (n div 4)))
      else stosb m dst (ucast c) (unat n))"

fun memcmp :: "memory \<Rightarrow> uint \<Rightarrow> uint \<Rightarrow> nat \<Rightarrow> int" where
  "memcmp m s1 s2 0 = 0"
| "memcmp m s1 s2 (Suc n) =
     (if m s1 \<noteq> m s2 then uint (m s1) - uint (m s2) else memcmp m (s1 + 1) (s2 + 1) n)"

fun copy_fwd :: "memory \<Rightarrow> uint \<Rightarrow> uint \<Rightarrow> nat \<Rightarrow> memory" where
  "copy_fwd m d s 0 = m"
| "copy_fwd m d s (Suc n) = copy_fwd (m(d := m s)) (d + 1) (s + 1) n"

fun copy_bwd :: "memory \<Rightarrow> uint \<Rightarrow> uint \<Rightarrow> nat \<Rightarrow> memory" where
  "copy_bwd m d s 0 = m"
| "copy_bwd m d s (Suc n) = copy_bwd (m(d - 1 := m (s - 1))) (d - 1) (s - 1) n"

definition memmove :: "memory \<Rightarrow> uint \<Rightarrow> uint \<Rightarrow> uint \<Rightarrow> memory" where
  "memmove m dst src n =
     (if src < dst \<and> src + n > dst
      then copy_bwd m (dst + n) (src + n) (unat n)
      else copy_fwd m dst src (unat n))"

definition memcpy :: "memory \<Rightarrow> uint \<Rightarrow> uint \<Rightarrow> uint \<Rightarrow> memory" where
  "memcpy m dst src n = memmove m dst src n"

fun strncmp :: "memory \<Rightarrow> uint \<Rightarrow> uint \<Rightarrow> nat \<Rightarrow> int" where
  "strncmp m p q 0 = 0"
| "strncmp m p q (Suc n) =
     (if m p \<noteq> 0 \<and> m p = m q then strncmp m (p + 1) (q + 1) n
      else uint (m p) - uint (m q))"

fun strncpy_loop :: "memory \<Rightarrow> uint \<Rightarrow> uint \<Rightarrow> nat \<Rightarrow> memory" where
  "strncpy_loop m s t 0 = m"
| "strncpy_loop m s t (Suc n) =
     (if m t \<noteq> 0 then strncpy_loop (m(s := m t)) (s + 1) (t + 1) n
      else stosb (m(s := m t)) (s + 1) 0 n)"

definition strncpy :: "memory \<Rightarrow> uint \<Rightarrow> uint \<Rightarrow> int \<Rightarrow> memory" where
  "strncpy m s t n = strncpy_loop m s t (nat n)"

fun safestrcpy_loop :: "memory \<Rightarrow> uint \<Rightarrow> uint \<Rightarrow> nat \<Rightarrow> memory" where
  "safestrcpy_loop m s t 0 = m(s := 0)"
| "safestrcpy_loop m s t (Suc n) =
     (if m t \<noteq> 0 then safestrcpy_loop (m(s := m t)) (s + 1) (t + 1) n
      else m(s := m t, s + 1 := 0))"

definition safestrcpy :: "memory \<Rightarrow> uint \<Rightarrow> uint \<Rightarrow> int \<Rightarrow> memory" where
  "safestrcpy m s t n = (if n \<le> 0 then m else safestrcpy_loop m s t (nat (n - 1)))"

partial_function (option) strlen_loop :: "memory \<Rightarrow> uint \<Rightarrow> nat \<Rightarrow> nat option" where
  "strlen_loop m s n = (if m (s + of_nat n) = 0 then Some n else strlen_loop m s (Suc n))"

definition strlen :: "memory \<Rightarrow> uint \<Rightarrow> nat option" where
  "strlen m s = strlen_loop m s 0"

section \<open>Reading memory as a list\<close>

fun bytes_at :: "memory \<Rightarrow> uint \<Rightarrow> nat \<Rightarrow> uchar list" where
  "bytes_at m a 0 = []"
| "bytes_at m a (Suc n) = m a # bytes_at m (a + 1) n"

lemma length_bytes_at [simp]: "length (bytes_at m a n) = n"
  by (induction n arbitrary: a) auto

lemma nth_bytes_at: "i < n \<Longrightarrow> bytes_at m a n ! i = m (a + of_nat i)"
proof (induction n arbitrary: a i)
  case 0
  then show ?case by simp
next
  case (Suc n)
  then show ?case by (cases i) (auto simp: algebra_simps)
qed

text \<open>Two addresses inside one region of at most \<open>2 ^ 32\<close> bytes differ when their offsets do.\<close>

lemma offset_inj:
  fixes a :: uint
  assumes "a + of_nat i = a + of_nat j" and "i < 2 ^ 32" and "j < 2 ^ 32"
  shows "i = j"
proof -
  have "(of_nat i :: uint) = of_nat j" using assms(1) by simp
  then have "unat (of_nat i :: uint) = unat (of_nat j :: uint)" by simp
  then show ?thesis using assms(2,3) by (simp add: unat_of_nat)
qed

lemma offset_cases:
  fixes a d :: uint
  obtains k where "a = d + of_nat k" and "k = unat (a - d)" and "k < 2 ^ 32"
proof
  show "a = d + of_nat (unat (a - d))" by simp
  show "unat (a - d) < 2 ^ 32" using unat_uint_less [of "a - d"] by simp
qed simp

lemma unat_diff_Suc:
  fixes a d :: uint
  assumes "a \<noteq> d"
  shows "unat (a - (d + 1)) = unat (a - d) - 1"
proof -
  have "a - d \<noteq> 0" using assms by simp
  then have "unat (a - d - 1) = unat (a - d) - 1" by (rule unat_minus_one)
  then show ?thesis by (simp add: diff_diff_eq)
qed

section \<open>memset\<close>

lemma stosb_eq:
  "n \<le> 2 ^ 32 \<Longrightarrow> stosb m d c n = (\<lambda>a. if unat (a - d) < n then c else m a)"
proof (induction n arbitrary: m d)
  case 0
  then show ?case by simp
next
  case (Suc n)
  have step: "unat (a - (d + 1)) < n \<longleftrightarrow> unat (a - d) < Suc n \<and> a \<noteq> d" for a
  proof (cases "a = d")
    case True
    then show ?thesis using Suc.prems by (simp add: unat_minus_1_uint)
  next
    case False
    then have "unat (a - (d + 1)) = unat (a - d) - 1" by (rule unat_diff_Suc)
    moreover have "0 < unat (a - d)" using False by (simp add: unat_gt_0)
    ultimately show ?thesis using False by linarith
  qed
  show ?case
    using Suc.prems by (auto simp: Suc.IH step)
qed

lemma stosl_stosb:
  "ucast w = c \<Longrightarrow> ucast (drop_bit 8 w) = c \<Longrightarrow> ucast (drop_bit 16 w) = c \<Longrightarrow>
   ucast (drop_bit 24 w) = c \<Longrightarrow> stosl m d w n = stosb m d c (4 * n)"
proof (induction n arbitrary: m d)
  case 0
  then show ?case by simp
next
  case (Suc n)
  have "stosb m d c (4 * Suc n) = stosb m d c (Suc (Suc (Suc (Suc (4 * n)))))"
    by (simp add: eval_nat_numeral)
  then show ?case using Suc by (simp add: add.assoc)
qed

lemma spread_byte:
  fixes c :: uint
  defines "b \<equiv> c AND 0xFF"
  defines "w \<equiv> push_bit 24 b OR push_bit 16 b OR push_bit 8 b OR b"
  shows "ucast w = (ucast c :: uchar)" "ucast (drop_bit 8 w) = (ucast c :: uchar)"
    "ucast (drop_bit 16 w) = (ucast c :: uchar)" "ucast (drop_bit 24 w) = (ucast c :: uchar)"
  unfolding w_def b_def mask_FF
  by (rule bit_word_eqI; auto simp: bit_simps)+

lemma memset_eq:
  "memset m dst c n = (\<lambda>a. if a - dst < n then ucast c else m a)"
proof -
  have lt: "unat (a - dst) < unat n \<longleftrightarrow> a - dst < n" for a
    by (simp add: word_less_nat_alt)
  have le: "unat n \<le> 2 ^ 32" using unat_uint_less [of n] by simp
  show ?thesis
  proof (cases "dst mod 4 = 0 \<and> n mod 4 = 0")
    case True
    have "unat n mod 4 = 0"
      using True unat_mod_distrib [of n 4] by simp
    then have "4 * unat (n div 4) = unat n"
      by (simp add: unat_div) presburger
    moreover have "memset m dst c n = stosb m dst (ucast c) (4 * unat (n div 4))"
      unfolding memset_def Let_def using True stosl_stosb [OF spread_byte]
      by (simp only: if_True simp_thms)
    ultimately show ?thesis using le by (simp add: stosb_eq lt)
  next
    case False
    then show ?thesis using le by (auto simp: memset_def stosb_eq lt)
  qed
qed

section \<open>memmove\<close>

text \<open>
  What a copy must leave behind: the destination holds the source as it was before the call,
  and no other byte has changed.
\<close>

definition copied :: "memory \<Rightarrow> uint \<Rightarrow> uint \<Rightarrow> nat \<Rightarrow> memory" where
  "copied m d s n = (\<lambda>a. if unat (a - d) < n then m (s + (a - d)) else m a)"

lemma copied_Suc_first:
  assumes "Suc n \<le> 2 ^ 32"
    and clear: "\<And>j. 0 < j \<Longrightarrow> j < Suc n \<Longrightarrow> d \<noteq> s + of_nat j"
  shows "copied (m(d := m s)) (d + 1) (s + 1) n = copied m d s (Suc n)"
proof
  fix a
  obtain k where a: "a = d + of_nat k" and k: "k = unat (a - d)" "k < 2 ^ 32"
    by (rule offset_cases)
  show "copied (m(d := m s)) (d + 1) (s + 1) n a = copied m d s (Suc n) a"
  proof (cases k)
    case 0
    then show ?thesis
      using a assms(1) by (simp add: copied_def unat_minus_1_uint)
  next
    case (Suc l)
    have l: "unat (a - (d + 1)) = l"
      using a Suc k(2) by (simp add: unat_of_nat)
    have "a \<noteq> d" using a Suc k(2) offset_inj [of d k 0] by auto
    moreover have "l < n \<Longrightarrow> s + (a - d) \<noteq> d"
      using clear [of k] a Suc by force
    ultimately show ?thesis
      using l k(1) [symmetric] Suc by (auto simp: copied_def algebra_simps)
  qed
qed

lemma copy_fwd_copied:
  "n \<le> 2 ^ 32 \<Longrightarrow> (\<And>i j. i < j \<Longrightarrow> j < n \<Longrightarrow> d + of_nat i \<noteq> s + of_nat j) \<Longrightarrow>
   copy_fwd m d s n = copied m d s n"
proof (induction n arbitrary: m d s)
  case 0
  then show ?case by (simp add: copied_def)
next
  case (Suc n)
  have "d + 1 + of_nat i \<noteq> s + 1 + of_nat j" if "i < j" "j < n" for i j
    using Suc.prems(2) [of "Suc i" "Suc j"] that by (simp add: algebra_simps)
  then have "copy_fwd m d s (Suc n) = copied (m(d := m s)) (d + 1) (s + 1) n"
    using Suc.IH [of "d + 1" "s + 1"] Suc.prems(1) by simp
  also have "\<dots> = copied m d s (Suc n)"
    using Suc.prems(1) Suc.prems(2) [of 0] by (intro copied_Suc_first) auto
  finally show ?case .
qed

lemma copy_bwd_copied:
  "n \<le> 2 ^ 32 \<Longrightarrow> (\<And>i j. j < i \<Longrightarrow> i < n \<Longrightarrow> d + of_nat i \<noteq> s + of_nat j) \<Longrightarrow>
   copy_bwd m (d + of_nat n) (s + of_nat n) n = copied m d s n"
proof (induction n arbitrary: m)
  case 0
  then show ?case by (simp add: copied_def)
next
  case (Suc n)
  let ?m = "m(d + of_nat n := m (s + of_nat n))"
  have "copy_bwd m (d + of_nat (Suc n)) (s + of_nat (Suc n)) (Suc n) =
        copy_bwd ?m (d + of_nat n) (s + of_nat n) n"
    by (simp add: algebra_simps)
  also have "\<dots> = copied ?m d s n"
    using Suc.IH Suc.prems by simp
  also have "\<dots> = copied m d s (Suc n)"
  proof
    fix a
    obtain k where a: "a = d + of_nat k" and k: "k = unat (a - d)" "k < 2 ^ 32"
      by (rule offset_cases)
    have ad: "a - d = of_nat k" using a by simp
    have "k < n \<Longrightarrow> s + of_nat k \<noteq> d + of_nat n"
      using Suc.prems(2) [of k n] by auto
    moreover have "a = d + of_nat n \<longleftrightarrow> k = n"
      using a k(2) Suc.prems(1) offset_inj [of d k n] by auto
    ultimately show "copied ?m d s n a = copied m d s (Suc n) a"
      using k(1) [symmetric] ad by (auto simp: copied_def)
  qed
  finally show ?case .
qed

lemma memmove_copied:
  assumes "unat src + unat n < 2 ^ 32" and "unat dst + unat n < 2 ^ 32"
  shows "memmove m dst src n = copied m dst src (unat n)"
proof -
  have off: "unat (p + of_nat i) = unat p + i"
    if "unat p + unat n < 2 ^ 32" "i < unat n" for p :: uint and i
    using that by (subst unat_add_uint) (auto simp: unat_of_nat_uint)
  have le: "unat n \<le> 2 ^ 32" using unat_uint_less [of n] by simp
  have sn: "unat (src + n) = unat src + unat n"
    using assms by (simp add: unat_add_uint)
  show ?thesis
  proof (cases "src < dst \<and> dst < src + n")
    case True
    have "dst + of_nat i \<noteq> src + of_nat j" if "j < i" "i < unat n" for i j
      using off [OF assms(2), of i] off [OF assms(1), of j] that True
      by (auto simp: word_less_nat_alt)
    then have "copy_bwd m (dst + of_nat (unat n)) (src + of_nat (unat n)) (unat n) =
        copied m dst src (unat n)"
      using le by (intro copy_bwd_copied) auto
    with True show ?thesis by (simp add: memmove_def)
  next
    case False
    have "dst + of_nat i \<noteq> src + of_nat j" if "i < j" "j < unat n" for i j
      using off [OF assms(2), of i] off [OF assms(1), of j] that False sn
      by (auto simp: word_less_nat_alt not_less)
    then show ?thesis
      using False le by (auto simp: memmove_def intro!: copy_fwd_copied)
  qed
qed

lemma bytes_at_copied:
  assumes "n \<le> 2 ^ 32"
  shows "bytes_at (copied m d s n) d n = bytes_at m s n"
proof (rule nth_equalityI)
  fix i assume "i < length (bytes_at (copied m d s n) d n)"
  then have i: "i < n" by simp
  then have "unat (of_nat i :: uint) = i"
    using assms by (simp add: unat_of_nat_uint)
  with i show "bytes_at (copied m d s n) d n ! i = bytes_at m s n ! i"
    by (simp add: nth_bytes_at copied_def)
qed simp

section \<open>Strings as byte lists\<close>

text \<open>
  The list counterparts of \<^verbatim>\<open>strncmp\<close> and \<^verbatim>\<open>strncpy\<close>: a string is the bytes before the first
  NUL, and at most \<open>n\<close> of them count.
\<close>

definition cname :: "nat \<Rightarrow> uchar list \<Rightarrow> uchar list" where
  "cname n bs = takeWhile (\<lambda>c. c \<noteq> 0) (take n bs)"

definition hd0 :: "uchar list \<Rightarrow> uchar" where
  "hd0 bs = (case bs of [] \<Rightarrow> 0 | b # _ \<Rightarrow> b)"

fun strncmp_l :: "uchar list \<Rightarrow> uchar list \<Rightarrow> nat \<Rightarrow> int" where
  "strncmp_l p q 0 = 0"
| "strncmp_l p q (Suc n) =
     (if hd0 p \<noteq> 0 \<and> hd0 p = hd0 q then strncmp_l (tl p) (tl q) n
      else uint (hd0 p) - uint (hd0 q))"

definition strncpy_l :: "uchar list \<Rightarrow> nat \<Rightarrow> uchar list" where
  "strncpy_l t n = cname n t @ replicate (n - length (cname n t)) 0"

lemma cname_simps [simp]:
  "cname 0 bs = []"
  "cname n [] = []"
  "cname (Suc n) (b # bs) = (if b = 0 then [] else b # cname n bs)"
  by (simp_all add: cname_def)

lemma length_cname: "length (cname n bs) \<le> n"
  unfolding cname_def by (metis length_takeWhile_le length_take min.bounded_iff)

lemma cname_nonzero: "c \<in> set (cname n bs) \<Longrightarrow> c \<noteq> 0"
  by (auto simp: cname_def dest: set_takeWhileD)

lemma cname_Suc: "cname (Suc n) bs = (if hd0 bs = 0 then [] else hd0 bs # cname n (tl bs))"
  by (cases bs) (auto simp: hd0_def)

lemma uint_eq_uchar: "uint (a :: uchar) = uint b \<longleftrightarrow> a = b" "uint (a :: uchar) = 0 \<longleftrightarrow> a = 0"
  by (auto simp only: word_uint_eq_iff uint_0_eq)

lemma strncmp_l_zero_iff: "strncmp_l p q n = 0 \<longleftrightarrow> cname n p = cname n q"
proof (induction n arbitrary: p q)
  case 0
  then show ?case by simp
next
  case (Suc n)
  show ?case
  proof (cases "hd0 p \<noteq> 0 \<and> hd0 p = hd0 q")
    case True
    then show ?thesis using Suc.IH by (simp add: cname_Suc)
  next
    case False
    then have "strncmp_l p q (Suc n) = 0 \<longleftrightarrow> hd0 p = hd0 q"
      by (simp only: strncmp_l.simps if_False right_minus_eq uint_eq_uchar)
    also have "\<dots> \<longleftrightarrow> cname (Suc n) p = cname (Suc n) q"
      unfolding cname_Suc using False by auto
    finally show ?thesis .
  qed
qed

lemma strncmp_list: "strncmp m p q n = strncmp_l (bytes_at m p n) (bytes_at m q n) n"
  by (induction m p q n rule: strncmp.induct) (auto simp: hd0_def)

lemma strncmp_sym_zero: "strncmp_l p q n = 0 \<longleftrightarrow> strncmp_l q p n = 0"
  by (auto simp: strncmp_l_zero_iff)

lemma length_strncpy_l [simp]: "length (strncpy_l t n) = n"
  using length_cname [of n t] by (simp add: strncpy_l_def)

lemma strncpy_l_Suc:
  "strncpy_l t (Suc n) =
     (if hd0 t = 0 then replicate (Suc n) 0 else hd0 t # strncpy_l (tl t) n)"
  by (simp add: strncpy_l_def cname_Suc)

lemma cname_strncpy_l [simp]: "cname n (strncpy_l t n) = cname n t"
proof (induction n arbitrary: t)
  case 0
  then show ?case by simp
next
  case (Suc n)
  then show ?case by (simp add: strncpy_l_Suc cname_Suc hd0_def)
qed

lemma bytes_at_cong: "(\<And>i. i < n \<Longrightarrow> m (a + of_nat i) = m' (a + of_nat i)) \<Longrightarrow>
  bytes_at m a n = bytes_at m' a n"
  by (rule nth_equalityI) (auto simp: nth_bytes_at)

lemma bytes_at_stosb: "n \<le> 2 ^ 32 \<Longrightarrow> bytes_at (stosb m d c n) d n = replicate n c"
  by (rule nth_equalityI) (auto simp: nth_bytes_at stosb_eq unat_of_nat_uint)

lemma stosb_before:
  assumes "n < 2 ^ 32" shows "stosb m (d + 1) c n d = m d"
  using assms by (simp add: stosb_eq unat_minus_1_uint)

lemma strncpy_loop_outside:
  "n \<le> 2 ^ 32 \<Longrightarrow> n \<le> unat (a - s) \<Longrightarrow> strncpy_loop m s t n a = m a"
proof (induction m s t n rule: strncpy_loop.induct)
  case (1 m s t)
  then show ?case by simp
next
  case (2 m s t n)
  have ne: "a \<noteq> s" using "2.prems" by auto
  then have "unat (a - (s + 1)) = unat (a - s) - 1" by (rule unat_diff_Suc)
  then have le: "n \<le> unat (a - (s + 1))" using "2.prems" by linarith
  show ?case
  proof (cases "m t = 0")
    case True
    then show ?thesis using "2.prems" ne le by (simp add: stosb_eq)
  next
    case False
    have "strncpy_loop (m(s := m t)) (s + 1) (t + 1) n a = (m(s := m t)) a"
      using "2.prems"(1) le by (intro "2.IH" [OF False]) auto
    with False ne show ?thesis by simp
  qed
qed

lemma strncpy_loop_list:
  assumes "n \<le> 2 ^ 32" and "\<And>i j. i < n \<Longrightarrow> j < n \<Longrightarrow> s + of_nat i \<noteq> t + of_nat j"
  shows "bytes_at (strncpy_loop m s t n) s n = strncpy_l (bytes_at m t n) n"
  using assms
proof (induction m s t n rule: strncpy_loop.induct)
  case (1 m s t)
  then show ?case by (simp add: strncpy_l_def)
next
  case (2 m s t n)
  have n: "n < 2 ^ 32" using "2.prems"(1) by simp
  show ?case
  proof (cases "m t = 0")
    case True
    then show ?thesis
      using n stosb_before [OF n]
      by (simp add: strncpy_l_Suc hd0_def bytes_at_stosb)
  next
    case False
    let ?m = "m(s := m t)"
    have sep: "s + 1 + of_nat i \<noteq> t + 1 + of_nat j" if "i < n" "j < n" for i j
      using "2.prems"(2) [of "Suc i" "Suc j"] that by (simp add: algebra_simps)
    have "bytes_at ?m (t + 1) n = bytes_at m (t + 1) n"
    proof (rule bytes_at_cong)
      fix i assume "i < n"
      then show "?m (t + 1 + of_nat i) = m (t + 1 + of_nat i)"
        using "2.prems"(2) [of 0 "Suc i"] by (simp add: algebra_simps)
    qed
    moreover have "strncpy_loop ?m (s + 1) (t + 1) n s = ?m s"
      using n by (intro strncpy_loop_outside) (auto simp: unat_minus_1_uint)
    moreover have "bytes_at (strncpy_loop ?m (s + 1) (t + 1) n) (s + 1) n =
        strncpy_l (bytes_at ?m (t + 1) n) n"
      using "2.IH" [OF False less_imp_le [OF n] sep] .
    ultimately show ?thesis
      using False by (simp add: strncpy_l_Suc hd0_def)
  qed
qed

lemma strncpy_list:
  assumes "n \<le> INT_MAX" and "\<And>i j. i < nat n \<Longrightarrow> j < nat n \<Longrightarrow> s + of_nat i \<noteq> t + of_nat j"
  shows "bytes_at (strncpy m s t n) s (nat n) = strncpy_l (bytes_at m t (nat n)) (nat n)"
    and "nat n \<le> unat (a - s) \<Longrightarrow> strncpy m s t n a = m a"
  using assms by (simp_all add: strncpy_def strncpy_loop_list strncpy_loop_outside)

text \<open>\<^verbatim>\<open>safestrcpy\<close> terminates its result inside the destination and writes nowhere else.\<close>

lemma safestrcpy_loop_spec:
  "n < 2 ^ 32 \<Longrightarrow>
   (\<exists>k \<le> n. safestrcpy_loop m s t n (s + of_nat k) = 0) \<and>
   (\<forall>a. n < unat (a - s) \<longrightarrow> safestrcpy_loop m s t n a = m a)"
proof (induction m s t n rule: safestrcpy_loop.induct)
  case (1 m s t)
  then show ?case by auto
next
  case (2 m s t n)
  have out: "n < unat (a - (s + 1)) \<and> a \<noteq> s \<and> a \<noteq> s + 1" if "Suc n < unat (a - s)" for a
  proof -
    have ne: "a \<noteq> s" using that by auto
    then have eq: "unat (a - (s + 1)) = unat (a - s) - 1" by (rule unat_diff_Suc)
    then show ?thesis using that ne by auto
  qed
  show ?case
  proof (cases "m t = 0")
    case True
    then show ?thesis using out by (auto intro!: exI [of _ 0])
  next
    case False
    let ?m = "safestrcpy_loop (m(s := m t)) (s + 1) (t + 1) n"
    have both: "(\<exists>k \<le> n. ?m (s + 1 + of_nat k) = 0) \<and>
        (\<forall>a. n < unat (a - (s + 1)) \<longrightarrow> ?m a = (m(s := m t)) a)"
      using "2.prems" by (intro "2.IH" [OF False]) simp
    then have ih: "\<exists>k \<le> n. ?m (s + 1 + of_nat k) = 0"
      "\<And>a. n < unat (a - (s + 1)) \<Longrightarrow> ?m a = (m(s := m t)) a"
      by blast+
    from ih(1) obtain k where "k \<le> n" "?m (s + of_nat (Suc k)) = 0"
      by (auto simp: algebra_simps)
    then have "\<exists>k \<le> Suc n. ?m (s + of_nat k) = 0" by (intro exI [of _ "Suc k"]) simp
    with False ih(2) out show ?thesis by auto
  qed
qed

lemma strlen_loop_Some:
  assumes "m (s + of_nat k) = 0" and "n \<le> k" and "\<And>i. n \<le> i \<Longrightarrow> i < k \<Longrightarrow> m (s + of_nat i) \<noteq> 0"
  shows "strlen_loop m s n = Some k"
  using assms
proof (induction "k - n" arbitrary: n)
  case 0
  then show ?case by (simp add: strlen_loop.simps)
next
  case (Suc d)
  then have "n < k" "m (s + of_nat n) \<noteq> 0" by auto
  moreover have "strlen_loop m s (Suc n) = Some k"
    using Suc.hyps(1) [of "Suc n"] Suc.hyps(2) Suc.prems by simp
  ultimately show ?case by (simp add: strlen_loop.simps [of m s n])
qed

section \<open>Properties\<close>

text \<open>
  C34: \<open>memmove\<close> is right for overlapping regions too. For regions that do not wrap around the
  address space the destination holds what the source held before the call, and no other byte
  changes.
\<close>

theorem memmove_overlap:
  assumes "unat src + unat n < 2 ^ 32" "unat dst + unat n < 2 ^ 32"
  shows "bytes_at (memmove m dst src n) dst (unat n) = bytes_at m src (unat n) \<and>
    (\<forall>a. unat n \<le> unat (a - dst) \<longrightarrow> memmove m dst src n a = m a)"
proof -
  have "unat n \<le> 2 ^ 32" using unat_uint_less [of n] by simp
  then show ?thesis
    using bytes_at_copied [of "unat n" m dst src] by (simp add: memmove_copied [OF assms] copied_def)
qed

theorem memmove_overlap_witness:
  "bytes_at (memmove (\<lambda>a. ucast a) 0x102 0x100 4) 0x102 4 = bytes_at (\<lambda>a. ucast a) 0x100 4"
  using memmove_overlap [of "0x100" 4 "0x102" "\<lambda>a. ucast a"] by simp

text \<open>
  \<open>memset\<close>, which stores whole words when the address and the length allow it, sets exactly the
  \<open>n\<close> bytes from \<open>dst\<close> on to the low byte of \<open>c\<close>.
\<close>

lemma memset_reference:
  "memset m dst c n a = (if unat (a - dst) < unat n then ucast c else m a)"
  by (simp add: memset_eq word_less_nat_alt)

text \<open>
  \<open>strncmp\<close> returns 0 exactly when the two strings, cut at the first NUL or after \<open>n\<close> bytes, are
  equal; this is the equality of directory names.
\<close>

lemma strncmp_names:
  "strncmp m p q n = 0 \<longleftrightarrow> cname n (bytes_at m p n) = cname n (bytes_at m q n)"
  by (simp add: strncmp_list strncmp_l_zero_iff)

text \<open>
  C35: \<open>safestrcpy\<close> into a buffer of \<open>n\<close> bytes always leaves a NUL inside the buffer and never
  writes outside it.
\<close>

theorem safestrcpy_bounded:
  assumes "0 < n" "n < 2 ^ 31"
  shows "(\<exists>k. int k < n \<and> safestrcpy m s t n (s + of_nat k) = 0) \<and>
    (\<forall>a. n \<le> int (unat (a - s)) \<longrightarrow> safestrcpy m s t n a = m a)"
proof -
  have n: "nat (n - 1) < 2 ^ 32" and eq: "safestrcpy m s t n = safestrcpy_loop m s t (nat (n - 1))"
    using assms by (auto simp: safestrcpy_def)
  obtain k where "k \<le> nat (n - 1)" "safestrcpy_loop m s t (nat (n - 1)) (s + of_nat k) = 0"
    using safestrcpy_loop_spec [OF n, of m s t] by blast
  moreover have "safestrcpy_loop m s t (nat (n - 1)) a = m a" if "n \<le> int (unat (a - s))" for a
  proof -
    have "nat (n - 1) < unat (a - s)" using that assms by linarith
    then show ?thesis using safestrcpy_loop_spec [OF n, of m s t] by blast
  qed
  ultimately show ?thesis unfolding eq using assms by (intro conjI exI [of _ k]) auto
qed

theorem safestrcpy_bounded_witness:
  "\<exists>k. int k < 4 \<and> safestrcpy (\<lambda>_. 0x61) 0x100 0x200 4 (0x100 + of_nat k) = 0"
  using safestrcpy_bounded [of 4 "\<lambda>_. 0x61" "0x100" "0x200"] by simp

end
