(* ===== verification/Allocator.thy ===== *)
theory Allocator
  imports KPrelude
begin

text \<open>
  The contract that the kernel's allocators share (pages in \<^verbatim>\<open>kalloc.c\<close>, disk blocks in
  \<^verbatim>\<open>fs.c\<close>): a set of available resources, an operation that takes one of them out and an
  operation that puts one back. \<open>inv k\<close> is the state with credit for \<open>k\<close> more operations: an
  operation on disk blocks uses up space in the log. The clients' facts are proved once from the
  contract.
\<close>

text \<open>\<open>repeatK n m\<close> runs \<open>m\<close> \<open>n\<close> times and collects the results.\<close>

primrec repeatK :: "nat \<Rightarrow> ('s, 'a) kern \<Rightarrow> ('s, 'a list) kern" where
  "repeatK 0 m = ret []"
| "repeatK (Suc n) m = bindK m (\<lambda>x. bindK (repeatK n m) (\<lambda>xs. ret (x # xs)))"

primrec releaseK :: "('a \<Rightarrow> ('s, unit) kern) \<Rightarrow> 'a list \<Rightarrow> ('s, unit) kern" where
  "releaseK f [] = ret ()"
| "releaseK f (x # xs) = thenK (f x) (releaseK f xs)"

locale allocator =
  fixes inv :: "nat \<Rightarrow> 's \<Rightarrow> bool"
    and avail :: "'s \<Rightarrow> 'a set"
    and ok :: "'a \<Rightarrow> bool"
    and alloc :: "('s, 'a) kern"
    and release :: "'a \<Rightarrow> ('s, unit) kern"
  assumes avail_finite: "inv k s \<Longrightarrow> finite (avail s)"
    and avail_ok: "inv k s \<Longrightarrow> x \<in> avail s \<Longrightarrow> ok x"
    and alloc_avail: "inv (Suc k) s \<Longrightarrow> avail s \<noteq> {} \<Longrightarrow>
      wpK alloc (\<lambda>x t. inv k t \<and> x \<in> avail s \<and> avail t = avail s - {x}) s"
    and release_avail: "inv (Suc k) s \<Longrightarrow> ok x \<Longrightarrow> x \<notin> avail s \<Longrightarrow>
      wpK (release x) (\<lambda>_ t. inv k t \<and> avail t = insert x (avail s)) s"
begin

lemma alloc_many:
  assumes "inv (n + k) s" and "n \<le> card (avail s)"
  shows "wpK (repeatK n alloc) (\<lambda>xs t. inv k t \<and> length xs = n \<and> distinct xs \<and>
           set xs \<subseteq> avail s \<and> avail t = avail s - set xs) s"
  using assms
proof (induction n arbitrary: s)
  case 0
  then show ?case by simp
next
  case (Suc n)
  have s: "inv (Suc (n + k)) s" "avail s \<noteq> {}" using Suc.prems by auto
  show ?case
    unfolding repeatK.simps wpK_simps
  proof (rule wpK_mono [OF alloc_avail [OF s]])
    fix x t assume t: "inv (n + k) t \<and> x \<in> avail s \<and> avail t = avail s - {x}"
    then have "n \<le> card (avail t)"
      using Suc.prems avail_finite [OF s(1)] by (simp add: card_Diff_singleton)
    then show "wpK (repeatK n alloc) (\<lambda>xs. \<lambda>u. inv k u \<and> length (x # xs) = Suc n \<and>
        distinct (x # xs) \<and> set (x # xs) \<subseteq> avail s \<and> avail u = avail s - set (x # xs)) t"
      using t by (intro wpK_mono [OF Suc.IH [of t]]) auto
  qed
qed

lemma release_many:
  assumes "inv (length xs + k) s" and "distinct xs" and "\<And>x. x \<in> set xs \<Longrightarrow> ok x \<and> x \<notin> avail s"
  shows "wpK (releaseK release xs) (\<lambda>_ t. inv k t \<and> avail t = set xs \<union> avail s) s"
  using assms
proof (induction xs arbitrary: s)
  case Nil
  then show ?case by simp
next
  case (Cons x xs)
  have "wpK (release x) (\<lambda>_ t. inv (length xs + k) t \<and> avail t = insert x (avail s)) s"
    using Cons.prems by (intro release_avail) auto
  then show ?case
    unfolding releaseK.simps wpK_simps
  proof (rule wpK_mono)
    fix u t assume t: "inv (length xs + k) t \<and> avail t = insert x (avail s)"
    show "wpK (releaseK release xs) (\<lambda>_ t. inv k t \<and> avail t = set (x # xs) \<union> avail s) t"
      by (rule wpK_mono [OF Cons.IH [of t]]) (use t Cons.prems in auto)
  qed
qed

text \<open>What was taken out can all be put back, and then everything is available again.\<close>

lemma alloc_release_many:
  assumes "inv (2 * n + k) s" and "n \<le> card (avail s)"
  shows "wpK (bindK (repeatK n alloc) (releaseK release)) (\<lambda>_ t. inv k t \<and> avail t = avail s) s"
proof -
  have s: "inv (n + (n + k)) s" using assms(1) by (simp add: mult_2 add.assoc)
  show ?thesis
    unfolding wpK_simps
  proof (rule wpK_mono [OF alloc_many [OF s assms(2)]])
    fix xs t
    assume t: "inv (n + k) t \<and> length xs = n \<and> distinct xs \<and> set xs \<subseteq> avail s \<and> avail t = avail s - set xs"
    then show "wpK (releaseK release xs) (\<lambda>_ t. inv k t \<and> avail t = avail s) t"
      using avail_ok [OF assms(1)] by (intro wpK_mono [OF release_many [of xs k t]]) auto
  qed
qed

end

end
