(* ===== verification/Kalloc.thy ===== *)
theory Kalloc
  imports Spinlock Cstring Allocator
begin

text \<open>
  \<^verbatim>\<open>kalloc.c\<close>: the physical page allocator. The machine memory is a map from addresses to
  bytes; the free list is kept in the free pages themselves, the first word of a free page
  being the address of the next. \<open>kend\<close> is the address of the linker symbol \<^verbatim>\<open>end\<close>.
\<close>

record kmem = kcpu +
  mem :: memory
  freelist :: uint

definition PROCSIZE :: uint where "PROCSIZE = 0x100"
definition PGSIZE :: uint where "PGSIZE = push_bit 12 PROCSIZE"
definition PHYSTOP :: uint where "PHYSTOP = 0xE000000"

definition PGROUNDUP :: "uint \<Rightarrow> uint" where
  "PGROUNDUP sz = (sz + PGSIZE - 1) AND NOT (PGSIZE - 1)"

definition ld16 :: "memory \<Rightarrow> uint \<Rightarrow> ushort" where
  "ld16 m a = le_ushort [m a, m (a + 1)]"

definition ld32 :: "memory \<Rightarrow> uint \<Rightarrow> uint" where
  "ld32 m a = le_uint [m a, m (a + 1), m (a + 2), m (a + 3)]"

definition st32 :: "memory \<Rightarrow> uint \<Rightarrow> uint \<Rightarrow> memory" where
  "st32 m a w = m(a := ucast w, a + 1 := ucast (drop_bit 8 w),
     a + 2 := ucast (drop_bit 16 w), a + 3 := ucast (drop_bit 24 w))"

definition kfree :: "uint \<Rightarrow> uint \<Rightarrow> ('z kmem_scheme, unit) kern" where
  "kfree kend v =
     (if v mod PGSIZE \<noteq> 0 \<or> v < kend then panic ''kfree'' else
      thenK (modK (\<lambda>s. s\<lparr>mem := memset (mem s) v 1 PGSIZE\<rparr>)) (
      thenK pushcli (
      thenK (modK (\<lambda>s. s\<lparr>mem := st32 (mem s) v (freelist s)\<rparr>)) (
      thenK (modK (\<lambda>s. s\<lparr>freelist := v\<rparr>))
      popcli))))"

definition kalloc :: "('z kmem_scheme, uint) kern" where
  "kalloc =
     thenK pushcli (
     bindK (getK freelist) (\<lambda>r.
     thenK (whenK (r \<noteq> 0) (modK (\<lambda>s. s\<lparr>freelist := ld32 (mem s) r\<rparr>))) (
     thenK popcli (
     ret r))))"

primrec freerange_loop :: "nat \<Rightarrow> uint \<Rightarrow> uint \<Rightarrow> uint \<Rightarrow> ('z kmem_scheme, unit) kern" where
  "freerange_loop 0 = (\<lambda>kend p vend. spin)"
| "freerange_loop (Suc fuel) = (\<lambda>kend p vend.
     if p + PGSIZE \<le> vend
     then thenK (kfree kend p) (freerange_loop fuel kend (p + PGSIZE) vend)
     else ret ())"

definition freerange :: "uint \<Rightarrow> uint \<Rightarrow> uint \<Rightarrow> ('z kmem_scheme, unit) kern" where
  "freerange kend vstart vend = freerange_loop 4097 kend (PGROUNDUP vstart) vend"

definition kinit :: "uint \<Rightarrow> uint \<Rightarrow> uint \<Rightarrow> ('z kmem_scheme, unit) kern" where
  "kinit kend vstart vend = freerange kend vstart vend"

section \<open>The free list as a list\<close>

fun flist :: "memory \<Rightarrow> uint \<Rightarrow> uint list \<Rightarrow> bool" where
  "flist m p [] = (p = 0)"
| "flist m p (x # xs) = (p = x \<and> x \<noteq> 0 \<and> flist m (ld32 m x) xs)"

definition page :: "uint \<Rightarrow> uint \<Rightarrow> bool" where
  "page kend x \<longleftrightarrow> x mod PGSIZE = 0 \<and> kend \<le> x \<and> x \<noteq> 0"

definition kmem_inv :: "uint \<Rightarrow> uint list \<Rightarrow> 'z kmem_scheme \<Rightarrow> bool" where
  "kmem_inv kend xs s \<longleftrightarrow> cpu_wf s \<and> flist (mem s) (freelist s) xs \<and> distinct xs \<and>
     (\<forall>x \<in> set xs. page kend x)"

definition kmem_ok :: "uint \<Rightarrow> 'z kmem_scheme \<Rightarrow> bool" where
  "kmem_ok kend s \<longleftrightarrow> (\<exists>xs. kmem_inv kend xs s)"

definition free_pages :: "'z kmem_scheme \<Rightarrow> uint set" where
  "free_pages s = {x. \<exists>xs. flist (mem s) (freelist s) xs \<and> x \<in> set xs}"

lemma PGSIZE_eq: "PGSIZE = 1048576"
  by (simp add: PGSIZE_def PROCSIZE_def push_bit_eq_mult)

lemma flist_unique: "flist m p xs \<Longrightarrow> flist m p ys \<Longrightarrow> xs = ys"
proof (induction xs arbitrary: p ys)
  case Nil
  then show ?case by (cases ys) auto
next
  case (Cons x xs)
  then show ?case by (cases ys) auto
qed

lemma free_pages_eq: "flist (mem s) (freelist s) xs \<Longrightarrow> free_pages s = set xs"
  by (auto simp: free_pages_def dest: flist_unique)

lemma flist_cong:
  "flist m p xs \<Longrightarrow> (\<And>x. x \<in> set xs \<Longrightarrow> ld32 m' x = ld32 m x) \<Longrightarrow> flist m' p xs"
  by (induction xs arbitrary: p) auto

lemma ld32_st32: "ld32 (st32 m a w) a = w"
proof -
  have "a \<noteq> a + 1" "a \<noteq> a + 2" "a \<noteq> a + 3" "a + 1 \<noteq> a + 2" "a + 1 \<noteq> a + 3" "a + 2 \<noteq> a + 3"
    by simp_all
  then have "ld32 (st32 m a w) a = le_uint (uint_bytes w)"
    by (simp add: ld32_def st32_def uint_bytes_def)
  then show ?thesis by simp
qed

text \<open>The words of two different pages do not overlap.\<close>

lemma page_offset:
  fixes x v :: uint
  assumes "x mod PGSIZE = 0" "v mod PGSIZE = 0" "x \<noteq> v" "i < 4"
  shows "PGSIZE \<le> x + of_nat i - v"
proof -
  have mult: "\<exists>k. unat y = 1048576 * k" if "y mod PGSIZE = 0" for y :: uint
  proof -
    have "unat (y mod PGSIZE) = 0" using that by simp
    then have "unat y mod 1048576 = 0" by (simp add: unat_mod_distrib PGSIZE_eq)
    then show ?thesis by (auto simp: mod_eq_0_iff_dvd dvd_def)
  qed
  obtain k l where k: "unat x = 1048576 * k" and l: "unat v = 1048576 * l"
    using mult assms(1,2) by metis
  have "k \<noteq> l" using k l assms(3) by (auto simp: word_unat_eq_iff)
  have b: "k < 4096" "l < 4096"
    using unat_uint_less [of x] unat_uint_less [of v] k l by auto
  have xi: "unat (x + of_nat i) = 1048576 * k + i"
    using k b assms(4) by (subst unat_add_uint) (auto simp: unat_of_nat_uint)
  have "1048576 \<le> unat (x + of_nat i - v)"
    using b \<open>k \<noteq> l\<close> xi l assms(4) by (auto simp: unat_sub_if')
  then show ?thesis by (simp add: word_le_nat_alt PGSIZE_eq)
qed

lemma ld32_other_page:
  assumes "x mod PGSIZE = 0" "v mod PGSIZE = 0" "x \<noteq> v"
  shows "ld32 (st32 (memset m v 1 PGSIZE) v w) x = ld32 m x"
proof -
  have far: "\<not> x + of_nat i - v < PGSIZE" if "i < 4" for i
    using page_offset [OF assms that] by simp
  have off: "x + of_nat i \<noteq> v + of_nat j" if "i < 4" "j < 4" for i j
  proof
    assume "x + of_nat i = v + of_nat j"
    then have "x + of_nat i - v = of_nat j" by simp
    with far [OF that(1)] that(2) show False
      by (simp add: PGSIZE_eq word_less_nat_alt unat_of_nat_uint)
  qed
  have byte: "st32 (memset m v 1 PGSIZE) v w (x + of_nat i) = m (x + of_nat i)" if "i < 4" for i
    using far [OF that] off [OF that, of 0] off [OF that, of 1] off [OF that, of 2]
      off [OF that, of 3]
    by (simp add: st32_def memset_eq)
  show ?thesis
    using byte [of 0] byte [of 1] byte [of 2] byte [of 3] by (simp add: ld32_def)
qed

section \<open>kfree and kalloc\<close>

lemma kfree_eq:
  assumes "cpu_wf s" "v mod PGSIZE = 0" "kend \<le> v"
  shows "kfree kend v s = Inr ((), (settle s)\<lparr>
           mem := st32 (memset (mem s) v 1 PGSIZE) v (freelist s), freelist := v\<rparr>)"
  using assms by (auto simp: kfree_def settle_def cpu_wf_def)

lemma kfree_inv:
  assumes inv: "kmem_inv kend xs s" and pg: "page kend v" and new: "v \<notin> set xs"
  shows "wpK (kfree kend v) (\<lambda>_ t. kmem_inv kend (v # xs) t) s"
proof -
  let ?m = "st32 (memset (mem s) v 1 PGSIZE) v (freelist s)"
  have "flist ?m (freelist s) xs"
  proof (rule flist_cong)
    show "flist (mem s) (freelist s) xs" using inv by (simp add: kmem_inv_def)
    fix x assume "x \<in> set xs"
    then show "ld32 ?m x = ld32 (mem s) x"
      using inv pg new by (intro ld32_other_page) (auto simp: kmem_inv_def page_def)
  qed
  then have "flist ?m v (v # xs)" using pg by (simp add: ld32_st32 page_def)
  moreover have "cpu_wf (settle s)" using inv by (simp add: kmem_inv_def)
  ultimately show ?thesis
    using inv pg new
    by (intro wpK_I [OF kfree_eq]) (auto simp: kmem_inv_def page_def cpu_wf_def)
qed

lemma kalloc_eq:
  assumes "cpu_wf s"
  shows "kalloc s = Inr (freelist s, (settle s)\<lparr>freelist :=
           (if freelist s = 0 then 0 else ld32 (mem s) (freelist s))\<rparr>)"
  using assms by (auto simp: kalloc_def settle_def cpu_wf_def)

lemma kalloc_inv:
  assumes "kmem_inv kend (x # xs) s"
  shows "wpK kalloc (\<lambda>r t. r = x \<and> kmem_inv kend xs t \<and> mem t = mem s) s"
  using assms
  by (intro wpK_I [OF kalloc_eq]) (auto simp: kmem_inv_def settle_def cpu_wf_def)

lemma kalloc_empty:
  assumes "kmem_inv kend [] s"
  shows "wpK kalloc (\<lambda>r t. r = 0 \<and> kmem_inv kend [] t) s"
  using assms
  by (intro wpK_I [OF kalloc_eq]) (auto simp: kmem_inv_def settle_def cpu_wf_def)

interpretation kpages: allocator "\<lambda>_. kmem_ok kend" free_pages "page kend" kalloc "kfree kend"
  for kend
proof unfold_locales
  fix s :: "'a kmem_scheme" assume "kmem_ok kend s"
  then show "finite (free_pages s)"
    by (auto simp: kmem_ok_def kmem_inv_def free_pages_eq)
next
  fix s :: "'a kmem_scheme" and x assume "kmem_ok kend s" "x \<in> free_pages s"
  then show "page kend x" by (auto simp: kmem_ok_def kmem_inv_def free_pages_eq)
next
  fix s :: "'a kmem_scheme" assume "kmem_ok kend s" "free_pages s \<noteq> {}"
  then obtain ys where ys: "kmem_inv kend ys s" by (auto simp: kmem_ok_def)
  then have "set ys \<noteq> {}"
    using \<open>free_pages s \<noteq> {}\<close> free_pages_eq [of s ys] by (auto simp: kmem_inv_def)
  then obtain x xs where inv: "kmem_inv kend (x # xs) s"
    using ys by (cases ys) auto
  then have "free_pages s = set (x # xs)"
    by (intro free_pages_eq) (simp add: kmem_inv_def)
  with inv show "wpK kalloc (\<lambda>r t. kmem_ok kend t \<and> r \<in> free_pages s \<and>
      free_pages t = free_pages s - {r}) s"
    by (intro wpK_mono [OF kalloc_inv [OF inv]])
       (auto simp: kmem_ok_def kmem_inv_def free_pages_eq)
next
  fix s :: "'a kmem_scheme" and x
  assume ok: "kmem_ok kend s" and pg: "page kend x" and new: "x \<notin> free_pages s"
  then obtain xs where inv: "kmem_inv kend xs s" by (auto simp: kmem_ok_def)
  then have fp: "free_pages s = set xs" by (intro free_pages_eq) (simp add: kmem_inv_def)
  then have "x \<notin> set xs" using new by simp
  then show "wpK (kfree kend x) (\<lambda>_ t. kmem_ok kend t \<and>
      free_pages t = insert x (free_pages s)) s"
  proof (rule wpK_mono [OF kfree_inv [OF inv pg]])
    fix u :: unit and t :: "'a kmem_scheme" assume t: "kmem_inv kend (x # xs) t"
    then have "free_pages t = set (x # xs)" by (intro free_pages_eq) (simp add: kmem_inv_def)
    with t fp show "kmem_ok kend t \<and> free_pages t = insert x (free_pages s)"
      by (auto simp: kmem_ok_def simp del: flist.simps)
  qed
qed

section \<open>freerange\<close>

lemma and_not_mask: "(x :: uint) AND NOT (mask n) = push_bit n (drop_bit n x)"
  by (rule bit_word_eqI) (auto simp: bit_simps)

lemma unat_PGROUNDUP:
  assumes "unat v + 1048576 < 4294967296"
  shows "unat (PGROUNDUP v) = (unat v + 1048575) div 1048576 * 1048576"
proof -
  have m: "PGSIZE - 1 = mask 20" by (simp add: PGSIZE_eq mask_eq_exp_minus_1)
  have a: "unat (v + PGSIZE - 1) = unat v + 1048575"
    using assms by (simp add: PGSIZE_eq unat_add_uint)
  have "PGROUNDUP v = push_bit 20 (drop_bit 20 (v + PGSIZE - 1))"
    by (simp add: PGROUNDUP_def m and_not_mask)
  moreover have "unat (push_bit 20 (drop_bit 20 w)) = unat w div 1048576 * 1048576" for w :: uint
  proof -
    have "unat w div 1048576 * 1048576 < 4294967296"
      using unat_uint_less [of w] by (meson div_times_less_eq_dividend le_less_trans)
    then show ?thesis
      by (simp add: push_bit_eq_mult drop_bit_eq_div unat_word_ariths)
  qed
  ultimately show ?thesis by (simp add: a)
qed

text \<open>The pages of \<open>[p, vend)\<close>, lowest first.\<close>

definition range_pages :: "uint \<Rightarrow> uint \<Rightarrow> uint list" where
  "range_pages p vend =
     map (\<lambda>i. p + of_nat i * PGSIZE) [0 ..< (unat vend - unat p) div 1048576]"

lemma range_pages_Cons:
  assumes "unat p + 1048576 \<le> unat vend"
  shows "range_pages p vend = p # range_pages (p + PGSIZE) vend"
proof -
  have a: "unat (p + PGSIZE) = unat p + 1048576"
    using assms unat_uint_less [of vend] by (simp add: PGSIZE_eq unat_add_uint)
  define k where "k = (unat vend - unat (p + PGSIZE)) div 1048576"
  have "(unat vend - unat p) div 1048576 = Suc k"
    unfolding k_def a using assms by (subst le_div_geq) auto
  then show ?thesis
    unfolding range_pages_def k_def [symmetric]
    by (simp add: upt_conv_Cons map_Suc_upt [symmetric] comp_def algebra_simps del: upt_Suc)
qed

lemma range_pages_Nil: "unat vend < unat p + 1048576 \<Longrightarrow> range_pages p vend = []"
  by (simp add: range_pages_def)

lemma freerange_loop_pages:
  assumes "kmem_inv kend xs s" "p mod PGSIZE = 0" "kend \<le> p" "p \<noteq> 0" "\<And>x. x \<in> set xs \<Longrightarrow> x < p"
    and "unat vend \<le> 234881024" "unat p \<le> 251658240" "(unat vend - unat p) div 1048576 < fuel"
  shows "wpK (freerange_loop fuel kend p vend)
           (\<lambda>_ t. kmem_inv kend (rev (range_pages p vend) @ xs) t) s"
  using assms
proof (induction fuel arbitrary: p xs s)
  case 0
  then show ?case by simp
next
  case (Suc fuel)
  have a: "unat (p + PGSIZE) = unat p + 1048576"
    using Suc.prems(7) by (simp add: PGSIZE_eq unat_add_uint)
  show ?case
  proof (cases "p + PGSIZE \<le> vend")
    case False
    then have "unat vend < unat p + 1048576" using a by (simp add: word_le_nat_alt)
    with False Suc.prems(1) show ?thesis by (simp add: range_pages_Nil)
  next
    case True
    then have le: "unat p + 1048576 \<le> unat vend" using a by (simp add: word_le_nat_alt)
    have lt: "p < p + PGSIZE" using a by (simp add: word_less_nat_alt)
    have "unat (p + PGSIZE) mod 1048576 = 0"
      using Suc.prems(2) a unat_mod_distrib [of p PGSIZE] by (simp add: PGSIZE_eq)
    then have al: "(p + PGSIZE) mod PGSIZE = 0"
      by (simp add: word_unat_eq_iff unat_mod_distrib PGSIZE_eq)
    have "(unat vend - unat p) div 1048576 = Suc ((unat vend - unat (p + PGSIZE)) div 1048576)"
      unfolding a using le by (subst le_div_geq) auto
    then have fu: "(unat vend - unat (p + PGSIZE)) div 1048576 < fuel"
      using Suc.prems(8) by simp
    have pg: "page kend p" using Suc.prems by (simp add: page_def)
    have new: "p \<notin> set xs" using Suc.prems(5) [of p] by auto
    have rest: "wpK (freerange_loop fuel kend (p + PGSIZE) vend)
        (\<lambda>_ u. kmem_inv kend (rev (range_pages p vend) @ xs) u) t"
      if t: "kmem_inv kend (p # xs) t" for t :: "'a kmem_scheme"
    proof -
      have "wpK (freerange_loop fuel kend (p + PGSIZE) vend)
          (\<lambda>_ u. kmem_inv kend (rev (range_pages (p + PGSIZE) vend) @ p # xs) u) t"
      proof (rule Suc.IH [OF t al])
        show "kend \<le> p + PGSIZE" using Suc.prems(3) lt by (meson le_less_trans less_imp_le)
        show "p + PGSIZE \<noteq> 0" using a by (metis add_is_0 unat_0 zero_neq_numeral)
        show "x < p + PGSIZE" if "x \<in> set (p # xs)" for x
          using that Suc.prems(5) lt by (auto intro: less_trans)
        show "unat (p + PGSIZE) \<le> 251658240" using a le Suc.prems(6) by simp
      qed (use Suc.prems fu in auto)
      then show ?thesis using range_pages_Cons [OF le] by simp
    qed
    show ?thesis
      using True by (simp add: wpK_mono [OF kfree_inv [OF Suc.prems(1) pg new] rest])
  qed
qed

section \<open>Properties\<close>

definition demo_mem :: kmem where
  "demo_mem = \<lparr>eflags_if = False, ncli = 0, intena = False, mem = (\<lambda>_. 0), freelist = 0x100000\<rparr>"

lemma demo_mem_inv: "kmem_inv 1 [0x100000] demo_mem" "kmem_ok 1 demo_mem" "free_pages demo_mem = {0x100000}"
proof -
  show inv: "kmem_inv 1 [0x100000] demo_mem"
    by (simp add: kmem_inv_def demo_mem_def cpu_wf_def ld32_def le_uint_def page_def PGSIZE_eq)
  then show "kmem_ok 1 demo_mem" by (auto simp: kmem_ok_def)
  show "free_pages demo_mem = {0x100000}"
    using inv free_pages_eq [of demo_mem "[0x100000]"] by (simp add: kmem_inv_def)
qed

text \<open>
  C22: as long as pages are free, \<open>n\<close> calls of \<open>kalloc\<close> return \<open>n\<close> different free pages and
  leave the rest free.
\<close>

theorem kalloc_distinct_pages:
  assumes "kmem_ok kend s" "n \<le> card (free_pages s)"
  shows "wpK (repeatK n kalloc) (\<lambda>xs t. kmem_ok kend t \<and> length xs = n \<and> distinct xs \<and>
    set xs \<subseteq> free_pages s \<and> free_pages t = free_pages s - set xs) s"
  by (rule kpages.alloc_many [OF assms])

theorem kalloc_distinct_pages_witness:
  "wpK (repeatK 1 kalloc) (\<lambda>xs t. xs = [0x100000] \<and> free_pages t = {}) demo_mem"
proof -
  have "wpK (repeatK 1 kalloc) (\<lambda>xs t. kmem_ok 1 t \<and> length xs = 1 \<and> distinct xs \<and>
      set xs \<subseteq> free_pages demo_mem \<and> free_pages t = free_pages demo_mem - set xs) demo_mem"
    using demo_mem_inv by (intro kalloc_distinct_pages) auto
  then show ?thesis
    by (rule wpK_mono) (auto simp: demo_mem_inv length_Suc_conv)
qed

text \<open>
  C23: giving back every page that was allocated makes exactly the same pages free again.
\<close>

theorem kalloc_kfree_roundtrip:
  assumes "kmem_ok kend s" "n \<le> card (free_pages s)"
  shows "wpK (bindK (repeatK n kalloc) (releaseK (kfree kend))) (\<lambda>_ t. kmem_ok kend t \<and> free_pages t = free_pages s) s"
  by (rule kpages.alloc_release_many [OF assms])

theorem kalloc_kfree_roundtrip_witness:
  "wpK (bindK (repeatK 1 kalloc) (releaseK (kfree 1))) (\<lambda>_ t. kmem_ok 1 t \<and> free_pages t = {0x100000}) demo_mem"
  using kalloc_kfree_roundtrip [of 1 demo_mem 1] demo_mem_inv by simp

text \<open>
  C24: \<open>kinit\<close> ends and puts exactly the whole pages between \<open>vstart\<close> and \<open>vend\<close> on the free list.
\<close>

theorem kinit_frees_range:
  assumes "cpu_wf s" "freelist s = 0" "0 < vstart" "kend \<le> vstart" "vstart \<le> PHYSTOP" "vend \<le> PHYSTOP"
  shows "wpK (kinit kend vstart vend)
    (\<lambda>_ t. kmem_ok kend t \<and> free_pages t = set (range_pages (PGROUNDUP vstart) vend)) s"
proof -
  let ?p = "PGROUNDUP vstart"
  have le: "unat vstart \<le> 234881024" "unat vend \<le> 234881024" "0 < unat vstart"
    using assms(3,5,6) by (simp_all add: PHYSTOP_def word_le_nat_alt unat_gt_0)
  have p: "unat ?p = (unat vstart + 1048575) div 1048576 * 1048576"
    using le by (intro unat_PGROUNDUP) simp
  have up: "unat vstart \<le> unat ?p" "unat ?p \<le> 251658240" unfolding p using le by linarith+
  have "unat ?p mod 1048576 = 0" unfolding p by simp
  then have al: "?p mod PGSIZE = 0"
    by (simp add: word_unat_eq_iff unat_mod_distrib PGSIZE_eq)
  have inv: "kmem_inv kend [] s" using assms(1,2) by (simp add: kmem_inv_def)
  have "(unat vend - unat ?p) div 1048576 < 4097" using le by linarith
  then have "wpK (freerange_loop 4097 kend ?p vend) (\<lambda>_ t. kmem_inv kend (rev (range_pages ?p vend) @ []) t) s"
  proof (intro freerange_loop_pages [OF inv al])
    show "kend \<le> ?p" using assms(4) up(1) by (auto simp: word_le_nat_alt intro: le_trans)
    show "?p \<noteq> 0" using up(1) le(3) by auto
  qed (use le up in simp_all)
  then show ?thesis
    unfolding kinit_def freerange_def
  proof (rule wpK_mono)
    fix x t assume t: "kmem_inv kend (rev (range_pages ?p vend) @ []) t"
    then have "free_pages t = set (rev (range_pages ?p vend))"
      by (intro free_pages_eq) (simp add: kmem_inv_def)
    with t show "kmem_ok kend t \<and> free_pages t = set (range_pages ?p vend)" by (auto simp: kmem_ok_def)
  qed
qed

theorem kinit_frees_range_witness:
  "wpK (kinit 0x109000 0x109000 PHYSTOP) (\<lambda>_ t. card (free_pages t) \<le> 222) (demo_mem\<lparr>freelist := 0\<rparr>)"
proof -
  have len: "length (range_pages (PGROUNDUP 0x109000) PHYSTOP) = 222"
    unfolding range_pages_def by (simp add: unat_PGROUNDUP PHYSTOP_def)
  have "wpK (kinit 0x109000 0x109000 PHYSTOP) (\<lambda>_ t. kmem_ok 0x109000 t \<and>
      free_pages t = set (range_pages (PGROUNDUP 0x109000) PHYSTOP)) (demo_mem\<lparr>freelist := 0\<rparr>)"
    by (rule kinit_frees_range) (simp_all add: demo_mem_def cpu_wf_def PHYSTOP_def)
  then show ?thesis
    by (rule wpK_mono) (use len card_length [of "range_pages (PGROUNDUP 0x109000) PHYSTOP"] in auto)
qed

end
