(* ===== verification/Ide.thy ===== *)
theory Ide
  imports Kalloc
begin

text \<open>
  \<^verbatim>\<open>ide.c\<close>: the PIO disk driver. A request is a buffer on the queue \<^verbatim>\<open>idequeue\<close>, linked
  through \<^verbatim>\<open>qnext\<close>; the head of the queue is the request the drive works on, and the interrupt
  handler completes it and starts the next one.

  The hardware side is part of the state: the value the status port \<^verbatim>\<open>0x1f7\<close> settles on, the
  bytes last written to each port, and the sectors of the two drives. A data transfer addresses
  the sector and the drive selected by the address registers, so that what the driver writes to
  those registers matters. \<open>dwrites\<close> records the sector writes in order, which is what a power
  failure cuts short. The processor takes a disk interrupt only while interrupts are enabled.
\<close>

record buf =
  b_flags :: uint
  b_dev :: uint
  b_blockno :: uint
  b_refcnt :: uint
  b_prev :: nat
  b_next :: nat
  b_qnext :: "nat option"
  b_data :: "uchar list"

record kblk = kmem +
  bufs :: "nat \<Rightarrow> buf"
  idequeue :: "nat option"
  havedisk1 :: bool
  ide_status :: uchar
  ports :: "ushort \<Rightarrow> uchar"
  disk :: "bool \<Rightarrow> uint \<Rightarrow> uchar list"
  dwrites :: "(bool \<times> uint \<times> uchar list) list"

definition B_VALID :: uint where "B_VALID = 0x2"
definition B_DIRTY :: uint where "B_DIRTY = 0x4"
definition BSIZE :: uint where "BSIZE = 512"
definition SECTOR_SIZE :: uint where "SECTOR_SIZE = 512"
definition FSSIZE :: uint where "FSSIZE = 1000"
definition NBUF :: nat where "NBUF = 30"

definition IDE_BSY :: uchar where "IDE_BSY = 0x80"
definition IDE_DRDY :: uchar where "IDE_DRDY = 0x40"
definition IDE_DF :: uchar where "IDE_DF = 0x20"
definition IDE_ERR :: uchar where "IDE_ERR = 0x01"
definition IDE_CMD_READ :: uchar where "IDE_CMD_READ = 0x20"
definition IDE_CMD_WRITE :: uchar where "IDE_CMD_WRITE = 0x30"
definition IDE_CMD_RDMUL :: uchar where "IDE_CMD_RDMUL = 0xc4"
definition IDE_CMD_WRMUL :: uchar where "IDE_CMD_WRMUL = 0xc5"

section \<open>Ports and the drive\<close>

definition outb :: "ushort \<Rightarrow> uchar \<Rightarrow> ('z kblk_scheme, unit) kern" where
  "outb port v = modK (\<lambda>s. s\<lparr>ports := (ports s)(port := v)\<rparr>)"

definition ata_lba :: "(ushort \<Rightarrow> uchar) \<Rightarrow> uint" where
  "ata_lba p = ucast (p 0x1f3) OR push_bit 8 (ucast (p 0x1f4)) OR
     push_bit 16 (ucast (p 0x1f5)) OR push_bit 24 (ucast (p 0x1f6 AND 0x0f))"

definition ata_drive :: "(ushort \<Rightarrow> uchar) \<Rightarrow> bool" where
  "ata_drive p = (p 0x1f6 AND 0x10 \<noteq> 0)"

definition outsl :: "uchar list \<Rightarrow> ('z kblk_scheme, unit) kern" where
  "outsl data = modK (\<lambda>s. let d = ata_drive (ports s); n = ata_lba (ports s) in
     s\<lparr>disk := (disk s)(d := (disk s d)(n := data)), dwrites := dwrites s @ [(d, n, data)]\<rparr>)"

definition insl :: "('z kblk_scheme, uchar list) kern" where
  "insl = getK (\<lambda>s. disk s (ata_drive (ports s)) (ata_lba (ports s)))"

definition buf_upd :: "nat \<Rightarrow> (buf \<Rightarrow> buf) \<Rightarrow> ('z kblk_scheme, unit) kern" where
  "buf_upd b f = modK (\<lambda>s. s\<lparr>bufs := (bufs s)(b := f (bufs s b))\<rparr>)"

section \<open>The driver\<close>

definition idewait :: "bool \<Rightarrow> ('z kblk_scheme, int) kern" where
  "idewait checkerr =
     bindK (getK ide_status) (\<lambda>r.
     if r AND (IDE_BSY OR IDE_DRDY) \<noteq> IDE_DRDY then spin
     else if checkerr \<and> r AND (IDE_DF OR IDE_ERR) \<noteq> 0 then ret (- 1)
     else ret 0)"

definition idestart :: "nat option \<Rightarrow> ('z kblk_scheme, unit) kern" where
  "idestart bo = (case bo of None \<Rightarrow> panic ''idestart'' | Some b \<Rightarrow>
     bindK (getK (\<lambda>s. bufs s b)) (\<lambda>bp.
     if b_blockno bp \<ge> FSSIZE then panic ''incorrect blockno'' else
     let sector_per_block = BSIZE div SECTOR_SIZE;
         sector = b_blockno bp * sector_per_block;
         read_cmd = (if sector_per_block = 1 then IDE_CMD_READ else IDE_CMD_RDMUL);
         write_cmd = (if sector_per_block = 1 then IDE_CMD_WRITE else IDE_CMD_WRMUL)
     in if sector_per_block > 7 then panic ''idestart'' else
     thenK (idewait False) (
     thenK (outb 0x3f6 0) (
     thenK (outb 0x1f2 (ucast sector_per_block)) (
     thenK (outb 0x1f3 (ucast (sector AND 0xff))) (
     thenK (outb 0x1f4 (ucast (drop_bit 8 sector AND 0xff))) (
     thenK (outb 0x1f5 (ucast (drop_bit 16 sector AND 0xff))) (
     thenK (outb 0x1f6 (ucast (0xe0 OR push_bit 4 (b_dev bp AND 1) OR
                               (drop_bit 24 sector AND 0x0f)))) (
     if b_flags bp AND B_DIRTY \<noteq> 0
     then thenK (outb 0x1f7 write_cmd) (outsl (b_data bp))
     else outb 0x1f7 read_cmd)))))))))"

definition ideintr :: "('z kblk_scheme, unit) kern" where
  "ideintr = bindK (getK idequeue) (\<lambda>q. case q of None \<Rightarrow> ret () | Some b \<Rightarrow>
     thenK (modK (\<lambda>s. s\<lparr>idequeue := b_qnext (bufs s b)\<rparr>)) (
     bindK (getK (\<lambda>s. b_flags (bufs s b))) (\<lambda>fl.
     thenK (whenK (fl AND B_DIRTY = 0)
        (bindK (idewait True) (\<lambda>r. whenK (r \<ge> 0)
          (bindK insl (\<lambda>d. buf_upd b (\<lambda>bp. bp\<lparr>b_data := d\<rparr>)))))) (
     thenK (buf_upd b (\<lambda>bp. bp\<lparr>b_flags := b_flags bp OR B_VALID\<rparr>)) (
     thenK (buf_upd b (\<lambda>bp. bp\<lparr>b_flags := b_flags bp AND NOT B_DIRTY\<rparr>)) (
     bindK (getK idequeue) (\<lambda>q'.
     whenK (q' \<noteq> None) (idestart q'))))))))"

text \<open>
  \<^verbatim>\<open>for(pp=&idequeue; *pp; pp=&(*pp)->qnext); *pp = b\<close>: follow the links to the last request and
  append. The walk is cut after \<open>NBUF + 1\<close> steps: a longer chain has a cycle.
\<close>

primrec ide_append :: "nat \<Rightarrow> nat \<Rightarrow> nat \<Rightarrow> ('z kblk_scheme, unit) kern" where
  "ide_append 0 = (\<lambda>p b. spin)"
| "ide_append (Suc fuel) = (\<lambda>p b. bindK (getK (\<lambda>s. b_qnext (bufs s p))) (\<lambda>q. case q of
     None \<Rightarrow> buf_upd p (\<lambda>bp. bp\<lparr>b_qnext := Some b\<rparr>)
   | Some p' \<Rightarrow> ide_append fuel p' b))"

definition ide_enqueue :: "nat \<Rightarrow> ('z kblk_scheme, unit) kern" where
  "ide_enqueue b = bindK (getK idequeue) (\<lambda>q. case q of
     None \<Rightarrow> modK (\<lambda>s. s\<lparr>idequeue := Some b\<rparr>)
   | Some p \<Rightarrow> ide_append (Suc NBUF) p b)"

text \<open>
  The wait loop of \<^verbatim>\<open>iderw\<close>: only the interrupt handler changes the flags. With interrupts
  off, or with no request on the queue, the loop never ends.
\<close>

primrec ide_wait :: "nat \<Rightarrow> nat \<Rightarrow> ('z kblk_scheme, unit) kern" where
  "ide_wait 0 = (\<lambda>b. spin)"
| "ide_wait (Suc fuel) = (\<lambda>b. bindK (getK id) (\<lambda>s.
     if b_flags (bufs s b) AND (B_VALID OR B_DIRTY) = B_VALID then ret ()
     else if \<not> eflags_if s \<or> idequeue s = None then spin
     else thenK ideintr (ide_wait fuel b)))"

definition iderw :: "nat \<Rightarrow> ('z kblk_scheme, unit) kern" where
  "iderw b =
     thenK pushcli (
     bindK (getK (\<lambda>s. bufs s b)) (\<lambda>bp.
     if b_flags bp AND (B_VALID OR B_DIRTY) = B_VALID then panic ''iderw: nothing to do'' else
     bindK (getK havedisk1) (\<lambda>h.
     if b_dev bp \<noteq> 0 \<and> \<not> h then panic ''iderw: ide disk 1 not present'' else
     thenK (buf_upd b (\<lambda>bp. bp\<lparr>b_qnext := None\<rparr>)) (
     thenK (ide_enqueue b) (
     bindK (getK idequeue) (\<lambda>q.
     thenK (whenK (q = Some b) (idestart (Some b))) (
     thenK popcli (
     ide_wait (NBUF + 2) b))))))))"

section \<open>Flags\<close>

abbreviation is_valid :: "uint \<Rightarrow> bool" where
  "is_valid f \<equiv> bit f (Suc 0)"

abbreviation is_dirty :: "uint \<Rightarrow> bool" where
  "is_dirty f \<equiv> bit f 2"

lemma flag_exp: "B_VALID = 2 ^ Suc 0" "B_DIRTY = 2 ^ 2"
  by (simp_all add: B_VALID_def B_DIRTY_def)

lemma bit_B_VALID [simp]: "bit B_VALID n \<longleftrightarrow> n = Suc 0"
  unfolding flag_exp bit_exp_iff by auto

lemma bit_B_DIRTY [simp]: "bit B_DIRTY n \<longleftrightarrow> n = 2"
  unfolding flag_exp bit_exp_iff by auto

lemma and_VALID [simp]: "f AND B_VALID = 0 \<longleftrightarrow> \<not> is_valid f"
  unfolding flag_exp by (rule and_exp_eq_0_iff_not_bit)

lemma and_DIRTY [simp]: "f AND B_DIRTY = 0 \<longleftrightarrow> \<not> is_dirty f"
  unfolding flag_exp by (rule and_exp_eq_0_iff_not_bit)

lemma flags_only_valid [simp]:
  "f AND (B_VALID OR B_DIRTY) = B_VALID \<longleftrightarrow> is_valid f \<and> \<not> is_dirty f"
proof
  assume eq: "f AND (B_VALID OR B_DIRTY) = B_VALID"
  have "bit (f AND (B_VALID OR B_DIRTY)) n = bit B_VALID n" for n
    by (simp only: eq)
  from this [of "Suc 0"] this [of 2] show "is_valid f \<and> \<not> is_dirty f"
    by (simp add: bit_and_iff bit_or_iff)
next
  assume "is_valid f \<and> \<not> is_dirty f"
  then show "f AND (B_VALID OR B_DIRTY) = B_VALID"
    by (intro bit_word_eqI) (auto simp: bit_and_iff bit_or_iff)
qed

definition done_flags :: "uint \<Rightarrow> uint" where
  "done_flags f = (f OR B_VALID) AND NOT B_DIRTY"

lemma done_flags_bits [simp]: "is_valid (done_flags f)" "\<not> is_dirty (done_flags f)"
  by (simp_all add: done_flags_def bit_simps)

section \<open>Addressing a sector\<close>

definition ide_regs :: "(ushort \<Rightarrow> uchar) \<Rightarrow> buf \<Rightarrow> ushort \<Rightarrow> uchar" where
  "ide_regs p bp = (let sector = b_blockno bp in
     p(0x3f6 := 0, 0x1f2 := 1, 0x1f3 := ucast (sector AND 0xff),
       0x1f4 := ucast (drop_bit 8 sector AND 0xff), 0x1f5 := ucast (drop_bit 16 sector AND 0xff),
       0x1f6 := ucast (0xe0 OR push_bit 4 (b_dev bp AND 1) OR (drop_bit 24 sector AND 0x0f)),
       0x1f7 := (if is_dirty (b_flags bp) then IDE_CMD_WRITE else IDE_CMD_READ)))"

lemma mask_nibble: "(0x0f :: uint) = mask 4" "(0x0f :: uchar) = mask 4"
  by (simp_all add: mask_eq_exp_minus_1)

lemma bit_0xe0: "bit (0xe0 :: uint) n \<longleftrightarrow> n \<in> {5, 6, 7}"
proof -
  have e0: "(0xe0 :: uint) = push_bit 5 (mask 3)"
    by (simp add: mask_eq_exp_minus_1 push_bit_eq_mult)
  show ?thesis unfolding e0 bit_push_bit_iff bit_mask_iff by auto
qed

lemma bit_low_byte: "bit (ucast (ucast (x AND mask 8) :: uchar) :: uint) n \<longleftrightarrow> n < 8 \<and> bit (x :: uint) n"
  by (auto simp: bit_simps)

lemma bit_low_nibble:
  "bit (ucast (ucast (e OR push_bit 4 y OR (x AND mask 4)) AND mask 4 :: uchar) :: uint) n \<longleftrightarrow>
     n < 4 \<and> (bit e n \<or> bit (x :: uint) n)"
  by (auto simp: bit_simps)

lemma bit_above:
  assumes "(w :: uint) < 268435456" "28 \<le> n"
  shows "\<not> bit w n"
proof -
  have "unat w < 2 ^ 28"
    using assms by (simp add: word_less_nat_alt)
  also have "\<dots> \<le> 2 ^ n"
    using assms by (intro power_increasing) auto
  finally have "\<not> bit (unat w) n"
    by (simp add: bit_iff_odd)
  then show ?thesis
    by (auto simp: bit_unsigned_iff dest: bit_imp_le_length)
qed

lemma ata_lba_regs:
  assumes "b_blockno bp < 268435456"
  shows "ata_lba (ide_regs p bp) = b_blockno bp"
proof (rule bit_word_eqI)
  fix n
  assume "n < LENGTH(32)"
  have ports: "ide_regs p bp 0x1f3 = ucast (b_blockno bp AND mask 8)"
    "ide_regs p bp 0x1f4 = ucast (drop_bit 8 (b_blockno bp) AND mask 8)"
    "ide_regs p bp 0x1f5 = ucast (drop_bit 16 (b_blockno bp) AND mask 8)"
    "ide_regs p bp 0x1f6 = ucast (0xe0 OR push_bit 4 (b_dev bp AND 1) OR
       (drop_bit 24 (b_blockno bp) AND mask 4))"
    unfolding mask_nibble [symmetric] mask_FF [symmetric]
    by (simp_all add: ide_regs_def Let_def del: push_bit_and)
  have "bit (ata_lba (ide_regs p bp)) n \<longleftrightarrow>
     n < 8 \<and> bit (b_blockno bp) n \<or> 8 \<le> n \<and> n - 8 < 8 \<and> bit (b_blockno bp) (8 + (n - 8)) \<or>
     16 \<le> n \<and> n - 16 < 8 \<and> bit (b_blockno bp) (16 + (n - 16)) \<or>
     24 \<le> n \<and> n - 24 < 4 \<and> bit (b_blockno bp) (24 + (n - 24))"
    using \<open>n < LENGTH(32)\<close>
    unfolding ata_lba_def ports mask_nibble bit_or_iff bit_push_bit_iff bit_low_byte bit_low_nibble
      bit_drop_bit_eq o_def bit_0xe0
    by auto
  also have "\<dots> \<longleftrightarrow> bit (b_blockno bp) n"
    using bit_above [OF assms, of n]
    by (cases "n < 8"; cases "n < 16"; cases "n < 24"; cases "n < 28")
       (auto simp: less_diff_conv2)
  finally show "bit (ata_lba (ide_regs p bp)) n = bit (b_blockno bp) n" .
qed

lemma ata_drive_regs: "ata_drive (ide_regs p bp) = odd (b_dev bp)"
proof -
  have "(0x10 :: uchar) = 2 ^ 4" by simp
  then have "ata_drive (ide_regs p bp) = bit (ide_regs p bp 0x1f6) 4"
    by (simp only: ata_drive_def and_exp_eq_0_iff_not_bit not_not)
  also have "\<dots> = bit (b_dev bp) 0"
    unfolding ide_regs_def Let_def mask_nibble by (auto simp: bit_simps bit_0xe0)
  finally show ?thesis by (simp add: bit_0)
qed

section \<open>Effect of a request\<close>

definition ide_ready :: "'z kblk_scheme \<Rightarrow> bool" where
  "ide_ready s \<longleftrightarrow> ide_status s AND (IDE_BSY OR IDE_DRDY) = IDE_DRDY \<and>
     ide_status s AND (IDE_DF OR IDE_ERR) = 0"

lemma idewait_ready [simp]: "ide_ready s \<Longrightarrow> idewait c s = Inr (0, s)"
  by (simp add: idewait_def ide_ready_def)

lemma thenK_outb: "thenK (outb p v) k s = k (s\<lparr>ports := (ports s)(p := v)\<rparr>)"
  by (simp add: outb_def)

lemma idestart_regs:
  assumes "ide_ready s" "b_blockno (bufs s b) < FSSIZE"
  shows "idestart (Some b) s =
    (let bp = bufs s b; s' = s\<lparr>ports := ide_regs (ports s) bp\<rparr> in
     if is_dirty (b_flags bp) then outsl (b_data bp) s' else Inr ((), s'))"
proof -
  have one: "BSIZE div SECTOR_SIZE = 1"
    by (simp add: BSIZE_def SECTOR_SIZE_def)
  have small: "(FSSIZE \<le> b_blockno (bufs s b)) = False"
    using assms(2) by (simp add: not_le)
  have cmd: "outb p v t = Inr ((), t\<lparr>ports := (ports t)(p := v)\<rparr>)" for p v and t :: "'a kblk_scheme"
    by (simp add: outb_def)
  have wait: "thenK (idewait False) k s = k s" for k :: "('a kblk_scheme, unit) kern"
    using assms(1) by simp
  have word: "(7 < (1 :: uint)) = False" "ucast (1 :: uint) = (1 :: uchar)"
    by simp_all
  have acc: "ports (t\<lparr>ports := p\<rparr>) = p" "t\<lparr>ports := p, ports := q\<rparr> = t\<lparr>ports := q\<rparr>"
    for p q and t :: "'a kblk_scheme" by simp_all
  show ?thesis
    by (cases "is_dirty (b_flags (bufs s b))")
       (simp_all only: idestart_def option.case bindK_getK small if_False if_True one Let_def word
         mult_1_right wait thenK_outb cmd and_DIRTY
         not_not acc ide_regs_def simp_thms)
qed

lemma idestart_eq:
  assumes "ide_ready s" "b_blockno (bufs s b) < FSSIZE"
  shows "idestart (Some b) s = Inr ((),
    (let bp = bufs s b; s' = s\<lparr>ports := ide_regs (ports s) bp\<rparr>; d = odd (b_dev bp) in
     if is_dirty (b_flags bp)
     then s'\<lparr>disk := (disk s)(d := (disk s d)(b_blockno bp := b_data bp)),
             dwrites := dwrites s @ [(d, b_blockno bp, b_data bp)]\<rparr>
     else s'))"
proof -
  have "b_blockno (bufs s b) < 268435456"
    using assms(2) by (auto simp: FSSIZE_def intro: less_trans)
  then show ?thesis
    using assms by (simp add: idestart_regs outsl_def Let_def ata_lba_regs ata_drive_regs)
qed

section \<open>The request queue\<close>

text \<open>
  \<open>ide_inv xs s\<close>: the requests \<open>xs\<close> are pending, in this order. Each still has work to do, and the
  first one is under way: the drive's registers address its sector, and if it is a write its data
  have been transferred.
\<close>

primrec qpath :: "(nat \<Rightarrow> buf) \<Rightarrow> nat option \<Rightarrow> nat list \<Rightarrow> bool" where
  "qpath B q [] \<longleftrightarrow> q = None"
| "qpath B q (x # xs) \<longleftrightarrow> q = Some x \<and> qpath B (b_qnext (B x)) xs"

definition pending :: "buf \<Rightarrow> bool" where
  "pending bp \<longleftrightarrow> b_blockno bp < FSSIZE \<and> \<not> (is_valid (b_flags bp) \<and> \<not> is_dirty (b_flags bp))"

definition underway :: "buf \<Rightarrow> 'z kblk_scheme \<Rightarrow> bool" where
  "underway bp s \<longleftrightarrow> ata_lba (ports s) = b_blockno bp \<and> ata_drive (ports s) = odd (b_dev bp) \<and>
     (is_dirty (b_flags bp) \<longrightarrow> disk s (odd (b_dev bp)) (b_blockno bp) = b_data bp)"

definition ide_inv :: "nat list \<Rightarrow> 'z kblk_scheme \<Rightarrow> bool" where
  "ide_inv xs s \<longleftrightarrow> qpath (bufs s) (idequeue s) xs \<and> distinct xs \<and>
     (\<forall>x\<in>set xs. pending (bufs s x)) \<and> (xs \<noteq> [] \<longrightarrow> underway (bufs s (hd xs)) s)"

definition ide_writes :: "'z kblk_scheme \<Rightarrow> nat list \<Rightarrow> (bool \<times> uint \<times> uchar list) list" where
  "ide_writes s xs = map (\<lambda>x. (odd (b_dev (bufs s x)), b_blockno (bufs s x), b_data (bufs s x)))
     (filter (\<lambda>x. is_dirty (b_flags (bufs s x))) xs)"

lemma ide_writes_simps [simp]:
  "ide_writes s [] = []"
  "ide_writes s (xs @ ys) = ide_writes s xs @ ide_writes s ys"
  by (simp_all add: ide_writes_def)

lemma qpath_cong: "(\<And>x. x \<in> set xs \<Longrightarrow> b_qnext (B x) = b_qnext (B' x)) \<Longrightarrow> qpath B q xs = qpath B' q xs"
  by (induction xs arbitrary: q) auto

lemma qpath_snoc:
  assumes "qpath B q xs" "xs \<noteq> []" "distinct xs" "b \<notin> set xs" "b_qnext (B b) = None"
  shows "qpath (B(last xs := (B (last xs))\<lparr>b_qnext := Some b\<rparr>)) q (xs @ [b])"
  using assms
proof (induction xs arbitrary: q)
  case (Cons x xs)
  show ?case
  proof (cases "xs = []")
    case True
    with Cons.prems show ?thesis by auto
  next
    case False
    then have "x \<noteq> last xs" using Cons.prems(3) last_in_set by fastforce
    with Cons False show ?thesis by auto
  qed
qed simp

lemma ide_append_eq:
  assumes "qpath (bufs s) (Some p) xs" "length xs \<le> fuel"
  shows "ide_append fuel p b s =
    Inr ((), s\<lparr>bufs := (bufs s)(last xs := (bufs s (last xs))\<lparr>b_qnext := Some b\<rparr>)\<rparr>)"
  using assms
proof (induction xs arbitrary: p fuel)
  case (Cons x xs)
  then obtain f where f: "fuel = Suc f" by (cases fuel) auto
  have p: "p = x" and tl: "qpath (bufs s) (b_qnext (bufs s x)) xs" and len: "length xs \<le> f"
    using Cons.prems f by auto
  show ?case
  proof (cases "b_qnext (bufs s x)")
    case None
    with tl have "xs = []" by (cases xs) auto
    with None p f show ?thesis by (simp add: buf_upd_def fun_upd_def)
  next
    case (Some y)
    with tl have "xs \<noteq> []" by auto
    with Some p f Cons.IH [of y f] tl len show ?thesis by simp
  qed
qed simp

lemma idestart_effect:
  assumes "ide_ready s" "b_blockno (bufs s b) < FSSIZE"
  shows "\<exists>t. idestart (Some b) s = Inr ((), t) \<and> underway (bufs s b) t \<and>
    dwrites t = dwrites s @ ide_writes s [b] \<and>
    t = s\<lparr>ports := ports t, disk := disk t, dwrites := dwrites t\<rparr>"
proof -
  have "b_blockno (bufs s b) < 268435456"
    using assms(2) by (auto simp: FSSIZE_def intro: less_trans)
  then show ?thesis
    using assms
    by (auto simp: idestart_eq Let_def underway_def ide_writes_def ata_lba_regs ata_drive_regs)
qed

definition served :: "'z kblk_scheme \<Rightarrow> buf \<Rightarrow> buf" where
  "served s bp = bp\<lparr>b_data := disk s (odd (b_dev bp)) (b_blockno bp),
     b_flags := done_flags (b_flags bp)\<rparr>"

lemma ideintr_finish:
  assumes "idequeue s = Some x" "ide_ready s" "underway (bufs s x) s"
  shows "ideintr s = (let t = s\<lparr>idequeue := b_qnext (bufs s x), bufs := (bufs s)(x := served s (bufs s x))\<rparr>
     in if idequeue t = None then Inr ((), t) else idestart (idequeue t) t)"
proof -
  have ready: "ide_ready (s\<lparr>idequeue := q\<rparr>)" for q
    using assms(2) by (simp add: ide_ready_def)
  show ?thesis
  proof (cases "is_dirty (b_flags (bufs s x))")
    case True
    then have "served s (bufs s x) = (bufs s x)\<lparr>b_flags := done_flags (b_flags (bufs s x))\<rparr>"
      using assms(3) by (intro buf.equality) (simp_all add: underway_def served_def)
    with True assms(1) show ?thesis
      by (simp add: ideintr_def buf_upd_def done_flags_def Let_def)
  next
    case False
    with assms ready show ?thesis
      by (simp add: ideintr_def buf_upd_def insl_def underway_def served_def done_flags_def Let_def)
  qed
qed


lemma ideintr_step:
  assumes inv: "ide_inv (x # xs) s" and ready: "ide_ready s"
  shows "\<exists>t. ideintr s = Inr ((), t) \<and> ide_inv xs t \<and>
    bufs t = (bufs s)(x := served s (bufs s x)) \<and> dwrites t = dwrites s @ ide_writes s (take 1 xs) \<and>
    t = s\<lparr>idequeue := idequeue t, bufs := bufs t, ports := ports t, disk := disk t, dwrites := dwrites t\<rparr>"
proof -
  let ?t = "s\<lparr>idequeue := b_qnext (bufs s x), bufs := (bufs s)(x := served s (bufs s x))\<rparr>"
  have q: "idequeue s = Some x" "qpath (bufs s) (b_qnext (bufs s x)) xs" "x \<notin> set xs" "distinct xs"
    "\<forall>y\<in>set xs. pending (bufs s y)" "underway (bufs s x) s"
    using inv by (auto simp: ide_inv_def)
  have q': "qpath (bufs ?t) (idequeue ?t) xs"
  proof -
    have "qpath (bufs ?t) (idequeue ?t) xs = qpath (bufs s) (idequeue ?t) xs"
      by (rule qpath_cong) (simp add: served_def)
    with q(2) show ?thesis by simp
  qed
  have run: "ideintr s = (if idequeue ?t = None then Inr ((), ?t) else idestart (idequeue ?t) ?t)"
    using ideintr_finish [OF q(1) ready q(6)] by (simp add: Let_def)
  show ?thesis
  proof (cases xs)
    case Nil
    with q' run show ?thesis by (simp add: ide_inv_def)
  next
    case (Cons y ys)
    then have y: "idequeue ?t = Some y" "bufs ?t y = bufs s y" "pending (bufs s y)"
      using q q' by auto
    have "ide_ready ?t" using ready by (simp add: ide_ready_def)
    then obtain t where t: "idestart (Some y) ?t = Inr ((), t)" "underway (bufs ?t y) t"
      "dwrites t = dwrites ?t @ ide_writes ?t [y]"
      "t = ?t\<lparr>ports := ports t, disk := disk t, dwrites := dwrites t\<rparr>"
      using idestart_effect [of ?t y] y by (auto simp: pending_def)
    have eq: "bufs t = bufs ?t" "idequeue t = idequeue ?t"
      by (subst t(4), simp)+
    have "ide_inv xs t"
      using q q' y eq t(2) Cons by (auto simp: ide_inv_def)
    moreover have "ide_writes ?t [y] = ide_writes s (take 1 xs)"
      using Cons y(2) by (simp add: ide_writes_def)
    moreover have "t = s\<lparr>idequeue := idequeue t, bufs := bufs t, ports := ports t, disk := disk t,
        dwrites := dwrites t\<rparr>"
      by (subst (1) t(4)) (simp add: eq)
    ultimately show ?thesis
      using run y t eq by (intro exI [of _ t]) simp
  qed
qed

lemma ide_inv_pending: "ide_inv xs s \<Longrightarrow> x \<in> set xs \<Longrightarrow> \<not> (is_valid (b_flags (bufs s x)) \<and> \<not> is_dirty (b_flags (bufs s x)))"
  by (auto simp: ide_inv_def pending_def)

lemma ide_inv_queue: "ide_inv (x # xs) s \<Longrightarrow> idequeue s = Some x"
  by (simp add: ide_inv_def)

lemma ide_writes_cong:
  "(\<And>x. x \<in> set xs \<Longrightarrow> bufs t x = bufs s x) \<Longrightarrow> ide_writes t xs = ide_writes s xs"
  unfolding ide_writes_def by (induction xs) auto

lemma ide_wait_drain:
  assumes "ide_inv (xs @ [b]) s" "ide_ready s" "eflags_if s" "length xs + 2 \<le> fuel"
  shows "\<exists>t. ide_wait fuel b s = Inr ((), t) \<and> ide_inv [] t \<and>
    (\<forall>x. b_flags (bufs t x) =
       (if x \<in> set (xs @ [b]) then done_flags (b_flags (bufs s x)) else b_flags (bufs s x))) \<and>
    dwrites t = dwrites s @ ide_writes s (tl (xs @ [b]))"
  using assms
proof (induction xs arbitrary: s fuel)
  case Nil
  then obtain f where f: "fuel = Suc (Suc f)"
    by (auto simp: numeral_2_eq_2 Suc_le_eq less_iff_Suc_add dest: less_imp_Suc_add)
  obtain t where t: "ideintr s = Inr ((), t)" "ide_inv [] t"
    "bufs t = (bufs s)(b := served s (bufs s b))" "dwrites t = dwrites s"
    using ideintr_step [of b "[]" s] Nil.prems by auto
  then show ?case
    using Nil.prems f ide_inv_pending [of "[b]" s b] ide_inv_queue [of b "[]" s]
    by (auto simp: served_def)
next
  case (Cons x xs)
  then obtain f where f: "fuel = Suc f" "length xs + 2 \<le> f" by (cases fuel) auto
  have inv: "ide_inv (x # (xs @ [b])) s" and x: "x \<notin> set (xs @ [b])"
    using Cons.prems(1) by (auto simp: ide_inv_def)
  obtain s1 where s1: "ideintr s = Inr ((), s1)" "ide_inv (xs @ [b]) s1"
    "bufs s1 = (bufs s)(x := served s (bufs s x))"
    "dwrites s1 = dwrites s @ ide_writes s (take 1 (xs @ [b]))"
    "s1 = s\<lparr>idequeue := idequeue s1, bufs := bufs s1, ports := ports s1, disk := disk s1,
       dwrites := dwrites s1\<rparr>"
    using ideintr_step [OF inv Cons.prems(2)] by auto
  have same: "ide_status s1 = ide_status s" "eflags_if s1 = eflags_if s"
    by (subst s1(5), simp)+
  then have "ide_ready s1" "eflags_if s1"
    using Cons.prems by (simp_all add: ide_ready_def)
  then obtain t where t: "ide_wait f b s1 = Inr ((), t)" "ide_inv [] t"
    "\<forall>y. b_flags (bufs t y) =
       (if y \<in> set (xs @ [b]) then done_flags (b_flags (bufs s1 y)) else b_flags (bufs s1 y))"
    "dwrites t = dwrites s1 @ ide_writes s1 (tl (xs @ [b]))"
    using Cons.IH [of s1 f] s1(2) f by auto
  have w: "ide_writes s1 (tl (xs @ [b])) = ide_writes s (tl (xs @ [b]))"
    using x s1(3) by (intro ide_writes_cong) (auto dest: list.set_sel(2) [rotated])
  have split: "ide_writes s (tl ((x # xs) @ [b])) =
      ide_writes s (take 1 (xs @ [b])) @ ide_writes s (tl (xs @ [b]))"
    by (cases xs) (simp_all flip: ide_writes_simps(2))
  have run: "ide_wait fuel b s = Inr ((), t)"
    using f s1(1) t(1) Cons.prems(3) ide_inv_queue [OF inv] ide_inv_pending [OF Cons.prems(1), of b]
    by auto
  show ?case
    using run t s1 x w split by (intro exI [of _ t]) (auto simp: served_def)
qed

lemma ide_enqueue_inv:
  assumes inv: "ide_inv xs s" and b: "b \<notin> set xs" "pending (bufs s b)" "b_qnext (bufs s b) = None"
    and len: "length xs \<le> Suc NBUF" "xs \<noteq> []"
  shows "\<exists>t. ide_enqueue b s = Inr ((), t) \<and> ide_inv (xs @ [b]) t \<and> t = s\<lparr>bufs := bufs t\<rparr> \<and>
    (\<forall>x. \<exists>q. bufs t x = (bufs s x)\<lparr>b_qnext := q\<rparr>)"
proof -
  let ?l = "last xs"
  let ?B = "(bufs s)(?l := (bufs s ?l)\<lparr>b_qnext := Some b\<rparr>)"
  have q: "qpath (bufs s) (idequeue s) xs" "distinct xs" using inv by (auto simp: ide_inv_def)
  obtain p where p: "idequeue s = Some p" using q(1) len(2) by (cases xs) auto
  have run: "ide_enqueue b s = Inr ((), s\<lparr>bufs := ?B\<rparr>)"
    using p q(1) ide_append_eq [of s p xs "Suc NBUF" b] len(1)
    by (simp add: ide_enqueue_def del: fun_upd_apply)
  have q': "qpath ?B (idequeue s) (xs @ [b])"
    using qpath_snoc [OF q(1) len(2) q(2) b(1,3)] .
  have same: "pending (?B x) = pending (bufs s x)" "underway (?B x) (s\<lparr>bufs := ?B\<rparr>) = underway (bufs s x) s" for x
    by (simp_all add: pending_def underway_def)
  have "ide_inv (xs @ [b]) (s\<lparr>bufs := ?B\<rparr>)"
    using inv b q' len(2) same unfolding ide_inv_def by (auto simp del: fun_upd_apply)
  moreover have "\<exists>q. ?B x = (bufs s x)\<lparr>b_qnext := q\<rparr>" for x
    by (cases "x = ?l") (auto intro: exI [of _ "b_qnext (bufs s x)"])
  ultimately show ?thesis
    using run by (intro exI [of _ "s\<lparr>bufs := ?B\<rparr>"]) simp
qed

definition ide_accepts :: "nat \<Rightarrow> 'z kblk_scheme \<Rightarrow> bool" where
  "ide_accepts b s \<longleftrightarrow> ide_ready s \<and> eflags_if s \<and> ncli s = 0 \<and> pending (bufs s b) \<and>
     (b_dev (bufs s b) \<noteq> 0 \<longrightarrow> havedisk1 s)"

lemma iderw_submit:
  assumes inv: "ide_inv xs s" and b: "b \<notin> set xs" "ide_accepts b s" and len: "length xs \<le> NBUF"
  shows "\<exists>t. iderw b s = ide_wait (NBUF + 2) b t \<and> ide_inv (xs @ [b]) t \<and> ide_ready t \<and> eflags_if t \<and>
    dwrites t = dwrites s @ (if xs = [] then ide_writes s [b] else []) \<and>
    (\<forall>x. \<exists>q. bufs t x = (bufs s x)\<lparr>b_qnext := q\<rparr>)"
proof -
  let ?s1 = "s\<lparr>eflags_if := False, intena := True, ncli := 1,
    bufs := (bufs s)(b := (bufs s b)\<lparr>b_qnext := None\<rparr>)\<rparr>"
  have acc: "pending (bufs s b)" "ide_ready s" "eflags_if s" "ncli s = 0"
    "b_dev (bufs s b) \<noteq> 0 \<longrightarrow> havedisk1 s"
    using b(2) by (auto simp: ide_accepts_def)
  have work: "\<not> (is_valid (b_flags (bufs s b)) \<and> \<not> is_dirty (b_flags (bufs s b)))"
    using acc(1) by (simp add: pending_def)
  have run: "iderw b s = thenK (ide_enqueue b) (bindK (getK idequeue) (\<lambda>q.
      thenK (whenK (q = Some b) (idestart (Some b))) (thenK popcli (ide_wait (NBUF + 2) b)))) ?s1"
    using acc work by (auto simp: iderw_def buf_upd_def)
  have B1: "\<exists>q. bufs ?s1 x = (bufs s x)\<lparr>b_qnext := q\<rparr>" for x
    by (cases "x = b") (auto intro: exI [of _ "b_qnext (bufs s x)"])
  have ready1: "ide_ready ?s1" using acc(2) by (simp add: ide_ready_def)
  show ?thesis
  proof (cases "xs = []")
    case True
    let ?s2 = "?s1\<lparr>idequeue := Some b\<rparr>"
    have enq: "ide_enqueue b ?s1 = Inr ((), ?s2)"
      using inv True by (simp add: ide_enqueue_def ide_inv_def)
    have "ide_ready ?s2" using ready1 by (simp add: ide_ready_def)
    then obtain t where t: "idestart (Some b) ?s2 = Inr ((), t)" "underway (bufs ?s2 b) t"
      "dwrites t = dwrites ?s2 @ ide_writes ?s2 [b]"
      "t = ?s2\<lparr>ports := ports t, disk := disk t, dwrites := dwrites t\<rparr>"
      using idestart_effect [of ?s2 b] acc(1) by (auto simp: pending_def)
    have eq: "bufs t = bufs ?s1" "idequeue t = Some b" "eflags_if t = False" "ncli t = 1"
      "intena t = True" "ide_status t = ide_status s"
      by (subst t(4), simp)+
    let ?t = "t\<lparr>ncli := 0, eflags_if := True\<rparr>"
    have "iderw b s = ide_wait (NBUF + 2) b ?t"
      unfolding run using enq t(1) eq by simp
    moreover have "ide_inv [b] ?t"
      using eq t(2) acc(1) by (simp add: ide_inv_def pending_def underway_def)
    moreover have "ide_ready ?t" using acc(2) eq by (simp add: ide_ready_def)
    moreover have "dwrites ?t = dwrites s @ ide_writes s [b]"
      using t(3) by (simp add: ide_writes_def)
    ultimately show ?thesis
      using True eq B1 by (intro exI [of _ ?t]) simp
  next
    case False
    have "qpath (bufs ?s1) (idequeue s) xs = qpath (bufs s) (idequeue s) xs"
      using b(1) by (intro qpath_cong) auto
    moreover have "hd xs \<noteq> b" using b(1) False hd_in_set by metis
    ultimately have "ide_inv xs ?s1"
      using inv b(1) unfolding ide_inv_def by (auto simp: underway_def)
    then obtain t where t: "ide_enqueue b ?s1 = Inr ((), t)" "ide_inv (xs @ [b]) t"
      "t = ?s1\<lparr>bufs := bufs t\<rparr>" "\<forall>x. \<exists>q. bufs t x = (bufs ?s1 x)\<lparr>b_qnext := q\<rparr>"
      using ide_enqueue_inv [of xs ?s1 b] b(1) acc(1) len False by (auto simp: pending_def)
    have eq: "idequeue t = idequeue s" "eflags_if t = False" "ncli t = 1" "intena t = True"
      "ide_status t = ide_status s" "dwrites t = dwrites s"
      by (subst t(3), simp)+
    let ?t = "t\<lparr>ncli := 0, eflags_if := True\<rparr>"
    have "idequeue t \<noteq> Some b"
      using t(2) False b(1) by (cases xs) (auto simp: ide_inv_def)
    then have "iderw b s = ide_wait (NBUF + 2) b ?t"
      unfolding run using t(1) eq by simp
    moreover have "ide_inv (xs @ [b]) ?t"
      using t(2) by (simp add: ide_inv_def underway_def)
    moreover have "ide_ready ?t" using acc(2) eq by (simp add: ide_ready_def)
    moreover have "\<exists>q. bufs ?t x = (bufs s x)\<lparr>b_qnext := q\<rparr>" for x
    proof -
      obtain q q' where "bufs t x = (bufs ?s1 x)\<lparr>b_qnext := q\<rparr>" "bufs ?s1 x = (bufs s x)\<lparr>b_qnext := q'\<rparr>"
        using t(4) B1 by blast
      then have "bufs ?t x = (bufs s x)\<lparr>b_qnext := q\<rparr>" by (simp del: fun_upd_apply)
      then show ?thesis by blast
    qed
    ultimately show ?thesis
      using False eq by (intro exI [of _ ?t]) simp
  qed
qed

lemma done_flags_qnext [simp]: "b_flags (bp\<lparr>b_qnext := q\<rparr>) = b_flags bp"
  by simp

lemma ide_writes_qnext:
  assumes "\<And>x. \<exists>q. bufs t x = (bufs s x)\<lparr>b_qnext := q\<rparr>"
  shows "ide_writes t xs = ide_writes s xs"
proof (induction xs)
  case (Cons x xs)
  obtain q where "bufs t x = (bufs s x)\<lparr>b_qnext := q\<rparr>" using assms by blast
  with Cons show ?case by (simp add: ide_writes_def)
qed simp

lemma iderw_queue:
  assumes "ide_inv xs s" "b \<notin> set xs" "ide_accepts b s" "length xs \<le> NBUF"
  shows "\<exists>t. iderw b s = Inr ((), t) \<and> ide_inv [] t \<and>
    (\<forall>x. b_flags (bufs t x) =
       (if x \<in> set (xs @ [b]) then done_flags (b_flags (bufs s x)) else b_flags (bufs s x))) \<and>
    dwrites t = dwrites s @ ide_writes s (tl xs @ [b])"
proof -
  obtain s1 where s1: "iderw b s = ide_wait (NBUF + 2) b s1" "ide_inv (xs @ [b]) s1" "ide_ready s1"
    "eflags_if s1" "dwrites s1 = dwrites s @ (if xs = [] then ide_writes s [b] else [])"
    "\<And>x. \<exists>q. bufs s1 x = (bufs s x)\<lparr>b_qnext := q\<rparr>"
    using iderw_submit [OF assms] by blast
  have fl: "b_flags (bufs s1 x) = b_flags (bufs s x)" for x
  proof -
    obtain q where "bufs s1 x = (bufs s x)\<lparr>b_qnext := q\<rparr>" using s1(6) by blast
    then show ?thesis by simp
  qed
  obtain t where t: "ide_wait (NBUF + 2) b s1 = Inr ((), t)" "ide_inv [] t"
    "\<forall>x. b_flags (bufs t x) =
       (if x \<in> set (xs @ [b]) then done_flags (b_flags (bufs s1 x)) else b_flags (bufs s1 x))"
    "dwrites t = dwrites s1 @ ide_writes s1 (tl (xs @ [b]))"
    using ide_wait_drain [OF s1(2-4), of "NBUF + 2"] assms(4) by (auto simp del: ide_wait.simps add_2_eq_Suc')
  have "dwrites t = dwrites s @ ide_writes s (tl xs @ [b])"
    using t(4) s1(5) ide_writes_qnext [OF s1(6), of "tl (xs @ [b])"] by (cases xs) auto
  with s1(1) t fl show ?thesis by (intro exI [of _ t]) simp
qed

section \<open>A request on an idle drive\<close>

text \<open>
  What the buffer cache relies on: with no other request pending, \<open>iderw\<close> returns, the buffer and
  the sector agree, and nothing else changes but the registers, the sector and the log of writes.
\<close>

definition blk_frame :: "'z kblk_scheme \<Rightarrow> 'z kblk_scheme \<Rightarrow> bool" where
  "blk_frame s t \<longleftrightarrow> eflags_if t = eflags_if s \<and> ncli t = ncli s \<and> mem t = mem s \<and>
     freelist t = freelist s \<and> idequeue t = idequeue s \<and> havedisk1 t = havedisk1 s \<and>
     ide_status t = ide_status s \<and> kblk.more t = kblk.more s"

definition io_ok :: "'z kblk_scheme \<Rightarrow> bool" where
  "io_ok s \<longleftrightarrow> ncli s = 0 \<and> eflags_if s \<and> idequeue s = None \<and> ide_ready s \<and> havedisk1 s"

lemma blk_frame_refl [simp]: "blk_frame s s"
  by (simp add: blk_frame_def)

lemma blk_frame_trans: "blk_frame s t \<Longrightarrow> blk_frame t u \<Longrightarrow> blk_frame s u"
  by (simp add: blk_frame_def)

lemma blk_frame_io: "blk_frame s t \<Longrightarrow> io_ok s \<Longrightarrow> io_ok t"
  by (simp add: blk_frame_def io_ok_def ide_ready_def)

definition ide_disk :: "nat \<Rightarrow> 'z kblk_scheme \<Rightarrow> bool \<Rightarrow> uint \<Rightarrow> uchar list" where
  "ide_disk b s = (let bp = bufs s b; d = odd (b_dev bp) in
     if is_dirty (b_flags bp) then (disk s)(d := (disk s d)(b_blockno bp := b_data bp)) else disk s)"

lemma iderw_idle:
  assumes io: "io_ok s" and b: "pending (bufs s b)"
  shows "\<exists>t. iderw b s = Inr ((), t) \<and> blk_frame s t \<and> disk t = ide_disk b s \<and>
    dwrites t = dwrites s @ ide_writes s [b] \<and>
    bufs t = (bufs s)(b := (bufs s b)\<lparr>b_qnext := None,
      b_data := ide_disk b s (odd (b_dev (bufs s b))) (b_blockno (bufs s b)),
      b_flags := done_flags (b_flags (bufs s b))\<rparr>)"
proof -
  let ?bp = "bufs s b" and ?d = "odd (b_dev (bufs s b))" and ?n = "b_blockno (bufs s b)"
  let ?s1 = "s\<lparr>eflags_if := False, intena := True, ncli := 1, bufs := (bufs s)(b := ?bp\<lparr>b_qnext := None\<rparr>),
    idequeue := Some b\<rparr>"
  have s: "ncli s = 0" "eflags_if s" "idequeue s = None" "havedisk1 s" "ide_ready s"
    using io by (auto simp: io_ok_def)
  have work: "\<not> (is_valid (b_flags ?bp) \<and> \<not> is_dirty (b_flags ?bp))" and lt: "?n < FSSIZE"
    using b by (auto simp: pending_def)
  have "ide_ready ?s1" using s(5) by (simp add: ide_ready_def)
  then obtain t where t: "idestart (Some b) ?s1 = Inr ((), t)" "underway (?bp\<lparr>b_qnext := None\<rparr>) t"
    "dwrites t = dwrites s @ ide_writes s [b]" "disk t = ide_disk b s"
    "t = ?s1\<lparr>ports := ports t, disk := disk t, dwrites := dwrites t\<rparr>"
    using idestart_effect [of ?s1 b] idestart_eq [of ?s1 b] lt
    by (auto simp: ide_writes_def ide_disk_def Let_def)
  let ?t = "t\<lparr>ncli := 0, eflags_if := True\<rparr>"
  have eq: "bufs t = (bufs s)(b := ?bp\<lparr>b_qnext := None\<rparr>)" "idequeue t = Some b" "eflags_if t = False"
    "ncli t = 1" "intena t = True" "ide_status t = ide_status s" "mem t = mem s"
    "freelist t = freelist s" "havedisk1 t = havedisk1 s" "kblk.more t = kblk.more s"
    by (subst t(5), simp)+
  have run: "iderw b s = ide_wait (NBUF + 2) b ?t"
    using work s t(1) eq by (auto simp: iderw_def buf_upd_def ide_enqueue_def simp del: ide_wait.simps)
  let ?u = "?t\<lparr>idequeue := None, bufs := (bufs t)(b := served t (?bp\<lparr>b_qnext := None\<rparr>))\<rparr>"
  have "ide_ready ?t" using s(5) eq by (simp add: ide_ready_def)
  moreover have "underway (bufs ?t b) ?t" using t(2) eq by (simp add: underway_def)
  ultimately have int: "ideintr ?t = Inr ((), ?u)"
    using ideintr_finish [of ?t b] eq by (simp add: Let_def served_def)
  have "iderw b s = Inr ((), ?u)"
    unfolding run using work int eq by (auto simp: served_def)
  moreover have "blk_frame s ?u" using s eq by (simp add: blk_frame_def)
  moreover have "bufs ?u = (bufs s)(b := ?bp\<lparr>b_qnext := None, b_data := ide_disk b s ?d ?n,
      b_flags := done_flags (b_flags ?bp)\<rparr>)"
    using eq(1) t(4) by (simp add: served_def)
  ultimately show ?thesis
    using t(3,4) by (intro exI [of _ ?u]) simp
qed

section \<open>Properties\<close>

definition demo_ide :: kblk where
  "demo_ide = \<lparr>eflags_if = True, ncli = 0, intena = False, mem = (\<lambda>_. 0), freelist = 0,
     bufs = (\<lambda>i. \<lparr>b_flags = (if i = 1 then B_DIRTY else 0), b_dev = 0, b_blockno = (if i = 1 then 5 else 0),
       b_refcnt = 1, b_prev = 0, b_next = 0, b_qnext = None, b_data = [of_nat i]\<rparr>),
     idequeue = Some 0, havedisk1 = True, ide_status = IDE_DRDY, ports = (\<lambda>_. 0),
     disk = (\<lambda>_ _. [9]), dwrites = []\<rparr>"

lemma demo_ide_facts: "ide_inv [0] demo_ide" "ide_accepts 1 demo_ide"
  by (simp_all add: demo_ide_def ide_inv_def pending_def underway_def ata_lba_def ata_drive_def FSSIZE_def
      ide_accepts_def ide_ready_def IDE_BSY_def IDE_DRDY_def IDE_DF_def IDE_ERR_def)

text \<open>
  C13: the disk queue is served in order and to the end. When a buffer is passed to \<open>iderw\<close> while the
  requests \<open>xs\<close> are pending, the call returns with the queue empty, every request of \<open>xs\<close> and the
  new one marked valid and clean and no other buffer's flags changed, and the data of the write requests have
  gone to the disk in the order of the queue (the head's had already been sent).
\<close>

theorem iderw_fifo:
  assumes "ide_inv xs s" "b \<notin> set xs" "ide_accepts b s" "length xs \<le> NBUF"
  shows "\<exists>t. iderw b s = Inr ((), t) \<and> idequeue t = None \<and>
    (\<forall>x. if x \<in> set (xs @ [b]) then is_valid (b_flags (bufs t x)) \<and> \<not> is_dirty (b_flags (bufs t x))
         else b_flags (bufs t x) = b_flags (bufs s x)) \<and>
    dwrites t = dwrites s @ ide_writes s (tl xs @ [b])"
proof -
  obtain t where "iderw b s = Inr ((), t)" "ide_inv [] t"
    "\<forall>x. b_flags (bufs t x) =
       (if x \<in> set (xs @ [b]) then done_flags (b_flags (bufs s x)) else b_flags (bufs s x))"
    "dwrites t = dwrites s @ ide_writes s (tl xs @ [b])"
    using iderw_queue [OF assms] by blast
  then show ?thesis by (intro exI [of _ t]) (simp add: ide_inv_def)
qed

theorem iderw_fifo_witness:
  "\<exists>t. iderw 1 demo_ide = Inr ((), t) \<and> idequeue t = None \<and> dwrites t = [(False, 5, [1])]"
proof -
  have "\<exists>t. iderw 1 demo_ide = Inr ((), t) \<and> idequeue t = None \<and>
    (\<forall>x. if x \<in> set ([0] @ [1]) then is_valid (b_flags (bufs t x)) \<and> \<not> is_dirty (b_flags (bufs t x))
         else b_flags (bufs t x) = b_flags (bufs demo_ide x)) \<and>
    dwrites t = dwrites demo_ide @ ide_writes demo_ide (tl [0] @ [1])"
    using demo_ide_facts by (intro iderw_fifo) (simp_all add: NBUF_def)
  then show ?thesis by (auto simp: ide_writes_def demo_ide_def)
qed

text \<open>
  C14: a read that the drive reports as failed is not noticed. The interrupt handler leaves the
  buffer's data as they were and still marks the buffer valid, so that \<open>bread\<close> returns a buffer with
  contents that never came from the disk.
\<close>

theorem ideintr_read_error:
  assumes "idequeue s = Some b" "b_qnext (bufs s b) = None" "\<not> is_dirty (b_flags (bufs s b))"
    and "ide_status s AND (IDE_BSY OR IDE_DRDY) = IDE_DRDY" "ide_status s AND (IDE_DF OR IDE_ERR) \<noteq> 0"
  shows "\<exists>t. ideintr s = Inr ((), t) \<and> is_valid (b_flags (bufs t b)) \<and> b_data (bufs t b) = b_data (bufs s b)"
  using assms by (simp add: ideintr_def idewait_def buf_upd_def bit_or_iff bit_and_iff bit_not_iff)

theorem ideintr_read_error_witness:
  "\<exists>t. ideintr (demo_ide\<lparr>ide_status := IDE_DRDY OR IDE_ERR\<rparr>) = Inr ((), t) \<and>
     is_valid (b_flags (bufs t 0)) \<and> b_data (bufs t 0) = [0]"
proof -
  have "\<exists>t. ideintr (demo_ide\<lparr>ide_status := IDE_DRDY OR IDE_ERR\<rparr>) = Inr ((), t) \<and>
     is_valid (b_flags (bufs t 0)) \<and> b_data (bufs t 0) = b_data (bufs (demo_ide\<lparr>ide_status := IDE_DRDY OR IDE_ERR\<rparr>) 0)"
    by (rule ideintr_read_error)
       (simp_all add: demo_ide_def IDE_DRDY_def IDE_ERR_def IDE_BSY_def IDE_DF_def)
  then show ?thesis by (simp add: demo_ide_def)
qed

text \<open>
  \<open>iderw\<close> must not be called with interrupts off: inside a \<open>pushcli\<close> section the request is
  started, but the wait for its completion never ends.
\<close>

lemma iderw_interrupts_off:
  assumes "0 < ncli s" "ncli s < INT_MAX" "\<not> eflags_if s" "idequeue s = None" "ide_ready s" "pending (bufs s b)"
    "b_dev (bufs s b) \<noteq> 0 \<longrightarrow> havedisk1 s"
  shows "iderw b s = Inl Spin"
proof -
  let ?s1 = "s\<lparr>eflags_if := False, intena := intena s, ncli := ncli s + 1,
    bufs := (bufs s)(b := (bufs s b)\<lparr>b_qnext := None\<rparr>), idequeue := Some b\<rparr>"
  have work: "\<not> (is_valid (b_flags (bufs s b)) \<and> \<not> is_dirty (b_flags (bufs s b)))"
    using assms(6) by (simp add: pending_def)
  have "ide_ready ?s1" using assms(5) by (simp add: ide_ready_def)
  then obtain t where t: "idestart (Some b) ?s1 = Inr ((), t)"
    "t = ?s1\<lparr>ports := ports t, disk := disk t, dwrites := dwrites t\<rparr>"
    using idestart_effect [of ?s1 b] assms(6) by (auto simp: pending_def)
  have eq: "bufs t b = (bufs s b)\<lparr>b_qnext := None\<rparr>" "eflags_if t = False" "ncli t = ncli s + 1"
    by (subst t(2), simp)+
  have "popcli t = Inr ((), t\<lparr>ncli := ncli s, eflags_if := False\<rparr>)"
    using eq assms(1) by simp
  then show ?thesis
    using assms work t(1) eq
    by (auto simp: iderw_def buf_upd_def ide_enqueue_def)
qed

lemma iderw_interrupts_off_example:
  "iderw 1 (demo_ide\<lparr>idequeue := None, eflags_if := False, ncli := 1\<rparr>) = Inl Spin"
  by (rule iderw_interrupts_off)
     (simp_all add: demo_ide_def ide_ready_def IDE_BSY_def IDE_DRDY_def IDE_DF_def IDE_ERR_def pending_def FSSIZE_def)

end
