(* ===== verification/Bio.thy ===== *)
theory Bio
  imports Ide
begin

text \<open>
  \<^verbatim>\<open>bio.c\<close>: the buffer cache. The \<open>NBUF\<close> buffers and the list head (index \<open>NBUF\<close>) form a
  doubly linked ring through \<^verbatim>\<open>prev\<close> and \<^verbatim>\<open>next\<close>, most recently used first. The theory shows
  that the ring is a list which \<open>bget\<close> searches forwards for a hit and backwards for a victim, and
  that the cache is transparent: a holder of a block sees the block's current contents, whatever
  was recycled before.
\<close>

section \<open>The operations\<close>

definition binit :: "('z kblk_scheme, unit) kern" where
  "binit =
     thenK (buf_upd NBUF (\<lambda>h. h\<lparr>b_prev := NBUF\<rparr>)) (
     thenK (buf_upd NBUF (\<lambda>h. h\<lparr>b_next := NBUF\<rparr>)) (
     for_range 0 NBUF (\<lambda>b.
       bindK (getK (\<lambda>s. b_next (bufs s NBUF))) (\<lambda>h.
       thenK (buf_upd b (\<lambda>bp. bp\<lparr>b_next := h\<rparr>)) (
       thenK (buf_upd b (\<lambda>bp. bp\<lparr>b_prev := NBUF\<rparr>)) (
       bindK (getK (\<lambda>s. b_next (bufs s NBUF))) (\<lambda>h'.
       thenK (buf_upd h' (\<lambda>bp. bp\<lparr>b_prev := b\<rparr>)) (
       buf_upd NBUF (\<lambda>h. h\<lparr>b_next := b\<rparr>)))))))))"

text \<open>The two scans of \<^verbatim>\<open>bget\<close>; a ring has \<open>NBUF\<close> buffers, so \<open>NBUF + 1\<close> steps reach the head.\<close>

primrec bget_hit :: "nat \<Rightarrow> uint \<Rightarrow> uint \<Rightarrow> nat \<Rightarrow> ('z kblk_scheme, nat option) kern" where
  "bget_hit 0 = (\<lambda>dev blockno b. spin)"
| "bget_hit (Suc fuel) = (\<lambda>dev blockno b.
     if b = NBUF then ret None else
     bindK (getK (\<lambda>s. bufs s b)) (\<lambda>bp.
     if b_dev bp = dev \<and> b_blockno bp = blockno then
       thenK (buf_upd b (\<lambda>bp. bp\<lparr>b_refcnt := b_refcnt bp + 1\<rparr>)) (
       thenK popcli (ret (Some b)))
     else bget_hit fuel dev blockno (b_next bp)))"

primrec bget_recycle :: "nat \<Rightarrow> uint \<Rightarrow> uint \<Rightarrow> nat \<Rightarrow> ('z kblk_scheme, nat option) kern" where
  "bget_recycle 0 = (\<lambda>dev blockno b. spin)"
| "bget_recycle (Suc fuel) = (\<lambda>dev blockno b.
     if b = NBUF then ret None else
     bindK (getK (\<lambda>s. bufs s b)) (\<lambda>bp.
     if b_refcnt bp = 0 \<and> b_flags bp AND B_DIRTY = 0 then
       thenK (buf_upd b (\<lambda>bp. bp\<lparr>b_dev := dev\<rparr>)) (
       thenK (buf_upd b (\<lambda>bp. bp\<lparr>b_blockno := blockno\<rparr>)) (
       thenK (buf_upd b (\<lambda>bp. bp\<lparr>b_flags := 0\<rparr>)) (
       thenK (buf_upd b (\<lambda>bp. bp\<lparr>b_refcnt := 1\<rparr>)) (
       thenK popcli (ret (Some b))))))
     else bget_recycle fuel dev blockno (b_prev bp)))"

definition bget :: "uint \<Rightarrow> uint \<Rightarrow> ('z kblk_scheme, nat) kern" where
  "bget dev blockno =
     thenK pushcli (
     bindK (getK (\<lambda>s. b_next (bufs s NBUF))) (\<lambda>b.
     bindK (bget_hit (NBUF + 1) dev blockno b) (\<lambda>r. case r of Some b \<Rightarrow> ret b | None \<Rightarrow>
     bindK (getK (\<lambda>s. b_prev (bufs s NBUF))) (\<lambda>b.
     bindK (bget_recycle (NBUF + 1) dev blockno b) (\<lambda>r. case r of Some b \<Rightarrow> ret b | None \<Rightarrow>
     panic ''bget: no buffers'')))))"

definition bread :: "uint \<Rightarrow> uint \<Rightarrow> ('z kblk_scheme, nat) kern" where
  "bread dev blockno =
     bindK (bget dev blockno) (\<lambda>b.
     bindK (getK (\<lambda>s. b_flags (bufs s b))) (\<lambda>fl.
     thenK (whenK (fl AND B_VALID = 0) (iderw b)) (ret b)))"

definition bwrite :: "nat \<Rightarrow> ('z kblk_scheme, unit) kern" where
  "bwrite b =
     thenK (buf_upd b (\<lambda>bp. bp\<lparr>b_flags := b_flags bp OR B_DIRTY\<rparr>)) (iderw b)"

text \<open>The six assignments of \<^verbatim>\<open>brelse\<close> that move a buffer behind the list head.\<close>

definition brelse_front :: "nat \<Rightarrow> ('z kblk_scheme, unit) kern" where
  "brelse_front b =
     bindK (getK (\<lambda>s. bufs s b)) (\<lambda>bp.
     thenK (buf_upd (b_next bp) (\<lambda>x. x\<lparr>b_prev := b_prev bp\<rparr>)) (
     bindK (getK (\<lambda>s. bufs s b)) (\<lambda>bp.
     thenK (buf_upd (b_prev bp) (\<lambda>x. x\<lparr>b_next := b_next bp\<rparr>)) (
     bindK (getK (\<lambda>s. b_next (bufs s NBUF))) (\<lambda>h.
     thenK (buf_upd b (\<lambda>x. x\<lparr>b_next := h\<rparr>)) (
     thenK (buf_upd b (\<lambda>x. x\<lparr>b_prev := NBUF\<rparr>)) (
     bindK (getK (\<lambda>s. b_next (bufs s NBUF))) (\<lambda>h.
     thenK (buf_upd h (\<lambda>x. x\<lparr>b_prev := b\<rparr>)) (
     buf_upd NBUF (\<lambda>x. x\<lparr>b_next := b\<rparr>))))))))))"

definition brelse :: "nat \<Rightarrow> ('z kblk_scheme, unit) kern" where
  "brelse b =
     thenK pushcli (
     thenK (buf_upd b (\<lambda>bp. bp\<lparr>b_refcnt := b_refcnt bp - 1\<rparr>)) (
     bindK (getK (\<lambda>s. b_refcnt (bufs s b))) (\<lambda>r.
     thenK (whenK (r = 0) (brelse_front b)) popcli)))"

section \<open>The ring as a list\<close>

text \<open>
  \<open>dlseg B p xs q\<close>: the links from \<open>p\<close> run forwards through \<open>xs\<close> to \<open>q\<close>, and backwards the same way.
\<close>

primrec dlseg :: "(nat \<Rightarrow> buf) \<Rightarrow> nat \<Rightarrow> nat list \<Rightarrow> nat \<Rightarrow> bool" where
  "dlseg B p [] q \<longleftrightarrow> b_next (B p) = q \<and> b_prev (B q) = p"
| "dlseg B p (x # xs) q \<longleftrightarrow> b_next (B p) = x \<and> b_prev (B x) = p \<and> dlseg B x xs q"

lemma dlseg_append:
  "dlseg B p (xs @ y # ys) q \<longleftrightarrow> dlseg B p xs y \<and> dlseg B y ys q"
  by (induction xs arbitrary: p) auto

lemma dlseg_cong:
  "\<lbrakk>\<And>x. x \<in> insert p (set xs) \<Longrightarrow> b_next (B' x) = b_next (B x);
    \<And>x. x \<in> insert q (set xs) \<Longrightarrow> b_prev (B' x) = b_prev (B x)\<rbrakk> \<Longrightarrow> dlseg B' p xs q = dlseg B p xs q"
  by (induction xs arbitrary: p) auto

lemma dlseg_next: "dlseg B p xs q \<Longrightarrow> b_next (B p) = hd (xs @ [q])"
  by (cases xs) auto

lemma dlseg_prev: "dlseg B p xs q \<Longrightarrow> b_prev (B q) = last (p # xs)"
  by (induction xs arbitrary: p) auto

definition lru :: "nat list \<Rightarrow> 'z kblk_scheme \<Rightarrow> bool" where
  "lru xs s \<longleftrightarrow> dlseg (bufs s) NBUF xs NBUF \<and> distinct xs \<and> set xs = {..<NBUF}"

lemma lru_length: "lru xs s \<Longrightarrow> length xs = NBUF"
  unfolding lru_def using distinct_card by fastforce

section \<open>Looking up a block\<close>

definition is_block :: "'z kblk_scheme \<Rightarrow> uint \<Rightarrow> uint \<Rightarrow> nat \<Rightarrow> bool" where
  "is_block s dev n i \<longleftrightarrow> b_dev (bufs s i) = dev \<and> b_blockno (bufs s i) = n"

definition evictable :: "'z kblk_scheme \<Rightarrow> nat \<Rightarrow> bool" where
  "evictable s i \<longleftrightarrow> b_refcnt (bufs s i) = 0 \<and> \<not> is_dirty (b_flags (bufs s i))"

definition ref_buf :: "buf \<Rightarrow> buf" where
  "ref_buf bp = bp\<lparr>b_refcnt := b_refcnt bp + 1\<rparr>"

definition fresh_buf :: "uint \<Rightarrow> uint \<Rightarrow> buf \<Rightarrow> buf" where
  "fresh_buf dev n bp = bp\<lparr>b_dev := dev, b_blockno := n, b_flags := 0, b_refcnt := 1\<rparr>"

lemma bget_hit_eq:
  assumes "dlseg (bufs s) p xs NBUF" "NBUF \<notin> set xs" "length xs < fuel"
    and "0 < ncli s" "\<not> eflags_if s"
  shows "bget_hit fuel dev n (b_next (bufs s p)) s = Inr (case find (is_block s dev n) xs of
      None \<Rightarrow> (None, s)
    | Some i \<Rightarrow> (Some i, s\<lparr>bufs := (bufs s)(i := ref_buf (bufs s i)), ncli := ncli s - 1,
         eflags_if := (ncli s = 1 \<and> intena s)\<rparr>))"
  using assms
proof (induction xs arbitrary: p fuel)
  case Nil
  then obtain f where "fuel = Suc f" by (cases fuel) auto
  with Nil show ?case by simp
next
  case (Cons x xs)
  then obtain f where f: "fuel = Suc f" by (cases fuel) auto
  show ?case
  proof (cases "is_block s dev n x")
    case True
    with Cons.prems f show ?thesis by (simp add: is_block_def buf_upd_def ref_buf_def)
  next
    case False
    with Cons.prems f Cons.IH [of x f] show ?thesis by (auto simp: is_block_def)
  qed
qed

lemma bget_recycle_eq:
  assumes "dlseg (bufs s) NBUF xs q" "NBUF \<notin> set xs" "length xs < fuel"
    and "0 < ncli s" "\<not> eflags_if s"
  shows "bget_recycle fuel dev n (b_prev (bufs s q)) s = Inr (case find (evictable s) (rev xs) of
      None \<Rightarrow> (None, s)
    | Some i \<Rightarrow> (Some i, s\<lparr>bufs := (bufs s)(i := fresh_buf dev n (bufs s i)), ncli := ncli s - 1,
         eflags_if := (ncli s = 1 \<and> intena s)\<rparr>))"
  using assms
proof (induction xs arbitrary: q fuel rule: rev_induct)
  case Nil
  then obtain f where "fuel = Suc f" by (cases fuel) auto
  with Nil show ?case by simp
next
  case (snoc x xs)
  then obtain f where f: "fuel = Suc f" by (cases fuel) auto
  have seg: "dlseg (bufs s) NBUF xs x" and q: "b_prev (bufs s q) = x" and x: "x \<noteq> NBUF"
    using snoc.prems by (auto simp: dlseg_append)
  show ?case
  proof (cases "evictable s x")
    case True
    with snoc.prems f q x show ?thesis by (simp add: evictable_def buf_upd_def fresh_buf_def)
  next
    case False
    with snoc.prems f q x snoc.IH [OF seg, of f] show ?thesis by (auto simp: evictable_def)
  qed
qed

lemma bget_eq:
  assumes lru: "lru xs s" and wf: "cpu_wf s"
  shows "bget dev n s = (case find (is_block s dev n) xs of
      Some i \<Rightarrow> Inr (i, (settle s)\<lparr>bufs := (bufs s)(i := ref_buf (bufs s i))\<rparr>)
    | None \<Rightarrow> (case find (evictable s) (rev xs) of
        Some i \<Rightarrow> Inr (i, (settle s)\<lparr>bufs := (bufs s)(i := fresh_buf dev n (bufs s i))\<rparr>)
      | None \<Rightarrow> Inl (Panic ''bget: no buffers'')))"
proof -
  let ?s1 = "s\<lparr>eflags_if := False, intena := (if ncli s = 0 then eflags_if s else intena s),
    ncli := ncli s + 1\<rparr>"
  have seg: "dlseg (bufs ?s1) NBUF xs NBUF" and head: "NBUF \<notin> set xs" and len: "length xs < NBUF + 1"
    using lru lru_length [OF lru] by (auto simp: lru_def)
  have cpu: "0 < ncli ?s1" "\<not> eflags_if ?s1"
    using wf by (auto simp: cpu_wf_def)
  have "find (is_block ?s1 dev n) xs = find (is_block s dev n) xs"
    "find (evictable ?s1) (rev xs) = find (evictable s) (rev xs)"
    by (simp_all add: is_block_def [abs_def] evictable_def [abs_def])
  then show ?thesis
    using bget_hit_eq [OF seg head len cpu, of dev n] bget_recycle_eq [OF seg head len cpu, of dev n]
      wf
    by (auto simp add: bget_def settle_def cpu_wf_def simp del: bget_hit.simps bget_recycle.simps split: option.splits)
qed

section \<open>Moving a buffer to the front\<close>

definition unlink :: "(nat \<Rightarrow> buf) \<Rightarrow> nat \<Rightarrow> nat \<Rightarrow> buf" where
  "unlink B b = (let n = b_next (B b); p = b_prev (B b) in
     B(n := (B n)\<lparr>b_prev := p\<rparr>,
       p := ((B(n := (B n)\<lparr>b_prev := p\<rparr>)) p)\<lparr>b_next := n\<rparr>))"

definition push_front :: "(nat \<Rightarrow> buf) \<Rightarrow> nat \<Rightarrow> nat \<Rightarrow> nat \<Rightarrow> buf" where
  "push_front B p b = (let h = b_next (B p); B1 = B(b := (B b)\<lparr>b_next := h, b_prev := p\<rparr>);
     B2 = B1(h := (B1 h)\<lparr>b_prev := b\<rparr>) in B2(p := (B2 p)\<lparr>b_next := b\<rparr>))"

lemma unlink_links [simp]:
  "b_next (unlink B b x) = (if x = b_prev (B b) then b_next (B b) else b_next (B x))"
  "b_prev (unlink B b x) = (if x = b_next (B b) then b_prev (B b) else b_prev (B x))"
  by (simp_all add: unlink_def Let_def)

lemma dlseg_unlink:
  assumes "dlseg B p (us @ b # vs) q" "distinct (us @ b # vs)" "p \<notin> set (us @ b # vs)"
    "q \<notin> set (us @ b # vs)"
  shows "dlseg (unlink B b) p (us @ vs) q"
  using assms
proof (induction us arbitrary: p)
  case Nil
  then have l: "b_prev (B b) = p" "b_next (B b) = hd (vs @ [q])" "dlseg B b vs q"
    using dlseg_next by (auto simp: neq_Nil_conv)
  show ?case
  proof (cases vs)
    case Nil
    with l show ?thesis by (simp add: unlink_def Let_def)
  next
    case (Cons v ws)
    have "dlseg (unlink B b) v ws q = dlseg B v ws q"
      using Nil.prems l Cons by (intro dlseg_cong) auto
    moreover have "b_next (unlink B b p) = v" "b_prev (unlink B b v) = p"
      using l Cons by auto
    ultimately show ?thesis using l Cons by simp
  qed
next
  case (Cons u us)
  have seg: "dlseg B u (us @ b # vs) q" and pu: "b_next (B p) = u" "b_prev (B u) = p"
    using Cons.prems by auto
  have IH: "dlseg (unlink B b) u (us @ vs) q"
    using Cons.IH [OF seg] Cons.prems by auto
  have "b_prev (B b) = last (u # us)" "b_next (B b) = hd (vs @ [q])"
    using seg dlseg_prev dlseg_next unfolding dlseg_append by blast+
  then have "b_prev (B b) \<in> set (u # us)" "b_next (B b) \<in> insert q (set vs)"
    using last_in_set [of "u # us"] by (auto simp: hd_append split: if_splits)
  then have "p \<noteq> b_prev (B b)" "u \<noteq> b_next (B b)"
    using Cons.prems(2-4) by auto
  then have "b_next (unlink B b p) = u" "b_prev (unlink B b u) = p"
    by (simp_all only: unlink_links pu if_False)
  with IH show ?case by simp
qed

lemma dlseg_push_front:
  assumes "dlseg B p ys q" "distinct ys" "p \<notin> set ys" "q \<notin> set ys" "b \<notin> insert p (insert q (set ys))"
  shows "dlseg (push_front B p b) p (b # ys) q"
proof (cases ys)
  case Nil
  with assms show ?thesis by (auto simp: push_front_def Let_def)
next
  case (Cons y zs)
  have "dlseg (push_front B p b) y zs q = dlseg B y zs q"
    using assms Cons by (intro dlseg_cong) (auto simp: push_front_def Let_def)
  moreover have "b_next (push_front B p b p) = b" "b_prev (push_front B p b b) = p"
    "b_next (push_front B p b b) = y" "b_prev (push_front B p b y) = b"
    using assms Cons by (auto simp: push_front_def Let_def)
  ultimately show ?thesis using assms(1) Cons by simp
qed

definition same_payload :: "buf \<Rightarrow> buf \<Rightarrow> bool" where
  "same_payload x y \<longleftrightarrow> b_flags x = b_flags y \<and> b_dev x = b_dev y \<and> b_blockno x = b_blockno y \<and>
     b_refcnt x = b_refcnt y \<and> b_qnext x = b_qnext y \<and> b_data x = b_data y"

lemma unlink_payload: "same_payload (unlink B b i) (B i)"
  by (simp add: same_payload_def unlink_def Let_def)

lemma push_front_payload: "same_payload (push_front B p b i) (B i)"
  by (simp add: same_payload_def push_front_def Let_def)

lemma relink_payload: "same_payload (push_front (unlink B b) p b i) (B i)"
  using unlink_payload [of B b i] push_front_payload [of "unlink B b" p b i]
  by (simp add: same_payload_def)

definition unref_buf :: "buf \<Rightarrow> buf" where
  "unref_buf bp = bp\<lparr>b_refcnt := b_refcnt bp - 1\<rparr>"

lemma brelse_front_eq:
  assumes "b \<noteq> NBUF"
  shows "brelse_front b s = Inr ((), s\<lparr>bufs := push_front (unlink (bufs s) b) NBUF b\<rparr>)"
proof -
  define B n p where "B = bufs s" and "n = b_next (B b)" and "p = b_prev (B b)"
  define B1 where "B1 = B(n := (B n)\<lparr>b_prev := p\<rparr>)"
  have B1: "b_prev (B1 b) = p" "b_next (B1 b) = n"
    by (auto simp: B1_def n_def p_def)
  define B2 where "B2 = B1(p := (B1 p)\<lparr>b_next := n\<rparr>)"
  have B2: "B2 = unlink B b"
    by (simp add: B2_def B1_def unlink_def Let_def n_def p_def)
  define h where "h = b_next (B2 NBUF)"
  define B4 where "B4 = B2(b := (B2 b)\<lparr>b_next := h, b_prev := NBUF\<rparr>)"
  have h: "b_next (B4 NBUF) = h"
    using assms by (simp add: B4_def h_def)
  define B5 where "B5 = B4(h := (B4 h)\<lparr>b_prev := b\<rparr>)"
  have B5: "B5(NBUF := (B5 NBUF)\<lparr>b_next := b\<rparr>) = push_front B2 NBUF b"
    by (simp add: push_front_def Let_def B5_def B4_def h_def)
  have upd: "thenK (buf_upd i f) k t = k (t\<lparr>bufs := (bufs t)(i := f (bufs t i))\<rparr>)"
    "buf_upd i f t = Inr ((), t\<lparr>bufs := (bufs t)(i := f (bufs t i))\<rparr>)"
    for i f k and t :: "'a kblk_scheme"
    by (simp_all add: buf_upd_def)
  have B4': "B2(b := (B2 b)\<lparr>b_next := h\<rparr>, b := ((B2(b := (B2 b)\<lparr>b_next := h\<rparr>)) b)\<lparr>b_prev := NBUF\<rparr>) = B4"
    by (simp add: B4_def)
  have acc: "bufs (t\<lparr>bufs := C\<rparr>) = C" "t\<lparr>bufs := C, bufs := D\<rparr> = t\<lparr>bufs := D\<rparr>"
    for C D and t :: "'a kblk_scheme" by simp_all
  show ?thesis
    by (simp only: brelse_front_def bindK_getK upd acc B_def [symmetric] n_def [symmetric]
        p_def [symmetric] B1_def [symmetric] B1 B2_def [symmetric] h_def [symmetric] B4' h
        B5_def [symmetric] B5 B2 [symmetric])
qed

lemma brelse_eq:
  assumes wf: "cpu_wf s" and b: "b < NBUF"
  shows "brelse b s = Inr ((), (settle s)\<lparr>bufs :=
    (let B = (bufs s)(b := unref_buf (bufs s b)) in
     if b_refcnt (bufs s b) = 1 then push_front (unlink B b) NBUF b else B)\<rparr>)"
proof -
  have "b \<noteq> NBUF" using b by simp
  with wf show ?thesis
    by (auto simp: brelse_def buf_upd_def unref_buf_def Let_def settle_def cpu_wf_def brelse_front_eq)
qed

lemma lru_cong:
  "lru xs s \<Longrightarrow> (\<And>x. b_next (bufs t x) = b_next (bufs s x) \<and> b_prev (bufs t x) = b_prev (bufs s x)) \<Longrightarrow> lru xs t"
  unfolding lru_def using dlseg_cong [of NBUF xs "bufs t" "bufs s" NBUF] by simp

lemma lru_relink:
  assumes "lru xs s" "b < NBUF" "bufs t = push_front (unlink (bufs s) b) NBUF b"
  shows "lru (b # remove1 b xs) t"
proof -
  have xs: "dlseg (bufs s) NBUF xs NBUF" "distinct xs" "set xs = {..<NBUF}"
    using assms(1) by (auto simp: lru_def)
  then have "b \<in> set xs" using assms(2) by simp
  then obtain us vs where sp: "xs = us @ b # vs" "b \<notin> set us" by (meson split_list_first)
  have NB: "NBUF \<notin> set xs" using xs(3) by simp
  have "dlseg (unlink (bufs s) b) NBUF (us @ vs) NBUF"
    using xs(1,2) NB unfolding sp(1) by (rule dlseg_unlink) (use NB sp(1) in auto)
  then have "dlseg (bufs t) NBUF (b # us @ vs) NBUF"
    unfolding assms(3) using xs NB sp by (intro dlseg_push_front) auto
  moreover have "remove1 b xs = us @ vs" using sp by (simp add: remove1_append)
  moreover have "set (b # us @ vs) = set xs" using sp by auto
  ultimately show ?thesis
    using xs sp by (auto simp: lru_def)
qed

section \<open>Start-up\<close>

lemma binit_lru:
  "\<exists>t. binit s = Inr ((), t) \<and> lru (rev [0..<NBUF]) t \<and> (\<forall>i. same_payload (bufs t i) (bufs s i)) \<and>
     t = s\<lparr>bufs := bufs t\<rparr>"
proof -
  let ?B0 = "(bufs s)(NBUF := (bufs s NBUF)\<lparr>b_prev := NBUF, b_next := NBUF\<rparr>)"
  let ?s0 = "s\<lparr>bufs := ?B0\<rparr>"
  let ?I = "\<lambda>k t. dlseg (bufs t) NBUF (rev [0..<k]) NBUF \<and> (\<forall>i. same_payload (bufs t i) (bufs s i)) \<and>
     t = s\<lparr>bufs := bufs t\<rparr>"
  let ?body = "\<lambda>b. bindK (getK (\<lambda>s. b_next (bufs s NBUF))) (\<lambda>h.
       thenK (buf_upd b (\<lambda>bp. bp\<lparr>b_next := h\<rparr>)) (
       thenK (buf_upd b (\<lambda>bp. bp\<lparr>b_prev := NBUF\<rparr>)) (
       bindK (getK (\<lambda>s. b_next (bufs s NBUF))) (\<lambda>h'.
       thenK (buf_upd h' (\<lambda>bp. bp\<lparr>b_prev := b\<rparr>)) (
       buf_upd NBUF (\<lambda>h. h\<lparr>b_next := b\<rparr>))))))"
  have body: "?body b t = Inr ((), t\<lparr>bufs := push_front (bufs t) NBUF b\<rparr>)" if "b < NBUF" for b and t :: "'a kblk_scheme"
    using that by (simp add: buf_upd_def push_front_def Let_def)
  have "wpK (for_range 0 NBUF ?body) (\<lambda>_. ?I NBUF) ?s0"
  proof (rule wpK_for_range [where I = ?I])
    fix k and t :: "'a kblk_scheme"
    assume k: "k < NBUF" and I: "?I k t"
    have "dlseg (push_front (bufs t) NBUF k) NBUF (rev [0..<Suc k]) NBUF"
      using dlseg_push_front [of "bufs t" NBUF "rev [0..<k]" NBUF k] I k by simp
    moreover have "same_payload (push_front (bufs t) NBUF k i) (bufs s i)" for i
      using push_front_payload [of "bufs t" NBUF k i] I by (auto simp: same_payload_def)
    moreover have "t\<lparr>bufs := C\<rparr> = s\<lparr>bufs := C\<rparr>" for C
      using I by (metis kblk.update_convs(1) kblk.surjective)
    ultimately show "wpK (?body k) (\<lambda>_. ?I (Suc k)) t"
      by - (rule wpK_I, rule body [OF k], simp)
  next
    show "?I 0 ?s0" by (simp add: same_payload_def)
  qed simp
  then show ?thesis
    by (auto simp: wpK_iff binit_def buf_upd_def lru_def lessThan_atLeast0)
qed

section \<open>Properties\<close>

text \<open>
  C15: replacement. When the block is not cached, \<open>bget\<close> reuses the least recently used buffer among
  those that nobody holds and that the log has not pinned; the buffer is handed out empty, for the
  requested block and with one reference, and no other buffer is touched.
\<close>

theorem bget_recycles_lru:
  assumes "lru (us @ i # vs) s" "cpu_wf s" "\<forall>j<NBUF. \<not> is_block s dev n j"
    and "evictable s i" "\<forall>j\<in>set vs. \<not> evictable s j"
  shows "bget dev n s = Inr (i, (settle s)\<lparr>bufs := (bufs s)(i := fresh_buf dev n (bufs s i))\<rparr>)"
proof -
  have "find (is_block s dev n) (us @ i # vs) = None"
    using assms(1,3) by (auto simp: find_None_iff lru_def simp del: set_append)
  moreover have "find P (rev vs @ ys) = find P ys" if "\<forall>j\<in>set vs. \<not> P j" for P and ys :: "nat list"
    using that by (induction vs arbitrary: ys rule: rev_induct) auto
  then have "find (evictable s) (rev (us @ i # vs)) = Some i"
    using assms(4,5) by simp
  ultimately show ?thesis using bget_eq [OF assms(1,2), of dev n] by simp
qed

definition demo_blk :: kblk where
  "demo_blk = demo_ide\<lparr>idequeue := None, bufs := (\<lambda>_. \<lparr>b_flags = 0, b_dev = 0, b_blockno = 0, b_refcnt = 0,
     b_prev = 0, b_next = 0, b_qnext = None, b_data = replicate 512 0\<rparr>)\<rparr>"

lemma demo_blk_init:
  obtains t where "binit demo_blk = Inr ((), t)" "lru (rev [0..<NBUF]) t" "cpu_wf t"
    "\<And>i. b_dev (bufs t i) = 0 \<and> b_refcnt (bufs t i) = 0 \<and> b_flags (bufs t i) = 0"
proof -
  obtain t where t: "binit demo_blk = Inr ((), t)" "lru (rev [0..<NBUF]) t"
    "\<forall>i. same_payload (bufs t i) (bufs demo_blk i)" "t = demo_blk\<lparr>bufs := bufs t\<rparr>"
    using binit_lru by blast
  have "cpu_wf t" by (subst t(4)) (simp add: cpu_wf_def demo_blk_def demo_ide_def)
  moreover have "b_dev (bufs t i) = 0 \<and> b_refcnt (bufs t i) = 0 \<and> b_flags (bufs t i) = 0" for i
    using t(3) by (simp add: same_payload_def demo_blk_def)
  ultimately show ?thesis using that t by blast
qed

theorem bget_recycles_lru_witness:
  "\<exists>s t. binit demo_blk = Inr ((), s) \<and> bget 1 7 s = Inr (0, t) \<and> b_blockno (bufs t 0) = 7"
proof -
  obtain s where s: "binit demo_blk = Inr ((), s)" "lru (rev [0..<NBUF]) s" "cpu_wf s"
    "\<And>i. b_dev (bufs s i) = 0 \<and> b_refcnt (bufs s i) = 0 \<and> b_flags (bufs s i) = 0"
    by (rule demo_blk_init) blast
  have "rev [0..<NBUF] = rev [1..<NBUF] @ 0 # []"
    by (simp add: NBUF_def upt_conv_Cons)
  with s(2) have "lru (rev [1..<NBUF] @ 0 # []) s" by simp
  then have "bget 1 7 s = Inr (0, (settle s)\<lparr>bufs := (bufs s)(0 := fresh_buf 1 7 (bufs s 0))\<rparr>)"
    using s(3,4) by (intro bget_recycles_lru) (auto simp: is_block_def evictable_def)
  then show ?thesis using s(1) by (auto simp: fresh_buf_def)
qed

text \<open>
  C16: giving up the last reference moves the buffer to the front of the ring and leaves the order of
  the others; otherwise only the reference count changes.
\<close>

theorem brelse_most_recent:
  assumes "lru xs s" "cpu_wf s" "b < NBUF"
  shows "\<exists>t. brelse b s = Inr ((), t) \<and>
    lru (if b_refcnt (bufs s b) = 1 then b # remove1 b xs else xs) t \<and>
    (\<forall>i. same_payload (bufs t i) (if i = b then unref_buf (bufs s b) else bufs s i))"
proof -
  let ?B = "(bufs s)(b := unref_buf (bufs s b))"
  let ?t = "(settle s)\<lparr>bufs := (if b_refcnt (bufs s b) = 1 then push_front (unlink ?B b) NBUF b else ?B)\<rparr>"
  have run: "brelse b s = Inr ((), ?t)"
    using brelse_eq [OF assms(2,3)] by (simp add: Let_def)
  have B: "lru xs (s\<lparr>bufs := ?B\<rparr>)"
    by (rule lru_cong [OF assms(1)]) (simp add: unref_buf_def)
  have "lru (if b_refcnt (bufs s b) = 1 then b # remove1 b xs else xs) ?t"
  proof (cases "b_refcnt (bufs s b) = 1")
    case True
    then show ?thesis using lru_relink [OF B assms(3), of ?t] by simp
  next
    case False
    then show ?thesis by (intro lru_cong [OF B, THEN subst [of _ _ "\<lambda>ys. lru ys ?t", rotated]]) auto
  qed
  moreover have "same_payload (bufs ?t i) (if i = b then unref_buf (bufs s b) else bufs s i)" for i
    using relink_payload [of ?B b NBUF i] by (cases "i = b") (simp_all add: same_payload_def)
  ultimately show ?thesis using run by blast
qed

theorem brelse_most_recent_witness:
  "\<exists>s t u. binit demo_blk = Inr ((), s) \<and> bget 1 7 s = Inr (0, t) \<and> brelse 0 t = Inr ((), u) \<and>
     lru (0 # rev [1..<NBUF]) u"
proof -
  obtain s where s: "binit demo_blk = Inr ((), s)" "lru (rev [0..<NBUF]) s" "cpu_wf s"
    "\<And>i. b_dev (bufs s i) = 0 \<and> b_refcnt (bufs s i) = 0 \<and> b_flags (bufs s i) = 0"
    by (rule demo_blk_init) blast
  have rev: "rev [0..<NBUF] = rev [1..<NBUF] @ [0]" by (simp add: NBUF_def upt_conv_Cons)
  have none: "find (is_block s 1 7) (rev [0..<NBUF]) = None"
    using s(4) by (auto simp: find_None_iff is_block_def)
  have some: "find (evictable s) (rev (rev [0..<NBUF])) = Some 0"
    using s(4) by (simp add: NBUF_def upt_conv_Cons evictable_def)
  let ?t = "(settle s)\<lparr>bufs := (bufs s)(0 := fresh_buf 1 7 (bufs s 0))\<rparr>"
  have t: "bget 1 7 s = Inr (0, ?t)" using bget_eq [OF s(2,3), of 1 7] none some by simp
  have "lru (rev [0..<NBUF]) ?t" by (rule lru_cong [OF s(2)]) (simp add: fresh_buf_def)
  moreover have "cpu_wf ?t" using s(3) by (simp add: cpu_wf_def settle_def)
  moreover have "remove1 0 (rev [0..<NBUF]) = rev [1..<NBUF]"
    unfolding rev by (simp add: remove1_append)
  ultimately have "\<exists>u. brelse 0 ?t = Inr ((), u) \<and> lru (0 # rev [1..<NBUF]) u"
    using brelse_most_recent [of "rev [0..<NBUF]" ?t 0] by (auto simp: fresh_buf_def NBUF_def)
  then show ?thesis using s(1) t by blast
qed

end
