(* ===== verification/Bcache.thy ===== *)
theory Bcache
  imports Bio
begin

text \<open>
  The contract of the buffer cache. \<open>bc v D H s\<close> relates a state to three abstract values: the
  current contents \<open>v\<close> of each block of the file system's device, the set \<open>D\<close> of blocks whose
  buffer is marked dirty (their contents may differ from the disk), and the number \<open>H n\<close> of
  references the kernel holds to the buffer of block \<open>n\<close>. Each operation is specified by what it
  does to these values.
\<close>

definition ROOTDEV :: uint where "ROOTDEV = 1"

type_synonym block = "uchar list"

definition holds :: "'z kblk_scheme \<Rightarrow> nat \<Rightarrow> uint \<Rightarrow> bool" where
  "holds s i n \<longleftrightarrow> i < NBUF \<and> is_block s ROOTDEV n i"

definition unused :: "buf \<Rightarrow> bool" where
  "unused bp \<longleftrightarrow> b_dev bp = 0 \<and> b_flags bp = 0 \<and> b_refcnt bp = 0"

definition in_use :: "(uint \<Rightarrow> block) \<Rightarrow> uint set \<Rightarrow> (uint \<Rightarrow> nat) \<Rightarrow> buf \<Rightarrow> bool" where
  "in_use v D H bp \<longleftrightarrow> b_dev bp = ROOTDEV \<and> b_blockno bp < FSSIZE \<and> is_valid (b_flags bp) \<and>
     b_data bp = v (b_blockno bp) \<and> unat (b_refcnt bp) = H (b_blockno bp) \<and>
     (is_dirty (b_flags bp) \<longleftrightarrow> b_blockno bp \<in> D)"

definition bc :: "(uint \<Rightarrow> block) \<Rightarrow> uint set \<Rightarrow> (uint \<Rightarrow> nat) \<Rightarrow> 'z kblk_scheme \<Rightarrow> bool" where
  "bc v D H s \<longleftrightarrow> io_ok s \<and> (\<exists>xs. lru xs s) \<and>
     (\<forall>i<NBUF. length (b_data (bufs s i)) = 512 \<and> (unused (bufs s i) \<or> in_use v D H (bufs s i))) \<and>
     (\<forall>i j n. holds s i n \<longrightarrow> holds s j n \<longrightarrow> i = j) \<and>
     (\<forall>n. 0 < H n \<or> n \<in> D \<longrightarrow> (\<exists>i. holds s i n)) \<and>
     (\<forall>n. n \<notin> D \<longrightarrow> v n = disk s True n) \<and>
     (\<forall>n<FSSIZE. length (disk s True n) = 512)"

definition pinned :: "uint set \<Rightarrow> (uint \<Rightarrow> nat) \<Rightarrow> uint set" where
  "pinned D H = D \<union> {n. 0 < H n}"

lemma ROOTDEV_odd [simp]: "odd ROOTDEV" "ROOTDEV \<noteq> 0" "ROOTDEV = 0 \<longleftrightarrow> False"
  by (simp_all add: ROOTDEV_def)

lemma cpu_wf_io: "io_ok s \<Longrightarrow> cpu_wf s"
  by (simp add: io_ok_def cpu_wf_def)

lemma settle_more [simp]:
  "bufs (settle s) = bufs s" "disk (settle s) = disk s" "dwrites (settle s) = dwrites s"
  "blk_frame s (settle s)" "blk_frame s (settle s\<lparr>bufs := B\<rparr>)" "io_ok (settle s) = io_ok s"
  by (simp_all add: settle_def blk_frame_def io_ok_def ide_ready_def)

lemma bcD:
  assumes "bc v D H s"
  shows "io_ok s" "\<exists>xs. lru xs s"
    "i < NBUF \<Longrightarrow> length (b_data (bufs s i)) = 512"
    "i < NBUF \<Longrightarrow> unused (bufs s i) \<or> in_use v D H (bufs s i)"
    "holds s i n \<Longrightarrow> holds s j n \<Longrightarrow> i = j"
    "n \<in> pinned D H \<Longrightarrow> \<exists>i. holds s i n"
    "n \<notin> D \<Longrightarrow> v n = disk s True n"
    "n < FSSIZE \<Longrightarrow> length (disk s True n) = 512"
  using assms unfolding bc_def pinned_def by blast+

lemma bc_holds:
  assumes "bc v D H s" "holds s i n"
  shows "i < NBUF" "b_dev (bufs s i) = ROOTDEV" "b_blockno (bufs s i) = n" "n < FSSIZE"
    "is_valid (b_flags (bufs s i))" "b_data (bufs s i) = v n" "unat (b_refcnt (bufs s i)) = H n"
    "is_dirty (b_flags (bufs s i)) \<longleftrightarrow> n \<in> D" "length (v n) = 512"
proof -
  have i: "i < NBUF" "b_dev (bufs s i) = ROOTDEV" "b_blockno (bufs s i) = n"
    using assms(2) by (auto simp: holds_def is_block_def)
  then have "in_use v D H (bufs s i)" using bcD(4) [OF assms(1) i(1)] by (auto simp: unused_def)
  then show "i < NBUF" "b_dev (bufs s i) = ROOTDEV" "b_blockno (bufs s i) = n" "n < FSSIZE"
    "is_valid (b_flags (bufs s i))" "b_data (bufs s i) = v n" "unat (b_refcnt (bufs s i)) = H n"
    "is_dirty (b_flags (bufs s i)) \<longleftrightarrow> n \<in> D" "length (v n) = 512"
    using i bcD(3) [OF assms(1) i(1)] by (auto simp: in_use_def)
qed

lemma bc_length: "bc v D H s \<Longrightarrow> n < FSSIZE \<Longrightarrow> length (v n) = 512"
  using bcD(6,7,8) bc_holds(9) by (cases "n \<in> D") (fastforce simp: pinned_def)+

lemma pinned_finite:
  assumes "bc v D H s"
  shows "finite (pinned D H)"
proof -
  have "pinned D H \<subseteq> (\<lambda>i. b_blockno (bufs s i)) ` {..<NBUF}"
  proof
    fix n assume "n \<in> pinned D H"
    then obtain i where "holds s i n" using bcD(6) [OF assms] by blast
    then show "n \<in> (\<lambda>i. b_blockno (bufs s i)) ` {..<NBUF}" by (auto simp: holds_def is_block_def)
  qed
  then show ?thesis by (rule finite_subset) simp
qed

text \<open>Unless \<open>NBUF\<close> blocks are pinned, some buffer can be recycled.\<close>

lemma evictable_exists:
  assumes bc: "bc v D H s" and card: "card (pinned D H) < NBUF"
  shows "\<exists>i<NBUF. evictable s i"
proof (rule ccontr)
  assume none: "\<not> (\<exists>i<NBUF. evictable s i)"
  let ?f = "\<lambda>i. b_blockno (bufs s i)"
  have use: "in_use v D H (bufs s i) \<and> ?f i \<in> pinned D H" if "i < NBUF" for i
  proof -
    have ne: "\<not> evictable s i" using none that by blast
    then have "\<not> unused (bufs s i)" by (auto simp: evictable_def unused_def)
    then have u: "in_use v D H (bufs s i)" using bcD(4) [OF bc that] by blast
    then show ?thesis using ne
      by (auto simp: evictable_def in_use_def pinned_def simp flip: unat_eq_0)
  qed
  then have "holds s i (?f i)" if "i < NBUF" for i
    using that by (auto simp: holds_def is_block_def in_use_def)
  then have "inj_on ?f {..<NBUF}"
    using bcD(5) [OF bc] by (intro inj_onI) (metis lessThan_iff)
  then have "card {..<NBUF} \<le> card (pinned D H)"
    using use pinned_finite [OF bc] by (intro card_inj_on_le [of ?f]) auto
  with card show False by simp
qed

section \<open>Changing one buffer\<close>

definition same_block :: "buf \<Rightarrow> buf \<Rightarrow> bool" where
  "same_block x y \<longleftrightarrow> b_flags x = b_flags y \<and> b_dev x = b_dev y \<and> b_blockno x = b_blockno y \<and>
     b_refcnt x = b_refcnt y \<and> b_data x = b_data y"

lemma same_block_refl [simp]: "same_block x x"
  by (simp add: same_block_def)

lemma same_payload_block: "same_payload x y \<Longrightarrow> same_block x y"
  by (simp add: same_payload_def same_block_def)

lemma same_block_holds: "same_block (bufs t j) (bufs s j) \<Longrightarrow> holds t j m \<longleftrightarrow> holds s j m"
  by (simp add: same_block_def holds_def is_block_def)

lemma bc_change:
  assumes bc: "bc v D H s" and io: "io_ok t" and lru: "lru xs t" and i: "i < NBUF"
    and others: "\<And>j. j < NBUF \<Longrightarrow> j \<noteq> i \<Longrightarrow> same_block (bufs t j) (bufs s j)"
    and new: "in_use v' D' H' (bufs t i)" "b_blockno (bufs t i) = n" "length (b_data (bufs t i)) = 512"
    and uniq: "\<And>j. holds s j n \<Longrightarrow> j = i"
    and old: "\<And>m. holds s i m \<Longrightarrow> m \<noteq> n \<Longrightarrow> m \<notin> pinned D H"
    and elsewhere: "\<And>m. m \<noteq> n \<Longrightarrow> v' m = v m \<and> (m \<in> D' \<longleftrightarrow> m \<in> D) \<and> H' m = H m"
    and dsk: "\<And>m. m \<noteq> n \<Longrightarrow> disk t True m = disk s True m"
      "n \<notin> D' \<Longrightarrow> v' n = disk t True n" "length (disk t True n) = 512"
  shows "bc v' D' H' t"
  unfolding bc_def
proof (intro conjI allI impI)
  show "io_ok t" by fact
  show "\<exists>xs. lru xs t" using lru by blast
  fix j assume j: "j < NBUF"
  show "length (b_data (bufs t j)) = 512"
    using new(3) others [OF j] bcD(3) [OF bc j] by (cases "j = i") (auto simp: same_block_def)
  show "unused (bufs t j) \<or> in_use v' D' H' (bufs t j)"
  proof (cases "j = i")
    case False
    have "b_blockno (bufs s j) \<noteq> n" if "in_use v D H (bufs s j)"
      using that uniq [of j] j False by (auto simp: holds_def is_block_def in_use_def)
    then show ?thesis
      using others [OF j False] bcD(4) [OF bc j] elsewhere
      by (auto simp: same_block_def unused_def in_use_def)
  qed (use new in simp)
next
  fix j k m assume "holds t j m" "holds t k m"
  then show "j = k"
    using new i others uniq bcD(5) [OF bc]
    by (cases "j = i"; cases "k = i")
       (auto simp: holds_def is_block_def in_use_def same_block_def)
next
  fix m assume m: "0 < H' m \<or> m \<in> D'"
  show "\<exists>j. holds t j m"
  proof (cases "m = n")
    case True
    then show ?thesis using new i by (auto simp: holds_def is_block_def in_use_def)
  next
    case False
    then have "m \<in> pinned D H" using m elsewhere by (auto simp: pinned_def)
    moreover from this obtain j where j: "holds s j m" using bcD(6) [OF bc] by blast
    ultimately have "j \<noteq> i" using old False by blast
    with j others have "holds t j m" by (auto simp: holds_def is_block_def same_block_def)
    then show ?thesis ..
  qed
next
  fix m assume "m \<notin> D'"
  then show "v' m = disk t True m"
    using elsewhere dsk bcD(7) [OF bc] by (cases "m = n") auto
next
  fix m :: uint assume "m < FSSIZE"
  then show "length (disk t True m) = 512"
    using dsk bcD(8) [OF bc] by (cases "m = n") auto
qed

section \<open>The operations\<close>

lemma bread_hit:
  assumes bc: "bc v D H s" and h: "holds s i n" and fit: "H n + 1 < 2 ^ 32"
  shows "\<exists>t. bread ROOTDEV n s = Inr (i, t) \<and> bc v D (H(n := H n + 1)) t \<and>
    disk t = disk s \<and> dwrites t = dwrites s \<and> blk_frame s t \<and> (\<forall>j m. holds s j m \<longrightarrow> holds t j m)"
proof -
  obtain xs where xs: "lru xs s" using bcD(2) [OF bc] by blast
  note hi = bc_holds [OF bc h]
  have "find (is_block s ROOTDEV n) xs = Some i"
  proof -
    have "i \<in> set xs" using xs hi(1) by (auto simp: lru_def)
    then obtain j where j: "find (is_block s ROOTDEV n) xs = Some j"
      using h by (cases "find (is_block s ROOTDEV n) xs") (auto simp: find_None_iff holds_def)
    then have "is_block s ROOTDEV n j" "j \<in> set xs"
      by (auto simp: find_Some_iff)
    then have "holds s j n" using xs by (auto simp: lru_def holds_def)
    then show ?thesis using j bcD(5) [OF bc h] by simp
  qed
  then have bget: "bget ROOTDEV n s = Inr (i, (settle s)\<lparr>bufs := (bufs s)(i := ref_buf (bufs s i))\<rparr>)"
    using bget_eq [OF xs cpu_wf_io [OF bcD(1) [OF bc]], of ROOTDEV n] by simp
  let ?t = "(settle s)\<lparr>bufs := (bufs s)(i := ref_buf (bufs s i))\<rparr>"
  have "bread ROOTDEV n s = Inr (i, ?t)"
    using bget hi(5) by (simp add: bread_def ref_buf_def)
  moreover have "bc v D (H(n := H n + 1)) ?t"
  proof (rule bc_change [OF bc, where i = i and n = n])
    show "io_ok ?t" using bcD(1) [OF bc] blk_frame_io settle_more(5) by blast
    show "lru xs ?t" by (rule lru_cong [OF xs]) (simp add: ref_buf_def)
    show "in_use v D (H(n := H n + 1)) (bufs ?t i)"
      using hi fit by (simp add: in_use_def ref_buf_def unat_add_uint)
    show "n \<notin> D \<Longrightarrow> v n = disk ?t True n" using bcD(7) [OF bc] by simp
    show "length (disk ?t True n) = 512" using bcD(8) [OF bc hi(4)] by simp
    show "length (b_data (bufs ?t i)) = 512" using bcD(3) [OF bc hi(1)] by (simp add: ref_buf_def)
    show "\<And>j. holds s j n \<Longrightarrow> j = i" using bcD(5) [OF bc] h by blast
    show "\<And>m. holds s i m \<Longrightarrow> m \<noteq> n \<Longrightarrow> m \<notin> pinned D H" using hi by (auto simp: holds_def is_block_def)
  qed (use hi in \<open>auto simp: ref_buf_def\<close>)
  ultimately show ?thesis
    by (intro exI [of _ ?t]) (auto simp: holds_def is_block_def ref_buf_def)
qed

lemma bread_miss:
  assumes bc: "bc v D H s" and h: "\<And>i. \<not> holds s i n" and n: "n < FSSIZE"
    and room: "card (pinned D H) < NBUF"
  shows "\<exists>i t. bread ROOTDEV n s = Inr (i, t) \<and> holds t i n \<and> bc v D (H(n := H n + 1)) t \<and>
    disk t = disk s \<and> dwrites t = dwrites s \<and> blk_frame s t \<and>
    (\<forall>j m. holds s j m \<longrightarrow> m \<in> pinned D H \<longrightarrow> holds t j m)"
proof -
  obtain xs where xs: "lru xs s" using bcD(2) [OF bc] by blast
  have nH: "H n = 0" "n \<notin> D" using bcD(6) [OF bc, of n] h by (auto simp: pinned_def)
  have none: "find (is_block s ROOTDEV n) xs = None"
    using h xs by (auto simp: find_None_iff holds_def lru_def)
  obtain e where e: "e < NBUF" "evictable s e" using evictable_exists [OF bc room] by blast
  then have "find (evictable s) (rev xs) \<noteq> None"
    using xs by (auto simp: find_None_iff lru_def)
  then obtain i where i: "find (evictable s) (rev xs) = Some i" by auto
  then have ev: "evictable s i" "i < NBUF"
    using xs by (auto simp: find_Some_iff lru_def) (metis lessThan_iff length_rev nth_mem set_rev)
  let ?bp = "fresh_buf ROOTDEV n (bufs s i)"
  let ?s1 = "(settle s)\<lparr>bufs := (bufs s)(i := ?bp)\<rparr>"
  have bget: "bget ROOTDEV n s = Inr (i, ?s1)"
    using bget_eq [OF xs cpu_wf_io [OF bcD(1) [OF bc]], of ROOTDEV n] none i by simp
  have io: "io_ok ?s1" using bcD(1) [OF bc] blk_frame_io settle_more(5) by blast
  obtain t where t: "iderw i ?s1 = Inr ((), t)" "blk_frame ?s1 t" "disk t = disk s" "dwrites t = dwrites s"
    "bufs t = (bufs s)(i := ?bp\<lparr>b_qnext := None, b_data := disk s True n, b_flags := done_flags 0\<rparr>)"
    using iderw_idle [OF io, of i] n by (auto simp: pending_def fresh_buf_def ide_disk_def ide_writes_def Let_def)
  have run: "bread ROOTDEV n s = Inr (i, t)"
    using bget t(1) by (simp add: bread_def fresh_buf_def)
  have frame: "blk_frame s t" using blk_frame_trans [OF _ t(2)] by simp
  have oldi: "m \<notin> pinned D H" if "holds s i m" for m
    using bc_holds [OF bc that] ev(1) by (auto simp: evictable_def pinned_def simp flip: unat_eq_0)
  have "bc v D (H(n := H n + 1)) t"
  proof (rule bc_change [OF bc, where i = i and n = n])
    show "io_ok t" using blk_frame_io [OF frame bcD(1) [OF bc]] .
    show "lru xs t" by (rule lru_cong [OF xs]) (simp add: t(5) fresh_buf_def)
    show "in_use v D (H(n := H n + 1)) (bufs t i)"
      using n nH bcD(7) [OF bc, of n] by (simp add: t(5) in_use_def fresh_buf_def)
    show "length (b_data (bufs t i)) = 512" using bcD(8) [OF bc n] by (simp add: t(5))
    show "\<And>m. holds s i m \<Longrightarrow> m \<noteq> n \<Longrightarrow> m \<notin> pinned D H" using oldi by blast
    show "n \<notin> D \<Longrightarrow> v n = disk t True n" using bcD(7) [OF bc] t(3) by simp
    show "length (disk t True n) = 512" using bcD(8) [OF bc n] t(3) by simp
  qed (use ev h t in \<open>auto simp: fresh_buf_def\<close>)
  moreover have "holds t i n" using ev by (simp add: holds_def is_block_def t(5) fresh_buf_def)
  moreover have "holds t j m" if "holds s j m" "m \<in> pinned D H" for j m
  proof -
    have "j \<noteq> i" using oldi that by blast
    with that(1) show ?thesis by (simp add: holds_def is_block_def t(5))
  qed
  ultimately show ?thesis using run t frame by blast
qed

lemma bread_spec:
  assumes bc: "bc v D H s" and n: "n < FSSIZE" and fit: "H n + 1 < 2 ^ 32"
    and room: "n \<in> pinned D H \<or> card (pinned D H) < NBUF"
  shows "\<exists>i t. bread ROOTDEV n s = Inr (i, t) \<and> holds t i n \<and> bc v D (H(n := H n + 1)) t \<and>
    disk t = disk s \<and> dwrites t = dwrites s \<and> blk_frame s t \<and>
    (\<forall>j m. holds s j m \<longrightarrow> m \<in> pinned D H \<longrightarrow> holds t j m)"
proof (cases "\<exists>i. holds s i n")
  case True
  then obtain i where "holds s i n" by blast
  with bread_hit [OF bc this fit] show ?thesis by blast
next
  case False
  then show ?thesis using bread_miss [OF bc _ n] room bcD(6) [OF bc, of n] by blast
qed

lemma brelse_spec:
  assumes bc: "bc v D H s" and h: "holds s i n" and ref: "0 < H n"
  shows "\<exists>t. brelse i s = Inr ((), t) \<and> bc v D (H(n := H n - 1)) t \<and>
    disk t = disk s \<and> dwrites t = dwrites s \<and> blk_frame s t \<and> (\<forall>j m. holds s j m \<longrightarrow> holds t j m)"
proof -
  obtain xs where xs: "lru xs s" using bcD(2) [OF bc] by blast
  note hi = bc_holds [OF bc h]
  define B where "B = (bufs s)(i := unref_buf (bufs s i))"
  define C where "C = (if b_refcnt (bufs s i) = 1 then push_front (unlink B i) NBUF i else B)"
  let ?t = "(settle s)\<lparr>bufs := C\<rparr>"
  have run: "brelse i s = Inr ((), ?t)"
    using brelse_eq [OF cpu_wf_io [OF bcD(1) [OF bc]] hi(1)] by (simp add: C_def B_def Let_def)
  have C: "same_block (C j) (B j)" for j
    using same_payload_block [OF relink_payload [of B i NBUF j]] by (simp add: C_def)
  have lruB: "lru xs (s\<lparr>bufs := B\<rparr>)"
    by (rule lru_cong [OF xs]) (simp add: B_def unref_buf_def)
  have lru: "\<exists>ys. lru ys ?t"
  proof (cases "b_refcnt (bufs s i) = 1")
    case True
    then have "lru (i # remove1 i xs) ?t"
      using lru_relink [OF lruB hi(1), of ?t] by (simp add: C_def)
    then show ?thesis ..
  next
    case False
    then have "lru xs ?t" by (intro lru_cong [OF lruB]) (simp add: C_def)
    then show ?thesis ..
  qed
  then obtain ys where ys: "lru ys ?t" by blast
  have "b_refcnt (bufs s i) \<noteq> 0" using hi(7) ref by auto
  then have "unat (b_refcnt (bufs s i) - 1) = H n - 1"
    using hi(7) by (simp add: unat_minus_one)
  then have use: "in_use v D (H(n := H n - 1)) (C i)" "b_blockno (C i) = n" "length (b_data (C i)) = 512"
    using C [of i] hi bcD(3) [OF bc hi(1)]
    by (auto simp: same_block_def B_def unref_buf_def in_use_def)
  have "bc v D (H(n := H n - 1)) ?t"
  proof (rule bc_change [OF bc, where i = i and n = n, OF _ ys])
    show "io_ok ?t" using bcD(1) [OF bc] blk_frame_io settle_more(5) by blast
    show "same_block (bufs ?t j) (bufs s j)" if "j < NBUF" "j \<noteq> i" for j
      using C [of j] that by (simp add: B_def)
    show "\<And>j. holds s j n \<Longrightarrow> j = i" using bcD(5) [OF bc] h by blast
    show "\<And>m. holds s i m \<Longrightarrow> m \<noteq> n \<Longrightarrow> m \<notin> pinned D H" using hi by (auto simp: holds_def is_block_def)
    show "n \<notin> D \<Longrightarrow> v n = disk ?t True n" using bcD(7) [OF bc] by simp
    show "length (disk ?t True n) = 512" using bcD(8) [OF bc hi(4)] by simp
  qed (use hi use in auto)
  moreover have "holds ?t j m" if "holds s j m" for j m
    using that C [of j] by (auto simp: holds_def is_block_def same_block_def B_def unref_buf_def split: if_splits)
  ultimately show ?thesis using run by (intro exI [of _ ?t]) auto
qed

text \<open>\<open>bdata b f\<close> is an assignment through \<^verbatim>\<open>b->data\<close>.\<close>

definition bdata :: "nat \<Rightarrow> (block \<Rightarrow> block) \<Rightarrow> ('z kblk_scheme, unit) kern" where
  "bdata b f = buf_upd b (\<lambda>bp. bp\<lparr>b_data := f (b_data bp)\<rparr>)"

lemma bc_overwrite:
  assumes bc: "bc v D H s" and h: "holds s i n" and x: "length x = 512"
    and io: "io_ok t" and B: "same_payload (bufs t i) ((bufs s i)\<lparr>b_data := x, b_flags := f, b_qnext := q\<rparr>)"
      "b_next (bufs t i) = b_next (bufs s i)" "b_prev (bufs t i) = b_prev (bufs s i)"
      "\<And>j. j \<noteq> i \<Longrightarrow> bufs t j = bufs s j"
    and f: "is_valid f" "is_dirty f \<longleftrightarrow> n \<in> D'" and D: "\<And>m. m \<noteq> n \<Longrightarrow> m \<in> D' \<longleftrightarrow> m \<in> D"
    and dsk: "\<And>m. m \<noteq> n \<Longrightarrow> disk t True m = disk s True m" "n \<notin> D' \<Longrightarrow> x = disk t True n"
      "length (disk t True n) = 512"
  shows "bc (v(n := x)) D' H t" and "\<forall>j m. holds s j m \<longrightarrow> holds t j m"
proof -
  obtain xs where xs: "lru xs s" using bcD(2) [OF bc] by blast
  note hi = bc_holds [OF bc h]
  have lru: "lru xs t" by (rule lru_cong [OF xs]) (metis B(2-4))
  show "bc (v(n := x)) D' H t"
  proof (rule bc_change [OF bc io lru hi(1), where n = n])
    show "in_use (v(n := x)) D' H (bufs t i)" "b_blockno (bufs t i) = n" "length (b_data (bufs t i)) = 512"
      using hi B(1) f x by (auto simp: in_use_def same_payload_def)
    show "\<And>j. holds s j n \<Longrightarrow> j = i" using bcD(5) [OF bc] h by blast
    show "\<And>m. holds s i m \<Longrightarrow> m \<noteq> n \<Longrightarrow> m \<notin> pinned D H" using hi by (auto simp: holds_def is_block_def)
  qed (use B D dsk in auto)
  have "holds t j m" if "holds s j m" for j m
    using that B(1) B(4) [of j]
    by (cases "j = i") (auto simp: holds_def is_block_def same_payload_def)
  then show "\<forall>j m. holds s j m \<longrightarrow> holds t j m" by blast
qed

lemma bc_mark:
  assumes bc: "bc v D H s" and h: "holds s i n" and x: "length x = 512"
    and io: "io_ok t" and B: "bufs t = (bufs s)(i := (bufs s i)\<lparr>b_data := x, b_flags := b_flags (bufs s i) OR B_DIRTY\<rparr>)"
    and dsk: "disk t = disk s"
  shows "bc (v(n := x)) (insert n D) H t" and "\<forall>j m. holds s j m \<longrightarrow> holds t j m"
proof -
  note hi = bc_holds [OF bc h]
  show "bc (v(n := x)) (insert n D) H t" "\<forall>j m. holds s j m \<longrightarrow> holds t j m"
    by (rule bc_overwrite [OF bc h x io, where f = "b_flags (bufs s i) OR B_DIRTY" and q = "b_qnext (bufs s i)"
          and D' = "insert n D"];
        use hi bcD(8) [OF bc hi(4)] in \<open>simp add: B dsk same_payload_def bit_or_iff\<close>)+
qed

lemma bwrite_spec:
  assumes bc: "bc v D H s" and h: "holds s i n" and x: "length x = 512"
  shows "\<exists>t. thenK (bdata i (\<lambda>_. x)) (bwrite i) s = Inr ((), t) \<and> bc (v(n := x)) (D - {n}) H t \<and>
    disk t = (disk s)(True := (disk s True)(n := x)) \<and> dwrites t = dwrites s @ [(True, n, x)] \<and>
    blk_frame s t \<and> (\<forall>j m. holds s j m \<longrightarrow> holds t j m)"
proof -
  note hi = bc_holds [OF bc h]
  let ?fl = "b_flags (bufs s i) OR B_DIRTY"
  let ?s1 = "s\<lparr>bufs := (bufs s)(i := (bufs s i)\<lparr>b_data := x, b_flags := ?fl\<rparr>)\<rparr>"
  have io: "io_ok ?s1" using bcD(1) [OF bc] by (simp add: io_ok_def ide_ready_def)
  have dirty: "is_dirty ?fl" by (simp add: bit_or_iff)
  obtain t where t: "iderw i ?s1 = Inr ((), t)" "blk_frame ?s1 t"
    "disk t = (disk s)(True := (disk s True)(n := x))" "dwrites t = dwrites s @ [(True, n, x)]"
    "bufs t = (bufs s)(i := (bufs s i)\<lparr>b_qnext := None, b_data := x, b_flags := done_flags ?fl\<rparr>)"
    using iderw_idle [OF io, of i] hi dirty
    by (auto simp: pending_def ide_disk_def ide_writes_def Let_def)
  have run: "thenK (bdata i (\<lambda>_. x)) (bwrite i) s = Inr ((), t)"
    using t(1) by (simp add: bdata_def buf_upd_def bwrite_def)
  have frame: "blk_frame s t" using t(2) by (simp add: blk_frame_def)
  have "bc (v(n := x)) (D - {n}) H t" "\<forall>j m. holds s j m \<longrightarrow> holds t j m"
    by (rule bc_overwrite [OF bc h x blk_frame_io [OF frame bcD(1) [OF bc]],
          where f = "done_flags ?fl" and q = None and D' = "D - {n}"];
        use hi x in \<open>simp add: t(3,5) same_payload_def\<close>)+
  with run t frame show ?thesis by blast
qed

text \<open>
  The cache once \<open>binit\<close> has run and interrupts are on: nothing cached, every block as the disk has it.
\<close>

lemma binit_bc:
  assumes io: "io_ok (s\<lparr>eflags_if := True\<rparr>)"
    and zero: "\<And>i. i < NBUF \<Longrightarrow> unused (bufs s i) \<and> length (b_data (bufs s i)) = 512"
    and dsk: "\<And>n. n < FSSIZE \<Longrightarrow> length (disk s True n) = 512"
  shows "\<exists>t. thenK binit sti s = Inr ((), t) \<and> bc (disk s True) {} (\<lambda>_. 0) t \<and> disk t = disk s \<and>
    dwrites t = dwrites s \<and> blk_frame (s\<lparr>eflags_if := True\<rparr>) t"
proof -
  obtain t where t: "binit s = Inr ((), t)" "lru (rev [0..<NBUF]) t"
    "\<forall>i. same_payload (bufs t i) (bufs s i)" "t = s\<lparr>bufs := bufs t\<rparr>"
    using binit_lru by blast
  let ?t = "t\<lparr>eflags_if := True\<rparr>"
  have eq: "disk ?t = disk s" "dwrites ?t = dwrites s" "blk_frame (s\<lparr>eflags_if := True\<rparr>) ?t"
    by (subst t(4), simp add: blk_frame_def)+
  have "unused (bufs ?t i) \<and> length (b_data (bufs ?t i)) = 512" if "i < NBUF" for i
    using zero [OF that] t(3) by (auto simp: unused_def same_payload_def)
  moreover from this have "\<not> holds ?t i n" for i n
    by (auto simp: holds_def is_block_def unused_def)
  moreover have "lru (rev [0..<NBUF]) ?t" using t(2) by (simp add: lru_def)
  ultimately have "bc (disk s True) {} (\<lambda>_. 0) ?t"
    unfolding bc_def using blk_frame_io [OF eq(3) io] eq dsk by auto
  with t(1) eq show ?thesis by (intro exI [of _ ?t]) (simp add: sti_def)
qed

section \<open>Rules for symbolic execution\<close>

text \<open>
  \<open>bst v D H d W r s\<close> adds to \<open>bc\<close> the contents \<open>d\<close> of the disk, the writes \<open>W\<close> made so far and
  the part \<open>r\<close> of the state the cache does not touch.
\<close>

definition rest :: "'z kblk_scheme \<Rightarrow> memory \<times> uint \<times> 'z" where
  "rest s = (mem s, freelist s, kblk.more s)"

definition bst ::
  "(uint \<Rightarrow> block) \<Rightarrow> uint set \<Rightarrow> (uint \<Rightarrow> nat) \<Rightarrow> (uint \<Rightarrow> block) \<Rightarrow>
   (bool \<times> uint \<times> block) list \<Rightarrow> memory \<times> uint \<times> 'z \<Rightarrow> 'z kblk_scheme \<Rightarrow> bool" where
  "bst v D H d W r s \<longleftrightarrow> bc v D H s \<and> disk s True = d \<and> dwrites s = W \<and> rest s = r"

lemma blk_frame_rest: "blk_frame s t \<Longrightarrow> rest t = rest s"
  by (simp add: blk_frame_def rest_def)

lemma bread_wp:
  assumes "bst v D H d W r s" "n < FSSIZE" "H n + 1 < 2 ^ 32" "n \<in> pinned D H \<or> card (pinned D H) < NBUF"
    and Q: "\<And>i t. \<lbrakk>bst v D (H(n := Suc (H n))) d W r t; holds t i n;
      \<And>j m. holds s j m \<Longrightarrow> m \<in> pinned D H \<Longrightarrow> holds t j m\<rbrakk> \<Longrightarrow> Q i t"
  shows "wpK (bread ROOTDEV n) Q s"
proof -
  have bc: "bc v D H s" using assms(1) by (simp add: bst_def)
  obtain i t where t: "bread ROOTDEV n s = Inr (i, t)" "holds t i n" "bc v D (H(n := H n + 1)) t"
    "disk t = disk s" "dwrites t = dwrites s" "blk_frame s t"
    "\<forall>j m. holds s j m \<longrightarrow> m \<in> pinned D H \<longrightarrow> holds t j m"
    using bread_spec [OF bc assms(2-4)] by blast
  have "Q i t"
    using t assms(1) blk_frame_rest [OF t(6)] by (intro Q) (auto simp: bst_def)
  with t(1) show ?thesis by (simp add: wpK_iff)
qed

lemma brelse_wp:
  assumes "bst v D H d W r s" "holds s i n" "0 < H n"
    and Q: "\<And>t. \<lbrakk>bst v D (H(n := H n - 1)) d W r t; \<And>j m. holds s j m \<Longrightarrow> holds t j m\<rbrakk> \<Longrightarrow> Q () t"
  shows "wpK (brelse i) Q s"
proof -
  have bc: "bc v D H s" using assms(1) by (simp add: bst_def)
  obtain t where t: "brelse i s = Inr ((), t)" "bc v D (H(n := H n - 1)) t"
    "disk t = disk s" "dwrites t = dwrites s" "blk_frame s t" "\<forall>j m. holds s j m \<longrightarrow> holds t j m"
    using brelse_spec [OF bc assms(2,3)] by blast
  have "Q () t"
    using t assms(1) blk_frame_rest [OF t(5)] by (intro Q) (auto simp: bst_def)
  with t(1) show ?thesis by (simp add: wpK_iff)
qed

lemma bwrite_wp:
  assumes "bst v D H d W r s" "holds s i n" "length x = 512"
    and Q: "\<And>t. \<lbrakk>bst (v(n := x)) (D - {n}) H (d(n := x)) (W @ [(True, n, x)]) r t;
      \<And>j m. holds s j m \<Longrightarrow> holds t j m\<rbrakk> \<Longrightarrow> Q () t"
  shows "wpK (thenK (bdata i (\<lambda>_. x)) (bwrite i)) Q s"
proof -
  have bc: "bc v D H s" using assms(1) by (simp add: bst_def)
  obtain t where t: "thenK (bdata i (\<lambda>_. x)) (bwrite i) s = Inr ((), t)" "bc (v(n := x)) (D - {n}) H t"
    "disk t = (disk s)(True := (disk s True)(n := x))" "dwrites t = dwrites s @ [(True, n, x)]"
    "blk_frame s t" "\<forall>j m. holds s j m \<longrightarrow> holds t j m"
    using bwrite_spec [OF bc assms(2,3)] by blast
  have "Q () t"
    using t assms(1) blk_frame_rest [OF t(5)] by (intro Q) (auto simp: bst_def)
  with t(1) show ?thesis unfolding wpK_iff by blast
qed

lemma bst_data: "bst v D H d W r s \<Longrightarrow> holds s i n \<Longrightarrow> b_data (bufs s i) = v n"
  using bc_holds(6) by (auto simp: bst_def)

lemma bst_length: "bst v D H d W r s \<Longrightarrow> n < FSSIZE \<Longrightarrow> length (v n) = 512"
  using bc_length by (auto simp: bst_def)

lemma card_pinned_insert:
  assumes "bst v D H d W r s" "card (pinned D H) < k"
  shows "card (pinned D (H(n := Suc (H n)))) \<le> k"
proof -
  have "pinned D (H(n := Suc (H n))) \<subseteq> insert n (pinned D H)" by (auto simp: pinned_def)
  moreover have fin: "finite (pinned D H)" using assms(1) pinned_finite by (auto simp: bst_def)
  ultimately have "card (pinned D (H(n := Suc (H n)))) \<le> card (insert n (pinned D H))"
    by (intro card_mono) auto
  also have "\<dots> \<le> Suc (card (pinned D H))"
    using fin by (simp add: card_insert_if)
  finally show ?thesis using assms(2) by simp
qed

text \<open>
  \<open>free_refs D H\<close>: references can still be taken, and a buffer for one more block can be found.
\<close>

definition free_refs :: "uint set \<Rightarrow> (uint \<Rightarrow> nat) \<Rightarrow> bool" where
  "free_refs D H \<longleftrightarrow> card (pinned D H) < NBUF \<and> (\<forall>n. H n + 2 < 2 ^ 32)"

lemma free_refs_bread:
  "free_refs D H \<Longrightarrow> H n + 1 < 2 ^ 32" "free_refs D H \<Longrightarrow> n \<in> pinned D H \<or> card (pinned D H) < NBUF"
  by (auto simp: free_refs_def dest: spec [of _ n])

text \<open>Reading a block and releasing it at once leaves the abstract state as it is.\<close>

lemma block_read_wp:
  assumes st: "bst v D H d W r s" and fr: "free_refs D H" and n: "n < FSSIZE"
    and k: "\<And>t. bst v D H d W r t \<Longrightarrow> wpK (k (f (v n))) Q t"
  shows "wpK (bindK (bread ROOTDEV n) (\<lambda>b. bindK (getK (\<lambda>s. f (b_data (bufs s b)))) (\<lambda>x.
    thenK (brelse b) (k x)))) Q s"
  unfolding wpK_bindK
proof (rule bread_wp [OF st n free_refs_bread [OF fr]])
  fix b t assume t: "bst v D (H(n := Suc (H n))) d W r t" "holds t b n"
  show "wpK (getK (\<lambda>s. f (b_data (bufs s b)))) (\<lambda>x. wpK (thenK (brelse b) (k x)) Q) t"
    unfolding wpK_getK bst_data [OF t] wpK_thenK
    by (rule brelse_wp [OF t]) (use k in \<open>simp_all\<close>)
qed

end
