(* ===== verification/Wal.thy ===== *)
theory Wal
  imports Bcache KBytes
begin

text \<open>
  \<^verbatim>\<open>log.c\<close>: the write-ahead log. File-system code changes a block in the cache and calls
  \<open>log_write\<close>, which records the block number and pins the buffer; \<open>commit\<close> copies the recorded
  blocks to the log area, writes the header, installs the blocks at their places and clears the
  header. The theory shows what each operation does to the contents of the blocks, gives the exact
  sequence of disk writes of \<open>commit\<close> and of recovery, and proves that a power failure at any point
  of either leaves a disk from which recovery restores all of a transaction or none of it.
\<close>

record logst =
  log_start :: uint
  log_size :: int
  log_committing :: int
  log_dev :: uint
  lh_n :: int
  lh_block :: "nat \<Rightarrow> uint"

record klog = kblk +
  lg :: logst

definition MAXOPBLOCKS :: nat where "MAXOPBLOCKS = 10"
definition LOGSIZE :: nat where "LOGSIZE = MAXOPBLOCKS * 3"

section \<open>The super block\<close>

record superblock =
  sb_size :: uint
  sb_nblocks :: uint
  sb_ninodes :: uint
  sb_nlog :: uint
  sb_logstart :: uint
  sb_inodestart :: uint
  sb_bmapstart :: uint

definition superblock_of :: "block \<Rightarrow> superblock" where
  "superblock_of d = \<lparr>sb_size = get_uint 0 d, sb_nblocks = get_uint 1 d, sb_ninodes = get_uint 2 d,
     sb_nlog = get_uint 3 d, sb_logstart = get_uint 4 d, sb_inodestart = get_uint 5 d,
     sb_bmapstart = get_uint 6 d\<rparr>"

definition readsb :: "uint \<Rightarrow> ('z kblk_scheme, superblock) kern" where
  "readsb dev =
     bindK (bread dev 1) (\<lambda>bp.
     bindK (getK (\<lambda>s. superblock_of (b_data (bufs s bp)))) (\<lambda>sb.
     thenK (brelse bp) (ret sb)))"

section \<open>The operations\<close>

text \<open>Word 0 of the header block is the count, word \<open>i + 1\<close> the \<open>i\<close>-th block number.\<close>

definition lg_upd :: "(logst \<Rightarrow> logst) \<Rightarrow> ('z klog_scheme, unit) kern" where
  "lg_upd f = modK (\<lambda>s. s\<lparr>lg := f (lg s)\<rparr>)"

definition lh_set :: "nat \<Rightarrow> uint \<Rightarrow> ('z klog_scheme, unit) kern" where
  "lh_set i n = (if i < LOGSIZE then lg_upd (\<lambda>l. l\<lparr>lh_block := (lh_block l)(i := n)\<rparr>) else fault)"

definition lh_get :: "nat \<Rightarrow> ('z klog_scheme, uint) kern" where
  "lh_get i = (if i < LOGSIZE then getK (\<lambda>s. lh_block (lg s) i) else fault)"

definition install_trans :: "('z klog_scheme, unit) kern" where
  "install_trans =
     bindK (getK lg) (\<lambda>l.
     for_range 0 (nat (lh_n l)) (\<lambda>tail.
       bindK (bread (log_dev l) (log_start l + of_nat tail + 1)) (\<lambda>lbuf.
       bindK (lh_get tail) (\<lambda>bn.
       bindK (bread (log_dev l) bn) (\<lambda>dbuf.
       bindK (getK (\<lambda>s. b_data (bufs s lbuf))) (\<lambda>d.
       thenK (thenK (bdata dbuf (\<lambda>_. d)) (bwrite dbuf)) (
       thenK (brelse lbuf) (brelse dbuf))))))))"

definition read_head :: "('z klog_scheme, unit) kern" where
  "read_head =
     bindK (getK lg) (\<lambda>l.
     bindK (bread (log_dev l) (log_start l)) (\<lambda>buf.
     bindK (getK (\<lambda>s. b_data (bufs s buf))) (\<lambda>lh.
     thenK (lg_upd (\<lambda>l. l\<lparr>lh_n := sint (get_uint 0 lh)\<rparr>)) (
     thenK (for_range 0 (nat (sint (get_uint 0 lh))) (\<lambda>i. lh_set i (get_uint (Suc i) lh))) (
     brelse buf)))))"

definition write_head :: "('z klog_scheme, unit) kern" where
  "write_head =
     bindK (getK lg) (\<lambda>l.
     bindK (bread (log_dev l) (log_start l)) (\<lambda>buf.
     thenK (bdata buf (put_uint 0 (word_of_int (lh_n l)))) (
     thenK (for_range 0 (nat (lh_n l)) (\<lambda>i.
       bindK (lh_get i) (\<lambda>bn. bdata buf (put_uint (Suc i) bn)))) (
     thenK (bwrite buf) (brelse buf)))))"

definition recover_from_log :: "('z klog_scheme, unit) kern" where
  "recover_from_log =
     thenK read_head (
     thenK install_trans (
     thenK (lg_upd (\<lambda>l. l\<lparr>lh_n := 0\<rparr>))
     write_head))"

definition initlog :: "uint \<Rightarrow> ('z klog_scheme, unit) kern" where
  "initlog dev =
     (if 4 + 4 * LOGSIZE \<ge> 512 then panic ''initlog: too big logheader'' else
     bindK (readsb dev) (\<lambda>sb.
     thenK (lg_upd (\<lambda>l. l\<lparr>log_start := sb_logstart sb\<rparr>)) (
     thenK (lg_upd (\<lambda>l. l\<lparr>log_size := sint (sb_nlog sb)\<rparr>)) (
     thenK (lg_upd (\<lambda>l. l\<lparr>log_dev := dev\<rparr>))
     recover_from_log))))"

definition begin_op :: "('z klog_scheme, unit) kern" where
  "begin_op = ret ()"

definition write_log :: "('z klog_scheme, unit) kern" where
  "write_log =
     bindK (getK lg) (\<lambda>l.
     for_range 0 (nat (lh_n l)) (\<lambda>tail.
       bindK (bread (log_dev l) (log_start l + of_nat tail + 1)) (\<lambda>to.
       bindK (lh_get tail) (\<lambda>bn.
       bindK (bread (log_dev l) bn) (\<lambda>from.
       bindK (getK (\<lambda>s. b_data (bufs s from))) (\<lambda>d.
       thenK (thenK (bdata to (\<lambda>_. d)) (bwrite to)) (
       thenK (brelse from) (brelse to))))))))"

definition commit :: "('z klog_scheme, unit) kern" where
  "commit =
     bindK (getK (\<lambda>s. lh_n (lg s))) (\<lambda>n.
     whenK (n > 0) (
       thenK write_log (
       thenK write_head (
       thenK install_trans (
       thenK (lg_upd (\<lambda>l. l\<lparr>lh_n := 0\<rparr>))
       write_head)))))"

definition end_op :: "('z klog_scheme, unit) kern" where
  "end_op = commit"

text \<open>The absorption loop of \<^verbatim>\<open>log_write\<close>: the first index from \<open>i\<close> on, below \<open>i + k\<close>, that holds \<open>bn\<close>.\<close>

primrec absorb :: "(nat \<Rightarrow> uint) \<Rightarrow> uint \<Rightarrow> nat \<Rightarrow> nat \<Rightarrow> nat" where
  "absorb blocks bn i 0 = i"
| "absorb blocks bn i (Suc k) = (if blocks i = bn then i else absorb blocks bn (Suc i) k)"

definition log_write :: "nat \<Rightarrow> ('z klog_scheme, unit) kern" where
  "log_write b =
     thenK pushcli (
     bindK (getK lg) (\<lambda>l.
     if lh_n l \<ge> int LOGSIZE \<or> lh_n l \<ge> log_size l - 1 then panic ''too big a transaction'' else
     bindK (getK (\<lambda>s. b_blockno (bufs s b))) (\<lambda>bn.
     let i = absorb (lh_block l) bn 0 (nat (lh_n l)) in
     thenK (lh_set i bn) (
     thenK (whenK (int i = lh_n l) (lg_upd (\<lambda>l. l\<lparr>lh_n := lh_n l + 1\<rparr>))) (
     thenK popcli (
     buf_upd b (\<lambda>bp. bp\<lparr>b_flags := b_flags bp OR B_DIRTY\<rparr>)))))))"

section \<open>The log area\<close>

definition slot :: "logst \<Rightarrow> nat \<Rightarrow> uint" where
  "slot l i = log_start l + of_nat i + 1"

definition area :: "logst \<Rightarrow> uint set" where
  "area l = {n. unat (log_start l) \<le> unat n \<and> unat n < unat (log_start l) + nat (log_size l)}"

definition log_geom :: "logst \<Rightarrow> bool" where
  "log_geom l \<longleftrightarrow> log_dev l = ROOTDEV \<and> 1 \<le> log_size l \<and> log_size l \<le> int NBUF \<and>
     unat (log_start l) + nat (log_size l) \<le> unat FSSIZE"

definition log_rep :: "uint list \<Rightarrow> logst \<Rightarrow> bool" where
  "log_rep L l \<longleftrightarrow> lh_n l = int (length L) \<and> (\<forall>i<length L. lh_block l i = L ! i)"

definition log_fits :: "logst \<Rightarrow> uint list \<Rightarrow> bool" where
  "log_fits l L \<longleftrightarrow> length L < nat (log_size l) \<and> (\<forall>n\<in>set L. n < FSSIZE \<and> n \<notin> area l)"

lemma rest_lg: "rest t = rest s \<Longrightarrow> lg t = lg s" for s t :: "'z klog_scheme"
  by (cases s; cases t) (simp add: rest_def)

lemma unat_FSSIZE [simp]: "unat FSSIZE = 1000"
  by (simp add: FSSIZE_def)

lemma less_FSSIZE: "n < FSSIZE \<longleftrightarrow> unat n < 1000"
  by (simp add: word_less_nat_alt)

lemma unat_slot:
  assumes "log_geom l" "Suc i < nat (log_size l)"
  shows "unat (slot l i) = unat (log_start l) + i + 1"
proof -
  have "unat (log_start l) + i + 1 < 4294967296" using assms by (simp add: log_geom_def)
  then show ?thesis by (simp add: slot_def unat_add_uint unat_of_nat_uint)
qed

lemma slot_facts:
  assumes "log_geom l" "Suc i < nat (log_size l)"
  shows "slot l i \<in> area l" "slot l i < FSSIZE" "slot l i \<noteq> log_start l"
  using assms unat_slot [OF assms] by (auto simp: area_def less_FSSIZE log_geom_def)

lemma slot_inj:
  assumes "log_geom l" "Suc i < nat (log_size l)" "Suc j < nat (log_size l)"
  shows "slot l i = slot l j \<longleftrightarrow> i = j"
proof
  assume "slot l i = slot l j"
  then have "unat (slot l i) = unat (slot l j)" by (rule arg_cong)
  then show "i = j" unfolding unat_slot [OF assms(1,2)] unat_slot [OF assms(1,3)] by linarith
qed simp

lemma start_facts:
  assumes "log_geom l"
  shows "log_start l \<in> area l" "log_start l < FSSIZE"
  using assms by (auto simp: area_def less_FSSIZE log_geom_def)

lemma log_geom_LOGSIZE: "log_geom l \<Longrightarrow> i < nat (log_size l) \<Longrightarrow> i < LOGSIZE"
  by (auto simp: log_geom_def LOGSIZE_def MAXOPBLOCKS_def NBUF_def)

section \<open>Sequences of writes\<close>

definition apply_writes :: "(uint \<times> block) list \<Rightarrow> (uint \<Rightarrow> block) \<Rightarrow> uint \<Rightarrow> block" where
  "apply_writes ws d = foldl (\<lambda>d (n, x). d(n := x)) d ws"

definition on_disk :: "(uint \<times> block) list \<Rightarrow> (bool \<times> uint \<times> block) list" where
  "on_disk ws = map (\<lambda>w. (True, w)) ws"

lemma apply_writes_simps [simp]:
  "apply_writes [] d = d"
  "apply_writes (ws @ [(n, x)]) d = (apply_writes ws d)(n := x)"
  by (simp_all add: apply_writes_def)

lemma apply_writes_Cons [simp]: "apply_writes ((n, x) # ws) d = apply_writes ws (d(n := x))"
  by (simp add: apply_writes_def)

lemma apply_writes_append: "apply_writes (ws @ us) d = apply_writes us (apply_writes ws d)"
  by (simp add: apply_writes_def)

lemma on_disk_simps [simp]:
  "on_disk [] = []" "on_disk (ws @ us) = on_disk ws @ on_disk us" "on_disk (w # ws) = (True, w) # on_disk ws"
  by (simp_all add: on_disk_def)

lemma apply_writes_other: "n \<notin> fst ` set ws \<Longrightarrow> apply_writes ws d n = d n"
  by (induction ws arbitrary: d) auto

lemma apply_installs_other:
  assumes "m \<notin> set L" "k \<le> length L"
  shows "apply_writes (map (\<lambda>i. (L ! i, x i)) [0..<k]) d m = d m"
proof (rule apply_writes_other)
  have "L ! i \<noteq> m" if "i < k" for i using assms that nth_mem [of i L] by auto
  then show "m \<notin> fst ` set (map (\<lambda>i. (L ! i, x i)) [0..<k])" by fastforce
qed

lemma apply_writes_map:
  assumes "distinct (map f is)" "i \<in> set is"
  shows "apply_writes (map (\<lambda>i. (f i, x i)) is) d (f i) = x i"
  using assms
proof (induction "is" arbitrary: d)
  case (Cons j js)
  show ?case
  proof (cases "i = j")
    case True
    with Cons.prems show ?thesis by (auto simp: apply_writes_other image_image)
  next
    case False
    with Cons show ?thesis by auto
  qed
qed simp

section \<open>Copying to and from the log area\<close>

lemma wpK_lh_get:
  "rest t = rest s \<Longrightarrow> i < LOGSIZE \<Longrightarrow> wpK (lh_get i) Q t = Q (lh_block (lg s) i) t" for s t :: "'z klog_scheme"
  using rest_lg [of t s] by (simp add: lh_get_def)

lemma copy_out:
  fixes s :: "'z klog_scheme"
  assumes st: "bst v D H d W r s" and fr: "free_refs D H" and i: "i < LOGSIZE"
    and a: "a < FSSIZE" "a \<noteq> b" and b: "b \<in> D" "lh_block (lg s) i = b" "b < FSSIZE"
  shows "wpK (bindK (bread ROOTDEV a) (\<lambda>to.
       bindK (lh_get i) (\<lambda>bn.
       bindK (bread ROOTDEV bn) (\<lambda>src.
       bindK (getK (\<lambda>s. b_data (bufs s src))) (\<lambda>d.
       thenK (thenK (bdata to (\<lambda>_. d)) (bwrite to)) (
       thenK (brelse src) (brelse to)))))))
    (\<lambda>_ t. bst (v(a := v b)) (D - {a}) H (d(a := v b)) (W @ [(True, a, v b)]) r t) s"
  unfolding wpK_bindK
proof (rule bread_wp [OF st a(1)])
  show "H a + 1 < 2 ^ 32" "a \<in> pinned D H \<or> card (pinned D H) < NBUF"
    by (rule free_refs_bread [OF fr])+
  fix to s1 assume s1: "bst v D (H(a := Suc (H a))) d W r s1" "holds s1 to a"
  have r1: "rest s1 = rest s" using s1 st by (simp add: bst_def)
  show "wpK (lh_get i) (\<lambda>x. wpK (bread ROOTDEV x) (\<lambda>x. wpK (getK (\<lambda>s. b_data (bufs s x)))
      (\<lambda>xa. wpK (thenK (thenK (bdata to (\<lambda>_. xa)) (bwrite to)) (thenK (brelse x) (brelse to)))
        (\<lambda>_ t. bst (v(a := v b)) (D - {a}) H (d(a := v b)) (W @ [(True, a, v b)]) r t)))) s1"
    unfolding wpK_lh_get [OF r1 i] b(2)
  proof (rule bread_wp [OF s1(1) b(3)])
    show "(H(a := Suc (H a))) b + 1 < 2 ^ 32"
      using fr a(2) by (auto simp: free_refs_def dest: spec [of _ b])
    show "b \<in> pinned D (H(a := Suc (H a))) \<or> card (pinned D (H(a := Suc (H a)))) < NBUF"
      using b(1) by (simp add: pinned_def)
    let ?H = "H(a := Suc (H a), b := Suc (H b))"
    fix src s2 assume s2: "bst v D ((H(a := Suc (H a)))(b := Suc ((H(a := Suc (H a))) b))) d W r s2"
      "holds s2 src b" "\<And>j m. holds s1 j m \<Longrightarrow> m \<in> pinned D (H(a := Suc (H a))) \<Longrightarrow> holds s2 j m"
    have st2: "bst v D ?H d W r s2" using s2(1) a(2) by simp
    have to2: "holds s2 to a" using s2(3) [OF s1(2)] by (simp add: pinned_def)
    have x: "b_data (bufs s2 src) = v b" "length (v b) = 512"
      using bst_data [OF st2 s2(2)] bst_length [OF st b(3)] by auto
    show "wpK (getK (\<lambda>s. b_data (bufs s src)))
      (\<lambda>xa. wpK (thenK (thenK (bdata to (\<lambda>_. xa)) (bwrite to)) (thenK (brelse src) (brelse to)))
        (\<lambda>_ t. bst (v(a := v b)) (D - {a}) H (d(a := v b)) (W @ [(True, a, v b)]) r t)) s2"
      unfolding wpK_getK x(1) wpK_thenK [of "thenK _ _"]
    proof (rule bwrite_wp [OF st2 to2 x(2)])
      fix s3 assume s3: "bst (v(a := v b)) (D - {a}) ?H (d(a := v b)) (W @ [(True, a, v b)]) r s3"
        "\<And>j m. holds s2 j m \<Longrightarrow> holds s3 j m"
      show "wpK (thenK (brelse src) (brelse to))
          (\<lambda>_ t. bst (v(a := v b)) (D - {a}) H (d(a := v b)) (W @ [(True, a, v b)]) r t) s3"
        unfolding wpK_thenK
      proof (rule brelse_wp [OF s3(1) s3(2) [OF s2(2)]])
        fix s4 assume s4: "bst (v(a := v b)) (D - {a}) (?H(b := ?H b - 1)) (d(a := v b)) (W @ [(True, a, v b)]) r s4"
          "\<And>j m. holds s3 j m \<Longrightarrow> holds s4 j m"
        have H: "?H(b := ?H b - 1, a := (?H(b := ?H b - 1)) a - 1) = H" using a(2) by auto
        show "wpK (brelse to) (\<lambda>_ t. bst (v(a := v b)) (D - {a}) H (d(a := v b)) (W @ [(True, a, v b)]) r t) s4"
          by (rule brelse_wp [OF s4(1) s4(2) [OF s3(2) [OF to2]]]) (use a(2) H in simp_all)
      qed simp
    qed
  qed
qed

lemma copy_in:
  fixes s :: "'z klog_scheme"
  assumes st: "bst v D H d W r s" and fr: "free_refs D H" and i: "i < LOGSIZE"
    and a: "a < FSSIZE" "a \<noteq> b" and b: "lh_block (lg s) i = b" "b < FSSIZE"
    and room: "b \<in> D \<or> card (pinned D H) < NBUF - 1"
  shows "wpK (bindK (bread ROOTDEV a) (\<lambda>lbuf.
       bindK (lh_get i) (\<lambda>bn.
       bindK (bread ROOTDEV bn) (\<lambda>dbuf.
       bindK (getK (\<lambda>s. b_data (bufs s lbuf))) (\<lambda>d.
       thenK (thenK (bdata dbuf (\<lambda>_. d)) (bwrite dbuf)) (
       thenK (brelse lbuf) (brelse dbuf)))))))
    (\<lambda>_ t. bst (v(b := v a)) (D - {b}) H (d(b := v a)) (W @ [(True, b, v a)]) r t) s"
  (is "wpK _ ?Q s")
  unfolding wpK_bindK
proof (rule bread_wp [OF st a(1)])
  show "H a + 1 < 2 ^ 32" "a \<in> pinned D H \<or> card (pinned D H) < NBUF"
    by (rule free_refs_bread [OF fr])+
  fix lbuf s1 assume s1: "bst v D (H(a := Suc (H a))) d W r s1" "holds s1 lbuf a"
  have r1: "rest s1 = rest s" using s1 st by (simp add: bst_def)
  show "wpK (lh_get i) (\<lambda>x. wpK (bread ROOTDEV x) (\<lambda>x. wpK (getK (\<lambda>s. b_data (bufs s lbuf)))
      (\<lambda>xa. wpK (thenK (thenK (bdata x (\<lambda>_. xa)) (bwrite x)) (thenK (brelse lbuf) (brelse x))) ?Q))) s1"
    unfolding wpK_lh_get [OF r1 i] b(1)
  proof (rule bread_wp [OF s1(1) b(2)])
    show "(H(a := Suc (H a))) b + 1 < 2 ^ 32"
      using fr a(2) by (auto simp: free_refs_def dest: spec [of _ b])
    show "b \<in> pinned D (H(a := Suc (H a))) \<or> card (pinned D (H(a := Suc (H a)))) < NBUF"
    proof (cases "b \<in> D")
      case False
      then have "card (pinned D (H(a := Suc (H a)))) \<le> NBUF - 1"
        using room card_pinned_insert [OF st] by blast
      then show ?thesis by (simp add: NBUF_def)
    qed (simp add: pinned_def)
    let ?H = "H(a := Suc (H a), b := Suc (H b))"
    fix dbuf s2 assume s2: "bst v D ((H(a := Suc (H a)))(b := Suc ((H(a := Suc (H a))) b))) d W r s2"
      "holds s2 dbuf b" "\<And>j m. holds s1 j m \<Longrightarrow> m \<in> pinned D (H(a := Suc (H a))) \<Longrightarrow> holds s2 j m"
    have st2: "bst v D ?H d W r s2" using s2(1) a(2) by simp
    have l2: "holds s2 lbuf a" using s2(3) [OF s1(2)] by (simp add: pinned_def)
    have x: "b_data (bufs s2 lbuf) = v a" "length (v a) = 512"
      using bst_data [OF st2 l2] bst_length [OF st a(1)] by auto
    show "wpK (getK (\<lambda>s. b_data (bufs s lbuf)))
      (\<lambda>xa. wpK (thenK (thenK (bdata dbuf (\<lambda>_. xa)) (bwrite dbuf)) (thenK (brelse lbuf) (brelse dbuf))) ?Q) s2"
      unfolding wpK_getK x(1) wpK_thenK [of "thenK _ _"]
    proof (rule bwrite_wp [OF st2 s2(2) x(2)])
      fix s3 assume s3: "bst (v(b := v a)) (D - {b}) ?H (d(b := v a)) (W @ [(True, b, v a)]) r s3"
        "\<And>j m. holds s2 j m \<Longrightarrow> holds s3 j m"
      show "wpK (thenK (brelse lbuf) (brelse dbuf)) ?Q s3"
        unfolding wpK_thenK
      proof (rule brelse_wp [OF s3(1) s3(2) [OF l2]])
        fix s4 assume s4: "bst (v(b := v a)) (D - {b}) (?H(a := ?H a - 1)) (d(b := v a)) (W @ [(True, b, v a)]) r s4"
          "\<And>j m. holds s3 j m \<Longrightarrow> holds s4 j m"
        have H: "?H(a := ?H a - 1, b := (?H(a := ?H a - 1)) b - 1) = H" using a(2) by auto
        show "wpK (brelse dbuf) ?Q s4"
          by (rule brelse_wp [OF s4(1) s4(2) [OF s3(2) [OF s2(2)]]]) (use a(2) H in simp_all)
      qed (use a(2) in simp)
    qed
  qed
qed

lemma write_log_run:
  fixes s :: "'z klog_scheme"
  assumes st: "bst v (set L) H d W r s" and fr: "free_refs (set L) H"
    and l: "lg s = l" "log_geom l" "log_rep L l" "log_fits l L"
  shows "wpK write_log (\<lambda>_ t. bst (apply_writes (map (\<lambda>i. (slot l i, v (L ! i))) [0..<length L]) v) (set L) H
      (apply_writes (map (\<lambda>i. (slot l i, v (L ! i))) [0..<length L]) d)
      (W @ on_disk (map (\<lambda>i. (slot l i, v (L ! i))) [0..<length L])) r t) s"
proof -
  define ws where "ws k = map (\<lambda>i. (slot l i, v (L ! i))) [0..<k]" for k
  let ?I = "\<lambda>k t. bst (apply_writes (ws k) v) (set L) H (apply_writes (ws k) d) (W @ on_disk (ws k)) r t"
  have n: "nat (lh_n l) = length L" "log_dev l = ROOTDEV"
    using l by (auto simp: log_rep_def log_geom_def)
  have fits: "Suc k < nat (log_size l)" "k < LOGSIZE" "L ! k \<notin> area l" "L ! k < FSSIZE" "L ! k \<in> set L"
    "lh_block l k = L ! k" if "k < length L" for k
    using that l log_geom_LOGSIZE [OF l(2), of k] by (auto simp: log_fits_def log_rep_def)
  show ?thesis
    unfolding write_log_def wpK_bindK wpK_getK l(1) n ws_def [symmetric]
  proof (rule wpK_for_range [where I = ?I])
    fix k t assume k: "k < length L" and I: "?I k t"
    have lgt: "lg t = l" using I st l(1) by (intro rest_lg [of t s, unfolded l(1)]) (simp add: bst_def)
    have sl: "slot l k \<in> area l" "slot l k < FSSIZE" using slot_facts [OF l(2) fits(1) [OF k]] by auto
    have ne: "slot l k \<noteq> L ! k" using sl fits(3) [OF k] by auto
    have same: "apply_writes (ws k) v (L ! k) = v (L ! k)"
      using fits [OF k] slot_facts(1) [OF l(2)] fits(1) k by (intro apply_writes_other) (auto simp: ws_def)
    have D: "set L - {slot l k} = set L" using sl l(4) by (auto simp: log_fits_def)
    have ws: "ws (Suc k) = ws k @ [(slot l k, v (L ! k))]" by (simp add: ws_def)
    show "wpK (bindK (bread ROOTDEV (log_start l + of_nat k + 1)) (\<lambda>to. bindK (lh_get k) (\<lambda>bn.
        bindK (bread ROOTDEV bn) (\<lambda>src. bindK (getK (\<lambda>s. b_data (bufs s src))) (\<lambda>d.
        thenK (thenK (bdata to (\<lambda>_. d)) (bwrite to)) (thenK (brelse src) (brelse to))))))) (\<lambda>_. ?I (Suc k)) t"
      using copy_out [OF I fr fits(2) [OF k] sl(2) ne fits(5) [OF k]] fits [OF k] lgt D same
      by (simp add: ws slot_def)
  qed (simp_all add: ws_def st)
qed

lemma free_refs_mono:
  assumes "bst v D H d W r s" "free_refs D H" "D' \<subseteq> D"
  shows "free_refs D' H"
proof -
  have "finite (pinned D H)" using assms(1) pinned_finite by (auto simp: bst_def)
  then have "card (pinned D' H) \<le> card (pinned D H)"
    using assms(3) by (intro card_mono) (auto simp: pinned_def)
  with assms(2) show ?thesis by (simp add: free_refs_def)
qed

lemma install_run:
  fixes s :: "'z klog_scheme"
  assumes st: "bst v D H d W r s" and fr: "free_refs D H"
    and l: "lg s = l" "log_geom l" "log_rep L l" "log_fits l L"
    and room: "\<And>k. k < length L \<Longrightarrow>
      L ! k \<in> D - set (take k L) \<or> card (pinned (D - set (take k L)) H) < NBUF - 1"
  shows "wpK install_trans (\<lambda>_ t. bst (apply_writes (map (\<lambda>i. (L ! i, v (slot l i))) [0..<length L]) v)
      (D - set L) H (apply_writes (map (\<lambda>i. (L ! i, v (slot l i))) [0..<length L]) d)
      (W @ on_disk (map (\<lambda>i. (L ! i, v (slot l i))) [0..<length L])) r t) s"
proof -
  define ws where "ws k = map (\<lambda>i. (L ! i, v (slot l i))) [0..<k]" for k
  let ?I = "\<lambda>k t. bst (apply_writes (ws k) v) (D - set (take k L)) H (apply_writes (ws k) d)
    (W @ on_disk (ws k)) r t"
  have n: "nat (lh_n l) = length L" "log_dev l = ROOTDEV"
    using l by (auto simp: log_rep_def log_geom_def)
  have fits: "Suc k < nat (log_size l)" "k < LOGSIZE" "L ! k \<notin> area l" "L ! k < FSSIZE"
    "lh_block l k = L ! k" if "k < length L" for k
    using that l log_geom_LOGSIZE [OF l(2), of k] by (auto simp: log_fits_def log_rep_def)
  have "wpK install_trans (\<lambda>_. ?I (length L)) s"
    unfolding install_trans_def wpK_bindK wpK_getK l(1) n
  proof (rule wpK_for_range [where I = ?I])
    fix k t assume k: "k < length L" and I: "?I k t"
    have lgt: "lg t = l" using I st l(1) by (intro rest_lg [of t s, unfolded l(1)]) (simp add: bst_def)
    have sl: "slot l k \<in> area l" "slot l k < FSSIZE" using slot_facts [OF l(2) fits(1) [OF k]] by auto
    have ne: "slot l k \<noteq> L ! k" using sl fits(3) [OF k] by auto
    have same: "apply_writes (ws k) v (slot l k) = v (slot l k)"
      using sl(1) fits(3) k by (intro apply_writes_other) (auto simp: ws_def)
    have D: "D - set (take k L) - {L ! k} = D - set (take (Suc k) L)"
      using k by (auto simp: take_Suc_conv_app_nth)
    have ws: "ws (Suc k) = ws k @ [(L ! k, v (slot l k))]" by (simp add: ws_def)
    have fr': "free_refs (D - set (take k L)) H" by (rule free_refs_mono [OF st fr]) auto
    show "wpK (bindK (bread ROOTDEV (log_start l + of_nat k + 1)) (\<lambda>lbuf. bindK (lh_get k) (\<lambda>bn.
        bindK (bread ROOTDEV bn) (\<lambda>dbuf. bindK (getK (\<lambda>s. b_data (bufs s lbuf))) (\<lambda>d.
        thenK (thenK (bdata dbuf (\<lambda>_. d)) (bwrite dbuf)) (thenK (brelse lbuf) (brelse dbuf))))))) (\<lambda>_. ?I (Suc k)) t"
      using copy_in [OF I fr' fits(2) [OF k] sl(2) ne _ fits(4) [OF k] room [OF k]] fits [OF k] lgt D same
      by (simp add: ws slot_def)
  qed (simp_all add: ws_def st)
  then show ?thesis by (simp add: ws_def)
qed

section \<open>The header block\<close>

definition hdr :: "block \<Rightarrow> uint list \<Rightarrow> block" where
  "hdr x L = fold (\<lambda>i. put_uint (Suc i) (L ! i)) [0..<length L] (put_uint 0 (of_nat (length L)) x)"

lemma hdr_fold:
  assumes "length x = 512" "n \<le> 30"
  shows "length (fold (\<lambda>i. put_uint (Suc i) (L ! i)) [0..<n] x) = 512 \<and>
    get_uint 0 (fold (\<lambda>i. put_uint (Suc i) (L ! i)) [0..<n] x) = get_uint 0 x \<and>
    (\<forall>i<30. get_uint (Suc i) (fold (\<lambda>i. put_uint (Suc i) (L ! i)) [0..<n] x) =
      (if i < n then L ! i else get_uint (Suc i) x))"
  using assms by (induction n) (auto simp: get_put_uint less_Suc_eq)

lemma hdr_facts:
  assumes "length x = 512" "length L \<le> 30"
  shows "length (hdr x L) = 512" "get_uint 0 (hdr x L) = of_nat (length L)"
    "i < length L \<Longrightarrow> get_uint (Suc i) (hdr x L) = L ! i"
  using hdr_fold [of "put_uint 0 (of_nat (length L)) x" "length L" L] assms
  by (auto simp: hdr_def get_put_uint)

lemma bdata_loop:
  assumes "\<And>k. k < n \<Longrightarrow> k < LOGSIZE"
  shows "for_range i n (\<lambda>k. bindK (lh_get k) (\<lambda>bn. bdata b (put_uint (Suc k) bn))) s =
    bdata b (fold (\<lambda>k. put_uint (Suc k) (lh_block (lg s) k)) [i..<n]) s"
  using assms
proof (induction "n - i" arbitrary: i s)
  case 0
  then show ?case by (simp add: bdata_def buf_upd_def)
next
  case (Suc m)
  then have lt: "i < n" and m: "m = n - Suc i" by auto
  show ?case
    using lt Suc.prems Suc.hyps(1) [OF m]
    by (simp add: for_range_step bdata_def buf_upd_def lh_get_def upt_conv_Cons)
qed

lemma thenK_bdata:
  "thenK (bdata b f) k s = k (s\<lparr>bufs := (bufs s)(b := (bufs s b)\<lparr>b_data := f (b_data (bufs s b))\<rparr>)\<rparr>)"
  by (simp add: bdata_def buf_upd_def)

lemma write_head_fill:
  fixes s :: "'z klog_scheme"
  assumes "lg s = l" "log_rep L l" "length L \<le> LOGSIZE"
  shows "thenK (bdata b (put_uint 0 (word_of_int (lh_n l)))) (
     thenK (for_range 0 (nat (lh_n l)) (\<lambda>i.
       bindK (lh_get i) (\<lambda>bn. bdata b (put_uint (Suc i) bn)))) k) s =
     thenK (bdata b (\<lambda>_. hdr (b_data (bufs s b)) L)) k s"
proof -
  have "nat (lh_n l) = length L" "word_of_int (lh_n l) = (of_nat (length L) :: uint)"
    using assms(2) by (simp_all add: log_rep_def)
  moreover have "fold (\<lambda>k. put_uint (Suc k) (lh_block l k)) [0..<length L] x =
      fold (\<lambda>k. put_uint (Suc k) (L ! k)) [0..<length L] x" for x
    using assms(2) by (intro List.fold_cong) (auto simp: log_rep_def)
  ultimately have "for_range 0 (nat (lh_n l)) (\<lambda>i. bindK (lh_get i) (\<lambda>bn. bdata b (put_uint (Suc i) bn)))
      (s\<lparr>bufs := (bufs s)(b := (bufs s b)\<lparr>b_data := put_uint 0 (word_of_int (lh_n l)) (b_data (bufs s b))\<rparr>)\<rparr>) =
    Inr ((), s\<lparr>bufs := (bufs s)(b := (bufs s b)\<lparr>b_data := hdr (b_data (bufs s b)) L\<rparr>)\<rparr>)"
    using assms by (subst bdata_loop) (simp_all add: bdata_def buf_upd_def hdr_def)
  then show ?thesis by (simp only: thenK_bdata thenK_Inr)
qed

lemma write_head_run:
  fixes s :: "'z klog_scheme"
  assumes st: "bst v D H d W r s" and fr: "free_refs D H"
    and l: "lg s = l" "log_geom l" "log_rep L l" "length L < nat (log_size l)"
  shows "wpK write_head (\<lambda>_ t. bst (v(log_start l := hdr (v (log_start l)) L)) (D - {log_start l}) H
      (d(log_start l := hdr (v (log_start l)) L))
      (W @ [(True, log_start l, hdr (v (log_start l)) L)]) r t) s"
    (is "wpK _ ?Q s")
proof -
  let ?a = "log_start l"
  have dev: "log_dev l = ROOTDEV" and len: "length L \<le> LOGSIZE" "length L \<le> 30"
    using l log_geom_LOGSIZE [OF l(2,4)] by (auto simp: log_geom_def LOGSIZE_def MAXOPBLOCKS_def)
  show ?thesis
    unfolding write_head_def wpK_bindK wpK_getK l(1) dev
  proof (rule bread_wp [OF st start_facts(2) [OF l(2)]])
    show "H ?a + 1 < 2 ^ 32" "?a \<in> pinned D H \<or> card (pinned D H) < NBUF"
      by (rule free_refs_bread [OF fr])+
    fix b t assume t: "bst v D (H(?a := Suc (H ?a))) d W r t" "holds t b ?a"
    have lgt: "lg t = l" using t st l(1) by (intro rest_lg [of t s, unfolded l(1)]) (simp add: bst_def)
    have x: "length (hdr (v ?a) L) = 512"
      using hdr_facts(1) len(2) bst_length [OF st start_facts(2) [OF l(2)]] by blast
    have eq: "thenK (bdata b (put_uint 0 (word_of_int (lh_n l)))) (
        thenK (for_range 0 (nat (lh_n l)) (\<lambda>i. bindK (lh_get i) (\<lambda>bn. bdata b (put_uint (Suc i) bn))))
        (thenK (bwrite b) (brelse b))) t =
      thenK (thenK (bdata b (\<lambda>_. hdr (v ?a) L)) (bwrite b)) (brelse b) t"
      unfolding write_head_fill [OF lgt l(3) len(1)] bst_data [OF t]
      by (simp add: thenK_def bindK_assoc)
    have "wpK (thenK (thenK (bdata b (\<lambda>_. hdr (v ?a) L)) (bwrite b)) (brelse b)) ?Q t"
      unfolding wpK_thenK [of "thenK _ _"]
    proof (rule bwrite_wp [OF t x])
      fix u assume u: "bst (v(?a := hdr (v ?a) L)) (D - {?a}) (H(?a := Suc (H ?a))) (d(?a := hdr (v ?a) L))
        (W @ [(True, ?a, hdr (v ?a) L)]) r u" "\<And>j m. holds t j m \<Longrightarrow> holds u j m"
      show "wpK (brelse b) ?Q u"
        by (rule brelse_wp [OF u(1) u(2) [OF t(2)]]) simp_all
    qed
    then show "wpK (thenK (bdata b (put_uint 0 (word_of_int (lh_n l)))) (
        thenK (for_range 0 (nat (lh_n l)) (\<lambda>i. bindK (lh_get i) (\<lambda>bn. bdata b (put_uint (Suc i) bn))))
        (thenK (bwrite b) (brelse b)))) ?Q t"
      unfolding wpK_iff eq .
  qed
qed

section \<open>Commit\<close>

lemma bc_lg [simp]: "bc v D H (s\<lparr>lg := x\<rparr>) = bc v D H s" for s :: "'z klog_scheme"
  by (simp add: bc_def io_ok_def ide_ready_def lru_def holds_def is_block_def)

lemma bst_lg:
  "bst v D H d W r s \<Longrightarrow> bst v D H d W (rest (s\<lparr>lg := x\<rparr>)) (s\<lparr>lg := x\<rparr>)" for s :: "'z klog_scheme"
  by (simp add: bst_def)

lemma rest_lg_upd: "rest t = rest s \<Longrightarrow> rest (t\<lparr>lg := x\<rparr>) = rest (s\<lparr>lg := x\<rparr>)" for s t :: "'z klog_scheme"
  by (cases s; cases t) (simp add: rest_def)

definition commit_trace :: "logst \<Rightarrow> (uint \<Rightarrow> block) \<Rightarrow> uint list \<Rightarrow> (uint \<times> block) list" where
  "commit_trace l v L =
     map (\<lambda>i. (slot l i, v (L ! i))) [0..<length L] @
     [(log_start l, hdr (v (log_start l)) L)] @
     map (\<lambda>i. (L ! i, v (L ! i))) [0..<length L] @
     [(log_start l, hdr (hdr (v (log_start l)) L) [])]"

lemma slots_distinct:
  assumes "log_geom l" "n < nat (log_size l)"
  shows "distinct (map (slot l) [0..<n])"
  using assms slot_inj [OF assms(1)] by (auto simp: distinct_map inj_on_def)

lemma slots_written:
  assumes "log_geom l" "n < nat (log_size l)"
  shows "i < n \<Longrightarrow> apply_writes (map (\<lambda>i. (slot l i, x i)) [0..<n]) d (slot l i) = x i"
    and "m \<notin> area l \<or> m = log_start l \<Longrightarrow> apply_writes (map (\<lambda>i. (slot l i, x i)) [0..<n]) d m = d m"
proof -
  show "i < n \<Longrightarrow> apply_writes (map (\<lambda>i. (slot l i, x i)) [0..<n]) d (slot l i) = x i"
    using slots_distinct [OF assms] by (intro apply_writes_map) auto
  have "slot l j \<noteq> m" if "m \<notin> area l \<or> m = log_start l" "j < n" for j
    using slot_facts [OF assms(1), of j] assms(2) that by auto
  then show "m \<notin> area l \<or> m = log_start l \<Longrightarrow> apply_writes (map (\<lambda>i. (slot l i, x i)) [0..<n]) d m = d m"
    by (intro apply_writes_other) fastforce
qed

lemma commit_run:
  fixes s :: "'z klog_scheme"
  assumes st: "bst v (set L) H d W r s" and fr: "free_refs (set L) H"
    and l: "lg s = l" "log_geom l" "log_rep L l" "log_fits l L" and L: "distinct L" "L \<noteq> []"
  shows "wpK commit (\<lambda>_ t. bst (apply_writes (commit_trace l v L) v) {} H
      (apply_writes (commit_trace l v L) d) (W @ on_disk (commit_trace l v L))
      (rest (s\<lparr>lg := l\<lparr>lh_n := 0\<rparr>\<rparr>)) t) s"
proof -
  let ?a = "log_start l" and ?l' = "l\<lparr>lh_n := 0\<rparr>"
  define ws1 where "ws1 = map (\<lambda>i. (slot l i, v (L ! i))) [0..<length L]"
  define h1 where "h1 = hdr (v ?a) L"
  define ws2 where "ws2 = map (\<lambda>i. (L ! i, v (L ! i))) [0..<length L]"
  define v1 where "v1 = apply_writes ws1 v"
  define v2 where "v2 = v1(?a := h1)"
  have r: "rest s = r" using st by (simp add: bst_def)
  have len: "length L < nat (log_size l)" and out: "\<And>n. n \<in> set L \<Longrightarrow> n \<notin> area l"
    using l(4) by (auto simp: log_fits_def)
  have a: "?a \<in> area l" using start_facts [OF l(2)] by simp
  have n: "0 < lh_n l" using l(3) L(2) by (simp add: log_rep_def)
  have v1a: "v1 ?a = v ?a" unfolding v1_def ws1_def by (rule slots_written(2) [OF l(2) len]) simp
  have v2s: "v2 (slot l i) = v (L ! i)" if "i < length L" for i
    using that slots_written(1) [OF l(2) len that] slot_facts(3) [OF l(2)] len
    by (simp add: v2_def v1_def ws1_def)
  have D: "set L - {?a} = set L" using a out by auto
  have ws2': "map (\<lambda>i. (L ! i, v2 (slot l i))) [0..<length L] = ws2"
    using v2s by (simp add: ws2_def)
  have v3a: "apply_writes ws2 v2 ?a = h1"
    using a out by (subst apply_writes_other) (auto simp: ws2_def v2_def)
  have step1: "wpK write_log (\<lambda>_ t. bst v1 (set L) H (apply_writes ws1 d) (W @ on_disk ws1) r t) s"
    using write_log_run [OF st fr l] by (simp add: v1_def ws1_def)
  have step2: "wpK write_head (\<lambda>_ u. bst v2 (set L) H ((apply_writes ws1 d)(?a := h1))
      (W @ on_disk (ws1 @ [(?a, h1)])) r u) t"
    if "bst v1 (set L) H (apply_writes ws1 d) (W @ on_disk ws1) r t" for t :: "'z klog_scheme"
    using write_head_run [OF that fr _ l(2,3) len] rest_lg [of t s] that r l(1)
    by (simp add: bst_def v1a h1_def v2_def D)
  have step3: "wpK install_trans (\<lambda>_ u. bst (apply_writes ws2 v2) {} H
      (apply_writes (ws1 @ [(?a, h1)] @ ws2) d) (W @ on_disk (ws1 @ [(?a, h1)] @ ws2)) r u) t"
    if "bst v2 (set L) H ((apply_writes ws1 d)(?a := h1)) (W @ on_disk (ws1 @ [(?a, h1)])) r t"
    for t :: "'z klog_scheme"
  proof -
    have "lg t = l" using rest_lg [of t s] that r l(1) by (simp add: bst_def)
    moreover have "L ! k \<in> set L - set (take k L)" if "k < length L" for k
      using that L(1) by (auto simp: in_set_conv_nth nth_eq_iff_index_eq)
    ultimately show ?thesis
      using install_run [OF that fr _ l(2-4)] by (simp add: ws2' apply_writes_append)
  qed
  have step4: "wpK write_head (\<lambda>_ u. bst (apply_writes (commit_trace l v L) v) {} H
      (apply_writes (commit_trace l v L) d) (W @ on_disk (commit_trace l v L)) (rest (s\<lparr>lg := ?l'\<rparr>)) u)
      (t\<lparr>lg := ?l'\<rparr>)"
    if t: "bst (apply_writes ws2 v2) {} H (apply_writes (ws1 @ [(?a, h1)] @ ws2) d)
      (W @ on_disk (ws1 @ [(?a, h1)] @ ws2)) r t" for t :: "'z klog_scheme"
  proof -
    have rt: "rest (t\<lparr>lg := ?l'\<rparr>) = rest (s\<lparr>lg := ?l'\<rparr>)"
      using t r by (intro rest_lg_upd) (simp add: bst_def)
    have fr': "free_refs {} H" by (rule free_refs_mono [OF st fr]) simp
    have g: "log_geom ?l'" "log_rep [] ?l'" "length ([] :: uint list) < nat (log_size ?l')"
      using l(2) by (auto simp: log_geom_def log_rep_def)
    have eq: "commit_trace l v L = ws1 @ [(?a, h1)] @ ws2 @ [(?a, hdr h1 [])]"
      by (simp add: commit_trace_def ws1_def ws2_def h1_def)
    show ?thesis
      using write_head_run [OF bst_lg [OF t, of ?l'] fr' _ g] unfolding rt eq
      by (simp add: v3a [unfolded v2_def v1_def] v2_def v1_def apply_writes_append)
  qed
  have "lg t = l" if "bst v' D' H' d' W' r t" for t :: "'z klog_scheme" and v' D' H' d' W'
    using rest_lg [of t s] that r l(1) by (simp add: bst_def)
  then show ?thesis
    unfolding commit_def wpK_bindK wpK_getK wpK_whenK l(1) using n
    by (auto intro!: wpK_seq [OF step1] wpK_seq [OF step2] wpK_seq [OF step3]
        simp: lg_upd_def simp del: wpK_thenK) (simp add: step4)
qed

section \<open>Recovery\<close>

definition hdr_list :: "block \<Rightarrow> uint list" where
  "hdr_list x = map (\<lambda>i. get_uint (Suc i) x) [0..<nat (sint (get_uint 0 x))]"

definition hdr_ok :: "logst \<Rightarrow> block \<Rightarrow> bool" where
  "hdr_ok l x \<longleftrightarrow> 0 \<le> sint (get_uint 0 x) \<and> log_fits l (hdr_list x)"

lemma lh_set_loop:
  assumes "n \<le> LOGSIZE"
  shows "for_range i n (\<lambda>i. lh_set i (f i)) s = Inr ((), s\<lparr>lg := (lg s)\<lparr>lh_block :=
    (\<lambda>j. if i \<le> j \<and> j < n then f j else lh_block (lg s) j)\<rparr>\<rparr>)"
proof (induction "n - i" arbitrary: i s)
  case 0
  then have "(\<lambda>j. if i \<le> j \<and> j < n then f j else lh_block (lg s) j) = lh_block (lg s)"
    by (auto simp: fun_eq_iff)
  with 0 show ?case by simp
next
  case (Suc m)
  then have i: "i < n" "m = n - Suc i" "i < LOGSIZE" using assms by auto
  define t where "t = s\<lparr>lg := (lg s)\<lparr>lh_block := (lh_block (lg s))(i := f i)\<rparr>\<rparr>"
  have "for_range i n (\<lambda>i. lh_set i (f i)) s = for_range (Suc i) n (\<lambda>i. lh_set i (f i)) t"
    using i by (simp add: for_range_step lh_set_def lg_upd_def t_def)
  also have "\<dots> = Inr ((), t\<lparr>lg := (lg t)\<lparr>lh_block :=
      (\<lambda>j. if Suc i \<le> j \<and> j < n then f j else lh_block (lg t) j)\<rparr>\<rparr>)"
    by (rule Suc.hyps(1) [OF i(2)])
  also have "(\<lambda>j. if Suc i \<le> j \<and> j < n then f j else lh_block (lg t) j) =
      (\<lambda>j. if i \<le> j \<and> j < n then f j else lh_block (lg s) j)"
    using i(1) by (auto simp: fun_eq_iff t_def)
  finally show ?case by (simp add: t_def)
qed

lemma read_head_run:
  fixes s :: "'z klog_scheme"
  assumes st: "bst v D H d W r s" and fr: "free_refs D H" and l: "lg s = l" "log_geom l"
    and h: "hdr_ok l (v (log_start l))"
  shows "wpK read_head (\<lambda>_ t. \<exists>l'. log_rep (hdr_list (v (log_start l))) l' \<and>
      l' = l\<lparr>lh_n := lh_n l', lh_block := lh_block l'\<rparr> \<and> lg t = l' \<and> bst v D H d W (rest (s\<lparr>lg := l'\<rparr>)) t) s"
    (is "wpK _ ?Q s")
proof -
  let ?a = "log_start l" and ?x = "v (log_start l)"
  let ?n = "nat (sint (get_uint 0 ?x))"
  define l' where "l' = l\<lparr>lh_n := sint (get_uint 0 ?x),
    lh_block := (\<lambda>j. if j < ?n then get_uint (Suc j) ?x else lh_block l j)\<rparr>"
  have n: "?n \<le> LOGSIZE" "0 \<le> sint (get_uint 0 ?x)"
    using h log_geom_LOGSIZE [OF l(2), of ?n] by (auto simp: hdr_ok_def log_fits_def hdr_list_def)
  have rep: "log_rep (hdr_list ?x) l'" "l' = l\<lparr>lh_n := lh_n l', lh_block := lh_block l'\<rparr>"
    using n(2) by (auto simp: log_rep_def hdr_list_def l'_def)
  have dev: "log_dev l = ROOTDEV" using l(2) by (simp add: log_geom_def)
  show ?thesis
    unfolding read_head_def wpK_bindK wpK_getK l(1) dev
  proof (rule bread_wp [OF st start_facts(2) [OF l(2)]])
    show "H ?a + 1 < 2 ^ 32" "?a \<in> pinned D H \<or> card (pinned D H) < NBUF"
      by (rule free_refs_bread [OF fr])+
    fix b t assume t: "bst v D (H(?a := Suc (H ?a))) d W r t" "holds t b ?a"
    have lgt: "lg t = l" using t st l(1) by (intro rest_lg [of t s, unfolded l(1)]) (simp add: bst_def)
    have rt: "rest (t\<lparr>lg := l'\<rparr>) = rest (s\<lparr>lg := l'\<rparr>)"
      using t st by (intro rest_lg_upd) (simp add: bst_def)
    have x: "b_data (bufs t b) = ?x" by (rule bst_data [OF t])
    have loop: "for_range 0 ?n (\<lambda>i. lh_set i (get_uint (Suc i) ?x)) (t\<lparr>lg := l\<lparr>lh_n := sint (get_uint 0 ?x)\<rparr>\<rparr>) =
        Inr ((), t\<lparr>lg := l'\<rparr>)"
      by (simp add: lh_set_loop [OF n(1)] l'_def cong: if_cong)
    have "wpK (brelse b) ?Q (t\<lparr>lg := l'\<rparr>)"
    proof (rule brelse_wp [OF bst_lg [OF t(1)]])
      show "holds (t\<lparr>lg := l'\<rparr>) b ?a" using t(2) by (simp add: holds_def is_block_def)
      fix u assume u: "bst v D ((H(?a := Suc (H ?a)))(?a := (H(?a := Suc (H ?a))) ?a - 1)) d W (rest (t\<lparr>lg := l'\<rparr>)) u"
      have "lg u = l'" using u rest_lg [of u "t\<lparr>lg := l'\<rparr>"] by (simp add: bst_def)
      then show "?Q () u" using u rep unfolding rt by (intro exI [of _ l']) simp
    qed simp
    then show "wpK (thenK (lg_upd (\<lambda>l. l\<lparr>lh_n := sint (get_uint 0 (b_data (bufs t b)))\<rparr>))
        (thenK (for_range 0 (nat (sint (get_uint 0 (b_data (bufs t b)))))
          (\<lambda>i. lh_set i (get_uint (Suc i) (b_data (bufs t b))))) (brelse b))) ?Q t"
      using loop lgt unfolding x lg_upd_def wpK_iff by simp
  qed
qed

definition recover_trace :: "logst \<Rightarrow> (uint \<Rightarrow> block) \<Rightarrow> (uint \<times> block) list" where
  "recover_trace l d = (let L = hdr_list (d (log_start l)) in
     map (\<lambda>i. (L ! i, d (slot l i))) [0..<length L] @ [(log_start l, hdr (d (log_start l)) [])])"

text \<open>What depends only on where the log is.\<close>

definition same_geom :: "logst \<Rightarrow> logst \<Rightarrow> bool" where
  "same_geom l' l \<longleftrightarrow> log_start l' = log_start l \<and> log_size l' = log_size l \<and> log_dev l' = log_dev l"

lemma same_geom_facts:
  assumes "same_geom l' l"
  shows "log_geom l' = log_geom l" "log_fits l' = log_fits l" "slot l' = slot l" "log_start l' = log_start l"
    "log_size l' = log_size l" "area l' = area l" "hdr_ok l' = hdr_ok l" "recover_trace l' = recover_trace l"
proof -
  show f: "log_geom l' = log_geom l" "log_fits l' = log_fits l" "slot l' = slot l" "log_start l' = log_start l"
    "log_size l' = log_size l" "area l' = area l"
    using assms by (auto simp: same_geom_def log_geom_def log_fits_def slot_def area_def fun_eq_iff)
  show "hdr_ok l' = hdr_ok l" "recover_trace l' = recover_trace l"
    by (simp_all add: hdr_ok_def recover_trace_def fun_eq_iff f)
qed

lemma same_geom_upd: "l' = l\<lparr>lh_n := n, lh_block := B\<rparr> \<Longrightarrow> same_geom l' l"
  by (simp add: same_geom_def)

lemmas log_upd_facts = same_geom_facts [OF same_geom_upd]

lemma recover_run:
  fixes s :: "'z klog_scheme"
  assumes st: "bst d {} (\<lambda>_. 0) d W r s" and l: "lg s = l" "log_geom l" and h: "hdr_ok l (d (log_start l))"
  shows "wpK recover_from_log (\<lambda>_ t. bst (apply_writes (recover_trace l d) d) {} (\<lambda>_. 0)
      (apply_writes (recover_trace l d) d) (W @ on_disk (recover_trace l d)) (rest (s\<lparr>lg := lg t\<rparr>)) t \<and>
      log_rep [] (lg t) \<and> lg t = l\<lparr>lh_n := 0, lh_block := lh_block (lg t)\<rparr>) s"
    (is "wpK _ ?Q s")
proof -
  let ?a = "log_start l" and ?L = "hdr_list (d (log_start l))"
  define ws where "ws = map (\<lambda>i. (?L ! i, d (slot l i))) [0..<length ?L]"
  have fr: "free_refs {} (\<lambda>_. 0)" and card: "card (pinned {} (\<lambda>_ :: uint. 0)) < NBUF - 1"
    by (simp_all add: free_refs_def pinned_def NBUF_def)
  have fits: "log_fits l ?L" "length ?L < nat (log_size l)"
    using h by (auto simp: hdr_ok_def log_fits_def)
  have tr: "recover_trace l d = ws @ [(?a, hdr (d ?a) [])]"
    by (simp add: recover_trace_def ws_def Let_def)
  have da: "apply_writes ws d ?a = d ?a"
    unfolding ws_def using fits(1) start_facts(1) [OF l(2)]
    by (intro apply_installs_other) (auto simp: log_fits_def)
  show ?thesis
    unfolding recover_from_log_def
  proof (rule wpK_seq [OF read_head_run [OF st fr l h]], elim exE conjE)
    fix t l' assume t: "log_rep ?L l'" "l' = l\<lparr>lh_n := lh_n l', lh_block := lh_block l'\<rparr>" "lg t = l'"
      "bst d {} (\<lambda>_. 0) d W (rest (s\<lparr>lg := l'\<rparr>)) t"
    note same = log_upd_facts [OF t(2)]
    have g: "log_geom l'" "log_fits l' ?L" using same l(2) fits by simp_all
    show "wpK (thenK install_trans (thenK (lg_upd (\<lambda>l. l\<lparr>lh_n := 0\<rparr>)) write_head)) ?Q t"
    proof (rule wpK_seq [OF install_run [OF t(4) fr t(3) g(1) t(1) g(2)]])
      fix u assume "bst (apply_writes (map (\<lambda>i. (?L ! i, d (slot l' i))) [0..<length ?L]) d) ({} - set ?L) (\<lambda>_. 0)
        (apply_writes (map (\<lambda>i. (?L ! i, d (slot l' i))) [0..<length ?L]) d)
        (W @ on_disk (map (\<lambda>i. (?L ! i, d (slot l' i))) [0..<length ?L])) (rest (s\<lparr>lg := l'\<rparr>)) u"
      then have u: "bst (apply_writes ws d) {} (\<lambda>_. 0) (apply_writes ws d) (W @ on_disk ws) (rest (s\<lparr>lg := l'\<rparr>)) u"
        by (simp add: ws_def same)
      have lgu: "lg u = l'" using u rest_lg [of u "s\<lparr>lg := l'\<rparr>"] by (simp add: bst_def)
      let ?l2 = "l'\<lparr>lh_n := 0\<rparr>"
      obtain n B where "l' = l\<lparr>lh_n := n, lh_block := B\<rparr>" using t(2) by blast
      then have l2: "?l2 = l\<lparr>lh_n := 0, lh_block := lh_block l'\<rparr>" by simp
      note same2 = log_upd_facts [OF l2]
      have ru: "rest (u\<lparr>lg := ?l2\<rparr>) = rest (s\<lparr>lg := ?l2\<rparr>)"
        using u rest_lg_upd [of u "s\<lparr>lg := l'\<rparr>" ?l2] by (simp add: bst_def)
      have rep: "log_rep [] ?l2" by (simp add: log_rep_def)
      have "wpK write_head (\<lambda>_ t. bst ((apply_writes ws d)(?a := hdr (d ?a) [])) {} (\<lambda>_. 0)
          ((apply_writes ws d)(?a := hdr (d ?a) [])) (W @ on_disk (ws @ [(?a, hdr (d ?a) [])]))
          (rest (s\<lparr>lg := ?l2\<rparr>)) t) (u\<lparr>lg := ?l2\<rparr>)"
        using write_head_run [OF bst_lg [OF u, of ?l2] fr _ _ rep] l(2) same2 ru
        by (simp add: da log_geom_def)
      then have "wpK write_head ?Q (u\<lparr>lg := ?l2\<rparr>)"
      proof (rule wpK_mono)
        fix x w assume w: "bst ((apply_writes ws d)(?a := hdr (d ?a) [])) {} (\<lambda>_. 0)
          ((apply_writes ws d)(?a := hdr (d ?a) [])) (W @ on_disk (ws @ [(?a, hdr (d ?a) [])]))
          (rest (s\<lparr>lg := ?l2\<rparr>)) w"
        have "lg w = ?l2" using w rest_lg [of w "s\<lparr>lg := ?l2\<rparr>"] by (simp add: bst_def)
        then show "?Q x w" using w rep l2 tr by simp
      qed
      then show "wpK (thenK (lg_upd (\<lambda>l. l\<lparr>lh_n := 0\<rparr>)) write_head) ?Q u"
        by (simp add: lg_upd_def lgu)
    qed (use card in simp)
  qed
qed

section \<open>Start-up\<close>

lemma readsb_run:
  assumes "bst v D H d W r s" "free_refs D H"
  shows "wpK (readsb ROOTDEV) (\<lambda>sb t. sb = superblock_of (v 1) \<and> bst v D H d W r t) s"
  unfolding readsb_def
  by (rule block_read_wp [OF assms]) (simp_all add: FSSIZE_def)

definition sb_log :: "superblock \<Rightarrow> logst \<Rightarrow> logst" where
  "sb_log sb l = l\<lparr>log_start := sb_logstart sb, log_size := sint (sb_nlog sb), log_dev := ROOTDEV\<rparr>"

lemma initlog_run:
  fixes s :: "'z klog_scheme"
  assumes st: "bst d {} (\<lambda>_. 0) d W r s" and l: "l = sb_log (superblock_of (d 1)) (lg s)"
    "log_geom l" "hdr_ok l (d (log_start l))"
  shows "wpK (initlog ROOTDEV) (\<lambda>_ t. bst (apply_writes (recover_trace l d) d) {} (\<lambda>_. 0)
      (apply_writes (recover_trace l d) d) (W @ on_disk (recover_trace l d)) (rest (s\<lparr>lg := lg t\<rparr>)) t \<and>
      log_rep [] (lg t) \<and> lg t = l\<lparr>lh_n := 0, lh_block := lh_block (lg t)\<rparr>) s"
    (is "wpK _ ?Q s")
proof -
  have fr: "free_refs {} (\<lambda>_. 0)" by (simp add: free_refs_def pinned_def NBUF_def)
  have size: "\<not> 4 + 4 * LOGSIZE \<ge> 512" by (simp add: LOGSIZE_def MAXOPBLOCKS_def)
  show ?thesis
    unfolding initlog_def if_not_P [OF size]
  proof (rule wpK_let [OF readsb_run [OF st fr]], elim conjE)
    fix sb t assume sb: "sb = superblock_of (d 1)" and t: "bst d {} (\<lambda>_. 0) d W r t"
    have lgt: "lg t = lg s" using t st by (intro rest_lg) (simp add: bst_def)
    have rt: "rest (t\<lparr>lg := x\<rparr>) = rest (s\<lparr>lg := x\<rparr>)" for x
      using t st by (intro rest_lg_upd) (simp add: bst_def)
    have "wpK recover_from_log ?Q (t\<lparr>lg := l\<rparr>)"
      using recover_run [OF bst_lg [OF t] _ l(2,3), of l] by (simp add: rt)
    then show "wpK (thenK (lg_upd (\<lambda>l. l\<lparr>log_start := sb_logstart sb\<rparr>))
        (thenK (lg_upd (\<lambda>l. l\<lparr>log_size := sint (sb_nlog sb)\<rparr>))
        (thenK (lg_upd (\<lambda>l. l\<lparr>log_dev := ROOTDEV\<rparr>)) recover_from_log))) ?Q t"
      by (simp add: lg_upd_def lgt sb l(1) sb_log_def)
  qed
qed

section \<open>Recording a block\<close>

definition logged :: "uint list \<Rightarrow> uint \<Rightarrow> uint list" where
  "logged L n = (if n \<in> set L then L else L @ [n])"

lemma set_logged [simp]: "set (logged L n) = insert n (set L)"
  by (auto simp: logged_def)

lemma absorb_spec:
  assumes "\<And>j. j < k \<Longrightarrow> blocks (i + j) = L ! j" "k = length L"
  shows "absorb blocks bn i k \<le> i + k" "bn \<in> set L \<Longrightarrow> absorb blocks bn i k < i + k \<and> L ! (absorb blocks bn i k - i) = bn"
    "bn \<notin> set L \<Longrightarrow> absorb blocks bn i k = i + k" "i \<le> absorb blocks bn i k"
proof -
  have "absorb blocks bn i k \<le> i + k \<and> i \<le> absorb blocks bn i k \<and>
    (bn \<in> set L \<longrightarrow> absorb blocks bn i k < i + k \<and> L ! (absorb blocks bn i k - i) = bn) \<and>
    (bn \<notin> set L \<longrightarrow> absorb blocks bn i k = i + k)"
    using assms
  proof (induction k arbitrary: i L)
    case (Suc k)
    then obtain x xs where L: "L = x # xs" by (cases L) auto
    have x: "blocks i = x" using Suc.prems(1) [of 0] L by simp
    have rec: "blocks (Suc i + j) = xs ! j" if "j < k" for j
      using Suc.prems(1) [of "Suc j"] that L by simp
    show ?case
      using Suc.IH [of "Suc i" xs] rec Suc.prems(2) L x by (auto simp: nth_Cons')
  qed simp
  then show "absorb blocks bn i k \<le> i + k" "bn \<in> set L \<Longrightarrow> absorb blocks bn i k < i + k \<and> L ! (absorb blocks bn i k - i) = bn"
    "bn \<notin> set L \<Longrightarrow> absorb blocks bn i k = i + k" "i \<le> absorb blocks bn i k" by blast+
qed

lemma log_write_eq:
  fixes s :: "'z klog_scheme"
  assumes wf: "cpu_wf s" and l: "log_rep L (lg s)" "length L < LOGSIZE" "int (length L) < log_size (lg s) - 1"
    and n: "b_blockno (bufs s b) = n"
  shows "\<exists>l'. log_write b s = Inr ((), (settle s)\<lparr>lg := l',
      bufs := (bufs s)(b := (bufs s b)\<lparr>b_flags := b_flags (bufs s b) OR B_DIRTY\<rparr>)\<rparr>) \<and>
    log_rep (logged L n) l' \<and> l' = (lg s)\<lparr>lh_n := lh_n l', lh_block := lh_block l'\<rparr>"
proof -
  let ?l = "lg s" and ?i = "absorb (lh_block (lg s)) n 0 (length L)"
  let ?l' = "?l\<lparr>lh_block := (lh_block ?l)(?i := n), lh_n := (if ?i = length L then lh_n ?l + 1 else lh_n ?l)\<rparr>"
  have rep: "lh_n ?l = int (length L)" "\<And>j. j < length L \<Longrightarrow> lh_block ?l (0 + j) = L ! j"
    using l(1) by (auto simp: log_rep_def)
  note ab = absorb_spec [OF rep(2) refl, of n]
  have i: "?i < LOGSIZE" using ab(1) l(2) by simp
  have "log_write b s = Inr ((), (settle s)\<lparr>lg := ?l',
      bufs := (bufs s)(b := (bufs s b)\<lparr>b_flags := b_flags (bufs s b) OR B_DIRTY\<rparr>)\<rparr>)"
    using wf i l(2,3) n rep(1)
    by (auto simp: log_write_def lh_set_def lg_upd_def buf_upd_def Let_def settle_def cpu_wf_def)
  moreover have "log_rep (logged L n) ?l'"
  proof (cases "n \<in> set L")
    case True
    with ab(2) rep show ?thesis by (auto simp: log_rep_def logged_def)
  next
    case False
    with ab(3) rep show ?thesis by (auto simp: log_rep_def logged_def nth_append less_Suc_eq)
  qed
  ultimately show ?thesis by (intro exI [of _ ?l']) simp
qed

end
