(* ===== verification/Logged.thy ===== *)
theory Logged
  imports Wal
begin

text \<open>
  The block interface of the file system. Between two commits the code above the log sees an array
  of blocks: it reads one with \<^verbatim>\<open>bread\<close>, changes the data and calls \<^verbatim>\<open>log_write\<close>, and gives the
  buffer back with \<^verbatim>\<open>brelse\<close>. The locale states this contract on abstract operations and derives
  the rules the file system's proofs use; the interpretation shows that the cache and the log keep
  it.

  \<open>budget L H c k\<close>: \<open>k\<close> more blocks can be logged or held. A transaction that fits the log never
  runs out of buffers.
\<close>

lemma pinned_hold: "pinned D (H(n := Suc (H n))) = insert n (pinned D H)"
  by (auto simp: pinned_def)

lemma pinned_log: "pinned (insert n D) H = insert n (pinned D H)"
  by (auto simp: pinned_def)

lemma card_insert_Suc: "card (insert x A) \<le> Suc (card A)"
  by (cases "finite A") (auto simp: card_insert_if)

lemma length_logged: "length (logged L n) \<le> Suc (length L)"
  by (simp add: logged_def)

locale logged_blocks =
  fixes blk :: "(uint \<Rightarrow> block) \<Rightarrow> uint list \<Rightarrow> (uint \<Rightarrow> nat) \<Rightarrow> 's \<Rightarrow> bool"
    and ctx :: "'s \<Rightarrow> 'c"
    and cap :: "'c \<Rightarrow> nat"
    and reserved :: "'c \<Rightarrow> uint set"
    and hold :: "'s \<Rightarrow> nat \<Rightarrow> uint \<Rightarrow> bool"
    and contents :: "'s \<Rightarrow> nat \<Rightarrow> block"
    and rd :: "uint \<Rightarrow> ('s, nat) kern"
    and wr :: "nat \<Rightarrow> (block \<Rightarrow> block) \<Rightarrow> ('s, unit) kern"
    and rel :: "nat \<Rightarrow> ('s, unit) kern"
  assumes contents_law: "blk v L H s \<Longrightarrow> hold s b n \<Longrightarrow> contents s b = v n"
    and length_law: "blk v L H s \<Longrightarrow> n < FSSIZE \<Longrightarrow> length (v n) = 512"
    and rd_law: "blk v L H s \<Longrightarrow> n < FSSIZE \<Longrightarrow> H n + 1 < 2 ^ 32 \<Longrightarrow> card (pinned (set L) H) < NBUF \<Longrightarrow>
      \<exists>b t. rd n s = Inr (b, t) \<and> blk v L (H(n := Suc (H n))) t \<and> hold t b n \<and> ctx t = ctx s \<and>
        (\<forall>j m. hold s j m \<longrightarrow> m \<in> pinned (set L) H \<longrightarrow> hold t j m)"
    and wr_law: "blk v L H s \<Longrightarrow> hold s b n \<Longrightarrow> length (f (v n)) = 512 \<Longrightarrow>
      Suc (length L) < cap (ctx s) \<Longrightarrow> n \<notin> reserved (ctx s) \<Longrightarrow>
      \<exists>t. wr b f s = Inr ((), t) \<and> blk (v(n := f (v n))) (logged L n) H t \<and> ctx t = ctx s \<and>
        (\<forall>j m. hold s j m \<longrightarrow> hold t j m)"
    and rel_law: "blk v L H s \<Longrightarrow> hold s b n \<Longrightarrow> 0 < H n \<Longrightarrow>
      \<exists>t. rel b s = Inr ((), t) \<and> blk v L (H(n := H n - 1)) t \<and> ctx t = ctx s \<and>
        (\<forall>j m. hold s j m \<longrightarrow> hold t j m)"
begin

definition budget :: "uint list \<Rightarrow> (uint \<Rightarrow> nat) \<Rightarrow> 'c \<Rightarrow> nat \<Rightarrow> bool" where
  "budget L H c k \<longleftrightarrow> length L + k < cap c \<and> card (pinned (set L) H) + k < NBUF \<and>
     (\<forall>n. H n + k + 2 < 2 ^ 32)"

lemma budgetD:
  assumes "budget L H c k"
  shows "length L + k < cap c" "card (pinned (set L) H) + k < NBUF" "H n + k + 2 < 2 ^ 32"
  using assms by (simp_all add: budget_def)

lemma budget_mono:
  assumes "budget L H c k" "j \<le> k"
  shows "budget L H c j"
  unfolding budget_def
proof (intro conjI allI)
  fix n
  show "H n + j + 2 < 2 ^ 32" using budgetD(3) [OF assms(1), of n] assms(2) by linarith
qed (use budgetD(1,2) [OF assms(1)] assms(2) in linarith)+

lemma budget_hold:
  assumes "budget L H c (Suc k)"
  shows "budget L (H(n := Suc (H n))) c k"
  unfolding budget_def
proof (intro conjI allI)
  show "card (pinned (set L) (H(n := Suc (H n)))) + k < NBUF"
    using budgetD(2) [OF assms] card_insert_Suc [of n "pinned (set L) H"] unfolding pinned_hold by linarith
  show "(H(n := Suc (H n))) m + k + 2 < 2 ^ 32" for m
    using budgetD(3) [OF assms, of m] by (cases "m = n") simp_all
qed (use budgetD(1) [OF assms] in simp)

lemma budget_log:
  assumes "budget L H c (Suc k)"
  shows "budget (logged L n) H c k"
  unfolding budget_def
proof (intro conjI allI)
  show "length (logged L n) + k < cap c"
    using budgetD(1) [OF assms] length_logged [of L n] by linarith
  show "card (pinned (set (logged L n)) H) + k < NBUF"
    using budgetD(2) [OF assms] card_insert_Suc [of n "pinned (set L) H"] unfolding set_logged pinned_log by linarith
  show "H m + k + 2 < 2 ^ 32" for m
    using budgetD(3) [OF assms, of m] by linarith
qed

lemma rd_wp:
  assumes "blk v L H s" "n < FSSIZE" "budget L H (ctx s) 0"
    and "\<And>b t. \<lbrakk>blk v L (H(n := Suc (H n))) t; hold t b n; ctx t = ctx s;
      \<And>j m. hold s j m \<Longrightarrow> m \<in> pinned (set L) H \<Longrightarrow> hold t j m\<rbrakk> \<Longrightarrow> Q b t"
  shows "wpK (rd n) Q s"
proof -
  have "H n + 1 < 2 ^ 32" "card (pinned (set L) H) < NBUF"
    using budgetD(2) [OF assms(3)] budgetD(3) [OF assms(3), of n] by linarith+
  from rd_law [OF assms(1,2) this] show ?thesis unfolding wpK_iff using assms(4) by blast
qed

lemma wr_wp:
  assumes "blk v L H s" "hold s b n" "length (f (v n)) = 512" "budget L H (ctx s) (Suc k)"
    "n \<notin> reserved (ctx s)"
    and "\<And>t. \<lbrakk>blk (v(n := f (v n))) (logged L n) H t; ctx t = ctx s;
      \<And>j m. hold s j m \<Longrightarrow> hold t j m\<rbrakk> \<Longrightarrow> Q () t"
  shows "wpK (wr b f) Q s"
proof -
  have "Suc (length L) < cap (ctx s)" using budgetD(1) [OF assms(4)] by linarith
  from wr_law [where f = f, OF assms(1-3) this assms(5)] show ?thesis unfolding wpK_iff using assms(6) by blast
qed

lemma rel_wp:
  assumes "blk v L H s" "hold s b n" "0 < H n"
    and "\<And>t. \<lbrakk>blk v L (H(n := H n - 1)) t; ctx t = ctx s; \<And>j m. hold s j m \<Longrightarrow> hold t j m\<rbrakk> \<Longrightarrow> Q () t"
  shows "wpK (rel b) Q s"
  unfolding wpK_iff using rel_law [OF assms(1-3)] assms(4) by blast

lemma read_wp:
  assumes "blk v L H s" "n < FSSIZE" "budget L H (ctx s) 0"
    and k: "\<And>t. blk v L H t \<Longrightarrow> ctx t = ctx s \<Longrightarrow> wpK (k (f (v n))) Q t"
  shows "wpK (bindK (rd n) (\<lambda>b. bindK (getK (\<lambda>s. f (contents s b))) (\<lambda>x. thenK (rel b) (k x)))) Q s"
  unfolding wpK_bindK
proof (rule rd_wp [OF assms(1-3)])
  fix b t assume t: "blk v L (H(n := Suc (H n))) t" "hold t b n" "ctx t = ctx s"
  show "wpK (getK (\<lambda>s. f (contents s b))) (\<lambda>x. wpK (thenK (rel b) (k x)) Q) t"
    unfolding wpK_getK contents_law [OF t(1,2)] wpK_thenK
    by (rule rel_wp [OF t(1,2)]) (use k t(3) in \<open>simp_all\<close>)
qed

lemma rd_get_wp:
  assumes "blk v L H s" "n < FSSIZE" "budget L H (ctx s) 0"
    and K: "\<And>b t. \<lbrakk>blk v L (H(n := Suc (H n))) t; hold t b n; ctx t = ctx s;
      \<And>j m. hold s j m \<Longrightarrow> m \<in> pinned (set L) H \<Longrightarrow> hold t j m\<rbrakk> \<Longrightarrow> wpK (K b (f (v n))) Q t"
  shows "wpK (bindK (rd n) (\<lambda>b. bindK (getK (\<lambda>s. f (contents s b))) (K b))) Q s"
  unfolding wpK_bindK
proof (rule rd_wp [OF assms(1-3)])
  fix b t assume t: "blk v L (H(n := Suc (H n))) t" "hold t b n" "ctx t = ctx s"
    "\<And>j m. hold s j m \<Longrightarrow> m \<in> pinned (set L) H \<Longrightarrow> hold t j m"
  show "wpK (getK (\<lambda>s. f (contents s b))) (\<lambda>x. wpK (K b x) Q) t"
    unfolding wpK_getK contents_law [OF t(1,2)] by (rule K [OF t])
qed

lemma rel_then_wp:
  assumes "blk v L (H(n := Suc (H n))) t" "hold t b n"
    and K: "\<And>u. \<lbrakk>blk v L H u; ctx u = ctx t; \<And>j m. hold t j m \<Longrightarrow> hold u j m\<rbrakk> \<Longrightarrow> wpK K Q u"
  shows "wpK (thenK (rel b) K) Q t"
  unfolding wpK_thenK
proof (rule rel_wp [OF assms(1,2)])
  fix u assume u: "blk v L ((H(n := Suc (H n)))(n := (H(n := Suc (H n))) n - 1)) u" "ctx u = ctx t"
    "\<And>j m. hold t j m \<Longrightarrow> hold u j m"
  show "wpK K Q u" by (rule K) (use u in simp_all)
qed simp

lemma wr_rel_wp:
  assumes "blk v L (H(n := Suc (H n))) t" "hold t b n" "length (f (v n)) = 512"
    and "budget L (H(n := Suc (H n))) (ctx t) (Suc k)" "n \<notin> reserved (ctx t)"
    and K: "\<And>u. \<lbrakk>blk (v(n := f (v n))) (logged L n) H u; ctx u = ctx t;
      \<And>j m. hold t j m \<Longrightarrow> hold u j m\<rbrakk> \<Longrightarrow> wpK K Q u"
  shows "wpK (thenK (wr b f) (thenK (rel b) K)) Q t"
  unfolding wpK_thenK [of "wr b f"]
proof (rule wr_wp [where f = f, OF assms(1-5)])
  fix u assume u: "blk (v(n := f (v n))) (logged L n) (H(n := Suc (H n))) u" "ctx u = ctx t"
    "\<And>j m. hold t j m \<Longrightarrow> hold u j m"
  show "wpK (thenK (rel b) K) Q u"
    by (rule rel_then_wp [OF u(1) u(3) [OF assms(2)]]) (use K u(2,3) in auto)
qed

lemma modify_wp:
  assumes "blk v L H s" "n < FSSIZE" "budget L H (ctx s) (Suc (Suc k))" "n \<notin> reserved (ctx s)"
    and "length (f (v n)) = 512"
    and K: "\<And>t. \<lbrakk>blk (v(n := f (v n))) (logged L n) H t; ctx t = ctx s;
      \<And>j m. hold s j m \<Longrightarrow> m \<in> pinned (set L) H \<Longrightarrow> hold t j m\<rbrakk> \<Longrightarrow> wpK K Q t"
  shows "wpK (bindK (rd n) (\<lambda>b. thenK (wr b f) (thenK (rel b) K))) Q s"
  unfolding wpK_bindK
proof (rule rd_wp [OF assms(1,2) budget_mono [OF assms(3)]])
  fix b t assume t: "blk v L (H(n := Suc (H n))) t" "hold t b n" "ctx t = ctx s"
    "\<And>j m. hold s j m \<Longrightarrow> m \<in> pinned (set L) H \<Longrightarrow> hold t j m"
  show "wpK (thenK (wr b f) (thenK (rel b) K)) Q t"
  proof (rule wr_rel_wp [where f = f, OF t(1,2) assms(5)])
    show "budget L (H(n := Suc (H n))) (ctx t) (Suc k)" unfolding t(3) by (rule budget_hold [OF assms(3)])
  qed (use assms(4) t(3,4) K in auto)
qed simp

end

section \<open>The cache and the log keep the contract\<close>

definition lblk :: "(uint \<Rightarrow> block) \<Rightarrow> uint list \<Rightarrow> (uint \<Rightarrow> nat) \<Rightarrow> 'z klog_scheme \<Rightarrow> bool" where
  "lblk v L H s \<longleftrightarrow> bc v (set L) H s \<and> log_geom (lg s) \<and> log_rep L (lg s) \<and> log_fits (lg s) L \<and> distinct L"

type_synonym 'z lctx =
  "(uint \<Rightarrow> block) \<times> (bool \<times> uint \<times> block) list \<times> memory \<times> uint \<times> uint \<times> int \<times> 'z"

definition lctx :: "'z klog_scheme \<Rightarrow> 'z lctx" where
  "lctx s = (disk s True, dwrites s, mem s, freelist s, log_start (lg s), log_size (lg s), klog.more s)"

definition lcap :: "'z lctx \<Rightarrow> nat" where
  "lcap c = (case c of (d, W, m, fl, st, sz, z) \<Rightarrow> nat sz)"

definition larea :: "'z lctx \<Rightarrow> uint set" where
  "larea c = (case c of (d, W, m, fl, st, sz, z) \<Rightarrow> {n. unat st \<le> unat n \<and> unat n < unat st + nat sz})"

definition log_modify :: "nat \<Rightarrow> (block \<Rightarrow> block) \<Rightarrow> ('z klog_scheme, unit) kern" where
  "log_modify b f = thenK (bdata b f) (log_write b)"

lemma lctx_frame: "blk_frame s t \<Longrightarrow> disk t = disk s \<Longrightarrow> dwrites t = dwrites s \<Longrightarrow> lctx t = lctx s \<and> lg t = lg s"
  for s t :: "'z klog_scheme"
  by (cases s; cases t) (simp add: lctx_def blk_frame_def)

lemma lblk_frame:
  fixes s t :: "'z klog_scheme"
  assumes "lblk v L H s" "bc v' (set L) H' t" "blk_frame s t" "disk t = disk s" "dwrites t = dwrites s"
  shows "lblk v' L H' t \<and> lctx t = lctx s"
  using assms lctx_frame [OF assms(3-5)] by (simp add: lblk_def)

lemma bread_law:
  fixes s :: "'z klog_scheme"
  assumes "lblk v L H s" "n < FSSIZE" "H n + 1 < 2 ^ 32" "card (pinned (set L) H) < NBUF"
  shows "\<exists>b t. bread ROOTDEV n s = Inr (b, t) \<and> lblk v L (H(n := Suc (H n))) t \<and> holds t b n \<and>
    lctx t = lctx s \<and> (\<forall>j m. holds s j m \<longrightarrow> m \<in> pinned (set L) H \<longrightarrow> holds t j m)"
proof -
  have bc: "bc v (set L) H s" using assms(1) by (simp add: lblk_def)
  obtain b t where t: "bread ROOTDEV n s = Inr (b, t)" "holds t b n" "bc v (set L) (H(n := Suc (H n))) t"
    "disk t = disk s" "dwrites t = dwrites s" "blk_frame s t"
    "\<forall>j m. holds s j m \<longrightarrow> m \<in> pinned (set L) H \<longrightarrow> holds t j m"
    using bread_spec [OF bc assms(2,3)] assms(4) by auto
  with lblk_frame [OF assms(1) t(3,6,4,5)] show ?thesis by blast
qed

lemma brelse_law:
  fixes s :: "'z klog_scheme"
  assumes "lblk v L H s" "holds s b n" "0 < H n"
  shows "\<exists>t. brelse b s = Inr ((), t) \<and> lblk v L (H(n := H n - 1)) t \<and> lctx t = lctx s \<and>
    (\<forall>j m. holds s j m \<longrightarrow> holds t j m)"
proof -
  have bc: "bc v (set L) H s" using assms(1) by (simp add: lblk_def)
  obtain t where t: "brelse b s = Inr ((), t)" "bc v (set L) (H(n := H n - 1)) t"
    "disk t = disk s" "dwrites t = dwrites s" "blk_frame s t" "\<forall>j m. holds s j m \<longrightarrow> holds t j m"
    using brelse_spec [OF bc assms(2,3)] by blast
  with lblk_frame [OF assms(1) t(2,5,3,4)] show ?thesis by blast
qed

lemma log_modify_law:
  fixes s :: "'z klog_scheme"
  assumes b: "lblk v L H s" and h: "holds s b n" and x: "length (f (v n)) = 512"
    and cap: "Suc (length L) < lcap (lctx s)" and n: "n \<notin> larea (lctx s)"
  shows "\<exists>t. log_modify b f s = Inr ((), t) \<and> lblk (v(n := f (v n))) (logged L n) H t \<and> lctx t = lctx s \<and>
    (\<forall>j m. holds s j m \<longrightarrow> holds t j m)"
proof -
  let ?l = "lg s"
  have bc: "bc v (set L) H s" and l: "log_geom ?l" "log_rep L ?l" "log_fits ?l L" "distinct L"
    using b by (auto simp: lblk_def)
  have len: "Suc (length L) < nat (log_size ?l)" and out: "n \<notin> area ?l"
    using cap n by (auto simp: lcap_def larea_def lctx_def area_def)
  note hi = bc_holds [OF bc h]
  let ?s1 = "s\<lparr>bufs := (bufs s)(b := (bufs s b)\<lparr>b_data := f (v n)\<rparr>)\<rparr>"
  have wf: "cpu_wf ?s1" using cpu_wf_io [OF bcD(1) [OF bc]] by (simp add: cpu_wf_def)
  have small: "length L < LOGSIZE" "int (length L) < log_size ?l - 1"
    using log_geom_LOGSIZE [OF l(1), of "length L"] len by linarith+
  obtain l' where l': "log_write b ?s1 = Inr ((), (settle ?s1)\<lparr>lg := l',
      bufs := (bufs ?s1)(b := (bufs ?s1 b)\<lparr>b_flags := b_flags (bufs ?s1 b) OR B_DIRTY\<rparr>)\<rparr>)"
    "log_rep (logged L n) l'" "l' = ?l\<lparr>lh_n := lh_n l', lh_block := lh_block l'\<rparr>"
    using log_write_eq [OF wf, of L b n] l(2) small hi(3) by auto
  note same = log_upd_facts [OF l'(3)]
  define t where "t = (settle s)\<lparr>lg := l', bufs :=
    (bufs s)(b := (bufs s b)\<lparr>b_data := f (v n), b_flags := b_flags (bufs s b) OR B_DIRTY\<rparr>)\<rparr>"
  have run: "log_modify b f s = Inr ((), t)"
    using l'(1) hi(6) by (simp add: log_modify_def thenK_bdata t_def settle_def)
  have io: "io_ok t" using bcD(1) [OF bc] by (simp add: t_def settle_def io_ok_def ide_ready_def)
  have "bc (v(n := f (v n))) (set (logged L n)) H t" "\<forall>j m. holds s j m \<longrightarrow> holds t j m"
    using bc_mark [OF bc h x io] by (simp_all add: t_def settle_def)
  moreover have "log_geom l'" "log_fits l' (logged L n)" "distinct (logged L n)"
    using l same len out hi(4) length_logged [of L n] by (auto simp: log_fits_def logged_def)
  moreover have "lctx t = lctx s" using same by (simp add: t_def lctx_def settle_def)
  ultimately show ?thesis
    using run l'(2) by (intro exI [of _ t]) (simp add: lblk_def t_def)
qed

interpretation fsblk: logged_blocks lblk lctx lcap larea holds "\<lambda>s b. b_data (bufs s b)"
  "bread ROOTDEV" log_modify brelse
proof (unfold_locales, goal_cases)
  case (1 v L H s b n)
  then show ?case using bc_holds(6) by (auto simp: lblk_def)
next
  case (2 v L H s n)
  then show ?case using bc_length by (auto simp: lblk_def)
next
  case (3 v L H s n)
  then show ?case by (rule bread_law)
next
  case (4 v L H s b n f)
  then show ?case by (rule log_modify_law)
next
  case (5 v L H s b n)
  then show ?case by (rule brelse_law)
qed

section \<open>An array of blocks\<close>

text \<open>
  The specification the cache and the log implement: an array of blocks with reads and writes.
\<close>

datatype bop = Rd uint | Wr uint block

primrec array_run :: "bop list \<Rightarrow> (uint \<Rightarrow> block) \<Rightarrow> block list \<times> (uint \<Rightarrow> block)" where
  "array_run [] v = ([], v)"
| "array_run (p # ps) v = (case p of
     Rd n \<Rightarrow> let (xs, w) = array_run ps v in (v n # xs, w)
   | Wr n x \<Rightarrow> array_run ps (v(n := x)))"

primrec block_run :: "bop list \<Rightarrow> ('z klog_scheme, block list) kern" where
  "block_run [] = ret []"
| "block_run (p # ps) = (case p of
     Rd n \<Rightarrow> bindK (bread ROOTDEV n) (\<lambda>b. bindK (getK (\<lambda>s. b_data (bufs s b))) (\<lambda>x.
       thenK (brelse b) (bindK (block_run ps) (\<lambda>xs. ret (x # xs)))))
   | Wr n x \<Rightarrow> bindK (bread ROOTDEV n) (\<lambda>b. thenK (log_modify b (\<lambda>_. x)) (thenK (brelse b) (block_run ps))))"

primrec bop_ok :: "'z lctx \<Rightarrow> bop \<Rightarrow> bool" where
  "bop_ok c (Rd n) = (n < FSSIZE)"
| "bop_ok c (Wr n x) = (n < FSSIZE \<and> n \<notin> larea c \<and> length x = 512)"

primrec bop_writes :: "bop list \<Rightarrow> uint list" where
  "bop_writes [] = []"
| "bop_writes (p # ps) = (case p of Rd n \<Rightarrow> bop_writes ps | Wr n x \<Rightarrow> n # bop_writes ps)"

lemma writes_left:
  assumes "n \<notin> set L"
  shows "card (set (n # ns) - set L) = Suc (card (set ns - set (logged L n)))"
proof -
  have "set (n # ns) - set L = insert n (set ns - set (logged L n))"
    using assms by (auto simp: set_logged)
  then show ?thesis by (simp add: set_logged)
qed

lemma block_run_wp:
  assumes "lblk v L H s" "\<forall>p\<in>set ps. bop_ok (lctx s) p"
    and "fsblk.budget L H (lctx s) (card (set (bop_writes ps) - set L) + 2)"
  shows "wpK (block_run ps) (\<lambda>xs t. xs = fst (array_run ps v) \<and>
    lblk (snd (array_run ps v)) (fold (\<lambda>n L. logged L n) (bop_writes ps) L) H t \<and> lctx t = lctx s) s"
  using assms
proof (induction ps arbitrary: v L s)
  case Nil
  then show ?case by simp
next
  case (Cons p ps)
  show ?case
  proof (cases p)
    case (Rd n)
    have n: "n < FSSIZE" using Cons.prems(2) Rd by simp
    have bud: "fsblk.budget L H (lctx s) 0" by (rule fsblk.budget_mono [OF Cons.prems(3)]) simp
    show ?thesis
      unfolding Rd block_run.simps bop.case
    proof (rule fsblk.read_wp [where f = "\<lambda>x. x", OF Cons.prems(1) n bud])
      fix t assume t: "lblk v L H t" "lctx t = lctx s"
      have "wpK (block_run ps) (\<lambda>xs u. xs = fst (array_run ps v) \<and>
          lblk (snd (array_run ps v)) (fold (\<lambda>n L. logged L n) (bop_writes ps) L) H u \<and> lctx u = lctx t) t"
        by (rule Cons.IH [OF t(1)]) (use Cons.prems(2,3) t(2) Rd in simp_all)
      then show "wpK (bindK (block_run ps) (\<lambda>xs. ret (v n # xs))) (\<lambda>xs u. xs = fst (array_run (Rd n # ps) v) \<and>
          lblk (snd (array_run (Rd n # ps) v)) (fold (\<lambda>n L. logged L n) (bop_writes (Rd n # ps)) L) H u \<and>
          lctx u = lctx s) t"
        unfolding wpK_bindK by (rule wpK_mono) (use t(2) in \<open>simp add: split_beta\<close>)
    qed
  next
    case (Wr n x)
    have n: "n < FSSIZE" "n \<notin> larea (lctx s)" "length x = 512" using Cons.prems(2) Wr by simp_all
    have bud: "fsblk.budget L H (lctx s) (Suc (Suc 0))" by (rule fsblk.budget_mono [OF Cons.prems(3)]) simp
    have left: "fsblk.budget (logged L n) H (lctx s) (card (set (bop_writes ps) - set (logged L n)) + 2)"
    proof (cases "n \<in> set L")
      case True
      then show ?thesis using Cons.prems(3) Wr by (simp add: logged_def insert_absorb insert_Diff_if)
    next
      case False
      show ?thesis
        by (rule fsblk.budget_log) (use Cons.prems(3) Wr writes_left [OF False, of "bop_writes ps"] in simp)
    qed
    show ?thesis
      unfolding Wr block_run.simps bop.case
    proof (rule fsblk.modify_wp [where f = "\<lambda>_. x", OF Cons.prems(1) n(1) bud n(2,3)])
      fix t assume t: "lblk (v(n := x)) (logged L n) H t" "lctx t = lctx s"
      show "wpK (block_run ps) (\<lambda>xs u. xs = fst (array_run (Wr n x # ps) v) \<and>
          lblk (snd (array_run (Wr n x # ps) v)) (fold (\<lambda>n L. logged L n) (bop_writes (Wr n x # ps)) L) H u \<and>
          lctx u = lctx s) t"
        using Cons.IH [OF t(1)] Cons.prems(2) left t(2) Wr by (simp add: fun_upd_def)
    qed
  qed
qed

end
