(* ===== verification/Console.thy ===== *)
theory Console
  imports Wal
begin

text \<open>
  \<^verbatim>\<open>uart.c\<close> and \<^verbatim>\<open>console.c\<close>: the serial port, formatted output and the line discipline of the
  input. The serial port is part of the state: the bytes it has sent (\<open>uart_tx\<close>), the bytes that
  are waiting to be received (\<open>uart_rx\<close>) and its line status register, which reads 0xFF when there is no port. Bytes
  written to port \<^verbatim>\<open>COM1\<close> are sent unless the divisor latch is unlocked. \<^verbatim>\<open>procdump\<close>, which belongs to the
  process table, is an argument of the functions that call it.

  The input buffer is a ring of 128 bytes with three free-running 32-bit indices. It is shown to
  implement a pair of byte sequences, the bytes that can be read and the line being edited.
\<close>

record kcon = klog +
  uart :: bool
  uart_lsr :: uchar
  uart_rx :: "uchar list"
  uart_tx :: "uchar list"
  in_buf :: "nat \<Rightarrow> uchar"
  in_r :: uint
  in_w :: uint
  in_e :: uint

section \<open>The serial port\<close>

definition COM1 :: ushort where "COM1 = 0x3f8"

definition com_out :: "ushort \<Rightarrow> uchar \<Rightarrow> ('z kcon_scheme, unit) kern" where
  "com_out off v =
     bindK (getK (\<lambda>s. ports s (COM1 + 3))) (\<lambda>lcr.
     thenK (outb (COM1 + off) v)
     (whenK (off = 0 \<and> lcr AND 0x80 = 0) (modK (\<lambda>s. s\<lparr>uart_tx := uart_tx s @ [v]\<rparr>))))"

definition com_status :: "('z kcon_scheme, uchar) kern" where
  "com_status = getK (\<lambda>s. if uart_lsr s = 0xFF then 0xFF
     else if uart_rx s = [] then uart_lsr s AND NOT 1 else uart_lsr s OR 1)"

definition com_recv :: "('z kcon_scheme, uchar) kern" where
  "com_recv = bindK (getK uart_rx) (\<lambda>xs. case xs of
     [] \<Rightarrow> ret 0 | x # xs' \<Rightarrow> thenK (modK (\<lambda>s. s\<lparr>uart_rx := xs'\<rparr>)) (ret x))"

primrec uart_poll :: "nat \<Rightarrow> ('z kcon_scheme, unit) kern" where
  "uart_poll 0 = ret ()"
| "uart_poll (Suc n) = bindK com_status (\<lambda>st. if st AND 0x20 \<noteq> 0 then ret () else uart_poll n)"

definition uartputc :: "uint \<Rightarrow> ('z kcon_scheme, unit) kern" where
  "uartputc c =
     bindK (getK uart) (\<lambda>u.
     if \<not> u then ret () else
     thenK (uart_poll 128) (com_out 0 (ucast c)))"

definition uartgetc :: "('z kcon_scheme, int) kern" where
  "uartgetc =
     bindK (getK uart) (\<lambda>u.
     if \<not> u then ret (- 1) else
     bindK com_status (\<lambda>st.
     if st AND 1 = 0 then ret (- 1) else
     bindK com_recv (\<lambda>x. ret (uint x))))"

section \<open>Output\<close>

definition BACKSPACE :: uint where "BACKSPACE = 0x100"

definition consputc :: "uint \<Rightarrow> ('z kcon_scheme, unit) kern" where
  "consputc c =
     (if c = BACKSPACE then thenK (uartputc 8) (thenK (uartputc 0x20) (uartputc 8)) else uartputc c)"

primrec eachK :: "('a \<Rightarrow> ('s, unit) kern) \<Rightarrow> 'a list \<Rightarrow> ('s, unit) kern" where
  "eachK f [] = ret ()"
| "eachK f (x # xs) = thenK (f x) (eachK f xs)"

definition digits :: "uchar list" where
  "digits = [0x30, 0x31, 0x32, 0x33, 0x34, 0x35, 0x36, 0x37, 0x38, 0x39, 0x61, 0x62, 0x63, 0x64, 0x65, 0x66]"

text \<open>
  The digit loop of \<^verbatim>\<open>printint\<close>; \<open>room\<close> is what is left of the 16 bytes of \<^verbatim>\<open>buf\<close>, and a
  store beyond them is a fault (\<open>None\<close>). So is the negation of the most negative number.
\<close>

primrec printint_loop :: "nat \<Rightarrow> uint \<Rightarrow> uint \<Rightarrow> uchar list \<Rightarrow> uchar list option" where
  "printint_loop 0 x base buf = None"
| "printint_loop (Suc room) x base buf =
     (let buf' = buf @ [digits ! unat (x mod base)] in
      if x div base \<noteq> 0 then printint_loop room (x div base) base buf' else Some buf')"

definition printint :: "uint \<Rightarrow> uint \<Rightarrow> bool \<Rightarrow> ('z kcon_scheme, unit) kern" where
  "printint xx base sign =
     (let neg = (sign \<and> xx <s 0);
          x = (if neg then - xx else xx)
      in if neg \<and> xx = 0x80000000 then fault else
         case printint_loop 16 x base [] of None \<Rightarrow> fault | Some buf \<Rightarrow>
         if neg \<and> length buf \<ge> 16 then fault else
         eachK (\<lambda>c. consputc (ucast c)) (rev (buf @ (if neg then [0x2d] else []))))"

text \<open>An argument of \<^verbatim>\<open>cprintf\<close>: an integer, or a pointer to a string (\<open>None\<close> is the null pointer).\<close>

datatype carg = CInt uint | CStr "uchar list option"

definition null_str :: "uchar list" where
  "null_str = [0x28, 0x6e, 0x75, 0x6c, 0x6c, 0x29]"

definition put_char :: "uchar \<Rightarrow> ('z kcon_scheme, unit) kern" where
  "put_char c = consputc (ucast c)"

fun cprintf_loop :: "uchar list \<Rightarrow> carg list \<Rightarrow> ('z kcon_scheme, unit) kern" where
  "cprintf_loop [] args s = ret () s"
| "cprintf_loop [c] args s = (if c \<noteq> 0x25 then put_char c s else ret () s)"
| "cprintf_loop (c # d # cs) args s =
     (if c \<noteq> 0x25 then thenK (put_char c) (cprintf_loop (d # cs) args) s
      else if d = 0x64 then (case args of
        CInt n # args' \<Rightarrow> thenK (printint n 10 True) (cprintf_loop cs args') s | _ \<Rightarrow> fault s)
      else if d = 0x78 \<or> d = 0x70 then (case args of
        CInt n # args' \<Rightarrow> thenK (printint n 16 False) (cprintf_loop cs args') s | _ \<Rightarrow> fault s)
      else if d = 0x73 then (case args of
        CStr p # args' \<Rightarrow> thenK (eachK put_char (case p of None \<Rightarrow> null_str | Some xs \<Rightarrow> xs))
          (cprintf_loop cs args') s
        | _ \<Rightarrow> fault s)
      else if d = 0x25 then thenK (put_char 0x25) (cprintf_loop cs args) s
      else thenK (put_char 0x25) (thenK (put_char d) (cprintf_loop cs args)) s)"

definition cprintf :: "uchar list option \<Rightarrow> carg list \<Rightarrow> ('z kcon_scheme, unit) kern" where
  "cprintf fmt args =
     thenK pushcli (case fmt of None \<Rightarrow> panic ''null fmt'' | Some f \<Rightarrow>
     thenK (cprintf_loop f args) popcli)"

definition str :: "string \<Rightarrow> uchar list" where
  "str xs = map (\<lambda>c. of_nat (of_char c)) xs"

text \<open>
  \<^verbatim>\<open>halt\<close> and \<^verbatim>\<open>panic\<close> up to the endless loop they end in. The local APIC id, the return
  addresses that \<^verbatim>\<open>getcallerpcs\<close> finds and the message are arguments.
\<close>

definition outw :: "ushort \<Rightarrow> ushort \<Rightarrow> ('z kblk_scheme, unit) kern" where
  "outw port data = thenK (outb port (ucast data)) (outb (port + 1) (ucast (drop_bit 8 data)))"

definition halt_print :: "('z kcon_scheme, unit) kern" where
  "halt_print =
     thenK (cprintf (Some (str ''Bye COL%d!'' @ [0x0a])) [CInt 331]) (
     thenK (outw 0x602 0x2000) (outw 0xB002 0x2000))"

definition panic_print :: "uint \<Rightarrow> uint list \<Rightarrow> uchar list \<Rightarrow> ('z kcon_scheme, unit) kern" where
  "panic_print lapicid pcs msg =
     thenK cli (
     thenK (cprintf (Some (str ''lapicid %d: panic: '')) [CInt lapicid]) (
     thenK (cprintf (Some msg) []) (
     thenK (cprintf (Some [0x0a]) []) (
     thenK (eachK (\<lambda>pc. cprintf (Some (str '' %p'')) [CInt pc]) pcs)
     halt_print))))"

section \<open>Input\<close>

definition INPUT_BUF :: uint where "INPUT_BUF = 128"

definition in_get :: "uint \<Rightarrow> ('z kcon_scheme, uchar) kern" where
  "in_get i = getK (\<lambda>s. in_buf s (unat (i mod INPUT_BUF)))"

text \<open>The kill loop runs once for every byte between \<^verbatim>\<open>input.w\<close> and \<^verbatim>\<open>input.e\<close>, at most.\<close>

primrec kill_line :: "nat \<Rightarrow> ('z kcon_scheme, unit) kern" where
  "kill_line 0 = ret ()"
| "kill_line (Suc n) =
     bindK (getK in_e) (\<lambda>e.
     bindK (in_get (e - 1)) (\<lambda>x.
     if x = 0x0a then ret () else
     thenK (modK (\<lambda>s. s\<lparr>in_e := in_e s - 1\<rparr>)) (
     thenK (consputc BACKSPACE) (kill_line n))))"

definition cons_key :: "int \<Rightarrow> ('z kcon_scheme, unit) kern" where
  "cons_key c =
     (if c = 0x15 then bindK (getK (\<lambda>s. unat (in_e s - in_w s))) kill_line
      else if c = 0x08 \<or> c = 0x7f then
        bindK (getK (\<lambda>s. in_e s \<noteq> in_w s)) (\<lambda>some. whenK some (
          thenK (modK (\<lambda>s. s\<lparr>in_e := in_e s - 1\<rparr>)) (consputc BACKSPACE)))
      else bindK (getK (\<lambda>s. in_e s - in_r s < INPUT_BUF)) (\<lambda>room. whenK (c \<noteq> 0 \<and> room) (
        let c = (if c = 0x0d then 0x0a else c) in
        thenK (modK (\<lambda>s. s\<lparr>in_buf := (in_buf s)(unat (in_e s mod INPUT_BUF) := word_of_int c),
          in_e := in_e s + 1\<rparr>)) (
        thenK (consputc (word_of_int c)) (
        modK (\<lambda>s. if c = 0x0a \<or> c = 0x04 \<or> in_e s = in_r s + INPUT_BUF then s\<lparr>in_w := in_e s\<rparr> else s))))))"

text \<open>
  \<^verbatim>\<open>consoleintr\<close> calls \<open>getc\<close> until it returns a negative value; \<open>fuel\<close> bounds the number of
  calls.
\<close>

primrec consoleintr_loop ::
  "nat \<Rightarrow> ('z kcon_scheme, int) kern \<Rightarrow> bool \<Rightarrow> ('z kcon_scheme, bool) kern" where
  "consoleintr_loop 0 = (\<lambda>getc doprocdump. spin)"
| "consoleintr_loop (Suc fuel) = (\<lambda>getc doprocdump.
     bindK getc (\<lambda>c.
     if c < 0 then ret doprocdump
     else if c = 0x10 then consoleintr_loop fuel getc True
     else thenK (cons_key c) (consoleintr_loop fuel getc doprocdump)))"

definition consoleintr ::
  "('z kcon_scheme, unit) kern \<Rightarrow> nat \<Rightarrow> ('z kcon_scheme, int) kern \<Rightarrow> ('z kcon_scheme, unit) kern" where
  "consoleintr procdump fuel getc =
     bindK (consoleintr_loop fuel getc False) (\<lambda>doprocdump. whenK doprocdump procdump)"

definition uartintr :: "('z kcon_scheme, unit) kern \<Rightarrow> ('z kcon_scheme, unit) kern" where
  "uartintr procdump = bindK (getK (\<lambda>s. length (uart_rx s))) (\<lambda>n. consoleintr procdump (Suc n) uartgetc)"

text \<open>
  \<^verbatim>\<open>while(input.r == input.w);\<close> ends when an interrupt brings a complete line. \<open>uart_rx\<close> is all
  that will be received; when it does not complete a line, or interrupts are off, the loop never
  ends.
\<close>

definition cons_wait :: "('z kcon_scheme, unit) kern \<Rightarrow> ('z kcon_scheme, unit) kern" where
  "cons_wait procdump =
     bindK (getK (\<lambda>s. in_r s = in_w s)) (\<lambda>empty.
     if \<not> empty then ret () else
     bindK (getK (\<lambda>s. eflags_if s \<and> uart_rx s \<noteq> [])) (\<lambda>intr.
     if \<not> intr then spin else
     thenK (uartintr procdump) (
     bindK (getK (\<lambda>s. in_r s = in_w s)) (\<lambda>empty. if empty then spin else ret ()))))"

text \<open>
  One turn of the loop of \<^verbatim>\<open>consoleread\<close>, once there is a byte: it takes the byte and tells whether the loop
  goes on.
\<close>

definition consoleread_turn :: "uchar list \<Rightarrow> ('z kcon_scheme, bool \<times> uchar list) kern" where
  "consoleread_turn dst =
     bindK (getK in_r) (\<lambda>r.
     bindK (in_get r) (\<lambda>c.
     thenK (modK (\<lambda>s. s\<lparr>in_r := in_r s + 1\<rparr>)) (
     if c = 0x04 then
       thenK (whenK (dst \<noteq> []) (modK (\<lambda>s. s\<lparr>in_r := in_r s - 1\<rparr>))) (ret (False, dst))
     else ret (c \<noteq> 0x0a, dst @ [c]))))"

primrec consoleread_loop ::
  "nat \<Rightarrow> ('z kcon_scheme, unit) kern \<Rightarrow> uchar list \<Rightarrow> ('z kcon_scheme, uchar list) kern" where
  "consoleread_loop 0 = (\<lambda>procdump dst. ret dst)"
| "consoleread_loop (Suc n) = (\<lambda>procdump dst.
     thenK (cons_wait procdump) (
     bindK (consoleread_turn dst) (\<lambda>(more, dst').
     if more then consoleread_loop n procdump dst' else ret dst')))"

text \<open>\<open>consoleread\<close> returns the count together with the bytes it stores at \<^verbatim>\<open>dst\<close>.\<close>

definition consoleread :: "('z kcon_scheme, unit) kern \<Rightarrow> int \<Rightarrow> ('z kcon_scheme, int \<times> uchar list) kern" where
  "consoleread procdump n =
     bindK (consoleread_loop (nat n) procdump []) (\<lambda>dst. ret (int (length dst), dst))"

definition consolewrite :: "uchar list \<Rightarrow> int \<Rightarrow> ('z kcon_scheme, int) kern" where
  "consolewrite buf n =
     thenK pushcli (
     if length buf < nat n then fault else
     thenK (eachK put_char (take (nat n) buf)) (
     thenK popcli (ret n)))"

section \<open>What is sent\<close>

definition emit :: "uchar \<Rightarrow> 'z kcon_scheme \<Rightarrow> 'z kcon_scheme" where
  "emit x s = (if \<not> uart s then s else s\<lparr>ports := (ports s)(COM1 := x),
     uart_tx := (if ports s (COM1 + 3) AND 0x80 = 0 then uart_tx s @ [x] else uart_tx s)\<rparr>)"

lemma uart_poll_eq [simp]: "uart_poll n s = Inr ((), s)"
  by (induction n) (simp_all add: com_status_def)

lemma uartputc_eq [simp]: "uartputc c s = Inr ((), emit (ucast c) s)"
  by (simp add: uartputc_def com_out_def outb_def emit_def)

lemma emit_frame [simp]:
  "uart (emit x s) = uart s" "uart_rx (emit x s) = uart_rx s" "in_buf (emit x s) = in_buf s"
  "in_r (emit x s) = in_r s" "in_w (emit x s) = in_w s" "in_e (emit x s) = in_e s"
  "eflags_if (emit x s) = eflags_if s" "ncli (emit x s) = ncli s" "intena (emit x s) = intena s"
  "uart_lsr (emit x s) = uart_lsr s"
  by (simp_all add: emit_def)

lemma emit_ready [simp]: "ports (emit x s) (COM1 + 3) = ports s (COM1 + 3)"
  by (simp add: emit_def COM1_def)

lemma fold_emit_frame [simp]:
  "uart (fold emit xs s) = uart s" "uart_rx (fold emit xs s) = uart_rx s" "in_buf (fold emit xs s) = in_buf s"
  "in_r (fold emit xs s) = in_r s" "in_w (fold emit xs s) = in_w s" "in_e (fold emit xs s) = in_e s"
  "eflags_if (fold emit xs s) = eflags_if s" "ncli (fold emit xs s) = ncli s"
  "intena (fold emit xs s) = intena s" "ports (fold emit xs s) (COM1 + 3) = ports s (COM1 + 3)"
  "uart_lsr (fold emit xs s) = uart_lsr s"
  by (induction xs arbitrary: s) simp_all

text \<open>The port is set up: present, with the divisor latch locked.\<close>

definition uart_on :: "'z kcon_scheme \<Rightarrow> bool" where
  "uart_on s \<longleftrightarrow> uart s \<and> ports s (COM1 + 3) AND 0x80 = 0"

lemma uart_on_emit [simp]: "uart_on (fold emit xs s) = uart_on s" "uart_on (emit x s) = uart_on s"
  by (simp_all add: uart_on_def)

lemma emit_tx [simp]: "uart_on s \<Longrightarrow> uart_tx (fold emit xs s) = uart_tx s @ xs"
proof (induction xs arbitrary: s)
  case (Cons x xs)
  have "uart_tx (emit x s) = uart_tx s @ [x]" using Cons.prems by (simp add: emit_def uart_on_def)
  then show ?case using Cons by simp
qed simp

definition erase :: "uchar list" where "erase = [8, 0x20, 8]"

lemma consputc_eq [simp]:
  "consputc c s = Inr ((), fold emit (if c = BACKSPACE then erase else [ucast c]) s)"
  by (simp add: consputc_def erase_def)

lemma ucast_up_down [simp]: "ucast (ucast c :: uint) = (c :: uchar)"
  by (rule bit_word_eqI) (auto simp: bit_simps)

lemma put_char_eq [simp]: "put_char c s = Inr ((), emit c s)"
proof -
  have "(ucast c :: uint) \<noteq> BACKSPACE"
  proof
    assume "(ucast c :: uint) = BACKSPACE"
    then have "unat (ucast c :: uint) = unat BACKSPACE" by simp
    then show False using unsigned_less [of c, where 'a = nat]
      by (simp add: BACKSPACE_def unsigned_ucast_eq take_bit_nat_eq_self)
  qed
  then show ?thesis by (simp add: put_char_def)
qed

lemma eachK_put_char [simp]: "eachK put_char xs s = Inr ((), fold emit xs s)"
  by (induction xs arbitrary: s) simp_all

section \<open>Numbers\<close>

text \<open>The numeral of a number in a base, most significant digit first and with no leading zeros.\<close>

definition numeral_char :: "nat \<Rightarrow> uchar" where
  "numeral_char k = (if k < 10 then 0x30 + of_nat k else 0x61 + of_nat (k - 10))"

fun numeral_of :: "nat \<Rightarrow> nat \<Rightarrow> uchar list" where
  "numeral_of b n = (if n < b \<or> b < 2 then [numeral_char n] else numeral_of b (n div b) @ [numeral_char (n mod b)])"

declare numeral_of.simps [simp del]

text \<open>The decimal numeral of an integer.\<close>

definition decimal :: "int \<Rightarrow> uchar list" where
  "decimal k = (if k < 0 then [0x2d] else []) @ numeral_of 10 (nat \<bar>k\<bar>)"

lemma nth_digits: "k < 16 \<Longrightarrow> digits ! k = numeral_char k"
proof -
  have "\<forall>k\<in>set [0..<16]. digits ! k = numeral_char k"
    by (simp add: numeral_char_def digits_def upt_conv_Cons)
  then show "k < 16 \<Longrightarrow> digits ! k = numeral_char k" by simp
qed

lemma printint_loop_mono:
  "printint_loop n x base buf = Some ys \<Longrightarrow> n \<le> m \<Longrightarrow> printint_loop m x base buf = Some ys"
proof (induction n arbitrary: m x buf)
  case (Suc n)
  then obtain k where "m = Suc k" "n \<le> k" by (cases m) auto
  with Suc show ?case by (auto simp: Let_def split: if_splits)
qed simp

lemma printint_loop_numeral:
  assumes "2 \<le> unat base" "unat base \<le> 16" "unat x < unat base ^ n" "0 < n"
  shows "\<exists>ds. printint_loop n x base buf = Some (buf @ ds) \<and> length ds \<le> n \<and> rev ds = numeral_of (unat base) (unat x)"
  using assms(3,4)
proof (induction n arbitrary: x buf)
  case (Suc n)
  let ?b = "unat base"
  have m: "unat (x mod base) = unat x mod ?b" "unat (x div base) = unat x div ?b"
    by (simp_all add: unat_mod unat_div)
  have lt: "unat x mod ?b < 16" using assms(1,2) by (meson mod_less_divisor order_less_le_trans less_le_trans zero_less_numeral)
  note d = nth_digits [OF lt]
  show ?case
  proof (cases "x div base = 0")
    case True
    then have "unat x div ?b = 0" using m(2) by simp
    then have "unat x < ?b" using assms(1) by (simp add: div_eq_0_iff)
    with True m d show ?thesis
      by (intro exI [of _ "[digits ! (unat x mod ?b)]"]) (simp add: numeral_of.simps)
  next
    case False
    then have nz: "unat x div ?b \<noteq> 0" using m(2) by (metis unat_eq_zero)
    then have n: "0 < n" using Suc.prems(1) by (cases n) (auto simp: div_eq_0_iff)
    have "unat (x div base) < ?b ^ n"
      using Suc.prems(1) m(2) by (simp add: less_mult_imp_div_less mult.commute)
    from Suc.IH [OF this n, of "buf @ [digits ! (unat x mod ?b)]"] obtain ds where
      ds: "printint_loop n (x div base) base (buf @ [digits ! (unat x mod ?b)]) = Some ((buf @ [digits ! (unat x mod ?b)]) @ ds)"
        "length ds \<le> n" "rev ds = numeral_of ?b (unat x div ?b)"
      unfolding m(2) by blast
    have "\<not> (unat x < ?b \<or> ?b < 2)" using nz assms(1) by (simp add: div_eq_0_iff)
    then have "numeral_of ?b (unat x) = rev ds @ [digits ! (unat x mod ?b)]"
      using numeral_of.simps [of ?b "unat x"] ds(3) d by simp
    then show ?thesis
      using ds(1,2) False m by (intro exI [of _ "digits ! (unat x mod ?b) # ds"]) simp
  qed
qed simp

lemma sint_neg: "xx <s 0 \<Longrightarrow> int (unat (- xx)) = - sint xx" for xx :: uint
proof -
  assume "xx <s 0"
  then have neg: "sint xx < 0" by (simp add: word_sless_alt)
  have ge: "- (2 ^ 31) \<le> sint xx" using sint_ge [of xx] by simp
  have "uint (word_of_int (- sint xx) :: uint) = (- sint xx) mod 2 ^ 32"
    by (simp add: uint_word_of_int_eq take_bit_eq_mod del: of_int_minus)
  then have "uint (- xx) = (- sint xx) mod 2 ^ 32" by simp
  also have "\<dots> = - sint xx" using neg ge by (intro mod_pos_pos_trivial) simp_all
  finally show ?thesis by simp
qed

lemma sint_nonneg: "\<not> xx <s 0 \<Longrightarrow> int (unat xx) = sint xx" for xx :: uint
proof -
  assume "\<not> xx <s 0"
  then have pos: "0 \<le> sint xx" by (simp add: word_sless_alt)
  have lt: "sint xx < 2 ^ 31" using sint_lt [of xx] by simp
  have "uint (word_of_int (sint xx) :: uint) = sint xx mod 2 ^ 32"
    by (simp only: uint_word_of_int_eq take_bit_eq_mod) simp
  then have "uint xx = sint xx mod 2 ^ 32" by simp
  also have "\<dots> = sint xx" using pos lt by (intro mod_pos_pos_trivial) simp_all
  finally show ?thesis by simp
qed

lemma put_char_each: "(\<lambda>c. consputc (ucast c)) = put_char"
  by (rule ext) (simp add: put_char_def)

lemma printint_dec:
  assumes "n \<noteq> 0x80000000"
  shows "printint n 10 True s = Inr ((), fold emit (decimal (sint n)) s)"
proof -
  define x where "x = (if n <s 0 then - n else n)"
  have "unat x < unat (10 :: uint) ^ 10" using unat_uint_less [of x] by simp
  from printint_loop_numeral [OF _ _ this, of "[]"] obtain ds where
    ds: "printint_loop 10 x 10 [] = Some ds" "length ds \<le> 10" "rev ds = numeral_of 10 (unat x)"
    by auto
  have l: "printint_loop 16 x 10 [] = Some ds" using printint_loop_mono [OF ds(1)] by simp
  have "sint n < 0 \<longleftrightarrow> n <s 0" by (simp add: word_sless_alt)
  moreover have "nat \<bar>sint n\<bar> = unat x"
  proof (cases "n <s 0")
    case True
    have "int (unat (- n)) = \<bar>sint n\<bar>" using True sint_neg [OF True] by (simp add: word_sless_alt)
    then show ?thesis unfolding x_def using True by (metis nat_int)
  next
    case False
    have "0 \<le> sint n" using False by (simp add: word_sless_alt)
    then have "int (unat n) = \<bar>sint n\<bar>" using sint_nonneg [OF False] by linarith
    then show ?thesis unfolding x_def using False by (metis nat_int)
  qed
  ultimately have "rev (ds @ (if n <s 0 then [0x2d] else [])) = decimal (sint n)"
    using ds(3) by (simp add: decimal_def)
  then show ?thesis
    using l ds(2) assms by (simp add: printint_def x_def put_char_each Let_def del: rev_append)
qed

lemma printint_hex: "printint n 16 False s = Inr ((), fold emit (numeral_of 16 (unat n)) s)"
proof -
  have "unat n < unat (16 :: uint) ^ 16" using unat_uint_less [of n] by simp
  from printint_loop_numeral [OF _ _ this, of "[]"] obtain ds where
    "printint_loop 16 n 16 [] = Some ds" "rev ds = numeral_of 16 (unat n)" by auto
  then show ?thesis by (simp add: printint_def put_char_each)
qed

section \<open>Formats\<close>

text \<open>
  \<open>fmt_ok f args\<close>: every conversion of the format has an argument of its kind, which for \<^verbatim>\<open>%d\<close> is not the most
  negative number.
\<close>

fun fmt_ok :: "uchar list \<Rightarrow> carg list \<Rightarrow> bool" where
  "fmt_ok (c # d # cs) args =
     (if c \<noteq> 0x25 then fmt_ok (d # cs) args
      else if d \<in> {0x64, 0x78, 0x70} then (case args of
        CInt n # args' \<Rightarrow> (d = 0x64 \<longrightarrow> n \<noteq> 0x80000000) \<and> fmt_ok cs args' | _ \<Rightarrow> False)
      else if d = 0x73 then (case args of CStr p # args' \<Rightarrow> fmt_ok cs args' | _ \<Rightarrow> False)
      else fmt_ok cs args)"
| "fmt_ok _ args = True"

lemma cprintf_loop_prints:
  "fmt_ok f args \<Longrightarrow> \<exists>xs. \<forall>s :: 'z kcon_scheme. cprintf_loop f args s = Inr ((), fold emit xs s)"
proof (induction f args rule: fmt_ok.induct [case_names more nil one])
  case (more c d cs args)
  consider (lit) "c \<noteq> 0x25" | (int) n args' where "c = 0x25" "d \<in> {0x64, 0x78, 0x70}" "args = CInt n # args'" "d = 0x64 \<longrightarrow> n \<noteq> 0x80000000"
    | (str) p args' where "c = 0x25" "d = 0x73" "args = CStr p # args'"
    | (oth) "c = 0x25" "d \<notin> {0x64, 0x78, 0x70, 0x73}"
    using more(5) by (auto split: if_splits list.splits carg.splits)
  then show ?case
  proof cases
    case lit
    then obtain xs where "\<forall>s :: 'z kcon_scheme. cprintf_loop (d # cs) args s = Inr ((), fold emit xs s)" using more(1,5) by auto
    with lit show ?thesis by (intro exI [of _ "c # xs"]) simp
  next
    case int
    then obtain ys where ys: "\<forall>s :: 'z kcon_scheme. cprintf_loop cs args' s = Inr ((), fold emit ys s)" using more(2,5) by auto
    show ?thesis
      using int ys by (intro exI [of _ "(if d = 0x64 then decimal (sint n) else numeral_of 16 (unat n)) @ ys"])
        (auto simp: printint_dec printint_hex)
  next
    case str
    then obtain ys where ys: "\<forall>s :: 'z kcon_scheme. cprintf_loop cs args' s = Inr ((), fold emit ys s)" using more(3,5) by auto
    show ?thesis
      using str ys by (intro exI [of _ "(case p of None \<Rightarrow> null_str | Some xs \<Rightarrow> xs) @ ys"]) simp
  next
    case oth
    then obtain ys where ys: "\<forall>s :: 'z kcon_scheme. cprintf_loop cs args s = Inr ((), fold emit ys s)" using more(4,5) by auto
    show ?thesis
      using oth ys by (intro exI [of _ "(if d = 0x25 then [0x25] else [0x25, d]) @ ys"]) auto
  qed
next
  case (nil args)
  show ?case by (intro exI [of _ "[]"]) simp
next
  case (one c args)
  show ?case by (intro exI [of _ "if c \<noteq> 0x25 then [c] else []"]) simp
qed

lemma emit_cpu: "emit x (s\<lparr>eflags_if := a, intena := b, ncli := c\<rparr>) = (emit x s)\<lparr>eflags_if := a, intena := b, ncli := c\<rparr>"
  by (cases s) (simp add: emit_def)

lemma fold_emit_cpu:
  "fold emit xs (s\<lparr>eflags_if := a, intena := b, ncli := c\<rparr>) = (fold emit xs s)\<lparr>eflags_if := a, intena := b, ncli := c\<rparr>"
  by (induction xs arbitrary: s) (simp_all add: emit_cpu)

lemma emit_settle: "fold emit xs (settle s) = (fold emit xs s)\<lparr>intena := (if ncli s = 0 then eflags_if s else intena s)\<rparr>"
proof -
  have "settle s = s\<lparr>eflags_if := eflags_if s, intena := (if ncli s = 0 then eflags_if s else intena s), ncli := ncli s\<rparr>"
    by (cases s) (simp add: settle_def)
  then have "fold emit xs (settle s) = (fold emit xs s)\<lparr>eflags_if := eflags_if s,
      intena := (if ncli s = 0 then eflags_if s else intena s), ncli := ncli s\<rparr>"
    by (simp only: fold_emit_cpu)
  then show ?thesis by (cases "fold emit xs s") (simp, metis fold_emit_frame(7,8) kcpu.select_convs(1,2))
qed

lemma cprintf_prints:
  fixes s :: "'z kcon_scheme"
  assumes "\<forall>s :: 'z kcon_scheme. cprintf_loop f args s = Inr ((), fold emit xs s)" "cpu_wf s"
  shows "cprintf (Some f) args s = Inr ((), fold emit xs (settle s))"
proof -
  let ?i = "if ncli s = 0 then eflags_if s else intena s"
  have "cprintf (Some f) args s = popcli ((fold emit xs s)\<lparr>eflags_if := False, intena := ?i, ncli := ncli s + 1\<rparr>)"
    unfolding fold_emit_cpu [symmetric] using assms(1) [rule_format] assms(2) by (simp add: cprintf_def cpu_wf_def)
  also have "\<dots> = Inr ((), fold emit xs (settle s))"
    using assms(2) fold_emit_frame(7,8) [of xs s]
    by (cases "fold emit xs s") (auto simp: emit_settle cpu_wf_def simp del: fold_emit_frame)
  finally show ?thesis .
qed

section \<open>The line discipline\<close>

text \<open>
  The specification: the bytes that can be read, and the line being edited. The two together hold
  at most 128 bytes.
\<close>

type_synonym tty = "uchar list \<times> uchar list"

definition tty_key :: "uchar \<Rightarrow> tty \<Rightarrow> tty" where
  "tty_key c = (\<lambda>(q, l).
     if c = 0x15 then (q, [])
     else if c = 0x08 \<or> c = 0x7f then (q, butlast l)
     else if c = 0x10 \<or> c = 0 \<or> length q + length l \<ge> 128 then (q, l)
     else let x = (if c = 0x0d then 0x0a else c) in
       if x = 0x0a \<or> x = 0x04 \<or> length q + length l = 127 then (q @ l @ [x], []) else (q, l @ [x]))"

fun tty_read :: "nat \<Rightarrow> uchar list \<Rightarrow> uchar list \<Rightarrow> (uchar list \<times> uchar list) option" where
  "tty_read 0 got q = Some (got, q)"
| "tty_read (Suc n) got [] = None"
| "tty_read (Suc n) got (x # q) =
     (if x = 0x04 then Some (got, if got = [] then q else x # q)
      else if x = 0x0a then Some (got @ [x], q)
      else tty_read n (got @ [x]) q)"

definition in_rep :: "uchar list \<Rightarrow> uchar list \<Rightarrow> 'z kcon_scheme \<Rightarrow> bool" where
  "in_rep q l s \<longleftrightarrow> in_w s = in_r s + of_nat (length q) \<and> in_e s = in_r s + of_nat (length q + length l) \<and>
     length q + length l \<le> 128 \<and> 0x0a \<notin> set l \<and>
     (\<forall>k<length q + length l. in_buf s (unat ((in_r s + of_nat k) mod INPUT_BUF)) = (q @ l) ! k)"

lemma in_index: "k \<le> 128 \<Longrightarrow> unat ((r + of_nat k) mod INPUT_BUF) = (unat r + k) mod 128"
proof -
  assume "k \<le> 128"
  then have k: "unat (of_nat k :: uint) = k" by (intro unat_of_nat_uint) simp
  have "unat (r + of_nat k) = (unat r + k) mod 4294967296" by (simp add: unat_word_ariths k)
  moreover have "(128 :: nat) dvd 4294967296" by simp
  ultimately show ?thesis by (simp add: INPUT_BUF_def unat_mod mod_mod_cancel)
qed

lemma in_index_inj:
  assumes "j < 128" "k < 128" "unat ((r + of_nat j) mod INPUT_BUF) = unat ((r + of_nat k) mod INPUT_BUF)"
  shows "j = k"
proof -
  have "(unat r + j) mod 128 = (unat r + k) mod 128" using assms by (simp add: in_index)
  then obtain q1 q2 where "j + 128 * q1 = k + 128 * q2" by (auto simp: nat_mod_eq_iff)
  then have "(j + 128 * q1) mod 128 = (k + 128 * q2) mod 128" by simp
  then show ?thesis using assms(1,2) by simp
qed

lemma in_off_eq: "j \<le> 128 \<Longrightarrow> k \<le> 128 \<Longrightarrow> r + of_nat j = (r + of_nat k :: uint) \<longleftrightarrow> j = k"
proof -
  assume "j \<le> 128" "k \<le> 128"
  then have "unat (of_nat j :: uint) = j" "unat (of_nat k :: uint) = k" by (simp_all add: unat_of_nat_uint)
  then show ?thesis by (metis add_left_cancel)
qed

definition con_frame :: "'z kcon_scheme \<Rightarrow> 'z kcon_scheme \<Rightarrow> bool" where
  "con_frame s t \<longleftrightarrow> uart t = uart s \<and> uart_lsr t = uart_lsr s \<and> uart_rx t = uart_rx s \<and> eflags_if t = eflags_if s"

lemma con_frame_refl [simp]: "con_frame s s"
  by (simp add: con_frame_def)

lemma con_frame_trans: "con_frame s t \<Longrightarrow> con_frame t u \<Longrightarrow> con_frame s u"
  by (simp add: con_frame_def)

lemma in_rep_emit [simp]: "in_rep q l (fold emit xs s) = in_rep q l s"
  by (simp add: in_rep_def)

lemma in_rep_cong:
  "in_rep q l s \<Longrightarrow> in_r t = in_r s \<Longrightarrow> in_w t = in_w s \<Longrightarrow> in_e t = in_e s \<Longrightarrow> in_buf t = in_buf s \<Longrightarrow> in_rep q l t"
  by (simp add: in_rep_def)

lemma in_rep_nth:
  "in_rep q l s \<Longrightarrow> k < length q + length l \<Longrightarrow>
   in_buf s (unat ((in_r s + of_nat k) mod INPUT_BUF)) = (q @ l) ! k"
  by (simp add: in_rep_def)

lemma in_rep_e: "in_rep q l s \<Longrightarrow> in_e s \<noteq> in_w s \<longleftrightarrow> l \<noteq> []"
  using in_off_eq [of "length q + length l" "length q" "in_r s"] by (auto simp: in_rep_def)

lemma in_rep_back:
  assumes "in_rep q (l @ [x]) s"
  shows "in_rep q l (s\<lparr>in_e := in_e s - 1\<rparr>)" "in_buf s (unat ((in_e s - 1) mod INPUT_BUF)) = x"
proof -
  note a = assms [unfolded in_rep_def]
  have e: "in_e s - 1 = in_r s + of_nat (length q + length l)" using a by simp
  show "in_buf s (unat ((in_e s - 1) mod INPUT_BUF)) = x"
    unfolding e using in_rep_nth [OF assms, of "length q + length l"] by (simp add: nth_append del: of_nat_add)
  show "in_rep q l (s\<lparr>in_e := in_e s - 1\<rparr>)"
    unfolding in_rep_def
  proof (intro conjI allI impI)
    fix k assume "k < length q + length l"
    then show "in_buf (s\<lparr>in_e := in_e s - 1\<rparr>) (unat ((in_r (s\<lparr>in_e := in_e s - 1\<rparr>) + of_nat k) mod INPUT_BUF)) = (q @ l) ! k"
      using a by (auto simp: nth_append)
  qed (use a e in auto)
qed

lemma kill_line_rep:
  assumes "in_rep q l s"
  shows "\<exists>t. kill_line (length l) s = Inr ((), t) \<and> in_rep q [] t \<and> con_frame s t"
  using assms
proof (induction l arbitrary: s rule: rev_induct)
  case Nil
  then show ?case by simp
next
  case (snoc x l)
  note b = in_rep_back [OF snoc.prems]
  have x: "x \<noteq> 0x0a" using snoc.prems by (auto simp: in_rep_def)
  let ?t = "fold emit erase (s\<lparr>in_e := in_e s - 1\<rparr>)"
  have "in_rep q l ?t" using b(1) by simp
  from snoc.IH [OF this] obtain u where u: "kill_line (length l) ?t = Inr ((), u)" "in_rep q [] u" "con_frame ?t u"
    by blast
  have "con_frame s ?t" by (simp add: con_frame_def)
  then show ?case using u con_frame_trans x b(2) by (intro exI [of _ u]) (auto simp: in_get_def)
qed

lemma in_rep_append:
  fixes x :: uchar
  assumes "in_rep q l s" "length q + length l < 128"
  defines "t \<equiv> s\<lparr>in_buf := (in_buf s)(unat (in_e s mod INPUT_BUF) := x), in_e := in_e s + 1\<rparr>"
  shows "in_rep (q @ l @ [x]) [] (t\<lparr>in_w := in_e t\<rparr>)"
    and "x \<noteq> 0x0a \<Longrightarrow> in_rep q (l @ [x]) t"
proof -
  note a = assms(1) [unfolded in_rep_def]
  have buf: "in_buf t (unat ((in_r s + of_nat k) mod INPUT_BUF)) = (q @ l @ [x]) ! k"
    if "k < Suc (length q + length l)" for k
  proof (cases "k = length q + length l")
    case True
    then show ?thesis using a by (simp add: t_def nth_append)
  next
    case False
    then have k: "k < length q + length l" using that by simp
    then have "unat ((in_r s + of_nat k) mod INPUT_BUF) \<noteq> unat (in_e s mod INPUT_BUF)"
      using in_index_inj [of k "length q + length l" "in_r s"] assms(2) a by auto
    then show ?thesis using a k by (auto simp: t_def nth_append)
  qed
  show "in_rep (q @ l @ [x]) [] (t\<lparr>in_w := in_e t\<rparr>)"
    using a assms(2) buf by (simp add: in_rep_def t_def algebra_simps)
  show "x \<noteq> 0x0a \<Longrightarrow> in_rep q (l @ [x]) t"
    using a assms(2) buf by (simp add: in_rep_def t_def algebra_simps)
qed

lemma key_code:
  "uint c = 0x15 \<longleftrightarrow> c = 0x15" "uint c = 0x08 \<longleftrightarrow> c = 0x08" "uint c = 0x7f \<longleftrightarrow> c = 0x7f"
  "uint c = 0x0d \<longleftrightarrow> c = 0x0d" "uint c = 0x0a \<longleftrightarrow> c = 0x0a" "uint c = 0x04 \<longleftrightarrow> c = 0x04"
  "uint c = 0x10 \<longleftrightarrow> c = 0x10" for c :: uchar
  using word_uint_eq_iff [of c "0x15"] word_uint_eq_iff [of c "0x08"] word_uint_eq_iff [of c "0x7f"]
    word_uint_eq_iff [of c "0x0d"] word_uint_eq_iff [of c "0x0a"] word_uint_eq_iff [of c "0x04"]
    word_uint_eq_iff [of c "0x10"] by simp_all

lemma cons_key_rep:
  fixes s :: "'z kcon_scheme"
  assumes "in_rep q l s" "c \<noteq> 0x10"
  shows "\<exists>t q' l'. cons_key (uint c) s = Inr ((), t) \<and> tty_key c (q, l) = (q', l') \<and> in_rep q' l' t \<and> con_frame s t"
proof -
  note a = assms(1) [unfolded in_rep_def]
  have n: "length q + length l \<le> 128" using a by blast
  have el: "unat (in_e s - in_w s) = length l"
    using a n unat_of_nat_uint [of "length l"] by simp
  consider (kill) "c = 0x15" | (bs) "c = 0x08 \<or> c = 0x7f" |
    (char) "c \<noteq> 0x15" "\<not> (c = 0x08 \<or> c = 0x7f)" by blast
  then show ?thesis
  proof cases
    case kill
    then show ?thesis using kill_line_rep [OF assms(1)] by (simp add: cons_key_def tty_key_def el)
  next
    case bs
    then have run: "cons_key (uint c) s = (if in_e s \<noteq> in_w s then Inr ((), fold emit erase (s\<lparr>in_e := in_e s - 1\<rparr>)) else Inr ((), s))"
      by (auto simp: cons_key_def key_code)
    show ?thesis
    proof (cases l rule: rev_cases)
      case Nil
      then show ?thesis using run in_rep_e [OF assms(1)] bs assms(1) by (auto simp: tty_key_def)
    next
      case (snoc l' x)
      then have "in_rep q l' (s\<lparr>in_e := in_e s - 1\<rparr>)" using in_rep_back(1) assms(1) by blast
      then show ?thesis using run in_rep_e [OF assms(1)] bs snoc
        by (auto simp: tty_key_def con_frame_def)
    qed
  next
    case char
    define x where "x = (if c = 0x0d then 0x0a else c)"
    define u where "u = s\<lparr>in_buf := (in_buf s)(unat (in_e s mod INPUT_BUF) := x), in_e := in_e s + 1\<rparr>"
    have room: "in_e s - in_r s < INPUT_BUF \<longleftrightarrow> length q + length l < 128"
      using a n unat_of_nat_uint [of "length q + length l"]
      by (simp add: word_less_nat_alt INPUT_BUF_def del: of_nat_add)
    show ?thesis
    proof (cases "c \<noteq> 0 \<and> length q + length l < 128")
      case False
      have "(uint c = 0x15) = False" "(uint c = 0x08 \<or> uint c = 0x7f) = False"
        "(uint c \<noteq> 0 \<and> in_e s - in_r s < INPUT_BUF) = False"
        using char False uint_0_iff [of c] by (auto simp: key_code room)
      then have "cons_key (uint c) s = Inr ((), s)"
        by (simp only: cons_key_def if_False bindK_getK whenK_apply)
      then show ?thesis using False char assms(1) by (auto simp: tty_key_def)
    next
      case True
      have full: "in_e u = in_r u + INPUT_BUF \<longleftrightarrow> length q + length l = 127"
        using in_off_eq [of "Suc (length q + length l)" 128 "in_r s"] True a
        by (simp add: u_def INPUT_BUF_def add.assoc add.commute)
      let ?c = "x = 0x0a \<or> x = 0x04 \<or> length q + length l = 127"
      let ?v = "fold emit [x] u"
      define d where "d = (if uint c = 0x0d then 0x0a else uint c)"
      have d: "(word_of_int d :: uchar) = x" "(word_of_int d :: uint) = ucast x" "d = 0x0a \<longleftrightarrow> x = 0x0a"
        "d = 0x04 \<longleftrightarrow> x = 0x04"
        by (simp_all add: d_def x_def key_code)
      have "(uint c = 0x15) = False" "(uint c = 0x08 \<or> uint c = 0x7f) = False"
        "(uint c \<noteq> 0 \<and> in_e s - in_r s < INPUT_BUF) = True"
        using char True uint_0_iff [of c] by (auto simp: key_code room)
      then have "cons_key (uint c) s = thenK (consputc (word_of_int d)) (modK (\<lambda>s. if d = 0x0a \<or> d = 0x04 \<or>
          in_e s = in_r s + INPUT_BUF then s\<lparr>in_w := in_e s\<rparr> else s)) u"
        by (simp only: cons_key_def Let_def d_def [symmetric] if_False bindK_getK whenK_apply if_True thenK_modK
            d(1) u_def [symmetric])
      moreover have "consputc (word_of_int d) u = Inr ((), ?v)"
        using put_char_eq [of x u] by (simp only: put_char_def d) simp
      ultimately have "cons_key (uint c) s = Inr ((), if ?c then ?v\<lparr>in_w := in_e ?v\<rparr> else ?v)"
        using full by (simp add: d)
      moreover have "tty_key c (q, l) = (if ?c then (q @ l @ [x], []) else (q, l @ [x]))"
        using char True assms(2) by (auto simp: tty_key_def x_def Let_def)
      moreover have "in_rep (q @ l @ [x]) [] (?v\<lparr>in_w := in_e ?v\<rparr>)"
        by (rule in_rep_cong [OF in_rep_append(1) [OF assms(1), of x, folded u_def]]) (use True in simp_all)
      moreover have "x \<noteq> 0x0a \<Longrightarrow> in_rep q (l @ [x]) ?v"
        by (rule in_rep_cong [OF in_rep_append(2) [OF assms(1), of x, folded u_def]]) (use True in simp_all)
      moreover have "con_frame s ?v" by (simp add: con_frame_def u_def)
      ultimately show ?thesis by (simp add: con_frame_def)
    qed
  qed
qed

text \<open>A process listing only prints.\<close>

definition prints :: "('z kcon_scheme, unit) kern \<Rightarrow> bool" where
  "prints m \<longleftrightarrow> (\<forall>s. \<exists>xs. m s = Inr ((), fold emit xs s))"

text \<open>There is a port, and \<^verbatim>\<open>uartinit\<close> has found it.\<close>

definition uart_up :: "'z kcon_scheme \<Rightarrow> bool" where
  "uart_up s \<longleftrightarrow> uart s \<and> uart_lsr s \<noteq> 0xFF"

lemma uartgetc_rep:
  assumes "uart_up s"
  shows "uartgetc s = (case uart_rx s of [] \<Rightarrow> Inr (- 1, s) | c # cs \<Rightarrow> Inr (uint c, s\<lparr>uart_rx := cs\<rparr>))"
  using assms by (cases "uart_rx s") (simp_all add: uartgetc_def com_status_def com_recv_def uart_up_def and_one_eq
      even_or_iff even_and_iff flip: even_iff_mod_2_eq_zero)

lemma consoleintr_loop_rep:
  assumes "uart_up s" "in_rep q l s" "uart_rx s = cs" "length cs < fuel"
  shows "\<exists>t dp q' l'. consoleintr_loop fuel uartgetc dp0 s = Inr (dp, t) \<and> fold tty_key cs (q, l) = (q', l') \<and>
    in_rep q' l' t \<and> uart_rx t = [] \<and> uart_up t \<and> eflags_if t = eflags_if s"
  using assms
proof (induction fuel arbitrary: s q l cs dp0)
  case (Suc fuel)
  show ?case
  proof (cases cs)
    case Nil
    then show ?thesis using Suc.prems by (simp add: uartgetc_rep)
  next
    case (Cons c cs')
    let ?s = "s\<lparr>uart_rx := cs'\<rparr>"
    have get: "uartgetc s = Inr (uint c, ?s)" using Suc.prems Cons by (simp add: uartgetc_rep)
    have rep: "in_rep q l ?s" by (rule in_rep_cong [OF Suc.prems(2)]) simp_all
    have up: "uart_up ?s" using Suc.prems(1) by (simp add: uart_up_def)
    show ?thesis
    proof (cases "c = 0x10")
      case True
      then have "tty_key c (q, l) = (q, l)" by (simp add: tty_key_def)
      then show ?thesis
        using Suc.IH [of ?s q l cs' True] rep up Suc.prems(4) Cons get True by (simp add: key_code)
    next
      case False
      from cons_key_rep [OF rep False] obtain t q1 l1 where
        t: "cons_key (uint c) ?s = Inr ((), t)" "tty_key c (q, l) = (q1, l1)" "in_rep q1 l1 t" "con_frame ?s t"
        by blast
      have "uart_up t" "uart_rx t = cs'" "eflags_if t = eflags_if s" using t(4) up by (auto simp: con_frame_def uart_up_def)
      then show ?thesis
        using Suc.IH [of t q1 l1 cs' dp0] t Suc.prems(4) Cons get False by (simp add: key_code)
    qed
  qed
qed simp

lemma uartintr_rep:
  assumes "uart_up s" "in_rep q l s" "prints procdump"
  shows "\<exists>t q' l'. uartintr procdump s = Inr ((), t) \<and> fold tty_key (uart_rx s) (q, l) = (q', l') \<and>
    in_rep q' l' t \<and> uart_rx t = [] \<and> uart_up t \<and> eflags_if t = eflags_if s"
proof -
  obtain t dp q' l' where t: "consoleintr_loop (Suc (length (uart_rx s))) uartgetc False s = Inr (dp, t)"
    "fold tty_key (uart_rx s) (q, l) = (q', l')" "in_rep q' l' t" "uart_rx t = []" "uart_up t" "eflags_if t = eflags_if s"
    using consoleintr_loop_rep [OF assms(1,2) refl, of "Suc (length (uart_rx s))" False] by auto
  obtain xs where xs: "procdump t = Inr ((), fold emit xs t)" using assms(3) by (auto simp: prints_def)
  show ?thesis
    using t xs by (intro exI [of _ "if dp then fold emit xs t else t"] exI [of _ q'] exI [of _ l'])
      (simp add: uartintr_def consoleintr_def uart_up_def)
qed

lemma in_rep_take:
  assumes "in_rep (x # q) l s"
  shows "in_rep q l (s\<lparr>in_r := in_r s + 1\<rparr>)" "in_buf s (unat (in_r s mod INPUT_BUF)) = x" "in_r s \<noteq> in_w s"
proof -
  note a = assms [unfolded in_rep_def]
  show "in_buf s (unat (in_r s mod INPUT_BUF)) = x" using in_rep_nth [OF assms, of 0] by simp
  show "in_r s \<noteq> in_w s" using in_off_eq [of 0 "length (x # q)" "in_r s"] a by simp
  have "in_buf s (unat ((in_r s + 1 + of_nat k) mod INPUT_BUF)) = (q @ l) ! k" if "k < length q + length l" for k
    using in_rep_nth [OF assms, of "Suc k"] that by (simp add: add.assoc)
  then show "in_rep q l (s\<lparr>in_r := in_r s + 1\<rparr>)" using a by (simp add: in_rep_def algebra_simps)
qed

lemma consoleread_turn_rep:
  assumes "in_rep (x # q) l s"
  shows "\<exists>t. consoleread_turn got s = Inr (if x = 0x04 then (False, got) else (x \<noteq> 0x0a, got @ [x]), t) \<and>
    in_rep (if x = 0x04 \<and> got \<noteq> [] then x # q else q) l t \<and> con_frame s t"
proof -
  note r = in_rep_take [OF assms]
  let ?t = "if x = 0x04 \<and> got \<noteq> [] then s else s\<lparr>in_r := in_r s + 1\<rparr>"
  have run: "consoleread_turn got s = Inr (if x = 0x04 then (False, got) else (x \<noteq> 0x0a, got @ [x]), ?t)"
    unfolding consoleread_turn_def in_get_def bindK_getK r(2) by simp
  have "con_frame s ?t" by (simp add: con_frame_def)
  then show ?thesis unfolding run using r(1) assms by auto
qed

lemma consoleread_loop_rep:
  assumes "in_rep q l s" "tty_read n got q = Some (out, q')"
  shows "\<exists>t. consoleread_loop n procdump got s = Inr (out, t) \<and> in_rep q' l t \<and> con_frame s t"
  using assms
proof (induction n arbitrary: s got q)
  case (Suc n)
  then obtain x q1 where q: "q = x # q1" by (cases q) auto
  obtain t where t: "consoleread_turn got s = Inr (if x = 0x04 then (False, got) else (x \<noteq> 0x0a, got @ [x]), t)"
    "in_rep (if x = 0x04 \<and> got \<noteq> [] then x # q1 else q1) l t" "con_frame s t"
    using consoleread_turn_rep [OF Suc.prems(1) [unfolded q]] by blast
  have step: "consoleread_loop (Suc n) procdump got s =
      (if x = 0x04 then Inr (got, t)
       else if x = 0x0a then Inr (got @ [x], t) else consoleread_loop n procdump (got @ [x]) t)"
    using t(1) in_rep_take(3) [OF Suc.prems(1) [unfolded q]] by (simp add: cons_wait_def)
  show ?case
  proof (cases "x = 0x04 \<or> x = 0x0a")
    case True
    then show ?thesis using step Suc.prems t(2,3) by (auto simp: q split: if_splits)
  next
    case False
    then have r: "tty_read n (got @ [x]) q1 = Some (out, q')" using Suc.prems(2) by (simp add: q)
    have "in_rep q1 l t" using t(2) False by simp
    from Suc.IH [OF this r] show ?thesis using step False con_frame_trans [OF t(3)] by auto
  qed
qed simp

lemma consoleread_line:
  assumes "in_rep q l s" "tty_read (nat n) [] q = Some (out, q')"
  shows "\<exists>t. consoleread procdump n s = Inr ((int (length out), out), t) \<and> in_rep q' l t \<and> con_frame s t"
  using consoleread_loop_rep [OF assms, of procdump] by (auto simp: consoleread_def)

section \<open>Interleaving of keys and reads\<close>

text \<open>
  Bytes arrive, and raise an interrupt, at any moment: while no process reads, while one waits for a line, and between two
  turns of the loop of \<^verbatim>\<open>consoleread\<close>. A sequence of events says in which order things happen: bytes arrive, a
  process calls \<^verbatim>\<open>consoleread\<close> (when no other call is in progress), or the call in progress goes on, which is a
  test of the waiting loop that finds nothing, or a turn of the loop, or the return. The reader is \<open>None\<close>, or \<open>Some (n, dst)\<close> with the bytes still
  wanted and the bytes stored so far; the results of the calls that have returned are collected.
\<close>

datatype con_event = Arrive "uchar list" | Call int | Run

type_synonym reader = "(nat \<times> uchar list) option \<times> uchar list list"

definition con_step :: "('z kcon_scheme, unit) kern \<Rightarrow> con_event \<Rightarrow> reader \<Rightarrow> ('z kcon_scheme, reader) kern" where
  "con_step procdump e = (\<lambda>(rd, outs). case e of
     Arrive bs \<Rightarrow> thenK (modK (\<lambda>s. s\<lparr>uart_rx := uart_rx s @ bs\<rparr>)) (thenK (uartintr procdump) (ret (rd, outs)))
   | Call n \<Rightarrow> ret (if rd = None then Some (nat n, []) else rd, outs)
   | Run \<Rightarrow> (case rd of None \<Rightarrow> ret (rd, outs)
     | Some (0, dst) \<Rightarrow> ret (None, outs @ [dst])
     | Some (Suc n, dst) \<Rightarrow> bindK (getK (\<lambda>s. in_r s = in_w s)) (\<lambda>empty.
         if empty then ret (rd, outs) else
         bindK (consoleread_turn dst) (\<lambda>(more, dst').
         ret (if more then (Some (n, dst'), outs) else (None, outs @ [dst']))))))"

primrec con_run :: "('z kcon_scheme, unit) kern \<Rightarrow> con_event list \<Rightarrow> reader \<Rightarrow> ('z kcon_scheme, reader) kern" where
  "con_run procdump [] = ret"
| "con_run procdump (e # es) = (\<lambda>r. bindK (con_step procdump e r) (con_run procdump es))"

text \<open>Undisturbed, the steps of a call are those of \<open>consoleread\<close>.\<close>

lemma consoleread_runs:
  assumes "in_rep q l s" "tty_read n got q = Some (out, q')"
  shows "\<exists>k t. con_run procdump (replicate k Run) (Some (n, got), outs) s = Inr ((None, outs @ [out]), t) \<and>
    consoleread_loop n procdump got s = Inr (out, t)"
  using assms
proof (induction n arbitrary: s got q)
  case 0
  then show ?case by (intro exI [of _ "Suc 0"]) (simp add: con_step_def)
next
  case (Suc n)
  then obtain x q1 where q: "q = x # q1" by (cases q) auto
  obtain t where t: "consoleread_turn got s = Inr (if x = 0x04 then (False, got) else (x \<noteq> 0x0a, got @ [x]), t)"
    "in_rep (if x = 0x04 \<and> got \<noteq> [] then x # q1 else q1) l t" "con_frame s t"
    using consoleread_turn_rep [OF Suc.prems(1) [unfolded q]] by blast
  note ne = in_rep_take(3) [OF Suc.prems(1) [unfolded q]]
  show ?case
  proof (cases "x = 0x04 \<or> x = 0x0a")
    case True
    then show ?thesis using t(1) ne Suc.prems(2)
      by (intro exI [of _ "Suc 0"] exI [of _ t]) (auto simp: con_step_def cons_wait_def q)
  next
    case False
    then have "in_rep q1 l t" "tty_read n (got @ [x]) q1 = Some (out, q')" using t(2) Suc.prems(2) by (simp_all add: q)
    from Suc.IH [OF this] obtain k u where "con_run procdump (replicate k Run) (Some (n, got @ [x]), outs) t = Inr ((None, outs @ [out]), u)"
      "consoleread_loop n procdump (got @ [x]) t = Inr (out, u)" by blast
    then show ?thesis using t(1) ne False
      by (intro exI [of _ "Suc k"] exI [of _ u]) (simp add: con_step_def cons_wait_def)
  qed
qed

text \<open>The same events on the line editor.\<close>

definition tty_step :: "con_event \<Rightarrow> tty \<times> reader \<Rightarrow> tty \<times> reader" where
  "tty_step e = (\<lambda>((q, l), rd, outs). case e of
     Arrive bs \<Rightarrow> (fold tty_key bs (q, l), rd, outs)
   | Call n \<Rightarrow> ((q, l), if rd = None then Some (nat n, []) else rd, outs)
   | Run \<Rightarrow> (case rd of None \<Rightarrow> ((q, l), rd, outs)
     | Some (0, dst) \<Rightarrow> ((q, l), None, outs @ [dst])
     | Some (Suc n, dst) \<Rightarrow> (case q of [] \<Rightarrow> ((q, l), rd, outs)
       | x # q' \<Rightarrow> if x = 0x04 then ((if dst = [] then q' else q, l), None, outs @ [dst])
           else if x = 0x0a then ((q', l), None, outs @ [dst @ [x]])
           else ((q', l), Some (n, dst @ [x]), outs))))"

definition con_rep :: "tty \<Rightarrow> 'z kcon_scheme \<Rightarrow> bool" where
  "con_rep x s \<longleftrightarrow> uart_up s \<and> uart_rx s = [] \<and> in_rep (fst x) (snd x) s"

lemma in_rep_empty: "in_rep q l s \<Longrightarrow> in_r s = in_w s \<longleftrightarrow> q = []"
proof (cases q)
  case (Cons x q')
  assume "in_rep q l s"
  then show ?thesis using in_rep_take(3) Cons by auto
qed (simp add: in_rep_def)

lemma con_step_rep:
  assumes "con_rep x s" "prints procdump"
  shows "wpK (con_step procdump e r) (\<lambda>r' t. \<exists>x'. tty_step e (x, r) = (x', r') \<and> con_rep x' t) s"
proof -
  obtain q l rd outs where x: "x = (q, l)" "r = (rd, outs)" by (cases x, cases r)
  have rep: "in_rep q l s" and up: "uart_up s" "uart_rx s = []" using assms(1) by (auto simp: con_rep_def x)
  show ?thesis
  proof (cases e)
    case (Arrive bs)
    let ?s = "s\<lparr>uart_rx := bs\<rparr>"
    have "uart_up ?s" "in_rep q l ?s" using up(1) rep by (auto simp: uart_up_def intro: in_rep_cong [OF rep])
    from uartintr_rep [OF this assms(2)] obtain t q' l' where
      "uartintr procdump ?s = Inr ((), t)" "fold tty_key bs (q, l) = (q', l')" "in_rep q' l' t" "uart_rx t = []" "uart_up t"
      by auto
    then show ?thesis using Arrive up(2) by (simp add: con_step_def x wpK_def tty_step_def con_rep_def)
  next
    case (Call n)
    then show ?thesis using assms(1) by (simp add: con_step_def x wpK_def tty_step_def)
  next
    case Run
    show ?thesis
    proof (cases "\<exists>n dst y q1. rd = Some (Suc n, dst) \<and> q = y # q1")
      case True
      then obtain n dst y q1 where rd: "rd = Some (Suc n, dst)" "q = y # q1" by blast
      obtain t where t: "consoleread_turn dst s = Inr (if y = 0x04 then (False, dst) else (y \<noteq> 0x0a, dst @ [y]), t)"
        "in_rep (if y = 0x04 \<and> dst \<noteq> [] then y # q1 else q1) l t" "con_frame s t"
        using consoleread_turn_rep [OF rep [unfolded rd]] by blast
      have "uart_up t" "uart_rx t = []" using t(3) up by (simp_all add: con_frame_def uart_up_def)
      then show ?thesis
        using Run rd t(1,2) in_rep_empty [OF rep] by (auto simp: con_step_def x wpK_def tty_step_def con_rep_def)
    next
      case False
      then show ?thesis
        using Run assms(1) in_rep_empty [OF rep]
        by (cases rd) (auto simp: con_step_def x wpK_def tty_step_def split: nat.splits list.splits)
    qed
  qed
qed

lemma con_run_rep:
  assumes "con_rep x s" "prints procdump"
  shows "wpK (con_run procdump es r) (\<lambda>r' t. \<exists>x'. fold tty_step es (x, r) = (x', r') \<and> con_rep x' t) s"
  using assms(1)
proof (induction es arbitrary: x r s)
  case (Cons e es)
  show ?case
    unfolding con_run.simps fold.simps o_apply
    by (rule wpK_let [OF con_step_rep [OF Cons.prems assms(2)]]) (use Cons.IH in force)
qed (simp add: wpK_def)

section \<open>Properties\<close>

definition demo_con :: kcon where
  "demo_con = \<lparr>eflags_if = True, ncli = 0, intena = False, mem = (\<lambda>_. 0), freelist = 0,
     bufs = bufs demo_blk, idequeue = None, havedisk1 = True, ide_status = 0x40, ports = (\<lambda>_. 0),
     disk = (\<lambda>_ _. []), dwrites = [],
     lg = \<lparr>log_start = 0, log_size = 0, log_committing = 0, log_dev = 0, lh_n = 0, lh_block = (\<lambda>_. 0)\<rparr>,
     uart = True, uart_lsr = 0x20, uart_rx = [], uart_tx = [],
     in_buf = (\<lambda>_. 0), in_r = 0xffffffff, in_w = 0xffffffff, in_e = 0xffffffff\<rparr>"


lemma nat_10: "nat 10 = Suc (Suc (Suc 7))"
  by simp


text \<open>
  C37: \<open>cprintf\<close> of a \<^verbatim>\<open>%d\<close> never overruns the digit buffer and sends exactly the decimal numeral of its
  argument: a minus sign for a negative number, and the digits with no leading zeros. The most negative number is
  excepted: its negation overflows.
\<close>

theorem cprintf_decimal:
  assumes "uart_on s" "cpu_wf s" "n \<noteq> 0x80000000"
  shows "\<exists>t. cprintf (Some (str ''%d'')) [CInt n] s = Inr ((), t) \<and> uart_tx t = uart_tx s @ decimal (sint n)"
proof -
  have "str ''%d'' = [0x25, 0x64]" by (simp add: str_def of_char_def)
  then have loop: "\<forall>s :: 'a kcon_scheme. cprintf_loop (str ''%d'') [CInt n] s = Inr ((), fold emit (decimal (sint n)) s)"
    by (simp add: printint_dec [OF assms(3)])
  have "uart_on (settle s)" "uart_tx (settle s) = uart_tx s" using assms(1) by (simp_all add: uart_on_def settle_def)
  then show ?thesis using cprintf_prints [OF loop assms(2)] by (metis emit_tx)
qed

theorem cprintf_decimal_witness:
  "\<exists>t. cprintf (Some (str ''%d'')) [CInt (- 331)] demo_con = Inr ((), t) \<and> uart_tx t = [0x2d, 0x33, 0x33, 0x31]"
proof -
  have "decimal (sint (- 331 :: uint)) = [0x2d, 0x33, 0x33, 0x31]"
    by (simp add: decimal_def numeral_of.simps numeral_char_def)
  then show ?thesis using cprintf_decimal [of demo_con "- 331"]
    by (simp add: uart_on_def demo_con_def cpu_wf_def)
qed

end
