(* ===== verification/Platform.thy ===== *)
theory Platform
  imports Console
begin

text \<open>
  The machine around the kernel: the multiprocessor tables (\<^verbatim>\<open>mp.c\<close>), the local and the I/O
  interrupt controllers (\<^verbatim>\<open>lapic.c\<close>, \<^verbatim>\<open>ioapic.c\<close>, \<^verbatim>\<open>picirq.c\<close>), and the initialisation of the
  serial port and of the disk that uses them. The memory-mapped registers of the controllers are
  fields of the state; the tables are read from the memory of the machine.
\<close>

record kplat = kcon +
  ioapic_sel :: uint
  ioapic_regs :: "uint \<Rightarrow> uint"
  lapic :: uint
  lapic_regs :: "uint \<Rightarrow> uint"
  ncpu :: int
  apicids :: "nat \<Rightarrow> uchar"
  ioapicid :: uchar

definition T_IRQ0 :: uint where "T_IRQ0 = 32"
definition IRQ_TIMER :: uint where "IRQ_TIMER = 0"
definition IRQ_COM1 :: uint where "IRQ_COM1 = 4"
definition IRQ_IDE :: uint where "IRQ_IDE = 14"
definition IRQ_ERROR :: uint where "IRQ_ERROR = 19"
definition IRQ_SPURIOUS :: uint where "IRQ_SPURIOUS = 31"
definition NCPU :: int where "NCPU = 8"

section \<open>I/O APIC\<close>

definition REG_ID :: uint where "REG_ID = 0x00"
definition REG_VER :: uint where "REG_VER = 0x01"
definition REG_TABLE :: uint where "REG_TABLE = 0x10"
definition INT_DISABLED :: uint where "INT_DISABLED = 0x00010000"

definition ioapicread :: "uint \<Rightarrow> ('z kplat_scheme, uint) kern" where
  "ioapicread reg =
     thenK (modK (\<lambda>s. s\<lparr>ioapic_sel := reg\<rparr>))
     (getK (\<lambda>s. ioapic_regs s (ioapic_sel s)))"

definition ioapicwrite :: "uint \<Rightarrow> uint \<Rightarrow> ('z kplat_scheme, unit) kern" where
  "ioapicwrite reg data =
     thenK (modK (\<lambda>s. s\<lparr>ioapic_sel := reg\<rparr>))
     (modK (\<lambda>s. s\<lparr>ioapic_regs := (ioapic_regs s)(ioapic_sel s := data)\<rparr>))"

definition ioapicinit :: "('z kplat_scheme, unit) kern" where
  "ioapicinit =
     bindK (ioapicread REG_VER) (\<lambda>ver.
     let maxintr = drop_bit 16 ver AND 0xFF in
     bindK (ioapicread REG_ID) (\<lambda>idr.
     let id = drop_bit 24 idr in
     bindK (getK ioapicid) (\<lambda>ioid.
     thenK (whenK (id \<noteq> ucast ioid)
       (cprintf (Some (str ''ioapicinit: id isn't equal to ioapicid; not a MP'' @ [0x0a])) [])) (
     for_range 0 (Suc (unat maxintr)) (\<lambda>i.
       thenK (ioapicwrite (REG_TABLE + 2 * of_nat i) (INT_DISABLED OR (T_IRQ0 + of_nat i)))
       (ioapicwrite (REG_TABLE + 2 * of_nat i + 1) 0))))))"

definition ioapicenable :: "uint \<Rightarrow> uint \<Rightarrow> ('z kplat_scheme, unit) kern" where
  "ioapicenable irq cpunum =
     thenK (ioapicwrite (REG_TABLE + 2 * irq) (T_IRQ0 + irq))
     (ioapicwrite (REG_TABLE + 2 * irq + 1) (push_bit 24 cpunum))"

section \<open>Local APIC\<close>

definition LAPIC_ID :: uint where "LAPIC_ID = 0x0020 div 4"
definition LAPIC_VER :: uint where "LAPIC_VER = 0x0030 div 4"
definition TPR :: uint where "TPR = 0x0080 div 4"
definition EOI :: uint where "EOI = 0x00B0 div 4"
definition SVR :: uint where "SVR = 0x00F0 div 4"
definition ENABLE :: uint where "ENABLE = 0x00000100"
definition ESR :: uint where "ESR = 0x0280 div 4"
definition ICRLO :: uint where "ICRLO = 0x0300 div 4"
definition INIT :: uint where "INIT = 0x00000500"
definition DELIVS :: uint where "DELIVS = 0x00001000"
definition LEVEL :: uint where "LEVEL = 0x00008000"
definition BCAST :: uint where "BCAST = 0x00080000"
definition ICRHI :: uint where "ICRHI = 0x0310 div 4"
definition TIMER :: uint where "TIMER = 0x0320 div 4"
definition X1 :: uint where "X1 = 0x0000000B"
definition PERIODIC :: uint where "PERIODIC = 0x00020000"
definition PCINT :: uint where "PCINT = 0x0340 div 4"
definition LINT0 :: uint where "LINT0 = 0x0350 div 4"
definition LINT1 :: uint where "LINT1 = 0x0360 div 4"
definition LAPIC_ERROR :: uint where "LAPIC_ERROR = 0x0370 div 4"
definition MASKED :: uint where "MASKED = 0x00010000"
definition TICR :: uint where "TICR = 0x0380 div 4"
definition TDCR :: uint where "TDCR = 0x03E0 div 4"

definition lapicw :: "uint \<Rightarrow> uint \<Rightarrow> ('z kplat_scheme, unit) kern" where
  "lapicw index v =
     thenK (modK (\<lambda>s. s\<lparr>lapic_regs := (lapic_regs s)(index := v)\<rparr>))
     (bindK (getK (\<lambda>s. lapic_regs s LAPIC_ID)) (\<lambda>_. ret ()))"

definition lapicinit :: "('z kplat_scheme, unit) kern" where
  "lapicinit =
     bindK (getK lapic) (\<lambda>p.
     if p = 0 then ret () else
     thenK (lapicw SVR (ENABLE OR (T_IRQ0 + IRQ_SPURIOUS))) (
     thenK (lapicw TDCR X1) (
     thenK (lapicw TIMER (PERIODIC OR (T_IRQ0 + IRQ_TIMER))) (
     thenK (lapicw TICR 10000000) (
     thenK (lapicw LINT0 MASKED) (
     thenK (lapicw LINT1 MASKED) (
     bindK (getK (\<lambda>s. lapic_regs s LAPIC_VER)) (\<lambda>ver.
     thenK (whenK (drop_bit 16 ver AND 0xFF \<ge> 4) (lapicw PCINT MASKED)) (
     thenK (lapicw LAPIC_ERROR (T_IRQ0 + IRQ_ERROR)) (
     thenK (lapicw ESR 0) (
     thenK (lapicw ESR 0) (
     thenK (lapicw EOI 0) (
     thenK (lapicw ICRHI 0) (
     thenK (lapicw ICRLO (BCAST OR INIT OR LEVEL)) (
     bindK (getK (\<lambda>s. lapic_regs s ICRLO)) (\<lambda>icr.
     if icr AND DELIVS \<noteq> 0 then spin else
     lapicw TPR 0))))))))))))))))"

definition lapicid :: "('z kplat_scheme, uint) kern" where
  "lapicid = bindK (getK lapic) (\<lambda>p. if p = 0 then ret 0 else getK (\<lambda>s. drop_bit 24 (lapic_regs s LAPIC_ID)))"

definition lapiceoi :: "('z kplat_scheme, unit) kern" where
  "lapiceoi = bindK (getK lapic) (\<lambda>p. whenK (p \<noteq> 0) (lapicw EOI 0))"

definition picinit :: "('z kblk_scheme, unit) kern" where
  "picinit = thenK (outb (0x20 + 1) 0xFF) (outb (0xA0 + 1) 0xFF)"

section \<open>Serial port and disk\<close>

definition uartinit :: "('z kplat_scheme, unit) kern" where
  "uartinit =
     thenK (com_out 2 0) (
     thenK (com_out 3 0x80) (
     thenK (com_out 0 (of_nat (115200 div 9600))) (
     thenK (com_out 1 0) (
     thenK (com_out 3 0x03) (
     thenK (com_out 4 0) (
     thenK (com_out 1 0x01) (
     bindK com_status (\<lambda>st.
     if st = 0xFF then ret () else
     thenK (modK (\<lambda>s. s\<lparr>uart := True\<rparr>)) (
     thenK (bindK (getK (\<lambda>s. ports s (COM1 + 2))) (\<lambda>_. ret ())) (
     thenK com_recv (
     thenK (ioapicenable IRQ_COM1 0)
     (eachK put_char (str ''xv6...'' @ [0x0a])))))))))))))"

text \<open>
  The probe for disk 1 reads the status port up to 1000 times. \<open>st1 i\<close> is what the port of disk 1 gives at the
  \<open>i\<close>-th time; without a disk it stays 0.
\<close>

primrec ide_probe :: "(nat \<Rightarrow> uchar) \<Rightarrow> nat \<Rightarrow> ('z kblk_scheme, unit) kern" where
  "ide_probe st1 0 = ret ()"
| "ide_probe st1 (Suc n) =
     (if st1 (1000 - Suc n) \<noteq> 0 then modK (\<lambda>s. s\<lparr>havedisk1 := True\<rparr>) else ide_probe st1 n)"

definition ideinit :: "(nat \<Rightarrow> uchar) \<Rightarrow> ('z kplat_scheme, unit) kern" where
  "ideinit st1 =
     bindK (getK ncpu) (\<lambda>n.
     thenK (ioapicenable IRQ_IDE (word_of_int (n - 1))) (
     thenK (idewait False) (
     thenK (outb 0x1f6 (0xe0 OR push_bit 4 1)) (
     thenK (ide_probe st1 1000)
     (outb 0x1f6 (0xe0 OR push_bit 4 0))))))"

section \<open>Multiprocessor tables\<close>

text \<open>\<^verbatim>\<open>sum\<close> and the comparison of memory with a string literal.\<close>

fun mp_sum :: "memory \<Rightarrow> uint \<Rightarrow> nat \<Rightarrow> uchar" where
  "mp_sum m a 0 = 0"
| "mp_sum m a (Suc n) = m a + mp_sum m (a + 1) n"

definition mem_is :: "memory \<Rightarrow> uint \<Rightarrow> uchar list \<Rightarrow> bool" where
  "mem_is m a bs = (bytes_at m a (length bs) = bs)"

fun mpsearch_loop :: "nat \<Rightarrow> memory \<Rightarrow> uint \<Rightarrow> uint \<Rightarrow> uint" where
  "mpsearch_loop 0 m p e = 0"
| "mpsearch_loop (Suc k) m p e =
     (if \<not> p < e then 0
      else if mem_is m p (str ''_MP_'') \<and> mp_sum m p 16 = 0 then p else mpsearch_loop k m (p + 16) e)"

text \<open>The scan of \<open>len\<close> bytes visits every 16th byte, so \<open>len div 16 + 1\<close> steps reach the end.\<close>

definition mpsearch1 :: "memory \<Rightarrow> uint \<Rightarrow> nat \<Rightarrow> uint" where
  "mpsearch1 m a len = mpsearch_loop (len div 16 + 1) m a (a + of_nat len)"

definition mpsearch :: "memory \<Rightarrow> uint" where
  "mpsearch m =
     (let p = push_bit 4 (push_bit 8 (ucast (m 0x40F)) OR ucast (m 0x40E)) in
      if p \<noteq> 0 then
        let mp = mpsearch1 m p 1024 in
        if mp \<noteq> 0 then mp else mpsearch1 m 0xF0000 0x10000
      else
        let p = (push_bit 8 (ucast (m 0x414)) OR ucast (m 0x413)) * 1024;
            mp = mpsearch1 m (p - 1024) 1024 in
        if mp \<noteq> 0 then mp else mpsearch1 m 0xF0000 0x10000)"

definition mpconfig :: "memory \<Rightarrow> (uint \<times> uint) option" where
  "mpconfig m =
     (let mp = mpsearch m in
      if mp = 0 then None else
      let conf = ld32 m (mp + 4) in
      if conf = 0 then None
      else if \<not> mem_is m conf (str ''PCMP'') then None
      else if m (conf + 6) \<noteq> 1 \<and> m (conf + 6) \<noteq> 4 then None
      else if mp_sum m conf (unat (ld16 m (conf + 4))) \<noteq> 0 then None
      else Some (mp, conf))"

definition MPPROC :: uchar where "MPPROC = 0x00"
definition MPBUS :: uchar where "MPBUS = 0x01"
definition MPIOAPIC :: uchar where "MPIOAPIC = 0x02"
definition MPIOINTR :: uchar where "MPIOINTR = 0x03"
definition MPLINTR :: uchar where "MPLINTR = 0x04"

text \<open>
  The loop over the table entries, with \<^verbatim>\<open>ismp\<close>; \<open>fuel\<close> bounds the number of iterations. An entry of an unknown kind
  only clears \<^verbatim>\<open>ismp\<close>: the \<^verbatim>\<open>break\<close> leaves the \<^verbatim>\<open>switch\<close>, not the loop, and \<^verbatim>\<open>p\<close> stays as it is. The
  other entries advance by at least 8 of at most 65535 bytes.
\<close>

primrec mp_entries :: "nat \<Rightarrow> bool \<Rightarrow> uint \<Rightarrow> uint \<Rightarrow> ('z kplat_scheme, bool) kern" where
  "mp_entries 0 = (\<lambda>ismp p e. spin)"
| "mp_entries (Suc fuel) = (\<lambda>ismp p e.
     if \<not> p < e then ret ismp else
     bindK (getK (\<lambda>s. mem s p)) (\<lambda>ty.
     if ty = MPPROC then
       bindK (getK (\<lambda>s. mem s (p + 1))) (\<lambda>id.
       thenK (modK (\<lambda>s. if ncpu s < NCPU then
         s\<lparr>apicids := (apicids s)(nat (ncpu s) := id), ncpu := ncpu s + 1\<rparr> else s))
       (mp_entries fuel ismp (p + 20) e))
     else if ty = MPIOAPIC then
       bindK (getK (\<lambda>s. mem s (p + 1))) (\<lambda>id.
       thenK (modK (\<lambda>s. s\<lparr>ioapicid := id\<rparr>))
       (mp_entries fuel ismp (p + 8) e))
     else if ty = MPBUS \<or> ty = MPIOINTR \<or> ty = MPLINTR then mp_entries fuel ismp (p + 8) e
     else mp_entries fuel False p e))"

text \<open>
  \<open>mpinit_upto fuel\<close> stops with \<open>Spin\<close> when the loop has not ended after \<open>fuel\<close> iterations. A table that is read to
  its end takes at most 8193.
\<close>

definition mpinit_upto :: "nat \<Rightarrow> ('z kplat_scheme, unit) kern" where
  "mpinit_upto fuel =
     bindK (getK (\<lambda>s. mpconfig (mem s))) (\<lambda>c. case c of None \<Rightarrow> panic ''Expect to run on an SMP'' | Some (mp, conf) \<Rightarrow>
     thenK (modK (\<lambda>s. s\<lparr>lapic := ld32 (mem s) (conf + 36)\<rparr>)) (
     bindK (getK (\<lambda>s. conf + ucast (ld16 (mem s) (conf + 4)))) (\<lambda>e.
     bindK (mp_entries fuel True (conf + 44) e) (\<lambda>ismp.
     if \<not> ismp then panic ''Didn't find a suitable machine'' else
     bindK (getK (\<lambda>s. mem s (mp + 12))) (\<lambda>imcrp.
     whenK (imcrp \<noteq> 0) (
       thenK (outb 0x22 0x70) (
       bindK (getK (\<lambda>s. ports s 0x23)) (\<lambda>v. outb 0x23 (v OR 1)))))))))"

definition mpinit :: "('z kplat_scheme, unit) kern" where
  "mpinit = mpinit_upto 8193"

section \<open>Interrupt routing\<close>

lemma ioapicwrite_eq [simp]:
  "ioapicwrite r d s = Inr ((), s\<lparr>ioapic_sel := r, ioapic_regs := (ioapic_regs s)(r := d)\<rparr>)"
  by (simp add: ioapicwrite_def)

lemma emit_plat [simp]:
  "ioapic_regs (fold emit xs s) = ioapic_regs s" "ioapicid (fold emit xs s) = ioapicid s" for s :: "'z kplat_scheme"
  by (induction xs arbitrary: s) (simp_all add: emit_def)

lemma table_regs:
  assumes "i < 256" "j < 256"
  shows "REG_TABLE + 2 * of_nat i = REG_TABLE + 2 * (of_nat j :: uint) \<longleftrightarrow> i = j"
    and "REG_TABLE + 2 * of_nat i + 1 = REG_TABLE + 2 * (of_nat j :: uint) + 1 \<longleftrightarrow> i = j"
    and "REG_TABLE + 2 * of_nat i + 1 \<noteq> REG_TABLE + 2 * (of_nat j :: uint)"
proof -
  have u: "unat (REG_TABLE + 2 * of_nat k + of_nat c :: uint) = 16 + 2 * k + c" if "k < 256" "c < 2" for k c
  proof -
    have "(REG_TABLE + 2 * of_nat k + of_nat c :: uint) = of_nat (16 + 2 * k + c)" by (simp add: REG_TABLE_def)
    then show ?thesis using that by (simp only:) (rule unat_of_nat_uint, simp)
  qed
  have e: "REG_TABLE + 2 * of_nat i + of_nat c = (REG_TABLE + 2 * of_nat j + of_nat d :: uint) \<longleftrightarrow> 2 * i + c = 2 * j + d"
    if "c < 2" "d < 2" for c d
    unfolding word_unat_eq_iff u [OF assms(1) that(1)] u [OF assms(2) that(2)] by simp
  show "REG_TABLE + 2 * of_nat i = REG_TABLE + 2 * (of_nat j :: uint) \<longleftrightarrow> i = j" using e [of 0 0] by simp
  show "REG_TABLE + 2 * of_nat i + 1 = REG_TABLE + 2 * (of_nat j :: uint) + 1 \<longleftrightarrow> i = j" using e [of 1 1] by simp
  have "2 * i + 1 \<noteq> 2 * j + 0" by presburger
  then show "REG_TABLE + 2 * of_nat i + 1 \<noteq> REG_TABLE + 2 * (of_nat j :: uint)" using e [of 1 0] by simp
qed

definition maxintr :: "'z kplat_scheme \<Rightarrow> nat" where
  "maxintr s = unat (drop_bit 16 (ioapic_regs s REG_VER) AND 0xFF)"

lemma maxintr_less: "maxintr s < 256"
proof -
  have "unat (drop_bit 16 (ioapic_regs s REG_VER) AND mask 8) < 2 ^ 8"
    unfolding take_bit_eq_mask [symmetric] unsigned_take_bit_eq by (rule take_bit_nat_less_exp)
  then show ?thesis by (simp add: maxintr_def mask_FF)
qed

lemma ioapicinit_masks:
  assumes "cpu_wf s"
  shows "wpK ioapicinit (\<lambda>_ t. \<forall>i\<le>maxintr s.
    ioapic_regs t (REG_TABLE + 2 * of_nat i) = INT_DISABLED OR (T_IRQ0 + of_nat i) \<and>
    ioapic_regs t (REG_TABLE + 2 * of_nat i + 1) = 0) s"
proof -
  let ?s1 = "s\<lparr>ioapic_sel := REG_ID\<rparr>"
  let ?msg = "str ''ioapicinit: id isn't equal to ioapicid; not a MP'' @ [0x0a]"
  let ?I = "\<lambda>k t :: 'a kplat_scheme. \<forall>i<k. ioapic_regs t (REG_TABLE + 2 * of_nat i) = INT_DISABLED OR (T_IRQ0 + of_nat i) \<and>
    ioapic_regs t (REG_TABLE + 2 * of_nat i + 1) = 0"
  have "fmt_ok ?msg []" by (simp add: str_def of_char_def)
  then obtain xs where xs: "\<forall>s :: 'a kplat_scheme. cprintf_loop ?msg [] s = Inr ((), fold emit xs s)"
    using cprintf_loop_prints by blast
  have loop: "wpK (for_range 0 (Suc (maxintr s)) (\<lambda>i.
      thenK (ioapicwrite (REG_TABLE + 2 * of_nat i) (INT_DISABLED OR (T_IRQ0 + of_nat i)))
       (ioapicwrite (REG_TABLE + 2 * of_nat i + 1) 0))) (\<lambda>_. ?I (Suc (maxintr s))) t" for t :: "'a kplat_scheme"
  proof (rule wpK_for_range [where I = ?I])
    fix k and u :: "'a kplat_scheme" assume k: "k < Suc (maxintr s)" and I: "?I k u"
    let ?u = "u\<lparr>ioapic_sel := REG_TABLE + 2 * of_nat k + 1, ioapic_regs := (ioapic_regs u)
      (REG_TABLE + 2 * of_nat k := INT_DISABLED OR (T_IRQ0 + of_nat k), REG_TABLE + 2 * of_nat k + 1 := 0)\<rparr>"
    have "?I (Suc k) ?u"
    proof (intro allI impI)
      fix i assume i: "i < Suc k"
      have lt: "i < 256" "k < 256" using i k maxintr_less [of s] by simp_all
      show "ioapic_regs ?u (REG_TABLE + 2 * of_nat i) = INT_DISABLED OR (T_IRQ0 + of_nat i) \<and>
          ioapic_regs ?u (REG_TABLE + 2 * of_nat i + 1) = 0"
        using I i table_regs [OF lt] table_regs(3) [OF lt(2,1)] by (cases "i = k") auto
    qed
    then show "wpK (thenK (ioapicwrite (REG_TABLE + 2 * of_nat k) (INT_DISABLED OR (T_IRQ0 + of_nat k)))
       (ioapicwrite (REG_TABLE + 2 * of_nat k + 1) 0)) (\<lambda>_. ?I (Suc k)) u"
      by (simp add: wpK_iff)
  qed simp_all
  have "cpu_wf ?s1" using assms by (simp add: cpu_wf_def)
  then have "cprintf (Some ?msg) [] ?s1 = Inr ((), fold emit xs (settle ?s1))"
    by (rule cprintf_prints [OF xs])
  then have m: "wpK (whenK c (cprintf (Some ?msg) [])) (\<lambda>_. wpK (for_range 0 (Suc (maxintr s)) (\<lambda>i.
      thenK (ioapicwrite (REG_TABLE + 2 * of_nat i) (INT_DISABLED OR (T_IRQ0 + of_nat i)))
       (ioapicwrite (REG_TABLE + 2 * of_nat i + 1) 0))) (\<lambda>_. ?I (Suc (maxintr s)))) ?s1" for c
    using loop by (simp add: wpK_def [of "cprintf _ _"])
  show ?thesis
    using m [of "drop_bit 24 (ioapic_regs s REG_ID) \<noteq> ucast (ioapicid s)"]
    unfolding ioapicinit_def ioapicread_def Let_def wpK_simps maxintr_def less_Suc_eq_le by simp
qed

lemma ioapicenable_eq: "ioapicenable irq cpu s = Inr ((), s\<lparr>ioapic_sel := REG_TABLE + 2 * irq + 1,
    ioapic_regs := (ioapic_regs s)(REG_TABLE + 2 * irq := T_IRQ0 + irq, REG_TABLE + 2 * irq + 1 := push_bit 24 cpu)\<rparr>)"
  by (simp add: ioapicenable_def)

section \<open>Table entries\<close>

text \<open>
  \<open>mp_table m p e es\<close>: the bytes from \<open>p\<close> to \<open>e\<close> hold the entries \<open>es\<close>, each given by its kind and
  its second byte (an APIC id).
\<close>

inductive mp_table :: "memory \<Rightarrow> uint \<Rightarrow> uint \<Rightarrow> (uchar \<times> uchar) list \<Rightarrow> bool" where
  table_end: "\<not> p < e \<Longrightarrow> mp_table m p e []"
| table_proc: "p < e \<Longrightarrow> m p = MPPROC \<Longrightarrow> mp_table m (p + 20) e es \<Longrightarrow> mp_table m p e ((MPPROC, m (p + 1)) # es)"
| table_other: "p < e \<Longrightarrow> m p \<in> {MPBUS, MPIOAPIC, MPIOINTR, MPLINTR} \<Longrightarrow> mp_table m (p + 8) e es \<Longrightarrow>
    mp_table m p e ((m p, m (p + 1)) # es)"

definition procs :: "(uchar \<times> uchar) list \<Rightarrow> uchar list" where
  "procs es = map snd (filter (\<lambda>x. fst x = MPPROC) es)"

definition ioapics :: "(uchar \<times> uchar) list \<Rightarrow> uchar list" where
  "ioapics es = map snd (filter (\<lambda>x. fst x = MPIOAPIC) es)"

lemmas mp_kinds = MPPROC_def MPBUS_def MPIOAPIC_def MPIOINTR_def MPLINTR_def

lemma mp_table_length:
  "mp_table m p e es \<Longrightarrow> unat e + 20 < 2 ^ 32 \<Longrightarrow> 8 * length es \<le> unat e - unat p + 7"
proof (induction rule: mp_table.induct)
  case (table_proc p e m es)
  have "unat p < unat e" using table_proc.hyps(1) by (simp add: word_less_nat_alt)
  moreover from this have "unat (p + 20) = unat p + 20" using table_proc.prems by (subst unat_add_uint) simp_all
  ultimately show ?case using table_proc.IH table_proc.prems by (cases es; cases "unat p + 20 \<le> unat e") auto
next
  case (table_other p e m es)
  have "unat p < unat e" using table_other.hyps(1) by (simp add: word_less_nat_alt)
  moreover from this have "unat (p + 8) = unat p + 8" using table_other.prems by (subst unat_add_uint) simp_all
  ultimately show ?case using table_other.IH table_other.prems by (cases es; cases "unat p + 8 \<le> unat e") auto
qed simp

lemma mp_entries_run:
  assumes "mp_table m p e es" "mem s = m" "length es < fuel" "0 \<le> ncpu s" "ncpu s \<le> NCPU"
  shows "\<exists>t. mp_entries fuel ismp p e s = Inr (ismp, t) \<and> mem t = m \<and> ports t = ports s \<and> lapic t = lapic s \<and>
    ncpu t = min NCPU (ncpu s + int (length (procs es))) \<and>
    (\<forall>k<nat (ncpu t). apicids t k =
      (if k < nat (ncpu s) then apicids s k else procs es ! (k - nat (ncpu s)))) \<and>
    ioapicid t = last (ioapicid s # ioapics es)"
  using assms
proof (induction arbitrary: fuel s rule: mp_table.induct)
  case (table_end p e m)
  then obtain f where "fuel = Suc f" by (cases fuel) auto
  with table_end show ?case by (auto simp: procs_def ioapics_def)
next
  case (table_proc p e m es)
  then obtain f where f: "fuel = Suc f" "length es < f" by (cases fuel) auto
  let ?s = "if ncpu s < NCPU then s\<lparr>apicids := (apicids s)(nat (ncpu s) := m (p + 1)), ncpu := ncpu s + 1\<rparr> else s"
  have n: "0 \<le> ncpu ?s" "ncpu ?s \<le> NCPU" "mem ?s = m" using table_proc.prems by (auto simp: NCPU_def)
  from table_proc.IH [OF n(3) f(2) n(1,2)] obtain t where t: "mp_entries f ismp (p + 20) e ?s = Inr (ismp, t)" "mem t = m"
    "ports t = ports ?s" "lapic t = lapic ?s" "ncpu t = min NCPU (ncpu ?s + int (length (procs es)))"
    "\<forall>k<nat (ncpu t). apicids t k = (if k < nat (ncpu ?s) then apicids ?s k else procs es ! (k - nat (ncpu ?s)))"
    "ioapicid t = last (ioapicid ?s # ioapics es)"
    by blast
  have P: "procs ((MPPROC, m (p + 1)) # es) = m (p + 1) # procs es" "ioapics ((MPPROC, m (p + 1)) # es) = ioapics es"
    by (simp_all add: procs_def ioapics_def mp_kinds)
  have run: "mp_entries fuel ismp p e s = mp_entries f ismp (p + 20) e ?s"
    using table_proc.hyps(1,2) table_proc.prems(1) by (simp add: f(1))
  show ?case
  proof (cases "ncpu s < NCPU")
    case True
    have suc: "nat (ncpu s + 1) = Suc (nat (ncpu s))" using table_proc.prems(3) by simp
    have "apicids t k = (if k < nat (ncpu s) then apicids s k else (m (p + 1) # procs es) ! (k - nat (ncpu s)))"
      if "k < nat (ncpu t)" for k
      using t(6) that True table_proc.prems(3) by (cases "k = nat (ncpu s)") (auto simp: nth_Cons' suc)
    then show ?thesis using t True run unfolding P by (intro exI [of _ t]) auto
  next
    case False
    then have "ncpu s = NCPU" using table_proc.prems(4) by simp
    then show ?thesis using t False run unfolding P by (intro exI [of _ t]) auto
  qed
next
  case (table_other p e m es)
  then obtain f where f: "fuel = Suc f" "length es < f" by (cases fuel) auto
  let ?s = "if m p = MPIOAPIC then s\<lparr>ioapicid := m (p + 1)\<rparr> else s"
  have n: "0 \<le> ncpu ?s" "ncpu ?s \<le> NCPU" "mem ?s = m" using table_other.prems by auto
  from table_other.IH [OF n(3) f(2) n(1,2)] obtain t where t: "mp_entries f ismp (p + 8) e ?s = Inr (ismp, t)" "mem t = m"
    "ports t = ports ?s" "lapic t = lapic ?s" "ncpu t = min NCPU (ncpu ?s + int (length (procs es)))"
    "\<forall>k<nat (ncpu t). apicids t k = (if k < nat (ncpu ?s) then apicids ?s k else procs es ! (k - nat (ncpu ?s)))"
    "ioapicid t = last (ioapicid ?s # ioapics es)"
    by blast
  have P: "procs ((m p, m (p + 1)) # es) = procs es"
    "ioapics ((m p, m (p + 1)) # es) = (if m p = MPIOAPIC then [m (p + 1)] else []) @ ioapics es"
    using table_other.hyps(2) by (auto simp: procs_def ioapics_def mp_kinds)
  have "mp_entries fuel ismp p e s = mp_entries f ismp (p + 8) e ?s"
    using table_other.hyps(1,2) table_other.prems(1) by (auto simp: f(1) mp_kinds)
  then show ?case using t unfolding P by (intro exI [of _ t]) auto
qed

text \<open>\<open>mp_walk m e p q\<close>: entries of known kinds lead from \<open>p\<close> to \<open>q\<close>.\<close>

inductive mp_walk :: "memory \<Rightarrow> uint \<Rightarrow> uint \<Rightarrow> uint \<Rightarrow> bool" where
  walk_here: "mp_walk m e p p"
| walk_proc: "p < e \<Longrightarrow> m p = MPPROC \<Longrightarrow> mp_walk m e (p + 20) q \<Longrightarrow> mp_walk m e p q"
| walk_other: "p < e \<Longrightarrow> m p \<in> {MPBUS, MPIOAPIC, MPIOINTR, MPLINTR} \<Longrightarrow> mp_walk m e (p + 8) q \<Longrightarrow> mp_walk m e p q"

lemma mp_entries_unknown:
  "q < e \<Longrightarrow> mem s q \<notin> {MPPROC, MPBUS, MPIOAPIC, MPIOINTR, MPLINTR} \<Longrightarrow> mp_entries fuel ismp q e s = Inl Spin"
  by (induction fuel arbitrary: ismp) simp_all

lemma mp_entries_walk:
  assumes "mp_walk m e p q" "mem s = m" "q < e" "m q \<notin> {MPPROC, MPBUS, MPIOAPIC, MPIOINTR, MPLINTR}"
  shows "mp_entries fuel ismp p e s = Inl Spin"
  using assms
proof (induction arbitrary: fuel s rule: mp_walk.induct)
  case (walk_here m e p)
  then show ?case by (intro mp_entries_unknown) auto
next
  case (walk_proc p e m q)
  show ?case
    using walk_proc.hyps(1,2) walk_proc.prems by (cases fuel) (simp_all add: walk_proc.IH)
next
  case (walk_other p e m q)
  show ?case
    using walk_other.hyps(1,2) walk_other.prems by (cases fuel) (auto simp: walk_other.IH mp_kinds)
qed

text \<open>The last of a sequence of \<open>ioapicenable\<close> calls for a line decides.\<close>

definition enable_all :: "(uint \<times> uint) list \<Rightarrow> ('z kplat_scheme, unit) kern" where
  "enable_all xs = eachK (\<lambda>(irq, cpu). ioapicenable irq cpu) xs"

lemma enable_all_regs:
  assumes "\<forall>(irq, cpu)\<in>set xs. unat irq < 256" "i < 256"
  shows "\<exists>t. enable_all xs s = Inr ((), t) \<and>
    ioapic_regs t (REG_TABLE + 2 * of_nat i) =
      (if of_nat i \<in> fst ` set xs then T_IRQ0 + of_nat i else ioapic_regs s (REG_TABLE + 2 * of_nat i)) \<and>
    ioapic_regs t (REG_TABLE + 2 * of_nat i + 1) =
      (case map_of (rev xs) (of_nat i) of None \<Rightarrow> ioapic_regs s (REG_TABLE + 2 * of_nat i + 1) | Some cpu \<Rightarrow> push_bit 24 cpu)"
  using assms(1)
proof (induction xs arbitrary: s)
  case Nil
  then show ?case by (simp add: enable_all_def)
next
  case (Cons x xs)
  obtain irq cpu where x: "x = (irq, cpu)" by (cases x)
  define j where "j = unat irq"
  have j: "irq = of_nat j" "j < 256" using Cons.prems by (simp_all add: j_def x)
  let ?s = "s\<lparr>ioapic_sel := REG_TABLE + 2 * irq + 1,
    ioapic_regs := (ioapic_regs s)(REG_TABLE + 2 * irq := T_IRQ0 + irq, REG_TABLE + 2 * irq + 1 := push_bit 24 cpu)\<rparr>"
  have run: "enable_all (x # xs) s = enable_all xs ?s" by (simp add: enable_all_def x ioapicenable_eq)
  obtain t where t: "enable_all xs ?s = Inr ((), t)"
    "ioapic_regs t (REG_TABLE + 2 * of_nat i) =
      (if of_nat i \<in> fst ` set xs then T_IRQ0 + of_nat i else ioapic_regs ?s (REG_TABLE + 2 * of_nat i))"
    "ioapic_regs t (REG_TABLE + 2 * of_nat i + 1) =
      (case map_of (rev xs) (of_nat i) of None \<Rightarrow> ioapic_regs ?s (REG_TABLE + 2 * of_nat i + 1) | Some cpu \<Rightarrow> push_bit 24 cpu)"
    using Cons.IH [of ?s] Cons.prems by auto
  have eq: "(of_nat i :: uint) = irq \<longleftrightarrow> i = j" using j assms(2) by (auto simp: word_unat_eq_iff unat_of_nat_uint)
  note r = table_regs [OF assms(2) j(2)] table_regs(3) [OF j(2) assms(2)]
  have regs: "ioapic_regs ?s (REG_TABLE + 2 * of_nat i) = (if i = j then T_IRQ0 + of_nat i else ioapic_regs s (REG_TABLE + 2 * of_nat i))"
    "ioapic_regs ?s (REG_TABLE + 2 * of_nat i + 1) = (if i = j then push_bit 24 cpu else ioapic_regs s (REG_TABLE + 2 * of_nat i + 1))"
    using r unfolding j(1) by auto
  show ?case
    unfolding run using t(1) t(2,3) [unfolded regs]
    by (intro exI [of _ t]) (cases "map_of (rev xs) (of_nat i)"; simp add: x eq map_add_def)
qed

section \<open>Properties\<close>

text \<open>A machine with one processor in its table; \<open>ty\<close> is the kind of the entry, \<open>cs\<close> the checksum.\<close>

definition demo_tables :: "uchar \<Rightarrow> uchar \<Rightarrow> memory" where
  "demo_tables ty cs = (\<lambda>_. 0)(0xF0000 := 0x5f, 0xF0001 := 0x4d, 0xF0002 := 0x50, 0xF0003 := 0x5f, 0xF0005 := 0x10,
     0xF0008 := 1, 0xF0009 := 4, 0xF000A := 0x90,
     0x1000 := 0x50, 0x1001 := 0x43, 0x1002 := 0x4d, 0x1003 := 0x50, 0x1004 := 0x40, 0x1006 := 4, 0x1007 := cs,
     0x1026 := 0xe0, 0x1027 := 0xfe, 0x102C := ty, 0x102D := 7)"

definition demo_plat :: "memory \<Rightarrow> kplat" where
  "demo_plat m = kcon.extend (demo_con\<lparr>mem := m\<rparr>) \<lparr>ioapic_sel = 0, ioapic_regs = (\<lambda>_. 0)(REG_VER := 0x170020),
     lapic = 0, lapic_regs = (\<lambda>_. 0), ncpu = 0, apicids = (\<lambda>_. 0), ioapicid = 0\<rparr>"

lemma demo_plat_sel [simp]:
  "mem (demo_plat m) = m" "ncpu (demo_plat m) = 0" "ioapic_regs (demo_plat m) = (\<lambda>_. 0)(REG_VER := 0x170020)"
  "cpu_wf (demo_plat m)"
  by (simp_all add: demo_plat_def kcon.defs demo_con_def cpu_wf_def)

lemma mp_sum_numeral: "mp_sum m a (numeral k) = m a + mp_sum m (a + 1) (pred_numeral k)"
  by (simp add: numeral_eq_Suc)

lemma mpsearch1_hit:
  "a < a + of_nat len \<Longrightarrow> mem_is m a (str ''_MP_'') \<Longrightarrow> mp_sum m a 16 = 0 \<Longrightarrow> mpsearch1 m a len = a"
  by (simp add: mpsearch1_def)

lemma mpsearch1_empty: "\<not> a < a + of_nat len \<Longrightarrow> mpsearch1 m a len = 0"
  by (simp add: mpsearch1_def)

lemma demo_signatures:
  "mem_is (demo_tables ty cs) 0xF0000 (str ''_MP_'')" "mem_is (demo_tables ty cs) 0x1000 (str ''PCMP'')"
  "mp_sum (demo_tables ty cs) 0xF0000 16 = 0" "mp_sum (demo_tables 0 0xa7) 0x1000 64 = 0"
  "mp_sum (demo_tables 9 0x9e) 0x1000 64 = 0"
  by (simp_all add: mem_is_def str_def of_char_def demo_tables_def mp_sum_numeral)

lemma demo_config: "cs = 0xa7 \<and> ty = 0 \<or> cs = 0x9e \<and> ty = 9 \<Longrightarrow> mpconfig (demo_tables ty cs) = Some (0xF0000, 0x1000)"
proof -
  assume cs: "cs = 0xa7 \<and> ty = 0 \<or> cs = 0x9e \<and> ty = 9"
  let ?m = "demo_tables ty cs"
  have "mpsearch1 ?m (0 - 1024) 1024 = 0" by (rule mpsearch1_empty) simp
  moreover have "mpsearch1 ?m 0xF0000 0x10000 = 0xF0000" using demo_signatures by (intro mpsearch1_hit) simp_all
  moreover have "?m 0x40F = 0" "?m 0x40E = 0" "?m 0x414 = 0" "?m 0x413 = 0" by (simp_all add: demo_tables_def)
  ultimately have "mpsearch ?m = 0xF0000" by (simp add: mpsearch_def)
  moreover have "ld32 ?m 0xF0004 = 0x1000" "ld16 ?m 0x1004 = 0x40" "?m 0x1006 = 4"
    by (simp_all add: ld32_def ld16_def le_uint_def le_ushort_def demo_tables_def)
  ultimately show ?thesis using demo_signatures(2,4,5) cs by (auto simp: mpconfig_def)
qed

text \<open>
  C38: a well-formed table is read to its end. \<open>mpinit\<close> returns, counts the processor entries up to
  \<^verbatim>\<open>NCPU\<close>, records their APIC ids in order, and takes the I/O APIC's id from the last such entry and
  the local APIC's address from the header.
\<close>

theorem mpinit_processors:
  assumes "mpconfig (mem s) = Some (mp, conf)" "ncpu s = 0"
    and "mp_table (mem s) (conf + 44) (conf + ucast (ld16 (mem s) (conf + 4))) es" "unat conf + 65555 < 2 ^ 32"
  shows "\<exists>t. mpinit s = Inr ((), t) \<and> ncpu t = min NCPU (int (length (procs es))) \<and>
    (\<forall>k<nat (ncpu t). apicids t k = procs es ! k) \<and> ioapicid t = last (ioapicid s # ioapics es) \<and>
    lapic t = ld32 (mem s) (conf + 36)"
proof -
  let ?e = "conf + ucast (ld16 (mem s) (conf + 4)) :: uint"
  let ?s = "s\<lparr>lapic := ld32 (mem s) (conf + 36)\<rparr>"
  have u: "unat (ucast (ld16 (mem s) (conf + 4)) :: uint) < 65536"
    using unsigned_less [of "ld16 (mem s) (conf + 4)", where 'a = nat]
    by (simp add: unsigned_ucast_eq take_bit_nat_eq_self)
  have e: "unat ?e \<le> unat conf + 65535" using u assms(4) by (subst unat_add_uint) simp_all
  have c: "unat (conf + 44) = unat conf + 44" using assms(4) by (subst unat_add_uint) simp_all
  have "8 * length es \<le> unat ?e - unat (conf + 44) + 7"
    by (rule mp_table_length [OF assms(3)]) (use e assms(4) in simp)
  then have "length es < 8193" using e c by simp
  from mp_entries_run [OF assms(3) _ this, of ?s True] assms(2) obtain t where
    t: "mp_entries 8193 True (conf + 44) ?e ?s = Inr (True, t)" "mem t = mem s"
      "ports t = ports s" "lapic t = lapic ?s"
      "ncpu t = min NCPU (int (length (procs es)))" "\<forall>k<nat (ncpu t). apicids t k = procs es ! k"
      "ioapicid t = last (ioapicid s # ioapics es)"
    by (auto simp: NCPU_def)
  have "mpinit s = (if mem s (mp + 12) = 0 then Inr ((), t) else
      Inr ((), t\<lparr>ports := (ports t)(0x22 := 0x70, 0x23 := ports t 0x23 OR 1)\<rparr>))"
    using assms(1) t(1,2) by (simp add: mpinit_def mpinit_upto_def outb_def)
  then show ?thesis using t(4-7) by (cases "mem s (mp + 12) = 0") auto
qed

theorem mpinit_processors_witness:
  "\<exists>t. mpinit (demo_plat (demo_tables 0 0xa7)) = Inr ((), t) \<and> ncpu t = 1 \<and> apicids t 0 = 7 \<and> lapic t = 0xfee00000"
proof -
  let ?m = "demo_tables 0 0xa7"
  have ld: "ld16 ?m 0x1004 = 0x40" "ld32 ?m 0x1024 = 0xfee00000"
    by (simp_all add: ld32_def ld16_def le_uint_def le_ushort_def demo_tables_def)
  have "mp_table ?m 0x102C 0x1040 [(MPPROC, 7)]"
    using table_proc [of "0x102C" "0x1040" ?m "[]"] table_end [of "0x1040" "0x1040" ?m]
    by (simp add: demo_tables_def MPPROC_def)
  then have "mp_table (mem (demo_plat ?m)) (0x1000 + 44) (0x1000 + ucast (ld16 (mem (demo_plat ?m)) (0x1000 + 4))) [(MPPROC, 7)]"
    by (simp add: ld)
  from mpinit_processors [OF _ _ this, of "0xF0000"] demo_config [of "0xa7" 0] show ?thesis
    by (auto simp: ld procs_def NCPU_def)
qed

text \<open>
  C39: a table entry of an unknown kind is not skipped and not reported. Wherever such an entry comes in the table,
  after any entries of the five known kinds, the loop of \<open>mpinit\<close> does not end: however many iterations it is given, it
  is still at this entry, and the message that the code has for this case is never printed.
\<close>

theorem mpinit_unknown_entry:
  assumes "mpconfig (mem s) = Some (mp, conf)"
    and "mp_walk (mem s) (conf + ucast (ld16 (mem s) (conf + 4))) (conf + 44) q" "q < conf + ucast (ld16 (mem s) (conf + 4))"
    and "mem s q \<notin> {MPPROC, MPBUS, MPIOAPIC, MPIOINTR, MPLINTR}"
  shows "mpinit_upto fuel s = Inl Spin"
  using assms(1) mp_entries_walk [OF assms(2) _ assms(3,4), of "s\<lparr>lapic := ld32 (mem s) (conf + 36)\<rparr>"]
  by (simp add: mpinit_upto_def)

theorem mpinit_unknown_entry_witness: "mpinit_upto 100000 (demo_plat (demo_tables 9 0x9e)) = Inl Spin"
proof -
  let ?m = "demo_tables 9 0x9e"
  have ld: "ld16 ?m 0x1004 = 0x40" "?m 0x102C = 9"
    by (simp_all add: ld16_def le_ushort_def demo_tables_def)
  show ?thesis
    using demo_config [of "0x9e" 9]
    by (intro mpinit_unknown_entry [of _ "0xF0000" "0x1000" "0x102C"]) (simp_all add: ld mp_kinds walk_here)
qed

text \<open>
  C40: interrupt routing. After \<open>ioapicinit\<close> and any sequence of \<open>ioapicenable\<close> calls for existing lines, a line is
  unmasked exactly if a call has named it, it has its own vector, and its interrupts go to the processor of
  the last call that named it; all other lines stay masked.
\<close>

theorem ioapic_routing:
  assumes "cpu_wf s" "\<forall>(irq, cpu)\<in>set xs. unat irq \<le> maxintr s" "i \<le> maxintr s"
  shows "\<exists>t. thenK ioapicinit (enable_all xs) s = Inr ((), t) \<and>
    ioapic_regs t (REG_TABLE + 2 * of_nat i) =
      (if of_nat i \<in> fst ` set xs then T_IRQ0 + of_nat i else INT_DISABLED OR (T_IRQ0 + of_nat i)) \<and>
    ioapic_regs t (REG_TABLE + 2 * of_nat i + 1) =
      (case map_of (rev xs) (of_nat i) of None \<Rightarrow> 0 | Some cpu \<Rightarrow> push_bit 24 cpu)"
proof -
  obtain u where u: "ioapicinit s = Inr ((), u)" "\<forall>i\<le>maxintr s. ioapic_regs u (REG_TABLE + 2 * of_nat i) =
      INT_DISABLED OR (T_IRQ0 + of_nat i) \<and> ioapic_regs u (REG_TABLE + 2 * of_nat i + 1) = 0"
    using ioapicinit_masks [OF assms(1)] by (auto simp: wpK_iff)
  have "\<forall>(irq, cpu)\<in>set xs. unat irq < 256" "i < 256" using assms(2,3) maxintr_less [of s] by fastforce+
  note r = enable_all_regs [OF this, of u]
  note m = u(2) [rule_format, OF assms(3)]
  from r [unfolded conjunct1 [OF m] conjunct2 [OF m]] obtain t where "enable_all xs u = Inr ((), t)"
    "ioapic_regs t (REG_TABLE + 2 * of_nat i) =
      (if of_nat i \<in> fst ` set xs then T_IRQ0 + of_nat i else INT_DISABLED OR (T_IRQ0 + of_nat i))"
    "ioapic_regs t (REG_TABLE + 2 * of_nat i + 1) =
      (case map_of (rev xs) (of_nat i) of None \<Rightarrow> 0 | Some cpu \<Rightarrow> push_bit 24 cpu)"
    by blast
  then show ?thesis using u(1) by (intro exI [of _ t]) (simp only: thenK_Inr simp_thms)
qed

theorem ioapic_routing_witness:
  "\<exists>t. thenK ioapicinit (enable_all [(IRQ_COM1, 0), (IRQ_IDE, 1)]) (demo_plat (\<lambda>_. 0)) = Inr ((), t) \<and>
     ioapic_regs t 0x2c = 46 \<and> ioapic_regs t 0x2d = 0x1000000"
proof -
  have m: "maxintr (demo_plat (\<lambda>_. 0)) = 0x17" by (simp add: maxintr_def)
  show ?thesis
    using ioapic_routing [of "demo_plat (\<lambda>_. 0)" "[(IRQ_COM1, 0), (IRQ_IDE, 1)]" 14] unfolding m
    by (simp add: REG_TABLE_def T_IRQ0_def IRQ_COM1_def IRQ_IDE_def)
qed

end
