(* ===== verification/Balloc.thy ===== *)
theory Balloc
  imports Logged Platform
begin

text \<open>
  \<^verbatim>\<open>fs.c\<close>, blocks: the in-memory super block and inode cache that the file system adds to the
  state, and the allocation of disk blocks with the bitmap. All changes to the disk go through the
  log; \<open>fs S c v L H I s\<close> describes a state by the super block \<open>S\<close>, the contents \<open>v\<close> of the blocks,
  the blocks \<open>L\<close> logged so far, the references \<open>H\<close> held to buffers, the inode cache \<open>I\<close> and the rest \<open>c\<close>,
  which the file system does not change.
\<close>

record inode =
  i_dev :: uint
  i_inum :: uint
  i_ref :: int
  i_valid :: int
  i_type :: ushort
  i_major :: ushort
  i_minor :: ushort
  i_nlink :: ushort
  i_size :: uint
  i_addrs :: "uint list"

record kfs = kplat +
  sb :: superblock
  icache :: "nat \<Rightarrow> inode"

definition BPB :: uint where "BPB = BSIZE * 8"
definition IPB :: uint where "IPB = BSIZE div 64"

definition IBLOCK :: "uint \<Rightarrow> superblock \<Rightarrow> uint" where
  "IBLOCK i S = i div IPB + sb_inodestart S"

definition BBLOCK :: "uint \<Rightarrow> superblock \<Rightarrow> uint" where
  "BBLOCK b S = b div BPB + sb_bmapstart S"

section \<open>Operations\<close>

definition bzero :: "uint \<Rightarrow> uint \<Rightarrow> ('z kfs_scheme, unit) kern" where
  "bzero dev bno =
     bindK (bread dev bno) (\<lambda>bp.
     thenK (log_modify bp (\<lambda>_. replicate (unat BSIZE) 0)) (
     thenK (brelse bp) (ret ())))"

text \<open>The bitmap bit of block \<open>i\<close> in its bitmap block: byte \<^verbatim>\<open>bi/8\<close>, mask \<^verbatim>\<open>1 << (bi % 8)\<close>.\<close>

definition bit_at :: "block \<Rightarrow> nat \<Rightarrow> bool" where
  "bit_at d bi \<longleftrightarrow> d ! (bi div 8) AND push_bit (bi mod 8) 1 \<noteq> 0"

definition bit_set :: "nat \<Rightarrow> block \<Rightarrow> block" where
  "bit_set bi d = d[bi div 8 := d ! (bi div 8) OR push_bit (bi mod 8) 1]"

definition bit_clear :: "nat \<Rightarrow> block \<Rightarrow> block" where
  "bit_clear bi d = d[bi div 8 := d ! (bi div 8) AND NOT (push_bit (bi mod 8) 1)]"

text \<open>The inner loop of \<^verbatim>\<open>balloc\<close>: the first clear bit among the \<open>n\<close> bits from \<open>bi\<close> on.\<close>

primrec balloc_scan :: "block \<Rightarrow> nat \<Rightarrow> nat \<Rightarrow> nat option" where
  "balloc_scan d bi 0 = None"
| "balloc_scan d bi (Suc n) = (if \<not> bit_at d bi then Some bi else balloc_scan d (Suc bi) n)"

text \<open>The outer loop of \<^verbatim>\<open>balloc\<close>, over \<open>k\<close> bitmap blocks; \<open>b\<close> is the first block that the current one describes.\<close>

primrec balloc_loop :: "nat \<Rightarrow> uint \<Rightarrow> nat \<Rightarrow> ('z kfs_scheme, uint) kern" where
  "balloc_loop 0 = (\<lambda>dev b. panic ''balloc: out of blocks'')"
| "balloc_loop (Suc k) = (\<lambda>dev b.
     bindK (getK sb) (\<lambda>S.
     bindK (bread dev (BBLOCK (of_nat b) S)) (\<lambda>bp.
     bindK (getK (\<lambda>s. balloc_scan (b_data (bufs s bp)) 0 (min (unat BPB) (unat (sb_size S) - b)))) (\<lambda>r.
     case r of
       Some bi \<Rightarrow>
         thenK (log_modify bp (bit_set bi)) (
         thenK (brelse bp) (
         thenK (bzero dev (of_nat (b + bi))) (
         ret (of_nat (b + bi)))))
     | None \<Rightarrow> thenK (brelse bp) (balloc_loop k dev (b + unat BPB))))))"

definition balloc :: "uint \<Rightarrow> ('z kfs_scheme, uint) kern" where
  "balloc dev =
     bindK (getK (\<lambda>s. unat (sb_size (sb s)))) (\<lambda>n. balloc_loop ((n + unat BPB - 1) div unat BPB) dev 0)"

definition bfree :: "uint \<Rightarrow> uint \<Rightarrow> ('z kfs_scheme, unit) kern" where
  "bfree dev b =
     bindK (getK sb) (\<lambda>S.
     bindK (bread dev (BBLOCK b S)) (\<lambda>bp.
     let bi = unat (b mod BPB) in
     bindK (getK (\<lambda>s. bit_at (b_data (bufs s bp)) bi)) (\<lambda>used.
     if \<not> used then panic ''freeing free block'' else
     thenK (log_modify bp (bit_clear bi)) (
     thenK (brelse bp) (ret ())))))"

section \<open>States of the file system\<close>

definition nil_inode :: inode where
  "nil_inode = \<lparr>i_dev = 0, i_inum = 0, i_ref = 0, i_valid = 0, i_type = 0, i_major = 0, i_minor = 0,
     i_nlink = 0, i_size = 0, i_addrs = []\<rparr>"

definition fctx where
  "fctx s = lctx (s\<lparr>icache := \<lambda>_. nil_inode\<rparr>)"

definition fs where
  "fs S c v L H I s \<longleftrightarrow> lblk v L H s \<and> sb s = S \<and> icache s = I \<and> fctx s = c"

lemma fctx_lctx:
  "lctx t = lctx s \<Longrightarrow> fctx t = fctx s \<and> sb t = sb s \<and> icache t = icache s" for s t :: "'z kfs_scheme"
  by (cases s; cases t) (simp add: lctx_def fctx_def)

lemma fctx_icache [simp]: "fctx (s\<lparr>icache := I\<rparr>) = fctx s"
  by (simp add: fctx_def)

lemma fctx_caps: "lcap (fctx s) = lcap (lctx s)" "larea (fctx s) = larea (lctx s)"
  by (simp_all add: fctx_def lctx_def lcap_def larea_def)

lemma lblk_icache [simp]: "lblk v L H (s\<lparr>icache := I\<rparr>) = lblk v L H s" for s :: "'z kfs_scheme"
proof -
  have "bc v (set L) H (s\<lparr>icache := I\<rparr>) = bc v (set L) H s"
    by (simp add: bc_def lru_def io_ok_def ide_ready_def holds_def is_block_def)
  then show ?thesis by (simp add: lblk_def)
qed

lemma fs_icache: "fs S c v L H I s \<Longrightarrow> fs S c v L H J (s\<lparr>icache := J\<rparr>)"
  by (simp add: fs_def)

lemma fs_sb: "fs S c v L H I s \<Longrightarrow> sb s = S"
  by (simp add: fs_def)

lemma fs_ic: "fs S c v L H I s \<Longrightarrow> icache s = I"
  by (simp add: fs_def)

interpretation kf: logged_blocks "\<lambda>v L H s. fs S c v L H I s" "\<lambda>_. c" lcap larea holds
  "\<lambda>s b. b_data (bufs s b)" "bread ROOTDEV" log_modify brelse
  for S c I
proof (unfold_locales, goal_cases)
  case (1 v L H s b n)
  then show ?case using fsblk.contents_law by (auto simp: fs_def)
next
  case (2 v L H s n)
  then show ?case using fsblk.length_law by (auto simp: fs_def)
next
  case (3 v L H s n)
  then have "lblk v L H s" by (simp add: fs_def)
  from bread_law [OF this 3(2-4)] 3(1) show ?case unfolding fs_def by (metis fctx_lctx)
next
  case (4 v L H s b n f)
  then have "lblk v L H s" "Suc (length L) < lcap (lctx s)" "n \<notin> larea (lctx s)"
    by (auto simp: fs_def fctx_caps)
  from log_modify_law [where f = f, OF this(1) 4(2,3) this(2,3)] 4(1) show ?case unfolding fs_def by (metis fctx_lctx)
next
  case (5 v L H s b n)
  then have "lblk v L H s" by (simp add: fs_def)
  from brelse_law [OF this 5(2,3)] 5(1) show ?case unfolding fs_def by (metis fctx_lctx)
qed

section \<open>What an operation logs\<close>

definition grows :: "uint set \<Rightarrow> uint list \<Rightarrow> uint list \<Rightarrow> bool" where
  "grows T L L' \<longleftrightarrow> (\<exists>M. L' = L @ M \<and> distinct M \<and> set M \<subseteq> T - set L)"

lemma grows_refl [simp]: "grows T L L"
  by (simp add: grows_def)

lemma grows_logged: "n \<in> T \<Longrightarrow> grows T L (logged L n)"
  by (auto simp: grows_def logged_def)

lemma grows_trans: "grows T L L' \<Longrightarrow> grows U L' L'' \<Longrightarrow> grows (T \<union> U) L L''"
  unfolding grows_def by (elim exE conjE) (rule exI, auto)

lemma grows_mono: "grows T L L' \<Longrightarrow> T \<subseteq> U \<Longrightarrow> grows U L L'"
  unfolding grows_def by blast

lemma grows_set: "grows T L L' \<Longrightarrow> set L \<subseteq> set L' \<and> set L' \<subseteq> set L \<union> T"
  by (auto simp: grows_def)

lemma budget_grows:
  assumes "fsblk.budget L H c k" "grows T L L'" "finite T" "j + card (T - set L) \<le> k"
  shows "fsblk.budget L' H c j"
proof -
  obtain M where M: "L' = L @ M" "distinct M" "set M \<subseteq> T - set L" using assms(2) by (auto simp: grows_def)
  have card: "length M \<le> card (T - set L)"
    using M(2,3) assms(3) card_mono [of "T - set L" "set M"] by (simp add: distinct_card)
  have p: "pinned (set L') H = pinned (set L) H \<union> set M" by (auto simp: pinned_def M(1))
  have le: "card (pinned (set L') H) \<le> card (pinned (set L) H) + length M"
    unfolding p using card_Un_le [of "pinned (set L) H" "set M"] card_length [of M] by linarith
  note d = fsblk.budgetD [OF assms(1)]
  show ?thesis
    unfolding fsblk.budget_def
  proof (intro conjI allI)
    show "length L' + j < lcap c" using d(1) card assms(4) by (simp add: M(1))
    show "card (pinned (set L') H) + j < NBUF" using d(2) le card assms(4) by linarith
    show "H n + j + 2 < 2 ^ 32" for n using d(3) [of n] assms(4) by linarith
  qed
qed

section \<open>The bitmap\<close>

lemma bit_at_iff: "bit_at d i \<longleftrightarrow> bit (d ! (i div 8)) (i mod 8)"
  by (simp add: bit_at_def bit_iff_and_push_bit_not_eq_0)

lemma bit_at_set: "i < 8 * length d \<Longrightarrow> bit_at (bit_set i d) j \<longleftrightarrow> j = i \<or> bit_at d j"
proof (cases "j div 8 = i div 8")
  case True
  assume "i < 8 * length d"
  moreover from this have "i div 8 < length d" by (simp add: less_mult_imp_div_less mult.commute)
  moreover have "j = i \<longleftrightarrow> j mod 8 = i mod 8" using True by (metis div_mult_mod_eq)
  ultimately show ?thesis using True by (auto simp: bit_at_iff bit_set_def bit_or_iff bit_exp_iff)
next
  case False
  then show ?thesis by (auto simp: bit_at_iff bit_set_def)
qed

lemma bit_at_clear: "i < 8 * length d \<Longrightarrow> bit_at (bit_clear i d) j \<longleftrightarrow> j \<noteq> i \<and> bit_at d j"
proof (cases "j div 8 = i div 8")
  case True
  assume "i < 8 * length d"
  moreover from this have "i div 8 < length d" by (simp add: less_mult_imp_div_less mult.commute)
  moreover have "j = i \<longleftrightarrow> j mod 8 = i mod 8" using True by (metis div_mult_mod_eq)
  ultimately show ?thesis using True
    by (auto simp: bit_at_iff bit_clear_def bit_and_iff bit_not_iff bit_exp_iff)
next
  case False
  then show ?thesis by (auto simp: bit_at_iff bit_clear_def)
qed

lemma length_bits [simp]: "length (bit_set i d) = length d" "length (bit_clear i d) = length d"
  by (simp_all add: bit_set_def bit_clear_def)

lemma balloc_scan_Some:
  "balloc_scan d bi n = Some i \<Longrightarrow> bi \<le> i \<and> i < bi + n \<and> \<not> bit_at d i \<and> (\<forall>j. bi \<le> j \<longrightarrow> j < i \<longrightarrow> bit_at d j)"
proof (induction n arbitrary: bi)
  case (Suc n)
  show ?case
  proof (cases "bit_at d bi")
    case True
    then have "balloc_scan d (Suc bi) n = Some i" using Suc.prems by simp
    from Suc.IH [OF this] show ?thesis using True by (auto simp: not_less_eq_eq) (metis Suc_leI le_neq_implies_less)
  qed (use Suc.prems in auto)
qed simp

lemma balloc_scan_None: "balloc_scan d bi n = None \<longleftrightarrow> (\<forall>j. bi \<le> j \<longrightarrow> j < bi + n \<longrightarrow> bit_at d j)"
proof (induction n arbitrary: bi)
  case (Suc n)
  then show ?case by (auto simp: not_less_eq_eq) (metis Suc_leI le_neq_implies_less)
qed simp

section \<open>Allocation\<close>

text \<open>
  The layout of the disk. A file system of at most \<^verbatim>\<open>FSSIZE\<close> blocks has a single bitmap block.
\<close>

definition iblocks :: "superblock \<Rightarrow> uint set" where
  "iblocks S = (\<lambda>i. IBLOCK i S) ` {i. i < sb_ninodes S}"

definition geo :: "superblock \<Rightarrow> 'z lctx \<Rightarrow> bool" where
  "geo S c \<longleftrightarrow> sb_size S \<le> FSSIZE \<and> sb_bmapstart S < FSSIZE \<and> (\<forall>n\<in>iblocks S. n < FSSIZE) \<and>
     sb_bmapstart S \<notin> larea c \<union> iblocks S \<and> iblocks S \<inter> larea c = {}"

definition meta :: "superblock \<Rightarrow> 'z lctx \<Rightarrow> uint set" where
  "meta S c = larea c \<union> iblocks S \<union> {sb_bmapstart S, 0, 1}"

definition freeb :: "superblock \<Rightarrow> (uint \<Rightarrow> block) \<Rightarrow> uint set" where
  "freeb S v = {b. b < sb_size S \<and> \<not> bit_at (v (sb_bmapstart S)) (unat b)}"

text \<open>No block that holds metadata is free.\<close>

definition bitmap_ok :: "superblock \<Rightarrow> 'z lctx \<Rightarrow> (uint \<Rightarrow> block) \<Rightarrow> bool" where
  "bitmap_ok S c v \<longleftrightarrow> freeb S v \<inter> meta S c = {} \<and> length (v (sb_bmapstart S)) = 512"

definition take_block :: "superblock \<Rightarrow> uint \<Rightarrow> (uint \<Rightarrow> block) \<Rightarrow> uint \<Rightarrow> block" where
  "take_block S b v = v(sb_bmapstart S := bit_set (unat b) (v (sb_bmapstart S)), b := replicate 512 0)"

definition free_block :: "superblock \<Rightarrow> uint \<Rightarrow> (uint \<Rightarrow> block) \<Rightarrow> uint \<Rightarrow> block" where
  "free_block S b v = v(sb_bmapstart S := bit_clear (unat b) (v (sb_bmapstart S)))"

lemma unat_consts [simp]: "unat BSIZE = 512" "unat BPB = 4096" "unat FSSIZE = 1000"
  by (simp_all add: BSIZE_def BPB_def FSSIZE_def)

lemma geoD:
  assumes "geo S c"
  shows "unat (sb_size S) \<le> 1000" "sb_bmapstart S < FSSIZE" "sb_bmapstart S \<notin> larea c" "sb_bmapstart S \<notin> iblocks S"
    "n \<in> iblocks S \<Longrightarrow> n < FSSIZE" "n \<in> iblocks S \<Longrightarrow> n \<notin> larea c"
  using assms unfolding geo_def word_le_nat_alt by auto

lemma BBLOCK_single:
  assumes "geo S c" "b < sb_size S"
  shows "BBLOCK b S = sb_bmapstart S" "unat (b mod BPB) = unat b" "unat b < 4096"
proof -
  have b: "unat b < 4096" using assms(2) geoD(1) [OF assms(1)] by (simp add: word_less_nat_alt)
  then show "unat b < 4096" .
  show "unat (b mod BPB) = unat b" using b by (simp add: unat_mod)
  have "unat (b div BPB) = 0" using b by (simp add: unat_div)
  then have "b div BPB = 0" by (simp add: unat_eq_zero)
  then show "BBLOCK b S = sb_bmapstart S" by (simp add: BBLOCK_def)
qed

lemma freebD:
  assumes "b \<in> freeb S v" "bitmap_ok S c v" "geo S c"
  shows "b < sb_size S" "b < FSSIZE" "b \<notin> larea c" "b \<notin> iblocks S" "b \<noteq> sb_bmapstart S" "b \<noteq> 0"
    "unat b < 8 * length (v (sb_bmapstart S))"
proof -
  show b: "b < sb_size S" using assms(1) by (simp add: freeb_def)
  then show "b < FSSIZE" using assms(3) by (auto simp: geo_def)
  show "b \<notin> larea c" "b \<notin> iblocks S" "b \<noteq> sb_bmapstart S" "b \<noteq> 0"
    using assms(1,2) by (auto simp: bitmap_ok_def meta_def)
  show "unat b < 8 * length (v (sb_bmapstart S))"
    using assms(2) BBLOCK_single(3) [OF assms(3) b] by (simp add: bitmap_ok_def)
qed

lemma freeb_take:
  assumes "b \<in> freeb S v" "bitmap_ok S c v" "geo S c"
  shows "freeb S (take_block S b v) = freeb S v - {b}" "bitmap_ok S c (take_block S b v)"
proof -
  note f = freebD [OF assms]
  have at: "bit_at (take_block S b v (sb_bmapstart S)) j \<longleftrightarrow> j = unat b \<or> bit_at (v (sb_bmapstart S)) j" for j
    using f(5,7) by (simp add: take_block_def bit_at_set)
  show *: "freeb S (take_block S b v) = freeb S v - {b}" by (auto simp: freeb_def at word_unat_eq_iff)
  then show "bitmap_ok S c (take_block S b v)"
    using assms(2) f(5) by (auto simp: bitmap_ok_def take_block_def)
qed

lemma freeb_free:
  assumes "b < sb_size S" "b \<notin> meta S c" "bitmap_ok S c v" "geo S c"
  shows "freeb S (free_block S b v) = insert b (freeb S v)" "bitmap_ok S c (free_block S b v)"
proof -
  have lt: "unat b < 8 * length (v (sb_bmapstart S))"
    using assms(3) BBLOCK_single(3) [OF assms(4,1)] by (simp add: bitmap_ok_def)
  have at: "bit_at (free_block S b v (sb_bmapstart S)) j \<longleftrightarrow> j \<noteq> unat b \<and> bit_at (v (sb_bmapstart S)) j" for j
    using lt by (simp add: free_block_def bit_at_clear)
  show *: "freeb S (free_block S b v) = insert b (freeb S v)" using assms(1) by (auto simp: freeb_def at word_unat_eq_iff)
  then show "bitmap_ok S c (free_block S b v)"
    using assms(2,3) by (auto simp: bitmap_ok_def free_block_def)
qed

lemma wpK_bind_get: "wpK (bindK (getK f) k) Q s = wpK (k (f s)) Q s"
  by simp

lemma wpK_ret_fun [simp]: "wpK (ret x) Q = Q x"
  by (rule ext) simp

lemma bzero_wp:
  assumes "fs S c v L H I s" "n < FSSIZE" "n \<notin> larea c" "fsblk.budget L H c 2"
    and "\<And>t. \<lbrakk>fs S c (v(n := replicate 512 0)) (logged L n) H I t;
      \<And>j m. holds s j m \<Longrightarrow> m \<in> pinned (set L) H \<Longrightarrow> holds t j m\<rbrakk> \<Longrightarrow> Q () t"
  shows "wpK (bzero ROOTDEV n) Q s"
proof -
  have "fsblk.budget L H c (Suc (Suc 0))" using assms(4) by (simp add: numeral_2_eq_2)
  then show ?thesis
    unfolding bzero_def unat_consts
    by (rule kf.modify_wp [OF assms(1,2) _ assms(3)]) (use assms(5) in simp_all)
qed

lemma balloc_wp:
  assumes s: "fs S c v L H I s" and g: "geo S c" and ok: "bitmap_ok S c v" and ne: "freeb S v \<noteq> {}"
    and bud: "fsblk.budget L H c 3"
    and Q: "\<And>b t L'. \<lbrakk>b \<in> freeb S v; fs S c (take_block S b v) L' H I t; grows {sb_bmapstart S, b} L L';
      \<And>j m. holds s j m \<Longrightarrow> m \<in> pinned (set L) H \<Longrightarrow> holds t j m\<rbrakk> \<Longrightarrow> Q b t"
  shows "wpK (balloc ROOTDEV) Q s"
proof -
  let ?bm = "sb_bmapstart S"
  obtain b0 where b0: "b0 \<in> freeb S v" using ne by blast
  have pos: "0 < unat (sb_size S)" using b0 by (auto simp: freeb_def word_less_nat_alt)
  have one: "(unat (sb_size S) + unat BPB - 1) div unat BPB = Suc 0"
    using pos geoD(1) [OF g] by (simp add: div_nat_eqI)
  have lim: "min (unat BPB) (unat (sb_size S) - 0) = unat (sb_size S)" using geoD(1) [OF g] by simp
  obtain bi where bi: "balloc_scan (v ?bm) 0 (unat (sb_size S)) = Some bi"
    using b0 balloc_scan_None [of "v ?bm" 0 "unat (sb_size S)"]
    by (cases "balloc_scan (v ?bm) 0 (unat (sb_size S))") (auto simp: freeb_def word_less_nat_alt)
  note sc = balloc_scan_Some [OF bi]
  let ?b = "of_nat bi :: uint"
  have u: "unat ?b = bi" using sc geoD(1) [OF g] by (intro unat_of_nat_uint) simp
  have fb: "?b \<in> freeb S v" using sc by (simp add: freeb_def word_less_nat_alt u)
  note f = freebD [OF fb ok g]
  have l512: "length (v ?bm) = 512" using ok by (simp add: bitmap_ok_def)
  show ?thesis
    unfolding balloc_def wpK_bind_get fs_sb [OF s] one balloc_loop.simps lim
  proof (rule kf.rd_get_wp [OF s])
    show "BBLOCK (of_nat 0) S < FSSIZE" "fsblk.budget L H c 0"
      using geoD(2) [OF g] fsblk.budget_mono [OF bud] by (simp_all add: BBLOCK_def)
    have bm: "BBLOCK (of_nat 0) S = ?bm" by (simp add: BBLOCK_def)
    fix bp t
    assume t: "fs S c v L (H(BBLOCK (of_nat 0) S := Suc (H (BBLOCK (of_nat 0) S)))) I t" "holds t bp (BBLOCK (of_nat 0) S)"
      and ht: "\<And>j m. holds s j m \<Longrightarrow> m \<in> pinned (set L) H \<Longrightarrow> holds t j m"
    show "wpK (case balloc_scan (v (BBLOCK (of_nat 0) S)) 0 (unat (sb_size S)) of
        None \<Rightarrow> thenK (brelse bp) (panic ''balloc: out of blocks'')
      | Some bi \<Rightarrow> thenK (log_modify bp (bit_set bi)) (thenK (brelse bp)
          (thenK (bzero ROOTDEV (of_nat (0 + bi))) (ret (of_nat (0 + bi)))))) Q t"
      unfolding bm bi option.case add_0
    proof (rule kf.wr_rel_wp [where f = "bit_set bi", OF t [unfolded bm]])
      show "fsblk.budget L (H(?bm := Suc (H ?bm))) c (Suc 0)"
        by (rule fsblk.budget_hold, rule fsblk.budget_mono [OF bud]) simp
      fix w assume w: "fs S c (v(?bm := bit_set bi (v ?bm))) (logged L ?bm) H I w"
        and hw: "\<And>j m. holds t j m \<Longrightarrow> holds w j m"
      have b2: "fsblk.budget (logged L ?bm) H c 2"
        by (rule fsblk.budget_log, rule fsblk.budget_mono [OF bud]) simp
      have "wpK (bzero ROOTDEV ?b) (\<lambda>_. Q ?b) w"
      proof (rule bzero_wp [OF w f(2,3) b2])
        fix x assume x: "fs S c ((v(?bm := bit_set bi (v ?bm)))(?b := replicate 512 0)) (logged (logged L ?bm) ?b) H I x"
          and hx: "\<And>j m. holds w j m \<Longrightarrow> m \<in> pinned (set (logged L ?bm)) H \<Longrightarrow> holds x j m"
        have keep: "holds s j m \<Longrightarrow> m \<in> pinned (set L) H \<Longrightarrow> holds x j m" for j m
          by (intro hx hw ht) (auto simp: pinned_def set_logged)
        have "grows ({?bm, ?b} \<union> {?bm, ?b}) L (logged (logged L ?bm) ?b)"
          by (rule grows_trans [OF grows_logged grows_logged]) simp_all
        then show "Q ?b x" using Q [OF fb, of "logged (logged L ?bm) ?b" x] x keep by (simp add: take_block_def u)
      qed
      then show "wpK (thenK (bzero ROOTDEV ?b) (ret ?b)) Q w" by simp
    qed (use geoD(3) [OF g] l512 in simp_all)
  qed
qed

lemma balloc_full:
  assumes s: "fs S c v L H I s" and g: "geo S c" and bud: "fsblk.budget L H c 0" and none: "freeb S v = {}"
  shows "balloc ROOTDEV s = Inl (Panic ''balloc: out of blocks'')"
proof (cases "sb_size S = 0")
  case True
  then show ?thesis using fs_sb [OF s] by (simp add: balloc_def)
next
  case False
  let ?bm = "sb_bmapstart S"
  have pos: "0 < unat (sb_size S)" using False by (simp add: unat_gt_0)
  have one: "(unat (sb_size S) + unat BPB - 1) div unat BPB = Suc 0"
    using pos geoD(1) [OF g] by (simp add: div_nat_eqI)
  have lim: "min (unat BPB) (unat (sb_size S) - 0) = unat (sb_size S)" using geoD(1) [OF g] by simp
  have scan: "balloc_scan (v ?bm) 0 (unat (sb_size S)) = None"
  proof (unfold balloc_scan_None, intro allI impI)
    fix j assume j: "j < 0 + unat (sb_size S)"
    then have u: "unat (of_nat j :: uint) = j" using geoD(1) [OF g] by (intro unat_of_nat_uint) simp
    have "(of_nat j :: uint) \<notin> freeb S v" using none by simp
    then show "bit_at (v ?bm) j" using j by (simp add: freeb_def word_less_nat_alt u)
  qed
  have bm: "BBLOCK (of_nat 0) S = ?bm" by (simp add: BBLOCK_def)
  obtain bp t where t: "bread ROOTDEV ?bm s = Inr (bp, t)" "fs S c v L (H(?bm := Suc (H ?bm))) I t" "holds t bp ?bm"
  proof -
    have "wpK (bread ROOTDEV ?bm) (\<lambda>bp t. fs S c v L (H(?bm := Suc (H ?bm))) I t \<and> holds t bp ?bm) s"
      by (rule kf.rd_wp [OF s geoD(2) [OF g] bud]) simp
    then show ?thesis using that by (auto simp: wpK_iff)
  qed
  obtain u where u: "brelse bp t = Inr ((), u)"
  proof -
    have "wpK (thenK (brelse bp) (ret ())) (\<lambda>_ _. True) t" by (rule kf.rel_then_wp [OF t(2,3)]) simp
    then show ?thesis using that by (auto simp: wpK_iff thenK_eq_Inr)
  qed
  have data: "b_data (bufs t bp) = v ?bm" by (rule kf.contents_law [OF t(2,3)])
  show ?thesis
    unfolding balloc_def bindK_getK fs_sb [OF s] one balloc_loop.simps lim bm
    using t(1) data scan u by simp
qed

lemma bfree_wp:
  assumes s: "fs S c v L H I s" and g: "geo S c" and ok: "bitmap_ok S c v"
    and b: "b < sb_size S" "b \<notin> freeb S v" and bud: "fsblk.budget L H c 2"
    and Q: "\<And>t. \<lbrakk>fs S c (free_block S b v) (logged L (sb_bmapstart S)) H I t;
      \<And>j m. holds s j m \<Longrightarrow> m \<in> pinned (set L) H \<Longrightarrow> holds t j m\<rbrakk> \<Longrightarrow> Q () t"
  shows "wpK (bfree ROOTDEV b) Q s"
proof -
  let ?bm = "sb_bmapstart S"
  note B = BBLOCK_single [OF g b(1)]
  have used: "(\<not> bit_at (v ?bm) (unat b)) = False" using b by (simp add: freeb_def)
  have bud': "fsblk.budget L H c (Suc (Suc 0))" using bud by (simp add: numeral_2_eq_2)
  show ?thesis
    unfolding bfree_def wpK_bind_get fs_sb [OF s] B Let_def
  proof (rule kf.rd_get_wp [OF s geoD(2) [OF g] fsblk.budget_mono [OF bud]])
    fix bp t assume t: "fs S c v L (H(?bm := Suc (H ?bm))) I t" "holds t bp ?bm"
      and ht: "\<And>j m. holds s j m \<Longrightarrow> m \<in> pinned (set L) H \<Longrightarrow> holds t j m"
    show "wpK (if \<not> bit_at (v ?bm) (unat b) then panic ''freeing free block''
        else thenK (log_modify bp (bit_clear (unat b))) (thenK (brelse bp) (ret ()))) Q t"
      unfolding used if_False
      by (rule kf.wr_rel_wp [where f = "bit_clear (unat b)", OF t _ fsblk.budget_hold [OF bud'] geoD(3) [OF g]])
        (use ok Q ht in \<open>simp_all add: bitmap_ok_def free_block_def\<close>)
  qed simp
qed

lemma bfree_twice:
  assumes s: "fs S c v L H I s" and g: "geo S c" and b: "b \<in> freeb S v" and bud: "fsblk.budget L H c 0"
  shows "bfree ROOTDEV b s = Inl (Panic ''freeing free block'')"
proof -
  let ?bm = "sb_bmapstart S"
  have lt: "b < sb_size S" and clear: "\<not> bit_at (v ?bm) (unat b)" using b by (simp_all add: freeb_def)
  note B = BBLOCK_single [OF g lt]
  have "wpK (bread ROOTDEV ?bm) (\<lambda>bp t. b_data (bufs t bp) = v ?bm) s"
    by (rule kf.rd_wp [OF s geoD(2) [OF g] bud]) (rule kf.contents_law)
  then obtain bp t where "bread ROOTDEV ?bm s = Inr (bp, t)" "b_data (bufs t bp) = v ?bm" by (auto simp: wpK_iff)
  then show ?thesis using clear by (simp add: bfree_def fs_sb [OF s] B Let_def)
qed

section \<open>Disk blocks as an allocator\<close>

text \<open>The current contents of a block, as a function of the state.\<close>

definition view :: "'z kblk_scheme \<Rightarrow> uint \<Rightarrow> block" where
  "view s n = (if \<exists>i. holds s i n then b_data (bufs s (LEAST i. holds s i n)) else disk s True n)"

lemma view_eq: "fs S c v L H I s \<Longrightarrow> view s = v"
proof
  fix n assume fs: "fs S c v L H I s"
  then have bc: "bc v (set L) H s" by (simp add: fs_def lblk_def)
  show "view s n = v n"
  proof (cases "\<exists>i. holds s i n")
    case True
    then have "holds s (LEAST i. holds s i n) n" by (auto intro: LeastI)
    then show ?thesis using True bc_holds(6) [OF bc] by (simp add: view_def)
  next
    case False
    then have "n \<notin> set L" using bcD(6) [OF bc, of n] by (auto simp: pinned_def)
    then show ?thesis using False bcD(7) [OF bc] by (simp add: view_def)
  qed
qed

definition balloc_inv :: "superblock \<Rightarrow> _ \<Rightarrow> nat \<Rightarrow> 'z kfs_scheme \<Rightarrow> bool" where
  "balloc_inv S c k s \<longleftrightarrow> (\<exists>v L H I. fs S c v L H I s \<and> geo S c \<and> bitmap_ok S c v \<and> fsblk.budget L H c (2 * k + 1))"

interpretation dblocks: allocator "balloc_inv S c" "\<lambda>s. freeb (sb s) (view s)"
  "\<lambda>b. b < sb_size S \<and> b \<notin> meta S c" "balloc ROOTDEV" "bfree ROOTDEV"
  for S c
proof (unfold_locales, goal_cases)
  case (1 k s)
  show ?case by (rule finite)
next
  case (2 k s x)
  then show ?case by (auto simp: balloc_inv_def fs_sb view_eq freeb_def bitmap_ok_def)
next
  case (3 k s)
  then obtain v L H I where s: "fs S c v L H I s" "geo S c" "bitmap_ok S c v" "fsblk.budget L H c (2 * Suc k + 1)"
    by (auto simp: balloc_inv_def)
  have v: "freeb (sb s) (view s) = freeb S v" using view_eq [OF s(1)] fs_sb [OF s(1)] by simp
  show ?case
    unfolding v
  proof (rule balloc_wp [OF s(1-3)])
    show "freeb S v \<noteq> {}" using 3(2) v by simp
    show "fsblk.budget L H c 3" by (rule fsblk.budget_mono [OF s(4)]) simp
    fix b t L' assume b: "b \<in> freeb S v" and t: "fs S c (take_block S b v) L' H I t" and g: "grows {sb_bmapstart S, b} L L'"
    have "card ({sb_bmapstart S, b} - set L) \<le> card {sb_bmapstart S, b}" by (rule card_mono) auto
    also have "\<dots> \<le> 2" by (simp add: card_insert_if)
    finally have "fsblk.budget L' H c (2 * k + 1)" by (intro budget_grows [OF s(4) g]) auto
    then have "balloc_inv S c k t" using t s(2) freeb_take(2) [OF b s(3,2)] by (auto simp: balloc_inv_def)
    then show "balloc_inv S c k t \<and> b \<in> freeb S v \<and> freeb (sb t) (view t) = freeb S v - {b}"
      using b freeb_take(1) [OF b s(3,2)] view_eq [OF t] fs_sb [OF t] by simp
  qed
next
  case (4 k s x)
  then obtain v L H I where s: "fs S c v L H I s" "geo S c" "bitmap_ok S c v" "fsblk.budget L H c (2 * Suc k + 1)"
    by (auto simp: balloc_inv_def)
  have v: "freeb (sb s) (view s) = freeb S v" using view_eq [OF s(1)] fs_sb [OF s(1)] by simp
  have x: "x < sb_size S" "x \<notin> meta S c" "x \<notin> freeb S v" using 4 v by simp_all
  show ?case
    unfolding v
  proof (rule bfree_wp [OF s(1-3) x(1,3)])
    show "fsblk.budget L H c 2" by (rule fsblk.budget_mono [OF s(4)]) simp
    fix t assume t: "fs S c (free_block S x v) (logged L (sb_bmapstart S)) H I t"
    have "fsblk.budget (logged L (sb_bmapstart S)) H c (2 * k + 1)"
      by (rule fsblk.budget_log, rule fsblk.budget_mono [OF s(4)]) simp
    then have "balloc_inv S c k t" using t s(2) freeb_free(2) [OF x(1,2) s(3,2)] by (auto simp: balloc_inv_def)
    then show "balloc_inv S c k t \<and> freeb (sb t) (view t) = insert x (freeb S v)"
      using freeb_free(1) [OF x(1,2) s(3,2)] view_eq [OF t] fs_sb [OF t] by simp
  qed
qed

end
