(* ===== verification/Inode.thy ===== *)
theory Inode
  imports Balloc
begin

text \<open>
  \<^verbatim>\<open>fs.c\<close>, inodes: the layout of \<^verbatim>\<open>struct dinode\<close> on the disk and the cache of inodes in memory.
  A pointer to an inode is the index of its cache slot; the functions that may return the null
  pointer return an option.
\<close>

record dinode =
  di_type :: ushort
  di_major :: ushort
  di_minor :: ushort
  di_nlink :: ushort
  di_size :: uint
  di_addrs :: "uint list"

definition NDIRECT :: nat where "NDIRECT = 12"
definition NINDIRECT :: nat where "NINDIRECT = unat BSIZE div 4"
definition MAXFILE :: nat where "MAXFILE = NDIRECT + NINDIRECT"
definition NINODE :: nat where "NINODE = 50"

definition dinode_of :: "uchar list \<Rightarrow> dinode" where
  "dinode_of d = \<lparr>di_type = le_ushort (slice 0 2 d), di_major = le_ushort (slice 2 2 d),
     di_minor = le_ushort (slice 4 2 d), di_nlink = le_ushort (slice 6 2 d), di_size = le_uint (slice 8 4 d),
     di_addrs = map (\<lambda>k. le_uint (slice (12 + 4 * k) 4 d)) [0..<13]\<rparr>"

definition dinode_bytes :: "dinode \<Rightarrow> uchar list" where
  "dinode_bytes di = ushort_bytes (di_type di) @ ushort_bytes (di_major di) @ ushort_bytes (di_minor di) @
     ushort_bytes (di_nlink di) @ uint_bytes (di_size di) @ concat (map uint_bytes (di_addrs di))"

section \<open>Operations\<close>

definition inode_upd :: "nat \<Rightarrow> (inode \<Rightarrow> inode) \<Rightarrow> ('z kfs_scheme, unit) kern" where
  "inode_upd ip f = modK (\<lambda>s. s\<lparr>icache := (icache s)(ip := f (icache s ip))\<rparr>)"

definition inode_get :: "nat \<Rightarrow> (inode \<Rightarrow> 'a) \<Rightarrow> ('z kfs_scheme, 'a) kern" where
  "inode_get ip f = getK (\<lambda>s. f (icache s ip))"

definition iinit :: "uint \<Rightarrow> ('z kfs_scheme, unit) kern" where
  "iinit dev =
     bindK (readsb dev) (\<lambda>S.
     thenK (modK (\<lambda>s. s\<lparr>sb := S\<rparr>))
     (cprintf (Some (str ''sb: size %d nblocks %d ninodes %d nlog %d logstart %d inodestart %d bmap start %d'' @ [0x0a]))
       [CInt (sb_size S), CInt (sb_nblocks S), CInt (sb_ninodes S), CInt (sb_nlog S), CInt (sb_logstart S),
        CInt (sb_inodestart S), CInt (sb_bmapstart S)]))"

text \<open>
  The scan of \<^verbatim>\<open>iget\<close> over the slots \<open>i, ..., i + k - 1\<close>: a slot that caches the inode, or else the
  first unused one.
\<close>

primrec iget_scan :: "nat \<Rightarrow> nat \<Rightarrow> (nat \<Rightarrow> inode) \<Rightarrow> uint \<Rightarrow> uint \<Rightarrow> nat option \<Rightarrow> nat + nat option" where
  "iget_scan 0 i I dev inum emp = Inr emp"
| "iget_scan (Suc k) i I dev inum emp =
     (if i_ref (I i) > 0 \<and> i_dev (I i) = dev \<and> i_inum (I i) = inum then Inl i
      else iget_scan k (Suc i) I dev inum (if emp = None \<and> i_ref (I i) = 0 then Some i else emp))"

definition iget :: "uint \<Rightarrow> uint \<Rightarrow> ('z kfs_scheme, nat) kern" where
  "iget dev inum =
     thenK pushcli (
     bindK (getK (\<lambda>s. iget_scan NINODE 0 (icache s) dev inum None)) (\<lambda>r. case r of
       Inl ip \<Rightarrow>
         thenK (inode_upd ip (\<lambda>i. i\<lparr>i_ref := i_ref i + 1\<rparr>)) (
         thenK popcli (ret ip))
     | Inr None \<Rightarrow> panic ''iget: no inodes''
     | Inr (Some ip) \<Rightarrow>
         thenK (inode_upd ip (\<lambda>i. i\<lparr>i_dev := dev, i_inum := inum, i_ref := 1, i_valid := 0\<rparr>)) (
         thenK popcli (ret ip))))"

definition inode_off :: "uint \<Rightarrow> nat" where
  "inode_off inum = 64 * unat (inum mod IPB)"

text \<open>The loop of \<^verbatim>\<open>ialloc\<close> over the \<open>k\<close> inode numbers from \<open>inum\<close> on.\<close>

primrec ialloc_loop :: "nat \<Rightarrow> uint \<Rightarrow> ushort \<Rightarrow> uint \<Rightarrow> ('z kfs_scheme, nat) kern" where
  "ialloc_loop 0 = (\<lambda>dev type inum. panic ''ialloc: no inodes'')"
| "ialloc_loop (Suc k) = (\<lambda>dev type inum.
     bindK (getK sb) (\<lambda>S.
     bindK (bread dev (IBLOCK inum S)) (\<lambda>bp.
     bindK (getK (\<lambda>s. di_type (dinode_of (slice (inode_off inum) 64 (b_data (bufs s bp)))))) (\<lambda>t.
     if t = 0 then
       thenK (log_modify bp (overwrite (inode_off inum) (dinode_bytes \<lparr>di_type = type, di_major = 0, di_minor = 0,
         di_nlink = 0, di_size = 0, di_addrs = replicate 13 0\<rparr>))) (
       thenK (brelse bp) (iget dev inum))
     else thenK (brelse bp) (ialloc_loop k dev type (inum + 1))))))"

definition ialloc :: "uint \<Rightarrow> ushort \<Rightarrow> ('z kfs_scheme, nat) kern" where
  "ialloc dev type = bindK (getK (\<lambda>s. unat (sb_ninodes (sb s)))) (\<lambda>n. ialloc_loop (n - 1) dev type 1)"

definition to_dinode :: "inode \<Rightarrow> dinode" where
  "to_dinode ip = \<lparr>di_type = i_type ip, di_major = i_major ip, di_minor = i_minor ip, di_nlink = i_nlink ip,
     di_size = i_size ip, di_addrs = i_addrs ip\<rparr>"

definition iupdate :: "nat \<Rightarrow> ('z kfs_scheme, unit) kern" where
  "iupdate ip =
     bindK (inode_get ip id) (\<lambda>i.
     bindK (getK sb) (\<lambda>S.
     bindK (bread (i_dev i) (IBLOCK (i_inum i) S)) (\<lambda>bp.
     thenK (log_modify bp (overwrite (inode_off (i_inum i)) (dinode_bytes (to_dinode i)))) (
     thenK (brelse bp) (ret ())))))"

definition iread :: "nat option \<Rightarrow> ('z kfs_scheme, unit) kern" where
  "iread p = (case p of None \<Rightarrow> panic ''iread'' | Some ip \<Rightarrow>
     bindK (inode_get ip id) (\<lambda>i.
     if i_ref i < 1 then panic ''iread'' else
     if i_valid i \<noteq> 0 then ret () else
     bindK (getK sb) (\<lambda>S.
     bindK (bread (i_dev i) (IBLOCK (i_inum i) S)) (\<lambda>bp.
     bindK (getK (\<lambda>s. dinode_of (slice (inode_off (i_inum i)) 64 (b_data (bufs s bp))))) (\<lambda>di.
     thenK (inode_upd ip (\<lambda>i. i\<lparr>i_type := di_type di, i_major := di_major di, i_minor := di_minor di,
       i_nlink := di_nlink di, i_size := di_size di, i_addrs := di_addrs di\<rparr>)) (
     thenK (brelse bp) (
     thenK (inode_upd ip (\<lambda>i. i\<lparr>i_valid := 1\<rparr>)) (
     bindK (inode_get ip i_type) (\<lambda>t.
     whenK (t = 0) (panic ''iread: no type''))))))))))"

section \<open>The layout of an inode\<close>

lemma slice_append_left: "off + n \<le> length xs \<Longrightarrow> slice off n (xs @ ys) = slice off n xs"
  by (simp add: slice_def)

lemma slice_append_right: "length xs \<le> off \<Longrightarrow> slice off n (xs @ ys) = slice (off - length xs) n ys"
  by (simp add: slice_def)

lemma concat_uint_bytes_slice:
  "k < length ws \<Longrightarrow> slice (4 * k) 4 (concat (map uint_bytes ws)) = uint_bytes (ws ! k)"
proof (induction ws arbitrary: k)
  case (Cons w ws)
  then show ?case by (cases k) (simp_all add: slice_append_left slice_append_right slice_full)
qed simp

lemma length_concat_uint_bytes [simp]: "length (concat (map uint_bytes ws)) = 4 * length ws"
  by (induction ws) simp_all

lemma length_dinode_bytes [simp]: "length (di_addrs di) = 13 \<Longrightarrow> length (dinode_bytes di) = 64"
  by (simp add: dinode_bytes_def)

lemma dinode_roundtrip:
  assumes "length (di_addrs di) = 13"
  shows "dinode_of (dinode_bytes di) = di"
proof -
  have "le_uint (slice (12 + 4 * k) 4 (dinode_bytes di)) = di_addrs di ! k" if "k < 13" for k
    using concat_uint_bytes_slice [of k "di_addrs di"] assms that
    by (simp add: dinode_bytes_def slice_append_right)
  then have "map (\<lambda>k. le_uint (slice (12 + 4 * k) 4 (dinode_bytes di))) [0..<13] = map (\<lambda>k. di_addrs di ! k) [0..<13]"
    by simp
  also have "\<dots> = di_addrs di" using assms map_nth [of "di_addrs di"] by simp
  finally show ?thesis
    by (simp add: dinode_of_def dinode_bytes_def slice_append_left slice_append_right slice_full)
qed

text \<open>The inode number \<open>i\<close> on the disk.\<close>

definition dino :: "superblock \<Rightarrow> (uint \<Rightarrow> block) \<Rightarrow> uint \<Rightarrow> dinode" where
  "dino S v i = dinode_of (slice (inode_off i) 64 (v (IBLOCK i S)))"

definition put_dino :: "superblock \<Rightarrow> uint \<Rightarrow> dinode \<Rightarrow> (uint \<Rightarrow> block) \<Rightarrow> uint \<Rightarrow> block" where
  "put_dino S i di v = v(IBLOCK i S := overwrite (inode_off i) (dinode_bytes di) (v (IBLOCK i S)))"

lemma inode_off_le: "inode_off i + 64 \<le> 512"
proof -
  have "unat (i mod IPB) < 8" by (simp add: unat_mod IPB_def BSIZE_def)
  then show ?thesis by (simp add: inode_off_def)
qed

lemma dino_put:
  assumes "length (di_addrs di) = 13" "length (v (IBLOCK i S)) = 512"
  shows "dino S (put_dino S i di v) j = (if j = i then di else dino S v j)"
proof (cases "j = i")
  case True
  then show ?thesis using assms inode_off_le [of i] by (simp add: dino_def put_dino_def dinode_roundtrip)
next
  case False
  show ?thesis
  proof (cases "IBLOCK j S = IBLOCK i S")
    case True
    then have "j div IPB = i div IPB" by (simp add: IBLOCK_def)
    then have "j mod IPB \<noteq> i mod IPB" using False by (metis mod_div_mult_eq)
    then have "unat (j mod IPB) \<noteq> unat (i mod IPB)" by (simp add: word_unat_eq_iff)
    then have "inode_off j + 64 \<le> inode_off i \<or> inode_off i + 64 \<le> inode_off j"
      unfolding inode_off_def by linarith
    then show ?thesis
      using assms inode_off_le [of i] inode_off_le [of j] False True
      by (simp add: dino_def put_dino_def slice_overwrite_other)
  next
    case False
    then show ?thesis using \<open>j \<noteq> i\<close> by (simp add: dino_def put_dino_def)
  qed
qed

section \<open>The inode cache\<close>

lemma fs_cpu: "fs S c v L H I s \<Longrightarrow> cpu_wf s"
  by (auto simp: fs_def lblk_def intro: cpu_wf_io dest: bcD(1))

lemma fs_settle: "fs S c v L H I (settle s) = fs S c v L H I s"
proof -
  have "bc v (set L) H (settle s) = bc v (set L) H s" "lg (settle s) = lg s"
    by (simp_all add: bc_def lru_def io_ok_def ide_ready_def holds_def is_block_def settle_def)
  moreover have "fctx (settle s) = fctx s" "sb (settle s) = sb s" "icache (settle s) = icache s"
    by (cases s; simp add: fctx_def lctx_def settle_def)+
  ultimately show ?thesis by (simp add: fs_def lblk_def)
qed

lemma inode_upd_wp:
  assumes "fs S c v L H I s" "\<And>t. fs S c v L H (I(ip := f (I ip))) t \<Longrightarrow> Q () t"
  shows "wpK (inode_upd ip f) Q s"
  using assms fs_icache [OF assms(1)] by (simp add: inode_upd_def fs_ic [OF assms(1)])

lemma inode_get_wp: "fs S c v L H I s \<Longrightarrow> Q (f (I ip)) s \<Longrightarrow> wpK (inode_get ip f) Q s"
  by (simp add: inode_get_def fs_ic)

text \<open>A slot holds the inode; a slot is unused.\<close>

definition slot_hit :: "(nat \<Rightarrow> inode) \<Rightarrow> uint \<Rightarrow> uint \<Rightarrow> nat \<Rightarrow> bool" where
  "slot_hit I dev inum i \<longleftrightarrow> 0 < i_ref (I i) \<and> i_dev (I i) = dev \<and> i_inum (I i) = inum"

definition slot_free :: "(nat \<Rightarrow> inode) \<Rightarrow> nat \<Rightarrow> bool" where
  "slot_free I i \<longleftrightarrow> i_ref (I i) = 0"

lemma iget_scan_find:
  "iget_scan k i I dev inum e = (case find (slot_hit I dev inum) [i..<i + k] of Some j \<Rightarrow> Inl j
     | None \<Rightarrow> Inr (case e of Some x \<Rightarrow> Some x | None \<Rightarrow> find (slot_free I) [i..<i + k]))"
proof (induction k arbitrary: i e)
  case (Suc k)
  have e: "[i..<i + Suc k] = i # [Suc i..<Suc i + k]" by (simp add: upt_conv_Cons del: upt_Suc)
  show ?case unfolding e iget_scan.simps Suc.IH slot_hit_def [symmetric] slot_free_def [symmetric]
    by (simp del: upt_Suc split: option.split)
qed (simp split: option.split)

text \<open>What \<open>iget\<close> does to the cache.\<close>

definition iget_cache :: "uint \<Rightarrow> uint \<Rightarrow> (nat \<Rightarrow> inode) \<Rightarrow> (nat \<times> (nat \<Rightarrow> inode)) option" where
  "iget_cache dev inum I = (case iget_scan NINODE 0 I dev inum None of
     Inl ip \<Rightarrow> Some (ip, I(ip := (I ip)\<lparr>i_ref := i_ref (I ip) + 1\<rparr>))
   | Inr None \<Rightarrow> None
   | Inr (Some ip) \<Rightarrow> Some (ip, I(ip := (I ip)\<lparr>i_dev := dev, i_inum := inum, i_ref := 1, i_valid := 0\<rparr>)))"

lemma iget_eq:
  assumes "fs S c v L H I s"
  shows "iget dev inum s = (case iget_cache dev inum I of
      None \<Rightarrow> Inl (Panic ''iget: no inodes'') | Some (ip, J) \<Rightarrow> Inr (ip, (settle s)\<lparr>icache := J\<rparr>))"
proof -
  note ic = fs_ic [OF assms]
  have wf: "0 \<le> ncli s" "ncli s < INT_MAX" "0 < ncli s \<Longrightarrow> \<not> eflags_if s" using fs_cpu [OF assms] by (auto simp: cpu_wf_def)
  have pop: "thenK popcli (ret x) (s\<lparr>eflags_if := False, intena := (if ncli s = 0 then eflags_if s else intena s),
      ncli := ncli s + 1, icache := J\<rparr>) = Inr (x, (settle s)\<lparr>icache := J\<rparr>)" for x :: nat and J
    using wf by (cases s) (auto simp: settle_def)
  show ?thesis
    using pop wf(2) by (auto simp: iget_def iget_cache_def ic inode_upd_def split: sum.split option.split)
qed

lemma iget_wp:
  assumes "fs S c v L H I s" "iget_cache dev inum I = Some (ip, J)"
    and "\<And>t. fs S c v L H J t \<Longrightarrow> Q ip t"
  shows "wpK (iget dev inum) Q s"
proof -
  have "fs S c v L H I (settle s)" using assms(1) by (simp add: fs_settle)
  then have "fs S c v L H J ((settle s)\<lparr>icache := J\<rparr>)" by (rule fs_icache)
  moreover have "iget dev inum s = Inr (ip, (settle s)\<lparr>icache := J\<rparr>)" using iget_eq [OF assms(1)] assms(2) by simp
  ultimately show ?thesis using assms(3) by (intro wpK_I)
qed

section \<open>Inodes on the disk\<close>

lemma iblock: "i < sb_ninodes S \<Longrightarrow> IBLOCK i S \<in> iblocks S"
  by (simp add: iblocks_def)

lemma iupdate_wp:
  assumes s: "fs S c v L H I s" and g: "geo S c" and i: "i_dev (I ip) = ROOTDEV" "i_inum (I ip) < sb_ninodes S"
    "length (i_addrs (I ip)) = 13" and bud: "fsblk.budget L H c 2"
    and Q: "\<And>t. \<lbrakk>fs S c (put_dino S (i_inum (I ip)) (to_dinode (I ip)) v) (logged L (IBLOCK (i_inum (I ip)) S)) H I t;
      \<And>j m. holds s j m \<Longrightarrow> m \<in> pinned (set L) H \<Longrightarrow> holds t j m\<rbrakk> \<Longrightarrow> Q () t"
  shows "wpK (iupdate ip) Q s"
proof -
  let ?n = "IBLOCK (i_inum (I ip)) S"
  note b = geoD(5,6) [OF g iblock [OF i(2)]]
  have bud': "fsblk.budget L H c (Suc (Suc 0))" using bud by (simp add: numeral_2_eq_2)
  have len: "length (v ?n) = 512" by (rule kf.length_law [OF s b(1)])
  have "length (di_addrs (to_dinode (I ip))) = 13" using i(3) by (simp add: to_dinode_def)
  then have l: "length (overwrite (inode_off (i_inum (I ip))) (dinode_bytes (to_dinode (I ip))) (v ?n)) = 512"
    using len inode_off_le [of "i_inum (I ip)"] by simp
  show ?thesis
    unfolding iupdate_def inode_get_def wpK_bind_get fs_ic [OF s] fs_sb [OF s] id_apply i(1)
    by (rule kf.modify_wp [where f = "overwrite (inode_off (i_inum (I ip))) (dinode_bytes (to_dinode (I ip)))",
          OF s b(1) bud' b(2) l])
      (use Q in \<open>simp add: put_dino_def\<close>)
qed

text \<open>The slot after \<open>iread\<close>.\<close>

definition loaded :: "superblock \<Rightarrow> (uint \<Rightarrow> block) \<Rightarrow> inode \<Rightarrow> inode" where
  "loaded S v i = (if i_valid i \<noteq> 0 then i else
     let di = dino S v (i_inum i) in
     i\<lparr>i_type := di_type di, i_major := di_major di, i_minor := di_minor di,
       i_nlink := di_nlink di, i_size := di_size di, i_addrs := di_addrs di, i_valid := 1\<rparr>)"

lemma iread_wp:
  assumes s: "fs S c v L H I s" and g: "geo S c" and i: "i_dev (I ip) = ROOTDEV" "i_inum (I ip) < sb_ninodes S"
    "0 < i_ref (I ip)" and ty: "i_valid (I ip) = 0 \<Longrightarrow> di_type (dino S v (i_inum (I ip))) \<noteq> 0"
    and bud: "fsblk.budget L H c 0"
    and Q: "\<And>t. fs S c v L H (I(ip := loaded S v (I ip))) t \<Longrightarrow> Q () t"
  shows "wpK (iread (Some ip)) Q s"
proof (cases "i_valid (I ip) = 0")
  case False
  have "fs S c v L H (I(ip := loaded S v (I ip))) s" using s False by (simp add: loaded_def)
  then show ?thesis using False i(3) Q by (simp add: iread_def inode_get_def fs_ic [OF s])
next
  case True
  let ?n = "IBLOCK (i_inum (I ip)) S"
  note b = geoD(5) [OF g iblock [OF i(2)]]
  have c1: "(i_ref (I ip) < 1) = False" "(i_valid (I ip) \<noteq> 0) = False" using i(3) True by simp_all
  show ?thesis
    unfolding iread_def option.case inode_get_def wpK_bind_get fs_ic [OF s] fs_sb [OF s] id_apply i(1) c1 if_False
  proof (rule kf.rd_get_wp [OF s b bud])
    fix bp t assume t: "fs S c v L (H(?n := Suc (H ?n))) I t" "holds t bp ?n"
    let ?di = "dinode_of (slice (inode_off (i_inum (I ip))) 64 (v ?n))"
    have di: "?di = dino S v (i_inum (I ip))" by (simp add: dino_def)
    let ?f = "\<lambda>i. i\<lparr>i_type := di_type ?di, i_major := di_major ?di, i_minor := di_minor ?di,
       i_nlink := di_nlink ?di, i_size := di_size ?di, i_addrs := di_addrs ?di\<rparr>"
    let ?J = "I(ip := ?f (I ip))"
    let ?u = "t\<lparr>icache := ?J\<rparr>"
    have u: "fs S c v L (H(?n := Suc (H ?n))) ?J ?u" by (rule fs_icache [OF t(1)])
    have h: "holds ?u bp ?n" using t(2) by (simp add: holds_def is_block_def)
    show "wpK (thenK (inode_upd ip ?f) (thenK (brelse bp) (thenK (inode_upd ip (\<lambda>i. i\<lparr>i_valid := 1\<rparr>))
        (bindK (getK (\<lambda>s. i_type (icache s ip))) (\<lambda>t. whenK (t = 0) (panic ''iread: no type'')))))) Q t"
      unfolding inode_upd_def [of ip ?f] wpK_thenK [of "modK _"] wpK_modK fs_ic [OF t(1)]
    proof (rule kf.rel_then_wp [OF u h])
      fix w assume w: "fs S c v L H ?J w"
      have e: "?J(ip := (?J ip)\<lparr>i_valid := 1\<rparr>) = I(ip := loaded S v (I ip))"
        using True by (simp add: loaded_def di Let_def)
      show "wpK (thenK (inode_upd ip (\<lambda>i. i\<lparr>i_valid := 1\<rparr>))
        (bindK (getK (\<lambda>s. i_type (icache s ip))) (\<lambda>t. whenK (t = 0) (panic ''iread: no type'')))) Q w"
        unfolding wpK_thenK
      proof (rule inode_upd_wp [OF w])
        fix x assume "fs S c v L H (?J(ip := (?J ip)\<lparr>i_valid := 1\<rparr>)) x"
        then have x: "fs S c v L H (I(ip := loaded S v (I ip))) x" unfolding e .
        have "i_type (loaded S v (I ip)) \<noteq> 0" using True ty by (simp add: loaded_def Let_def)
        then show "wpK (bindK (getK (\<lambda>s. i_type (icache s ip))) (\<lambda>t. whenK (t = 0) (panic ''iread: no type''))) Q x"
          using Q [OF x] by (simp add: fs_ic [OF x])
      qed
    qed
  qed
qed

definition new_dinode :: "ushort \<Rightarrow> dinode" where
  "new_dinode type = \<lparr>di_type = type, di_major = 0, di_minor = 0, di_nlink = 0, di_size = 0, di_addrs = replicate 13 0\<rparr>"

lemma ialloc_loop_wp:
  assumes s: "fs S c v L H I s" and g: "geo S c" and bud: "fsblk.budget L H c 2"
    and n: "unat inum + k = unat (sb_ninodes S)"
    and f: "inum \<le> i" "i < sb_ninodes S" "di_type (dino S v i) = 0" "\<And>j. inum \<le> j \<Longrightarrow> j < i \<Longrightarrow> di_type (dino S v j) \<noteq> 0"
    and J: "iget_cache ROOTDEV i I = Some (ip, J)"
    and Q: "\<And>t. fs S c (put_dino S i (new_dinode type) v) (logged L (IBLOCK i S)) H J t \<Longrightarrow> Q ip t"
  shows "wpK (ialloc_loop k ROOTDEV type inum) Q s"
  using s n f(1,4)
proof (induction k arbitrary: inum s)
  case 0
  then show ?case using f(2) by (simp add: word_less_nat_alt word_le_nat_alt)
next
  case (Suc k)
  have lt: "inum < sb_ninodes S" using Suc.prems(2) by (simp add: word_less_nat_alt)
  let ?n = "IBLOCK inum S"
  note b = geoD(5,6) [OF g iblock [OF lt]]
  have bud': "fsblk.budget L H c (Suc (Suc 0))" using bud by (simp add: numeral_2_eq_2)
  show ?case
    unfolding ialloc_loop.simps wpK_bind_get fs_sb [OF Suc.prems(1)]
  proof (rule kf.rd_get_wp [OF Suc.prems(1) b(1) fsblk.budget_mono [OF bud]])
    fix bp t assume t: "fs S c v L (H(?n := Suc (H ?n))) I t" "holds t bp ?n"
    have ty: "di_type (dinode_of (slice (inode_off inum) 64 (v ?n))) = di_type (dino S v inum)" by (simp add: dino_def)
    have len: "length (v ?n) = 512" by (rule kf.length_law [OF t(1) b(1)])
    show "wpK (if di_type (dinode_of (slice (inode_off inum) 64 (v ?n))) = 0 then
        thenK (log_modify bp (overwrite (inode_off inum) (dinode_bytes \<lparr>di_type = type, di_major = 0, di_minor = 0,
         di_nlink = 0, di_size = 0, di_addrs = replicate 13 0\<rparr>))) (thenK (brelse bp) (iget ROOTDEV inum))
        else thenK (brelse bp) (ialloc_loop k ROOTDEV type (inum + 1))) Q t"
    proof (cases "inum = i")
      case True
      have l: "length (overwrite (inode_off i) (dinode_bytes (new_dinode type)) (v ?n)) = 512"
        using len inode_off_le [of i] by (simp add: new_dinode_def True)
      have z: "(di_type (dinode_of (slice (inode_off i) 64 (v (IBLOCK i S)))) = 0) = True"
        using f(3) by (simp add: dino_def)
      show ?thesis
        unfolding True z if_True new_dinode_def [symmetric]
      proof (rule kf.wr_rel_wp [where f = "overwrite (inode_off i) (dinode_bytes (new_dinode type))",
            OF t [unfolded True] l [unfolded True] fsblk.budget_hold [OF bud'] b(2) [unfolded True]])
        fix w assume "fs S c (v(IBLOCK i S := overwrite (inode_off i) (dinode_bytes (new_dinode type)) (v (IBLOCK i S))))
          (logged L (IBLOCK i S)) H I w"
        then have w: "fs S c (put_dino S i (new_dinode type) v) (logged L (IBLOCK i S)) H I w" by (simp add: put_dino_def)
        show "wpK (iget ROOTDEV i) Q w" by (rule iget_wp [OF w J]) (rule Q)
      qed
    next
      case False
      then have less: "inum < i" using Suc.prems(3) by simp
      then have nz: "(di_type (dino S v inum) = 0) = False" using Suc.prems(4) by auto
      have u: "unat (inum + 1) = unat inum + 1"
        using Suc.prems(2) unat_uint_less [of "sb_ninodes S"] by (subst unat_add_uint) simp_all
      show ?thesis
        unfolding ty nz if_False
      proof (rule kf.rel_then_wp [OF t])
        fix w assume w: "fs S c v L H I w"
        show "wpK (ialloc_loop k ROOTDEV type (inum + 1)) Q w"
        proof (rule Suc.IH [OF w])
          show "unat (inum + 1) + k = unat (sb_ninodes S)" using u Suc.prems(2) by simp
          show "inum + 1 \<le> i" using less u by (simp add: word_le_nat_alt word_less_nat_alt)
          fix j assume "inum + 1 \<le> j" "j < i"
          then show "di_type (dino S v j) \<noteq> 0" using Suc.prems(4) [of j] u by (simp add: word_le_nat_alt)
        qed
      qed
    qed
  qed simp
qed

lemma ialloc_wp:
  assumes s: "fs S c v L H I s" and g: "geo S c" and bud: "fsblk.budget L H c 2"
    and f: "1 \<le> i" "i < sb_ninodes S" "di_type (dino S v i) = 0" "\<And>j. 1 \<le> j \<Longrightarrow> j < i \<Longrightarrow> di_type (dino S v j) \<noteq> 0"
    and J: "iget_cache ROOTDEV i I = Some (ip, J)"
    and Q: "\<And>t. fs S c (put_dino S i (new_dinode type) v) (logged L (IBLOCK i S)) H J t \<Longrightarrow> Q ip t"
  shows "wpK (ialloc ROOTDEV type) Q s"
proof -
  have n: "unat (1 :: uint) + (unat (sb_ninodes S) - 1) = unat (sb_ninodes S)"
    using f(1,2) by (simp add: word_less_nat_alt word_le_nat_alt)
  show ?thesis
    unfolding ialloc_def wpK_bind_get fs_sb [OF s] by (rule ialloc_loop_wp [OF s g bud n f(1-3) _ J]) (use f(4) Q in auto)
qed

end
