(* ===== verification/Filedata.thy ===== *)
theory Filedata
  imports Inode
begin

text \<open>
  \<^verbatim>\<open>fs.c\<close>, the content of inodes: the map from block numbers of a file to disk blocks with its
  indirect block, truncation, and reading and writing byte ranges. \<^verbatim>\<open>devsw\<close>, the table of the
  device functions, is an argument of \<open>readi\<close> and \<open>writei\<close>. A buffer of the caller is a list of
  bytes: \<open>readi\<close> returns the bytes it copies to \<^verbatim>\<open>dst\<close>, \<open>writei\<close> takes the bytes at \<^verbatim>\<open>src\<close>.
\<close>

definition T_DIR :: ushort where "T_DIR = 1"
definition T_FILE :: ushort where "T_FILE = 2"
definition T_DEV :: ushort where "T_DEV = 3"
definition NDEV :: int where "NDEV = 10"

record 's devsw =
  dev_read :: "int \<Rightarrow> (int \<Rightarrow> ('s, int \<times> uchar list) kern) option"
  dev_write :: "int \<Rightarrow> (uchar list \<Rightarrow> int \<Rightarrow> ('s, int) kern) option"

record stat =
  st_type :: ushort
  st_dev :: uint
  st_ino :: uint
  st_nlink :: ushort
  st_size :: uint

section \<open>Operations\<close>

text \<open>\<^verbatim>\<open>if((addr = ip->addrs[k]) == 0) ip->addrs[k] = addr = balloc(ip->dev)\<close>\<close>

definition bmap_slot :: "nat \<Rightarrow> nat \<Rightarrow> ('z kfs_scheme, uint) kern" where
  "bmap_slot ip k =
     bindK (inode_get ip (\<lambda>i. i_addrs i ! k)) (\<lambda>addr.
     if addr \<noteq> 0 then ret addr else
     bindK (inode_get ip i_dev) (\<lambda>dev.
     bindK (balloc dev) (\<lambda>b.
     thenK (inode_upd ip (\<lambda>i. i\<lparr>i_addrs := (i_addrs i)[k := b]\<rparr>)) (
     ret b))))"

definition bmap :: "nat \<Rightarrow> uint \<Rightarrow> ('z kfs_scheme, uint) kern" where
  "bmap ip bn =
     (if unat bn < NDIRECT then bmap_slot ip (unat bn)
      else let bn = unat bn - NDIRECT in
      if bn < NINDIRECT then
        bindK (bmap_slot ip NDIRECT) (\<lambda>addr.
        bindK (inode_get ip i_dev) (\<lambda>dev.
        bindK (bread dev addr) (\<lambda>bp.
        bindK (getK (\<lambda>s. get_uint bn (b_data (bufs s bp)))) (\<lambda>a.
        if a = 0 then
          bindK (balloc dev) (\<lambda>b.
          thenK (log_modify bp (put_uint bn b)) (
          thenK (brelse bp) (ret b)))
        else thenK (brelse bp) (ret a)))))
      else panic ''bmap: out of range'')"

definition itrunc :: "nat \<Rightarrow> ('z kfs_scheme, unit) kern" where
  "itrunc ip =
     thenK (for_range 0 NDIRECT (\<lambda>k.
       bindK (inode_get ip (\<lambda>i. (i_dev i, i_addrs i ! k))) (\<lambda>(dev, a).
       whenK (a \<noteq> 0) (
         thenK (bfree dev a)
         (inode_upd ip (\<lambda>i. i\<lparr>i_addrs := (i_addrs i)[k := 0]\<rparr>)))))) (
     bindK (inode_get ip (\<lambda>i. (i_dev i, i_addrs i ! NDIRECT))) (\<lambda>(dev, a).
     thenK (whenK (a \<noteq> 0) (
       bindK (bread dev a) (\<lambda>bp.
       thenK (for_range 0 NINDIRECT (\<lambda>j.
         bindK (getK (\<lambda>s. get_uint j (b_data (bufs s bp)))) (\<lambda>e.
         whenK (e \<noteq> 0) (bfree dev e)))) (
       thenK (brelse bp) (
       thenK (bfree dev a)
       (inode_upd ip (\<lambda>i. i\<lparr>i_addrs := (i_addrs i)[NDIRECT := 0]\<rparr>))))))) (
     thenK (inode_upd ip (\<lambda>i. i\<lparr>i_size := 0\<rparr>))
     (iupdate ip))))"

definition iput :: "nat \<Rightarrow> ('z kfs_scheme, unit) kern" where
  "iput ip =
     thenK pushcli (
     bindK (inode_get ip id) (\<lambda>i.
     thenK (whenK (i_valid i \<noteq> 0 \<and> i_nlink i = 0 \<and> i_ref i = 1) (
       thenK popcli (
       thenK (itrunc ip) (
       thenK (inode_upd ip (\<lambda>i. i\<lparr>i_type := 0\<rparr>)) (
       thenK (iupdate ip) (
       thenK (inode_upd ip (\<lambda>i. i\<lparr>i_valid := 0\<rparr>))
       pushcli)))))) (
     thenK (inode_upd ip (\<lambda>i. i\<lparr>i_ref := i_ref i - 1\<rparr>))
     popcli)))"

definition stati :: "nat \<Rightarrow> ('z kfs_scheme, stat) kern" where
  "stati ip = inode_get ip (\<lambda>i. \<lparr>st_type = i_type i, st_dev = i_dev i, st_ino = i_inum i,
     st_nlink = i_nlink i, st_size = i_size i\<rparr>)"

text \<open>
  The copying loops. Every iteration but the first and the last moves a whole block, so that \<open>n div 512 + 2\<close>
  iterations suffice; one more step leaves the loop.
\<close>

primrec readi_loop :: "nat \<Rightarrow> nat \<Rightarrow> uint \<Rightarrow> uint \<Rightarrow> uint \<Rightarrow> uchar list \<Rightarrow> ('z kfs_scheme, uchar list) kern" where
  "readi_loop 0 = (\<lambda>ip n tot off dst. spin)"
| "readi_loop (Suc fuel) = (\<lambda>ip n tot off dst.
     if \<not> tot < n then ret dst else
     bindK (inode_get ip i_dev) (\<lambda>dev.
     bindK (bmap ip (off div BSIZE)) (\<lambda>b.
     bindK (bread dev b) (\<lambda>bp.
     let m = min (n - tot) (BSIZE - off mod BSIZE) in
     bindK (getK (\<lambda>s. slice (unat (off mod BSIZE)) (unat m) (b_data (bufs s bp)))) (\<lambda>xs.
     thenK (brelse bp)
     (readi_loop fuel ip n (tot + m) (off + m) (dst @ xs)))))))"

definition readi :: "'z kfs_scheme devsw \<Rightarrow> nat \<Rightarrow> uint \<Rightarrow> uint \<Rightarrow> ('z kfs_scheme, int \<times> uchar list) kern" where
  "readi devsw ip off n =
     bindK (inode_get ip id) (\<lambda>i.
     if i_type i = T_DEV then
       (if sint (i_major i) < 0 \<or> sint (i_major i) \<ge> NDEV then ret (- 1, [])
        else case dev_read devsw (sint (i_major i)) of None \<Rightarrow> ret (- 1, []) | Some f \<Rightarrow> f (sint n))
     else if off > i_size i \<or> off + n < off \<or> sint (i_nlink i) < 1 then ret (- 1, [])
     else let n = (if off + n > i_size i then i_size i - off else n) in
     bindK (readi_loop (unat n div 512 + 3) ip n 0 off []) (\<lambda>dst.
     ret (sint n, dst)))"

primrec writei_loop :: "nat \<Rightarrow> nat \<Rightarrow> uchar list \<Rightarrow> uint \<Rightarrow> uint \<Rightarrow> uint \<Rightarrow> ('z kfs_scheme, uint) kern" where
  "writei_loop 0 = (\<lambda>ip src n tot off. spin)"
| "writei_loop (Suc fuel) = (\<lambda>ip src n tot off.
     if \<not> tot < n then ret off else
     bindK (inode_get ip i_dev) (\<lambda>dev.
     bindK (bmap ip (off div BSIZE)) (\<lambda>b.
     bindK (bread dev b) (\<lambda>bp.
     let m = min (n - tot) (BSIZE - off mod BSIZE) in
     thenK (log_modify bp (overwrite (unat (off mod BSIZE)) (slice (unat tot) (unat m) src))) (
     thenK (brelse bp)
     (writei_loop fuel ip src n (tot + m) (off + m)))))))"

definition writei :: "'z kfs_scheme devsw \<Rightarrow> nat \<Rightarrow> uchar list \<Rightarrow> uint \<Rightarrow> uint \<Rightarrow> ('z kfs_scheme, int) kern" where
  "writei devsw ip src off n =
     bindK (inode_get ip id) (\<lambda>i.
     if i_type i = T_DEV then
       (if sint (i_major i) < 0 \<or> sint (i_major i) \<ge> NDEV then ret (- 1)
        else case dev_write devsw (sint (i_major i)) of None \<Rightarrow> ret (- 1) | Some f \<Rightarrow> f src (sint n))
     else if off > i_size i \<or> off + n < off then ret (- 1)
     else if off + n > of_nat (MAXFILE * 512) then ret (- 1)
     else if length src < unat n then fault
     else bindK (writei_loop (unat n div 512 + 3) ip src n 0 off) (\<lambda>off.
     bindK (inode_get ip i_size) (\<lambda>sz.
     thenK (whenK (n > 0 \<and> off > sz) (
       thenK (inode_upd ip (\<lambda>i. i\<lparr>i_size := off\<rparr>))
       (iupdate ip)))
     (ret (sint n)))))"

section \<open>The block map of a file\<close>

text \<open>
  \<open>faddr v A k\<close> is the disk block that holds block \<open>k\<close> of the file with the addresses \<open>A\<close>, or 0.
\<close>

definition faddr :: "(uint \<Rightarrow> block) \<Rightarrow> uint list \<Rightarrow> nat \<Rightarrow> uint" where
  "faddr v A k = (if k < 12 then A ! k else if A ! 12 = 0 then 0 else get_uint (k - 12) (v (A ! 12)))"

text \<open>A block that a file may own: inside the disk, outside the metadata, marked as used.\<close>

definition usable :: "superblock \<Rightarrow> 'z lctx \<Rightarrow> (uint \<Rightarrow> block) \<Rightarrow> uint \<Rightarrow> bool" where
  "usable S c v b \<longleftrightarrow> b < sb_size S \<and> b \<notin> meta S c \<and> b \<notin> freeb S v"

definition wf_file :: "superblock \<Rightarrow> 'z lctx \<Rightarrow> (uint \<Rightarrow> block) \<Rightarrow> uint list \<Rightarrow> bool" where
  "wf_file S c v A \<longleftrightarrow> length A = 13 \<and> (A ! 12 \<noteq> 0 \<longrightarrow> usable S c v (A ! 12)) \<and>
     (\<forall>k<140. faddr v A k \<noteq> 0 \<longrightarrow> usable S c v (faddr v A k) \<and> faddr v A k \<noteq> A ! 12 \<and>
       (\<forall>j<140. faddr v A j = faddr v A k \<longrightarrow> j = k))"

lemma wf_fileD:
  assumes "wf_file S c v A"
  shows "length A = 13" "A ! 12 \<noteq> 0 \<Longrightarrow> usable S c v (A ! 12)"
    "k < 140 \<Longrightarrow> faddr v A k \<noteq> 0 \<Longrightarrow> usable S c v (faddr v A k)"
    "k < 140 \<Longrightarrow> faddr v A k \<noteq> 0 \<Longrightarrow> faddr v A k \<noteq> A ! 12"
    "k < 140 \<Longrightarrow> j < 140 \<Longrightarrow> faddr v A k \<noteq> 0 \<Longrightarrow> faddr v A j = faddr v A k \<Longrightarrow> j = k"
  using assms unfolding wf_file_def by auto

lemma usableD:
  assumes "usable S c v b" "geo S c"
  shows "b < FSSIZE" "b \<notin> larea c" "b \<noteq> sb_bmapstart S" "b \<noteq> 0" "b \<notin> iblocks S" "b \<notin> freeb S v" "b < sb_size S"
  using assms unfolding usable_def meta_def geo_def by auto

text \<open>A block that has just been taken off the bitmap and belongs to no file yet.\<close>

definition fresh_for :: "superblock \<Rightarrow> 'z lctx \<Rightarrow> (uint \<Rightarrow> block) \<Rightarrow> uint list \<Rightarrow> uint \<Rightarrow> bool" where
  "fresh_for S c v A b \<longleftrightarrow> usable S c v b \<and> b \<noteq> A ! 12 \<and> (\<forall>k<140. faddr v A k \<noteq> b)"

lemma take_file:
  assumes A: "wf_file S c v A" and b: "b \<in> freeb S v" and ok: "bitmap_ok S c v" and g: "geo S c"
  shows "faddr (take_block S b v) A k = faddr v A k" "wf_file S c (take_block S b v) A"
    "fresh_for S c (take_block S b v) A b"
proof -
  note w = wf_fileD [OF A] and fr = freeb_take [OF b ok g]
  have 12: "A ! 12 \<noteq> 0 \<Longrightarrow> A ! 12 \<noteq> b \<and> A ! 12 \<noteq> sb_bmapstart S"
    using usableD(3,6) [OF w(2) g] b by blast
  have same: "faddr (take_block S b v) A k = faddr v A k" for k
    using 12 by (auto simp: faddr_def take_block_def)
  then show "faddr (take_block S b v) A k = faddr v A k" .
  have us: "usable S c v x \<Longrightarrow> usable S c (take_block S b v) x" for x using fr(1) by (auto simp: usable_def)
  show "wf_file S c (take_block S b v) A" using A us unfolding wf_file_def same by blast
  have "usable S c (take_block S b v) b" using b ok fr(1) by (auto simp: usable_def bitmap_ok_def freeb_def)
  moreover have "faddr v A k \<noteq> b" if "k < 140" for k
    using usableD(6) [OF w(3) g] that b freebD(6) [OF b ok g] by blast
  ultimately show "fresh_for S c (take_block S b v) A b"
    using 12 freebD(6) [OF b ok g] unfolding fresh_for_def same by auto
qed

lemma link_direct:
  assumes A: "wf_file S c v A" and k: "k < 12" "A ! k = 0" and b: "fresh_for S c v A b"
  shows "faddr v (A[k := b]) j = (if j = k then b else faddr v A j)" "wf_file S c v (A[k := b])"
proof -
  note w = wf_fileD [OF A]
  have f: "faddr v (A[k := b]) j = (if j = k then b else faddr v A j)" for j
    using k w(1) by (auto simp: faddr_def nth_list_update)
  then show "faddr v (A[k := b]) j = (if j = k then b else faddr v A j)" .
  have 12: "(A[k := b]) ! 12 = A ! 12" using k by simp
  show "wf_file S c v (A[k := b])"
    using A b unfolding wf_file_def fresh_for_def f 12 by (auto split: if_splits)
qed

lemma link_indirect:
  assumes A: "wf_file S c v A" and k: "A ! 12 = 0" and b: "fresh_for S c v A b" and z: "v b = replicate 512 0"
  shows "j < 140 \<Longrightarrow> faddr v (A[12 := b]) j = faddr v A j" "wf_file S c v (A[12 := b])"
proof -
  note w = wf_fileD [OF A]
  have f: "faddr v (A[12 := b]) j = faddr v A j" if "j < 140" for j
  proof (cases "j < 12")
    case False
    then have "get_uint (j - 12) (v b) = 0" using that unfolding z by (intro get_uint_zero) simp
    then show ?thesis using False k w(1) by (simp add: faddr_def)
  qed (simp add: faddr_def)
  then show "j < 140 \<Longrightarrow> faddr v (A[12 := b]) j = faddr v A j" .
  have 12: "(A[12 := b]) ! 12 = b" using w(1) by simp
  show "wf_file S c v (A[12 := b])"
    using A b f unfolding wf_file_def fresh_for_def 12 by auto
qed

lemma link_entry:
  assumes A: "wf_file S c v A" and n: "A ! 12 \<noteq> 0" "j < 128" "faddr v A (12 + j) = 0" and b: "fresh_for S c v A b"
    and len: "length (v (A ! 12)) = 512" and g: "geo S c"
  defines "v' \<equiv> v(A ! 12 := put_uint j b (v (A ! 12)))"
  shows "i < 140 \<Longrightarrow> faddr v' A i = (if i = 12 + j then b else faddr v A i)" "wf_file S c v' A" "freeb S v' = freeb S v"
proof -
  note w = wf_fileD [OF A]
  have f: "faddr v' A i = (if i = 12 + j then b else faddr v A i)" if "i < 140" for i
    using n len that by (auto simp: faddr_def v'_def get_put_uint)
  then show "i < 140 \<Longrightarrow> faddr v' A i = (if i = 12 + j then b else faddr v A i)" .
  have "A ! 12 \<noteq> sb_bmapstart S" using usableD(3) [OF w(2) g] n by blast
  then show fr: "freeb S v' = freeb S v" by (simp add: freeb_def v'_def)
  then have us: "usable S c v' x = usable S c v x" for x by (simp add: usable_def)
  show "wf_file S c v' A"
    using A b f unfolding wf_file_def fresh_for_def us by auto
qed

section \<open>\<open>bmap\<close>\<close>

definition open_file where
  "open_file S c v L H I ip s \<longleftrightarrow> fs S c v L H I s \<and> geo S c \<and> bitmap_ok S c v \<and> i_dev (I ip) = ROOTDEV \<and>
     i_inum (I ip) < sb_ninodes S \<and> wf_file S c v (i_addrs (I ip))"

lemma open_fileD:
  assumes "open_file S c v L H I ip s"
  shows "fs S c v L H I s" "geo S c" "bitmap_ok S c v" "i_dev (I ip) = ROOTDEV" "i_inum (I ip) < sb_ninodes S"
    "wf_file S c v (i_addrs (I ip))"
  using assms by (auto simp: open_file_def)

definition set_addrs :: "(nat \<Rightarrow> inode) \<Rightarrow> nat \<Rightarrow> uint list \<Rightarrow> nat \<Rightarrow> inode" where
  "set_addrs I ip A = I(ip := (I ip)\<lparr>i_addrs := A\<rparr>)"

lemma set_addrs_simps [simp]:
  "set_addrs I ip (i_addrs (I ip)) = I" "set_addrs (set_addrs I ip A) ip B = set_addrs I ip B"
  "i_addrs (set_addrs I ip A ip) = A" "i_dev (set_addrs I ip A ip) = i_dev (I ip)"
  "i_inum (set_addrs I ip A ip) = i_inum (I ip)" "i_size (set_addrs I ip A ip) = i_size (I ip)"
  "i_type (set_addrs I ip A ip) = i_type (I ip)" "i_nlink (set_addrs I ip A ip) = i_nlink (I ip)"
  by (simp_all add: set_addrs_def)

text \<open>What \<open>bmap\<close> does for block \<open>k\<close> of a file: \<open>v\<close> and \<open>A\<close> become \<open>v'\<close> and \<open>A'\<close>, the result is \<open>b\<close>.\<close>

definition mapped where
  "mapped S c v A k v' A' b \<longleftrightarrow> b = faddr v' A' k \<and> b \<noteq> 0 \<and> wf_file S c v' A' \<and> bitmap_ok S c v' \<and>
     (\<forall>j<140. j \<noteq> k \<longrightarrow> faddr v' A' j = faddr v A j) \<and> (faddr v A k \<noteq> 0 \<longrightarrow> b = faddr v A k) \<and>
     (A ! 12 \<noteq> 0 \<longrightarrow> A' ! 12 = A ! 12) \<and> (A ! 12 = 0 \<longrightarrow> A' ! 12 \<noteq> 0 \<longrightarrow> A' ! 12 \<in> freeb S v) \<and>
     freeb S v' \<subseteq> freeb S v \<and> card (freeb S v) \<le> card (freeb S v') + 2 \<and>
     (faddr v A k = 0 \<longrightarrow> b \<in> freeb S v \<and> v' b = replicate 512 0) \<and>
     (\<forall>n. n \<notin> freeb S v \<longrightarrow> n \<noteq> sb_bmapstart S \<longrightarrow> n \<noteq> A ! 12 \<longrightarrow> v' n = v n)"

lemma mapped_same:
  assumes "wf_file S c v A" "bitmap_ok S c v" "faddr v A k \<noteq> 0"
  shows "mapped S c v A k v A (faddr v A k)"
  using assms by (auto simp: mapped_def)

lemma bmap_slot_hit:
  assumes "fs S c v L H I s" "i_addrs (I ip) ! k \<noteq> 0"
  shows "wpK (bmap_slot ip k) Q s = Q (i_addrs (I ip) ! k) s"
  using assms(2) by (simp add: bmap_slot_def inode_get_def fs_ic [OF assms(1)])

lemma bmap_slot_alloc:
  assumes s: "open_file S c v L H I ip s" and z: "i_addrs (I ip) ! k = 0" and f: "freeb S v \<noteq> {}"
    and bud: "fsblk.budget L H c 3"
    and Q: "\<And>b t L'. b \<in> freeb S v \<Longrightarrow> fs S c (take_block S b v) L' H (set_addrs I ip ((i_addrs (I ip))[k := b])) t \<Longrightarrow>
      grows {sb_bmapstart S, b} L L' \<Longrightarrow> Q b t"
  shows "wpK (bmap_slot ip k) Q s"
proof -
  note o = open_fileD [OF s]
  have z': "(i_addrs (I ip) ! k \<noteq> 0) = False" using z by simp
  show ?thesis
    unfolding bmap_slot_def inode_get_def wpK_bind_get fs_ic [OF o(1)] z' if_False o(4) wpK_bindK [of "balloc ROOTDEV"]
  proof (rule balloc_wp [OF o(1-3) f bud])
    fix b t L' assume b: "b \<in> freeb S v" and t: "fs S c (take_block S b v) L' H I t" and g: "grows {sb_bmapstart S, b} L L'"
    show "wpK (thenK (inode_upd ip (\<lambda>i. i\<lparr>i_addrs := (i_addrs i)[k := b]\<rparr>)) (ret b)) Q t"
      unfolding wpK_thenK wpK_ret_fun
      by (rule inode_upd_wp [OF t]) (use Q [OF b _ g] in \<open>simp add: set_addrs_def\<close>)
  qed
qed

lemma take_card:
  assumes "b \<in> freeb S v" "bitmap_ok S c v" "geo S c"
  shows "card (freeb S v) = Suc (card (freeb S (take_block S b v)))"
  using freeb_take(1) [OF assms] assms(1) card_Suc_Diff1 [of "freeb S v" b] by simp

lemma take_other: "b \<in> freeb S v \<Longrightarrow> \<forall>n. n \<notin> freeb S v \<longrightarrow> n \<noteq> sb_bmapstart S \<longrightarrow> take_block S b v n = v n"
  by (auto simp: take_block_def)

lemma mapped_direct:
  assumes A: "wf_file S c v A" and ok: "bitmap_ok S c v" and g: "geo S c" and k: "k < 12" "A ! k = 0" and b: "b \<in> freeb S v"
  shows "mapped S c v A k (take_block S b v) (A[k := b]) b"
proof -
  note t = take_file [OF A b ok g] and fr = freeb_take [OF b ok g] and d = freebD [OF b ok g]
  note l = link_direct [OF t(2) k t(3)]
  have "faddr v A k = 0" using k by (simp add: faddr_def)
  moreover have "(A[k := b]) ! 12 = A ! 12" using k by simp
  moreover have "take_block S b v b = replicate 512 0" by (simp add: take_block_def)
  ultimately show ?thesis
    unfolding mapped_def l(1) t(1) using l(2) fr d(6) b take_card [OF b ok g] take_other [OF b] by auto
qed

text \<open>The indirect block is in place.\<close>

definition prepared where
  "prepared S c v A v1 A1 \<longleftrightarrow> A1 ! 12 \<noteq> 0 \<and> wf_file S c v1 A1 \<and> bitmap_ok S c v1 \<and>
     (\<forall>j<140. faddr v1 A1 j = faddr v A j) \<and> freeb S v1 \<subseteq> freeb S v \<and> card (freeb S v) \<le> card (freeb S v1) + 1 \<and>
     (\<forall>n. n \<notin> freeb S v \<longrightarrow> n \<noteq> sb_bmapstart S \<longrightarrow> v1 n = v n) \<and>
     (if A ! 12 = 0 then A1 ! 12 \<in> freeb S v else A1 = A \<and> v1 = v)"

lemma prepared_hit: "wf_file S c v A \<Longrightarrow> bitmap_ok S c v \<Longrightarrow> A ! 12 \<noteq> 0 \<Longrightarrow> prepared S c v A v A"
  by (simp add: prepared_def)

lemma prepared_alloc:
  assumes A: "wf_file S c v A" and ok: "bitmap_ok S c v" and g: "geo S c" and z: "A ! 12 = 0" and b: "b \<in> freeb S v"
  shows "prepared S c v A (take_block S b v) (A[12 := b])"
proof -
  note t = take_file [OF A b ok g] and fr = freeb_take [OF b ok g] and d = freebD [OF b ok g]
  have zero: "take_block S b v b = replicate 512 0" by (simp add: take_block_def)
  note l = link_indirect [OF t(2) z t(3) zero]
  have "(A[12 := b]) ! 12 = b" using wf_fileD(1) [OF A] by simp
  then show ?thesis
    unfolding prepared_def using l t(1) z fr b d(6) take_card [OF b ok g] take_other [OF b] by auto
qed

lemma mapped_entry_hit:
  assumes p: "prepared S c v A v1 A1" and k: "k < 140" "faddr v1 A1 k \<noteq> 0"
  shows "mapped S c v A k v1 A1 (faddr v1 A1 k)"
  using p k unfolding prepared_def mapped_def by (auto split: if_splits)

lemma mapped_entry_alloc:
  assumes p: "prepared S c v A v1 A1" and k: "12 \<le> k" "k < 140" "faddr v1 A1 k = 0" and b: "b \<in> freeb S v1"
    and g: "geo S c" and len: "length (v1 (A1 ! 12)) = 512"
  defines "v2 \<equiv> take_block S b v1"
  shows "mapped S c v A k (v2(A1 ! 12 := put_uint (k - 12) b (v2 (A1 ! 12)))) A1 b"
proof -
  have q: "A1 ! 12 \<noteq> 0" "wf_file S c v1 A1" "bitmap_ok S c v1" using p by (auto simp: prepared_def)
  note t = take_file [OF q(2) b q(3) g, folded v2_def] and fr = freeb_take [OF b q(3) g, folded v2_def]
    and d = freebD [OF b q(3) g] and us = usableD [OF wf_fileD(2) [OF q(2,1)] g]
  have ind: "v2 (A1 ! 12) = v1 (A1 ! 12)" using us(3,6) b by (auto simp: v2_def take_block_def)
  have k12: "12 + (k - 12) = k" "k - 12 < 128" using k by simp_all
  let ?v3 = "v2(A1 ! 12 := put_uint (k - 12) b (v2 (A1 ! 12)))"
  have z: "faddr v2 A1 (12 + (k - 12)) = 0" using k t(1) by (simp add: k12)
  have len2: "length (v2 (A1 ! 12)) = 512" using len ind by simp
  note l = link_entry [OF t(2) q(1) k12(2) z t(3) len2 g, unfolded k12]
  have bm: "?v3 (sb_bmapstart S) = v2 (sb_bmapstart S)" using us(3) by simp
  have ok3: "bitmap_ok S c ?v3" using fr(2) l(3) bm by (simp add: bitmap_ok_def)
  have f3: "freeb S ?v3 = freeb S v1 - {b}" using l(3) fr(1) by simp
  have b12: "b \<noteq> A1 ! 12" using t(3) by (simp add: fresh_for_def)
  have vb: "?v3 b = replicate 512 0" using b12 d(5) by (simp add: v2_def take_block_def)
  have card: "card (freeb S v1) = Suc (card (freeb S ?v3))"
    unfolding f3 using b card_Suc_Diff1 [of "freeb S v1" b] by simp
  have keep: "?v3 n = v n" if "n \<notin> freeb S v" "n \<noteq> sb_bmapstart S" "n \<noteq> A ! 12" for n
  proof -
    have "n \<notin> freeb S v1" "v1 n = v n" "n \<noteq> A1 ! 12" using that p by (auto simp: prepared_def split: if_splits)
    then show ?thesis using that(2) take_other [OF b] by (simp add: v2_def)
  qed
  have F: "faddr ?v3 A1 j = (if j = k then b else faddr v A j)" if "j < 140" for j
    using l(1) [OF that] t(1) p that by (auto simp: prepared_def)
  have fk: "faddr v A k = 0" using k p by (auto simp: prepared_def)
  have pb: "b \<in> freeb S v" "freeb S v1 \<subseteq> freeb S v" "card (freeb S v) \<le> card (freeb S v1) + 1"
    "A ! 12 \<noteq> 0 \<longrightarrow> A1 ! 12 = A ! 12" "A ! 12 = 0 \<longrightarrow> A1 ! 12 \<in> freeb S v"
    using p b by (auto simp: prepared_def split: if_splits)
  show ?thesis
    unfolding mapped_def using F k l(2) ok3 fk f3 pb vb card keep d(6) by auto
qed

lemma N_consts [simp]: "NDIRECT = 12" "NINDIRECT = 128" "MAXFILE = 140"
  by (simp_all add: NDIRECT_def NINDIRECT_def MAXFILE_def)

lemma card_pair: "card ({a, b} - X) \<le> 2"
proof -
  have "card ({a, b} - X) \<le> card {a, b}" by (rule card_mono) auto
  also have "\<dots> \<le> 2" by (simp add: card_insert_if)
  finally show ?thesis .
qed

text \<open>The second half of \<open>bmap\<close>: the entry \<open>k\<close> in the indirect block.\<close>

lemma bmap_entry_wp:
  assumes s: "fs S c v1 L H J s" and g: "geo S c" and p: "prepared S c v A v1 (i_addrs (J ip))" and dev: "i_dev (J ip) = ROOTDEV"
    and k: "12 \<le> k" "k < 140" and room: "faddr v A k \<noteq> 0 \<or> freeb S v1 \<noteq> {}" and bud: "fsblk.budget L H c 4"
    and Q: "\<And>v' L' b t. \<lbrakk>mapped S c v A k v' (i_addrs (J ip)) b; fs S c v' L' H J t;
      grows {sb_bmapstart S, b, i_addrs (J ip) ! 12} L L'; faddr v A k \<noteq> 0 \<Longrightarrow> v' = v1 \<and> L' = L\<rbrakk> \<Longrightarrow> Q b t"
  shows "wpK (bindK (inode_get ip i_dev) (\<lambda>dev.
        bindK (bread dev (i_addrs (J ip) ! 12)) (\<lambda>bp.
        bindK (getK (\<lambda>s. get_uint (k - 12) (b_data (bufs s bp)))) (\<lambda>a.
        if a = 0 then
          bindK (balloc dev) (\<lambda>b.
          thenK (log_modify bp (put_uint (k - 12) b)) (
          thenK (brelse bp) (ret b)))
        else thenK (brelse bp) (ret a))))) Q s"
proof -
  let ?A1 = "i_addrs (J ip)" and ?bm = "sb_bmapstart S"
  let ?n = "?A1 ! 12"
  have q: "?n \<noteq> 0" "wf_file S c v1 ?A1" "bitmap_ok S c v1" "faddr v1 ?A1 k = faddr v A k"
    using p k by (auto simp: prepared_def)
  note us = usableD [OF wf_fileD(2) [OF q(2,1)] g]
  have fk: "faddr v1 ?A1 k = get_uint (k - 12) (v1 ?n)" using k q(1) by (simp add: faddr_def)
  have len: "length (v1 ?n) = 512" by (rule kf.length_law [OF s us(1)])
  show ?thesis
    unfolding inode_get_def wpK_bind_get fs_ic [OF s] dev
  proof (rule kf.rd_get_wp [OF s us(1) fsblk.budget_mono [OF bud]])
    fix bp t assume t: "fs S c v1 L (H(?n := Suc (H ?n))) J t" "holds t bp ?n"
    show "wpK (if get_uint (k - 12) (v1 ?n) = 0 then
          bindK (balloc ROOTDEV) (\<lambda>b. thenK (log_modify bp (put_uint (k - 12) b)) (thenK (brelse bp) (ret b)))
        else thenK (brelse bp) (ret (get_uint (k - 12) (v1 ?n)))) Q t"
    proof (cases "get_uint (k - 12) (v1 ?n) = 0")
      case False
      then have nz: "faddr v1 ?A1 k \<noteq> 0" using fk by simp
      have "wpK (thenK (brelse bp) (ret (faddr v1 ?A1 k))) Q t"
        by (rule kf.rel_then_wp [OF t]) (use Q [OF mapped_entry_hit [OF p k(2) nz], of L] in simp)
      then show ?thesis using False fk by simp
    next
      case True
      then have z: "faddr v1 ?A1 k = 0" "faddr v A k = 0" using fk q(4) by simp_all
      then have ne: "freeb S v1 \<noteq> {}" using room by simp
      have bud3: "fsblk.budget L (H(?n := Suc (H ?n))) c 3"
        by (rule fsblk.budget_hold, rule fsblk.budget_mono [OF bud]) simp
      have "wpK (balloc ROOTDEV) (\<lambda>b. wpK (thenK (log_modify bp (put_uint (k - 12) b)) (thenK (brelse bp) (ret b))) Q) t"
      proof (rule balloc_wp [OF t(1) g q(3) ne bud3])
        fix b u L' assume b: "b \<in> freeb S v1" and u: "fs S c (take_block S b v1) L' (H(?n := Suc (H ?n))) J u"
          and gr: "grows {?bm, b} L L'"
          and hu: "\<And>j m. holds t j m \<Longrightarrow> m \<in> pinned (set L) (H(?n := Suc (H ?n))) \<Longrightarrow> holds u j m"
        have h: "holds u bp ?n" by (rule hu [OF t(2)]) (simp add: pinned_def)
        have b1: "fsblk.budget L' (H(?n := Suc (H ?n))) c (Suc 0)"
          by (rule budget_grows [OF bud3 gr]) (use card_pair [of ?bm b "set L"] in simp_all)
        have ind: "take_block S b v1 ?n = v1 ?n" using us(3,6) b by (auto simp: take_block_def)
        show "wpK (thenK (log_modify bp (put_uint (k - 12) b)) (thenK (brelse bp) (ret b))) Q u"
        proof (rule kf.wr_rel_wp [where f = "put_uint (k - 12) b", OF u h _ b1 us(2)])
          show "length (put_uint (k - 12) b (take_block S b v1 ?n)) = 512" using len k unfolding ind by simp
          fix w assume w: "fs S c ((take_block S b v1)(?n := put_uint (k - 12) b (take_block S b v1 ?n))) (logged L' ?n) H J w"
          have "grows ({?bm, b} \<union> {?n}) L (logged L' ?n)" by (rule grows_trans [OF gr grows_logged]) simp
          then have "grows {?bm, b, ?n} L (logged L' ?n)" by (rule grows_mono) auto
          then show "wpK (ret b) Q w"
            using Q [OF mapped_entry_alloc [OF p k z(1) b g len] w] z(2) by simp
        qed
      qed
      then show ?thesis using True by simp
    qed
  qed simp
qed

lemma bmap_wp:
  assumes o: "open_file S c v L H I ip s" and k: "unat bn < 140"
    and room: "faddr v (i_addrs (I ip)) (unat bn) \<noteq> 0 \<or> 2 \<le> card (freeb S v)" and bud: "fsblk.budget L H c 6"
    and Q: "\<And>v' A' L' b t. \<lbrakk>mapped S c v (i_addrs (I ip)) (unat bn) v' A' b; fs S c v' L' H (set_addrs I ip A') t;
      grows ({sb_bmapstart S, b} \<union> (if unat bn < 12 then {} else {A' ! 12})) L L';
      faddr v (i_addrs (I ip)) (unat bn) \<noteq> 0 \<Longrightarrow> v' = v \<and> A' = i_addrs (I ip) \<and> L' = L\<rbrakk> \<Longrightarrow> Q b t"
  shows "wpK (bmap ip bn) Q s"
proof -
  let ?A = "i_addrs (I ip)" and ?k = "unat bn"
  note d = open_fileD [OF o]
  have ne: "faddr v ?A ?k = 0 \<Longrightarrow> freeb S v \<noteq> {}" using room by auto
  show ?thesis
  proof (cases "?k < 12")
    case direct: True
    then have fa: "faddr v ?A ?k = ?A ! ?k" by (simp add: faddr_def)
    have "wpK (bmap_slot ip ?k) Q s"
    proof (cases "?A ! ?k = 0")
      case False
      then show ?thesis
        unfolding bmap_slot_hit [OF d(1) False]
        using Q [of v ?A "?A ! ?k" L s] mapped_same [OF d(6,3), of ?k] fa d(1) by simp
    next
      case True
      show ?thesis
      proof (rule bmap_slot_alloc [OF o True ne fsblk.budget_mono [OF bud]])
        fix b t L' assume b: "b \<in> freeb S v" and t: "fs S c (take_block S b v) L' H (set_addrs I ip (?A[?k := b])) t"
          and g: "grows {sb_bmapstart S, b} L L'"
        show "Q b t" by (rule Q [OF mapped_direct [OF d(6,3,2) direct True b] t]) (use g direct fa True in simp_all)
      qed (use fa True in simp_all)
    qed
    then show ?thesis using direct by (simp add: bmap_def)
  next
    case False
    then have k12: "12 \<le> ?k" by simp
    let ?rest = "\<lambda>addr. bindK (inode_get ip i_dev) (\<lambda>dev.
        bindK (bread dev addr) (\<lambda>bp.
        bindK (getK (\<lambda>s. get_uint (?k - 12) (b_data (bufs s bp)))) (\<lambda>a.
        if a = 0 then
          bindK (balloc dev) (\<lambda>b.
          thenK (log_modify bp (put_uint (?k - 12) b)) (
          thenK (brelse bp) (ret b)))
        else thenK (brelse bp) (ret a))))"
    have "wpK (bmap_slot ip 12) (\<lambda>addr. wpK (?rest addr) Q) s"
    proof (cases "?A ! 12 = 0")
      case False
      note p = prepared_hit [OF d(6,3) False]
      show ?thesis
        unfolding bmap_slot_hit [OF d(1) False]
      proof (rule bmap_entry_wp [OF d(1,2) p d(4) k12 k])
        show "faddr v ?A ?k \<noteq> 0 \<or> freeb S v \<noteq> {}" using ne by blast
        fix v' L' b t assume "mapped S c v ?A ?k v' ?A b" "fs S c v' L' H I t"
          "grows {sb_bmapstart S, b, ?A ! 12} L L'" "faddr v ?A ?k \<noteq> 0 \<Longrightarrow> v' = v \<and> L' = L"
        then show "Q b t" using Q [of v' ?A b L' t] k12 by (simp add: insert_commute)
      qed (use fsblk.budget_mono [OF bud] in simp)
    next
      case True
      then have z: "faddr v ?A ?k = 0" using k12 by (simp add: faddr_def)
      have c2: "2 \<le> card (freeb S v)" using room z by simp
      show ?thesis
      proof (rule bmap_slot_alloc [OF o True ne [OF z] fsblk.budget_mono [OF bud]])
        fix b t L1 assume b: "b \<in> freeb S v" and t: "fs S c (take_block S b v) L1 H (set_addrs I ip (?A[12 := b])) t"
          and g: "grows {sb_bmapstart S, b} L L1"
        let ?J = "set_addrs I ip (?A[12 := b])"
        have A12: "(?A[12 := b]) ! 12 = b" using wf_fileD(1) [OF d(6)] by simp
        have p: "prepared S c v ?A (take_block S b v) (i_addrs (?J ip))" using prepared_alloc [OF d(6,3,2) True b] by simp
        have "0 < card (freeb S (take_block S b v))" using take_card [OF b d(3,2)] c2 by linarith
        then have ne1: "freeb S (take_block S b v) \<noteq> {}" by (metis card.empty less_irrefl)
        have b4: "fsblk.budget L1 H c 4"
          by (rule budget_grows [OF bud g]) (use card_pair [of "sb_bmapstart S" b "set L"] in simp_all)
        have "wpK (?rest (i_addrs (?J ip) ! 12)) Q t"
        proof (rule bmap_entry_wp [OF t d(2) p _ k12 k _ b4])
          fix v' L' e u assume m: "mapped S c v ?A ?k v' (i_addrs (?J ip)) e" and u: "fs S c v' L' H ?J u"
            and g2: "grows {sb_bmapstart S, e, i_addrs (?J ip) ! 12} L1 L'"
          have "grows ({sb_bmapstart S, b} \<union> {sb_bmapstart S, e, b}) L L'"
            by (rule grows_trans [OF g]) (use g2 A12 in simp)
          then have "grows ({sb_bmapstart S, e} \<union> {b}) L L'" by (rule grows_mono) auto
          then show "Q e u" using Q [OF m [unfolded set_addrs_simps] u] k12 z A12 by simp
        qed (use d(4) ne1 in simp_all)
        then show "wpK (?rest b) Q t" by (simp only: set_addrs_simps A12)
      qed simp
    qed
    then show ?thesis using False k by (simp add: bmap_def Let_def)
  qed
qed

end
