(* ===== verification/Filerw.thy ===== *)
theory Filerw
  imports Filedata
begin

text \<open>
  Reading byte ranges of a file. The content of a file is a sequence of bytes indexed from 0; a block
  that is not allocated reads as zeros. \<open>readi\<close> returns a range of it and changes nothing.
\<close>

definition fbyte :: "(uint \<Rightarrow> block) \<Rightarrow> uint list \<Rightarrow> nat \<Rightarrow> uchar" where
  "fbyte v A i = (if faddr v A (i div 512) = 0 then 0 else v (faddr v A (i div 512)) ! (i mod 512))"

definition fdata :: "(uint \<Rightarrow> block) \<Rightarrow> uint list \<Rightarrow> nat \<Rightarrow> uchar list" where
  "fdata v A n = map (fbyte v A) [0..<n]"

lemma length_fdata [simp]: "length (fdata v A n) = n"
  by (simp add: fdata_def)

lemma slice_fdata: "off + n \<le> sz \<Longrightarrow> slice off n (fdata v A sz) = map (fbyte v A) [off..<off + n]"
  by (simp add: fdata_def slice_def take_map drop_map)

section \<open>One step of the loops\<close>

text \<open>
  The word arithmetic of an iteration at offset \<open>off\<close> with \<open>n - tot\<close> bytes to go: \<open>k\<close> is the block,
  \<open>q\<close> the offset in it and \<open>m\<close> the number of bytes.
\<close>

lemma step_arith:
  assumes "tot < n" "unat off + (unat n - unat tot) \<le> 71680"
  defines "m \<equiv> min (n - tot) (BSIZE - off mod BSIZE)"
  shows "unat (off div BSIZE) = unat off div 512" "unat (off mod BSIZE) = unat off mod 512"
    "unat m = min (unat n - unat tot) (512 - unat off mod 512)" "0 < unat m"
    "unat (tot + m) = unat tot + unat m" "unat (off + m) = unat off + unat m"
    "unat off div 512 < 140" "unat tot + unat m \<le> unat n"
    "unat off mod 512 + unat m \<le> 512"
proof -
  show d: "unat (off div BSIZE) = unat off div 512" and q: "unat (off mod BSIZE) = unat off mod 512"
    by (simp_all add: unat_div unat_mod)
  have lt: "unat tot < unat n" using assms(1) by (simp add: word_less_nat_alt)
  have a: "unat (n - tot) = unat n - unat tot" using lt by (intro unat_sub) (simp add: word_le_nat_alt)
  have le: "off mod BSIZE \<le> BSIZE" by (simp add: word_le_nat_alt q)
  have b: "unat (BSIZE - off mod BSIZE) = 512 - unat off mod 512" using unat_sub [OF le] q by simp
  show m: "unat m = min (unat n - unat tot) (512 - unat off mod 512)"
    unfolding m_def min_def word_le_nat_alt a b by (simp add: a b)
  then show pos: "0 < unat m" using lt by simp
  show t: "unat (tot + m) = unat tot + unat m"
    using m lt unat_uint_less [of n] by (intro unat_add_uint) simp
  show "unat (off + m) = unat off + unat m" using m assms(2) by (intro unat_add_uint) simp
  show "unat off div 512 < 140" using assms(2) lt by (simp add: less_mult_imp_div_less)
  show "unat tot + unat m \<le> unat n" using m lt by simp
  show "unat off mod 512 + unat m \<le> 512" using m by (simp add: min_def split: if_splits)
qed

lemma step_fuel:
  assumes "q + r + 512 \<le> 512 * Suc fuel" "0 < r" "q < (512 :: nat)"
  shows "0 < fuel" "0 < r - min r (512 - q) \<Longrightarrow> (q + min r (512 - q)) mod 512 + (r - min r (512 - q)) + 512 \<le> 512 * fuel"
proof -
  show "0 < fuel" using assms by (cases fuel) auto
  assume "0 < r - min r (512 - q)"
  then have "min r (512 - q) = 512 - q" by simp
  then show "(q + min r (512 - q)) mod 512 + (r - min r (512 - q)) + 512 \<le> 512 * fuel" using assms by simp
qed

lemma enough_fuel: "q < 512 \<Longrightarrow> q + r + 512 \<le> 512 * (r div 512 + 3 :: nat)"
proof -
  assume q: "q < 512"
  obtain a b where "a = r div 512" "b = r mod 512" "512 * a + b = r" by simp
  moreover have "r mod 512 < 512" by simp
  ultimately have "b < 512" "512 * a + b = r" by blast+
  then have "q + r + 512 \<le> 512 * (a + 3)" using q by (simp add: distrib_left)
  then show ?thesis using \<open>a = r div 512\<close> by simp
qed

lemma in_block:
  assumes "off mod 512 + i < (512 :: nat)"
  shows "(off + i) div 512 = off div 512" "(off + i) mod 512 = off mod 512 + i"
proof -
  have e: "off + i = (off mod 512 + i) + 512 * (off div 512)" by simp
  show "(off + i) div 512 = off div 512" using assms by (subst e, subst div_mult_self2) simp_all
  show "(off + i) mod 512 = off mod 512 + i" using assms by (subst e, subst mod_mult_self2) simp
qed

lemma block_bytes:
  assumes "length (v (faddr v A (off div 512))) = 512" "faddr v A (off div 512) \<noteq> 0" "off mod 512 + m \<le> 512"
  shows "slice (off mod 512) m (v (faddr v A (off div 512))) = map (fbyte v A) [off..<off + m]"
proof (rule nth_equalityI)
  fix i assume "i < length (slice (off mod 512) m (v (faddr v A (off div 512))))"
  then have i: "i < m" using assms(1,3) by simp
  have "(off + i) div 512 = off div 512" "(off + i) mod 512 = off mod 512 + i"
    using in_block [of off i] i assms(3) by simp_all
  then show "slice (off mod 512) m (v (faddr v A (off div 512))) ! i = map (fbyte v A) [off..<off + m] ! i"
    using i assms by (simp add: nth_slice fbyte_def)
qed (use assms in simp)

section \<open>Reading\<close>

lemma readi_loop_wp:
  assumes o: "open_file S c v L H I ip s" and bud: "fsblk.budget L H c 6" and tot: "tot \<le> n"
    and bound: "unat off + (unat n - unat tot) \<le> 71680"
    and there: "\<And>i. unat off \<le> i \<Longrightarrow> i < unat off + (unat n - unat tot) \<Longrightarrow> faddr v (i_addrs (I ip)) (i div 512) \<noteq> 0"
    and fuel: "0 < fuel" "tot < n \<Longrightarrow> unat off mod 512 + (unat n - unat tot) + 512 \<le> 512 * fuel"
    and Q: "\<And>t. fs S c v L H I t \<Longrightarrow>
      Q (dst @ map (fbyte v (i_addrs (I ip))) [unat off..<unat off + (unat n - unat tot)]) t"
  shows "wpK (readi_loop fuel ip n tot off dst) Q s"
  using o tot bound there fuel Q
proof (induction fuel arbitrary: s tot off dst)
  case (Suc fuel)
  let ?A = "i_addrs (I ip)"
  note d = open_fileD [OF Suc.prems(1)]
  show ?case
  proof (cases "tot < n")
    case False
    then have "unat n - unat tot = 0" by (simp add: word_less_nat_alt)
    then show ?thesis using False Suc.prems(7) [OF d(1)] by simp
  next
    case True
    define m where "m = min (n - tot) (BSIZE - off mod BSIZE)"
    note a = step_arith [OF True Suc.prems(3), folded m_def]
    let ?b = "faddr v ?A (unat off div 512)"
    have there: "?b \<noteq> 0" using Suc.prems(4) [of "unat off"] a(4,8) by simp
    note us = usableD [OF wf_fileD(3) [OF d(6) a(7) there] d(2)]
    have len: "length (v ?b) = 512" by (rule kf.length_law [OF d(1) us(1)])
    have xs: "slice (unat (off mod BSIZE)) (unat m) (v ?b) = map (fbyte v ?A) [unat off..<unat off + unat m]"
      unfolding a(2) using block_bytes [OF len there a(9)] .
    have c1: "(\<not> tot < n) = False" using True by simp
    show ?thesis
      unfolding readi_loop.simps c1 if_False inode_get_def wpK_bind_get fs_ic [OF d(1)] d(4) Let_def m_def [symmetric]
        wpK_bindK [of "bmap _ _"]
    proof (rule bmap_wp [OF Suc.prems(1) _ _ bud])
      show "unat (off div BSIZE) < 140" "faddr v ?A (unat (off div BSIZE)) \<noteq> 0 \<or> 2 \<le> card (freeb S v)"
        using a(1,7) there by simp_all
      fix v' A' L' b t
      assume mp: "mapped S c v ?A (unat (off div BSIZE)) v' A' b" and t: "fs S c v' L' H (set_addrs I ip A') t"
        and same: "faddr v ?A (unat (off div BSIZE)) \<noteq> 0 \<Longrightarrow> v' = v \<and> A' = ?A \<and> L' = L"
      have t': "fs S c v L H I t" and b: "b = ?b" using same there t mp a(1) by (auto simp: mapped_def)
      show "wpK (bindK (bread ROOTDEV b) (\<lambda>bp. bindK (getK (\<lambda>s. slice (unat (off mod BSIZE)) (unat m) (b_data (bufs s bp))))
          (\<lambda>xs. thenK (brelse bp) (readi_loop fuel ip n (tot + m) (off + m) (dst @ xs))))) Q t"
        unfolding b
      proof (rule kf.read_wp [where f = "slice (unat (off mod BSIZE)) (unat m)", OF t' us(1) fsblk.budget_mono [OF bud]])
        fix u assume u: "fs S c v L H I u"
        have fin: "unat n - unat (tot + m) = unat n - unat tot - unat m" using a(5) by simp
        have r: "0 < unat n - unat tot" "unat off mod 512 < 512" using True by (simp_all add: word_less_nat_alt)
        note f = step_fuel [OF Suc.prems(6) [OF True] r, folded a(3)]
        show "wpK (readi_loop fuel ip n (tot + m) (off + m) (dst @ slice (unat (off mod BSIZE)) (unat m) (v ?b))) Q u"
          unfolding xs
        proof (rule Suc.IH)
          show "open_file S c v L H I ip u" using Suc.prems(1) u by (simp add: open_file_def)
          show "tot + m \<le> n" using a(5,8) by (simp add: word_le_nat_alt)
          show "unat (off + m) + (unat n - unat (tot + m)) \<le> 71680" using Suc.prems(3) a(5,6,8) by simp
          show "faddr v ?A (i div 512) \<noteq> 0"
            if "unat (off + m) \<le> i" "i < unat (off + m) + (unat n - unat (tot + m))" for i
            using Suc.prems(4) [of i] that a(5,6,8) by simp
          show "0 < fuel" by (rule f(1))
          show "unat (off + m) mod 512 + (unat n - unat (tot + m)) + 512 \<le> 512 * fuel" if "tot + m < n"
          proof -
            have "0 < unat n - unat tot - unat m" using that fin by (simp add: word_less_nat_alt)
            then show ?thesis using f(2) unfolding a(6) fin mod_add_left_eq by blast
          qed
          fix w assume w: "fs S c v L H I w"
          have "[unat off..<unat off + unat m] @ [unat (off + m)..<unat (off + m) + (unat n - unat (tot + m))] =
              [unat off..<unat off + (unat n - unat tot)]"
            using a(5,6,8) upt_add_eq_append [of "unat off" "unat off + unat m" "unat n - unat tot - unat m"] by simp
          then show "Q ((dst @ map (fbyte v ?A) [unat off..<unat off + unat m]) @
              map (fbyte v ?A) [unat (off + m)..<unat (off + m) + (unat n - unat (tot + m))]) w"
            using Suc.prems(7) [OF w] by (simp add: map_append [symmetric] del: map_append)
        qed
      qed simp
    qed
  qed
qed simp

lemma small_sint: "unat n < 2 ^ 31 \<Longrightarrow> sint n = int (unat n)" for n :: uint
proof -
  assume "unat n < 2 ^ 31"
  then have "unat n < 2147483648" by simp
  then have "uint n < 2147483648" using uint_nat [of n] by linarith
  moreover have "- 2147483648 \<le> uint n" using uint_ge_0 [of n] by linarith
  ultimately have "sint n = uint n" using signed_take_bit_int_eq_self [of 31 "uint n"] by (simp add: sint_uint)
  then show ?thesis by simp
qed

text \<open>
  A regular file or a directory, open and read from the disk: what the checks at the start of \<open>readi\<close>
  and \<open>writei\<close> let through.
\<close>

definition reg_file where
  "reg_file S c v L H I ip s \<longleftrightarrow> open_file S c v L H I ip s \<and> i_type (I ip) \<noteq> T_DEV \<and> unat (i_size (I ip)) \<le> 71680"

text \<open>Every block that holds bytes of the file is allocated.\<close>

definition no_holes :: "(uint \<Rightarrow> block) \<Rightarrow> inode \<Rightarrow> bool" where
  "no_holes v i \<longleftrightarrow> (\<forall>k. 512 * k < unat (i_size i) \<longrightarrow> faddr v (i_addrs i) k \<noteq> 0)"

lemma readi_wp:
  assumes f: "reg_file S c v L H I ip s" and nh: "no_holes v (I ip)" and off: "unat off \<le> unat (i_size (I ip))"
    and n: "unat off + unat n < 2 ^ 32" and link: "1 \<le> sint (i_nlink (I ip))" and bud: "fsblk.budget L H c 6"
    and Q: "\<And>t. fs S c v L H I t \<Longrightarrow>
      Q (int (min (unat n) (unat (i_size (I ip)) - unat off)),
         slice (unat off) (min (unat n) (unat (i_size (I ip)) - unat off)) (fdata v (i_addrs (I ip)) (unat (i_size (I ip))))) t"
  shows "wpK (readi devsw ip off n) Q s"
proof -
  have o: "open_file S c v L H I ip s" "i_type (I ip) \<noteq> T_DEV" and sz: "unat (i_size (I ip)) \<le> 71680"
    using f by (simp_all add: reg_file_def)
  note d = open_fileD [OF o(1)]
  let ?sz = "i_size (I ip)" and ?A = "i_addrs (I ip)"
  have sum: "unat (off + n) = unat off + unat n" using n by (simp add: unat_add_uint)
  define m where "m = (if off + n > ?sz then ?sz - off else n)"
  have m: "unat m = min (unat n) (unat ?sz - unat off)"
    using off sum by (auto simp: m_def word_less_nat_alt unat_sub word_le_nat_alt min_def)
  have le: "unat off + unat m \<le> unat ?sz" using m off by simp
  have c0: "(off > ?sz \<or> off + n < off \<or> sint (i_nlink (I ip)) < 1) = False" "(i_type (I ip) = T_DEV) = False"
    using off sum link o(2) by (auto simp: word_less_nat_alt)
  have sm: "sint m = int (unat m)" using le sz by (intro small_sint) simp
  show ?thesis
    unfolding readi_def inode_get_def wpK_bind_get fs_ic [OF d(1)] id_apply c0 if_False Let_def m_def [symmetric]
      wpK_bindK [of "readi_loop _ _ _ _ _ _"]
  proof (rule readi_loop_wp [OF o(1) bud])
    show "faddr v ?A (i div 512) \<noteq> 0" if "unat off \<le> i" "i < unat off + (unat m - unat (0 :: uint))" for i
    proof -
      have "512 * (i div 512) < unat ?sz" using that le by simp
      then show ?thesis using nh by (simp add: no_holes_def)
    qed
    show "unat off mod 512 + (unat m - unat (0 :: uint)) + 512 \<le> 512 * (unat m div 512 + 3)"
      using enough_fuel [of "unat off mod 512" "unat m"] by simp
    fix t assume "fs S c v L H I t"
    then show "wpK (ret (sint m, ([] @ map (fbyte v ?A) [unat off..<unat off + (unat m - unat (0 :: uint))]))) Q t"
      using Q sm slice_fdata [OF le, of v ?A] m by simp
  qed (use le sz in simp_all)
qed

lemma readi_refused:
  assumes "fs S c v L H I s" "i_type (I ip) \<noteq> T_DEV"
    and "i_size (I ip) < off \<or> off + n < off \<or> sint (i_nlink (I ip)) < 1"
  shows "readi devsw ip off n s = Inr ((- 1, []), s)"
  using assms(2,3) by (simp add: readi_def inode_get_def fs_ic [OF assms(1)])

end
