(* ===== verification/Filewr.thy ===== *)
theory Filewr
  imports Filerw
begin

text \<open>
  Writing byte ranges of a file: \<open>writei\<close> overwrites a range of the content, allocates the blocks that
  are missing, and leaves everything else on the disk alone.
\<close>

section \<open>Writing\<close>

definition touched :: "nat \<Rightarrow> nat \<Rightarrow> nat set" where
  "touched p n = (\<lambda>i. i div 512) ` {p..<p + n}"

lemma touched_append: "touched p (m + n) = touched p m \<union> touched (p + m) n"
  by (auto simp: touched_def image_Un [symmetric] ivl_disj_un_two(3))

lemma touched_block: "0 < n \<Longrightarrow> p mod 512 + n \<le> 512 \<Longrightarrow> touched p n = {p div 512}"
proof -
  assume n: "0 < n" "p mod 512 + n \<le> 512"
  have "(p + i) div 512 = p div 512" if "i < n" for i using in_block(1) [of p i] n that by simp
  moreover have "{p..<p + n} = (\<lambda>i. p + i) ` {..<n}" by (simp add: lessThan_atLeast0 add.commute)
  ultimately show ?thesis using n(1) unfolding touched_def image_image by (auto simp: image_iff)
qed

lemma card_touched: "card (touched p n) \<le> n div 512 + 2"
proof -
  have "touched p n \<subseteq> {p div 512..p div 512 + (n div 512 + 1)}"
  proof
    fix k assume "k \<in> touched p n"
    then obtain i where "k = i div 512" "p \<le> i" "i < p + n" by (auto simp: touched_def)
    then show "k \<in> {p div 512..p div 512 + (n div 512 + 1)}" by (auto simp: div_le_mono)
  qed
  from card_mono [OF _ this] show ?thesis by simp
qed

lemma same_block_pos:
  assumes "i div 512 = p div (512 :: nat)"
  shows "p \<le> i \<longleftrightarrow> p mod 512 \<le> i mod 512" "i - p = i mod 512 - p mod 512"
    "i < p + n \<longleftrightarrow> i mod 512 < p mod 512 + n"
proof -
  have "512 * (p div 512) + i mod 512 = i" "512 * (p div 512) + p mod 512 = p"
    using mult_div_mod_eq [of 512 i] mult_div_mod_eq [of 512 p] unfolding assms by simp_all
  then show "p \<le> i \<longleftrightarrow> p mod 512 \<le> i mod 512" "i - p = i mod 512 - p mod 512"
    "i < p + n \<longleftrightarrow> i mod 512 < p mod 512 + n" by linarith+
qed

text \<open>
  The bytes \<open>xs\<close> are put into the file at \<open>p\<close>: the addresses \<open>A\<close> become \<open>A'\<close> and the blocks \<open>v\<close> become \<open>v'\<close>.
  The file is as before outside the range, it keeps its blocks, the new ones were free, and every block that
  is neither free, nor the bitmap, nor part of this file is as before.
\<close>

definition written where
  "written S c v A p xs v' A' \<longleftrightarrow> wf_file S c v' A' \<and> bitmap_ok S c v' \<and> freeb S v' \<subseteq> freeb S v \<and>
     (\<forall>i<71680. fbyte v' A' i = (if p \<le> i \<and> i < p + length xs then xs ! (i - p) else fbyte v A i)) \<and>
     (\<forall>k<140. faddr v A k \<noteq> 0 \<longrightarrow> faddr v' A' k = faddr v A k) \<and>
     (\<forall>k<140. faddr v A k = 0 \<longrightarrow> faddr v' A' k = 0 \<or> faddr v' A' k \<in> freeb S v) \<and>
     (\<forall>k\<in>touched p (length xs). faddr v' A' k \<noteq> 0) \<and>
     (A ! 12 \<noteq> 0 \<longrightarrow> A' ! 12 = A ! 12) \<and> (A ! 12 = 0 \<longrightarrow> A' ! 12 = 0 \<or> A' ! 12 \<in> freeb S v) \<and>
     (\<forall>n. n \<notin> freeb S v \<longrightarrow> n \<noteq> sb_bmapstart S \<longrightarrow> n \<noteq> A ! 12 \<longrightarrow> (\<forall>k<140. n \<noteq> faddr v A k) \<longrightarrow> v' n = v n)"

lemma writtenD:
  assumes "written S c v A p xs v' A'"
  shows "wf_file S c v' A'" "bitmap_ok S c v'" "freeb S v' \<subseteq> freeb S v"
    "i < 71680 \<Longrightarrow> fbyte v' A' i = (if p \<le> i \<and> i < p + length xs then xs ! (i - p) else fbyte v A i)"
    "k < 140 \<Longrightarrow> faddr v A k \<noteq> 0 \<Longrightarrow> faddr v' A' k = faddr v A k"
    "k < 140 \<Longrightarrow> faddr v A k = 0 \<Longrightarrow> faddr v' A' k = 0 \<or> faddr v' A' k \<in> freeb S v"
    "k \<in> touched p (length xs) \<Longrightarrow> faddr v' A' k \<noteq> 0"
    "A ! 12 \<noteq> 0 \<Longrightarrow> A' ! 12 = A ! 12" "A ! 12 = 0 \<Longrightarrow> A' ! 12 = 0 \<or> A' ! 12 \<in> freeb S v"
    "n \<notin> freeb S v \<Longrightarrow> n \<noteq> sb_bmapstart S \<Longrightarrow> n \<noteq> A ! 12 \<Longrightarrow> (\<And>k. k < 140 \<Longrightarrow> n \<noteq> faddr v A k) \<Longrightarrow> v' n = v n"
  using assms unfolding written_def by (simp_all only: simp_thms) (blast+)?

lemma written_nil: "wf_file S c v A \<Longrightarrow> bitmap_ok S c v \<Longrightarrow> written S c v A p [] v A"
  by (auto simp: written_def touched_def)

lemma written_trans:
  assumes 1: "written S c v A p xs v1 A1" and 2: "written S c v1 A1 (p + length xs) ys v2 A2"
    and fits: "p + length xs + length ys \<le> 71680"
  shows "written S c v A p (xs @ ys) v2 A2"
  unfolding written_def
proof (intro conjI allI impI ballI)
  note a = writtenD [OF 1] and b = writtenD [OF 2]
  show "wf_file S c v2 A2" "bitmap_ok S c v2" "freeb S v2 \<subseteq> freeb S v" using a(3) b(1-3) by blast+
  show "fbyte v2 A2 i = (if p \<le> i \<and> i < p + length (xs @ ys) then (xs @ ys) ! (i - p) else fbyte v A i)"
    if "i < 71680" for i
    using a(4) [OF that] b(4) [OF that] by (auto simp: nth_append)
  show "faddr v2 A2 k = faddr v A k" if "k < 140" "faddr v A k \<noteq> 0" for k
    using a(5) [OF that] b(5) [OF that(1)] that by simp
  show "faddr v2 A2 k = 0 \<or> faddr v2 A2 k \<in> freeb S v" if "k < 140" "faddr v A k = 0" for k
    using a(6) [OF that] b(5,6) [OF that(1)] a(3) by (cases "faddr v1 A1 k = 0") auto
  show "faddr v2 A2 k \<noteq> 0" if "k \<in> touched p (length (xs @ ys))" for k
  proof -
    have "k \<in> touched p (length xs) \<or> k \<in> touched (p + length xs) (length ys)"
      using that by (simp add: touched_append)
    moreover have "k < 140" using that fits by (auto simp: touched_def)
    ultimately show ?thesis using a(7) b(5,7) by metis
  qed
  show "A2 ! 12 = A ! 12" if "A ! 12 \<noteq> 0" using a(8) b(8) that by simp
  show "A2 ! 12 = 0 \<or> A2 ! 12 \<in> freeb S v" if "A ! 12 = 0" using a(9) b(8,9) a(3) that by (cases "A1 ! 12 = 0") auto
  show "v2 n = v n" if n: "n \<notin> freeb S v" "n \<noteq> sb_bmapstart S" "n \<noteq> A ! 12" "\<forall>k<140. n \<noteq> faddr v A k" for n
  proof -
    have "v2 n = v1 n"
    proof (rule b(10))
      show "n \<notin> freeb S v1" "n \<noteq> sb_bmapstart S" using n a(3) by blast+
      show "n \<noteq> A1 ! 12" using n a(8,9) by metis
      show "n \<noteq> faddr v1 A1 k" if "k < 140" for k using n a(5,6) [OF that] that by metis
    qed
    also have "v1 n = v n" by (rule a(10)) (use n in blast)+
    finally show ?thesis .
  qed
qed

lemma mappedD:
  assumes "mapped S c v A k v' A' b"
  shows "b = faddr v' A' k" "b \<noteq> 0" "wf_file S c v' A'" "bitmap_ok S c v'" "card (freeb S v) \<le> card (freeb S v') + 2"
  using assms unfolding mapped_def by blast+

lemma written_step:
  assumes A: "wf_file S c v A" and m: "mapped S c v A (p div 512) v' A' b" and g: "geo S c"
    and fits: "p div 512 < 140" "p mod 512 + length xs \<le> 512" and len: "length (v' b) = 512" and ne: "0 < length xs"
  defines "v2 \<equiv> v'(b := overwrite (p mod 512) xs (v' b))"
  shows "written S c v A p xs v2 A'" "faddr v2 A' j = faddr v' A' j"
proof -
  let ?k = "p div 512"
  have b: "b = faddr v' A' ?k" "b \<noteq> 0" and wf: "wf_file S c v' A'" and ok: "bitmap_ok S c v'"
    and oth: "\<And>j. j < 140 \<Longrightarrow> j \<noteq> ?k \<Longrightarrow> faddr v' A' j = faddr v A j" and hit: "faddr v A ?k \<noteq> 0 \<Longrightarrow> b = faddr v A ?k"
    and fr: "freeb S v' \<subseteq> freeb S v" and zero: "faddr v A ?k = 0 \<Longrightarrow> b \<in> freeb S v \<and> v' b = replicate 512 0"
    and keep: "\<And>n. n \<notin> freeb S v \<Longrightarrow> n \<noteq> sb_bmapstart S \<Longrightarrow> n \<noteq> A ! 12 \<Longrightarrow> v' n = v n"
    and ind: "A ! 12 \<noteq> 0 \<Longrightarrow> A' ! 12 = A ! 12" "A ! 12 = 0 \<Longrightarrow> A' ! 12 = 0 \<or> A' ! 12 \<in> freeb S v"
    using m unfolding mapped_def by blast+
  note w = wf_fileD [OF wf] and w0 = wf_fileD [OF A]
  note us = usableD [OF w(3) [OF fits(1)] g]
  have b12: "b \<noteq> A' ! 12" using w(4) [OF fits(1)] b by simp
  have bm: "b \<noteq> sb_bmapstart S" using us(3) b by simp
  have f: "faddr v2 A' j = faddr v' A' j" for j using b12 by (auto simp: faddr_def v2_def)
  then show "faddr v2 A' j = faddr v' A' j" .
  have frv2: "freeb S v2 = freeb S v'" using bm by (simp add: freeb_def v2_def)
  have wf2: "wf_file S c v2 A'" using wf unfolding wf_file_def f usable_def frv2 .
  have ok2: "bitmap_ok S c v2" using ok bm by (simp add: bitmap_ok_def frv2) (simp add: v2_def)
  have keep0: "v' (faddr v A j) = v (faddr v A j)" if "j < 140" "faddr v A j \<noteq> 0" for j
    using keep usableD(3,6) [OF w0(3) [OF that] g] w0(4) [OF that] by blast
  have bytes: "fbyte v2 A' i = (if p \<le> i \<and> i < p + length xs then xs ! (i - p) else fbyte v A i)" if "i < 71680" for i
  proof (cases "i div 512 = ?k")
    case True
    note pos = same_block_pos [OF True]
    have old: "fbyte v A i = v' b ! (i mod 512)"
      using True hit zero keep0 [OF fits(1)] by (cases "faddr v A ?k = 0") (auto simp: fbyte_def)
    have "fbyte v2 A' i = overwrite (p mod 512) xs (v' b) ! (i mod 512)"
      using True b by (simp add: fbyte_def f) (simp add: v2_def)
    then show ?thesis unfolding old using fits(2) len pos by (simp add: nth_overwrite)
  next
    case False
    have j: "i div 512 < 140" using that by simp
    have out: "\<not> (p \<le> i \<and> i < p + length xs)"
    proof
      assume "p \<le> i \<and> i < p + length xs"
      then have "i div 512 \<in> touched p (length xs)" by (auto simp: touched_def)
      then show False using False touched_block [OF ne fits(2)] by simp
    qed
    have a: "faddr v2 A' (i div 512) = faddr v A (i div 512)" using oth [OF j False] by (simp add: f)
    have "v2 (faddr v A (i div 512)) = v (faddr v A (i div 512))" if nz: "faddr v A (i div 512) \<noteq> 0"
    proof -
      have "faddr v A (i div 512) \<noteq> b"
        using w(5) [OF fits(1) j] oth [OF j False] b False by auto
      then show ?thesis using keep0 [OF j nz] by (simp add: v2_def)
    qed
    then have "fbyte v2 A' i = fbyte v A i" unfolding fbyte_def a by simp
    then show ?thesis using out by auto
  qed
  show "written S c v A p xs v2 A'"
    unfolding written_def f touched_block [OF ne fits(2)]
  proof (intro conjI allI impI ballI)
    show "freeb S v2 \<subseteq> freeb S v" using fr frv2 by simp
    show "faddr v' A' k = faddr v A k" if "k < 140" "faddr v A k \<noteq> 0" for k
      using oth [OF that(1)] hit b that by (cases "k = ?k") auto
    show "faddr v' A' k = 0 \<or> faddr v' A' k \<in> freeb S v" if "k < 140" "faddr v A k = 0" for k
      using oth [OF that(1)] zero b that by (cases "k = ?k") auto
    show "faddr v' A' k \<noteq> 0" if "k \<in> {?k}" for k using that b by simp
    show "v2 n = v n" if n: "n \<notin> freeb S v" "n \<noteq> sb_bmapstart S" "n \<noteq> A ! 12" "\<forall>k<140. n \<noteq> faddr v A k" for n
    proof -
      have "n \<noteq> b" using n fits(1) hit zero by metis
      then show ?thesis using keep [OF n(1-3)] by (simp add: v2_def)
    qed
  qed (use wf2 ok2 bytes ind in blast)+
qed

text \<open>The blocks that a write may add to the log: the bitmap, the indirect block and the data blocks.\<close>

definition wrset :: "superblock \<Rightarrow> (uint \<Rightarrow> block) \<Rightarrow> uint list \<Rightarrow> nat \<Rightarrow> nat \<Rightarrow> uint set" where
  "wrset S v A p n = {sb_bmapstart S, A ! 12} \<union> faddr v A ` touched p n"

lemma finite_wrset [simp]: "finite (wrset S v A p n)"
  by (simp add: wrset_def touched_def)

lemma card_wrset: "card (wrset S v A p n) \<le> n div 512 + 4"
proof -
  have "card (wrset S v A p n) \<le> card {sb_bmapstart S, A ! 12} + card (faddr v A ` touched p n)"
    unfolding wrset_def by (rule card_Un_le)
  also have "card {sb_bmapstart S, A ! 12} \<le> 2" using card_pair [of "sb_bmapstart S" "A ! 12" "{}"] by simp
  also have "card (faddr v A ` touched p n) \<le> card (touched p n)" by (rule card_image_le) (simp add: touched_def)
  also have "\<dots> \<le> n div 512 + 2" by (rule card_touched)
  finally show ?thesis by simp
qed

lemma wrset_step:
  assumes m: "mapped S c v A (p div 512) v' A' b" and b: "p div 512 < 140"
    and f: "\<And>j. faddr v2 A' j = faddr v' A' j" and w: "written S c v2 A' (p + m) ys v3 A3"
    and g1: "grows ({sb_bmapstart S, b} \<union> (if p div 512 < 12 then {} else {A' ! 12})) L L1"
    and g2: "grows (wrset S v3 A3 (p + m) (length ys)) (logged L1 b) L3" and ne: "0 < m" "p mod 512 + m \<le> 512"
  shows "grows (wrset S v3 A3 p (m + length ys)) L L3"
proof -
  let ?k = "p div 512"
  have fb: "b = faddr v' A' ?k" "b \<noteq> 0" by (rule mappedD [OF m])+
  have b3: "b = faddr v3 A3 ?k" using writtenD(5) [OF w b] f fb by metis
  have i3: "A3 ! 12 = A' ! 12" if "\<not> ?k < 12"
  proof -
    have "A' ! 12 \<noteq> 0" using fb that by (simp add: faddr_def split: if_splits)
    then show ?thesis by (rule writtenD(8) [OF w])
  qed
  have "grows (({sb_bmapstart S, b} \<union> (if ?k < 12 then {} else {A' ! 12})) \<union> {b} \<union> wrset S v3 A3 (p + m) (length ys)) L L3"
    by (rule grows_trans [OF grows_trans [OF g1 grows_logged] g2]) simp
  then show ?thesis
    by (rule grows_mono) (use b3 i3 touched_block [OF ne] in \<open>auto simp: wrset_def touched_append\<close>)
qed

lemma slice_add: "slice p (m + n) xs = slice p m xs @ slice (p + m) n xs"
  by (simp add: slice_def take_add add.commute)

lemma writei_loop_wp:
  assumes o: "open_file S c v L H I ip s" and src: "unat n \<le> length src" and tot: "tot \<le> n"
    and bound: "unat off + (unat n - unat tot) \<le> 71680"
    and fuel: "0 < fuel" "tot < n \<Longrightarrow> unat off mod 512 + (unat n - unat tot) + 512 \<le> 512 * fuel"
    and bud: "fsblk.budget L H c (6 + 3 * fuel)"
    and room: "(\<forall>k\<in>touched (unat off) (unat n - unat tot). faddr v (i_addrs (I ip)) k \<noteq> 0) \<or> 2 * fuel \<le> card (freeb S v)"
    and Q: "\<And>v' A' L' t. \<lbrakk>written S c v (i_addrs (I ip)) (unat off) (slice (unat tot) (unat n - unat tot) src) v' A';
      fs S c v' L' H (set_addrs I ip A') t; grows (wrset S v' A' (unat off) (unat n - unat tot)) L L'\<rbrakk> \<Longrightarrow> Q (off + (n - tot)) t"
  shows "wpK (writei_loop fuel ip src n tot off) Q s"
  using o tot bound fuel bud room Q
proof (induction fuel arbitrary: s v L I tot off)
  case (Suc fuel)
  let ?A = "i_addrs (I ip)" and ?k = "unat off div 512"
  note d = open_fileD [OF Suc.prems(1)]
  show ?case
  proof (cases "tot < n")
    case False
    then have "tot = n" using Suc.prems(2) by simp
    then have "unat n - unat tot = 0" "tot = n" by simp_all
    then show ?thesis using Suc.prems(8) [OF _ _ grows_refl, of v ?A s] written_nil [OF d(6,3)] d(1) by (simp add: slice_def)
  next
    case True
    define m where "m = min (n - tot) (BSIZE - off mod BSIZE)"
    note a = step_arith [OF True Suc.prems(3), folded m_def]
    let ?xs = "slice (unat tot) (unat m) src"
    have lx: "length ?xs = unat m" using a(8) src by simp
    have c1: "(\<not> tot < n) = False" using True by simp
    have r: "0 < unat n - unat tot" "unat off mod 512 < 512" using True by (simp_all add: word_less_nat_alt)
    note f = step_fuel [OF Suc.prems(5) [OF True] r, folded a(3)]
    have t0: "?k \<in> touched (unat off) (unat n - unat tot)" using r by (auto simp: touched_def)
    show ?thesis
      unfolding writei_loop.simps c1 if_False inode_get_def wpK_bind_get fs_ic [OF d(1)] d(4) Let_def m_def [symmetric]
        wpK_bindK [of "bmap _ _"]
    proof (rule bmap_wp [OF Suc.prems(1) _ _ fsblk.budget_mono [OF Suc.prems(6)]])
      show "unat (off div BSIZE) < 140" "faddr v ?A (unat (off div BSIZE)) \<noteq> 0 \<or> 2 \<le> card (freeb S v)"
        using a(1,7) Suc.prems(7) t0 by auto
      fix v' A' L1 b t
      assume mp0: "mapped S c v ?A (unat (off div BSIZE)) v' A' b" and t: "fs S c v' L1 H (set_addrs I ip A') t"
        and g0: "grows ({sb_bmapstart S, b} \<union> (if unat (off div BSIZE) < 12 then {} else {A' ! 12})) L L1"
      note mp = mp0 [unfolded a(1)] and g1 = g0 [unfolded a(1)]
      have b: "b = faddr v' A' ?k" "b \<noteq> 0" "wf_file S c v' A'" by (rule mappedD [OF mp])+
      note us = usableD [OF wf_fileD(3) [OF b(3) a(7)] d(2), folded b(1), OF b(2)]
      have len: "length (v' b) = 512" by (rule kf.length_law [OF t us(1)])
      define v2 where "v2 = v'(b := overwrite (unat off mod 512) ?xs (v' b))"
      have fits: "unat off mod 512 + length ?xs \<le> 512" "0 < length ?xs" using lx a(4,9) by simp_all
      note ws = written_step [OF d(6) mp d(2) a(7) fits(1) len fits(2), folded v2_def]
      have T: "card (({sb_bmapstart S, b} \<union> (if ?k < 12 then {} else {A' ! 12})) - set L) \<le> 3"
        by (rule order_trans [OF card_mono [of "{sb_bmapstart S, b, A' ! 12}"]]) (auto simp: card_insert_if)
      have b1: "fsblk.budget L1 H c (Suc (Suc (4 + 3 * fuel)))"
        by (rule budget_grows [OF Suc.prems(6) g1]) (use T in auto)
      show "wpK (bindK (bread ROOTDEV b) (\<lambda>bp. thenK (log_modify bp (overwrite (unat (off mod BSIZE)) ?xs))
          (thenK (brelse bp) (writei_loop fuel ip src n (tot + m) (off + m))))) Q t"
        unfolding a(2)
      proof (rule kf.modify_wp [where f = "overwrite (unat off mod 512) ?xs", OF t us(1) b1 us(2)])
        show "length (overwrite (unat off mod 512) ?xs (v' b)) = 512" using len fits by simp
        fix u assume "fs S c (v'(b := overwrite (unat off mod 512) ?xs (v' b))) (logged L1 b) H (set_addrs I ip A') u"
        then have u: "fs S c v2 (logged L1 b) H (set_addrs I ip A') u" by (simp add: v2_def)
        have fin: "unat n - unat (tot + m) = unat n - unat tot - unat m" "unat m + (unat n - unat tot - unat m) = unat n - unat tot"
          using a(5,8) by simp_all
        show "wpK (writei_loop fuel ip src n (tot + m) (off + m)) Q u"
        proof (rule Suc.IH)
          show "open_file S c v2 (logged L1 b) H (set_addrs I ip A') ip u"
            using d u writtenD(1,2) [OF ws(1)] by (simp add: open_file_def)
          show "tot + m \<le> n" using a(5,8) by (simp add: word_le_nat_alt)
          show "unat (off + m) + (unat n - unat (tot + m)) \<le> 71680" using Suc.prems(3) a(5,6,8) by simp
          show "0 < fuel" by (rule f(1))
          show "unat (off + m) mod 512 + (unat n - unat (tot + m)) + 512 \<le> 512 * fuel" if "tot + m < n"
          proof -
            have "0 < unat n - unat tot - unat m" using that fin by (simp add: word_less_nat_alt)
            then show ?thesis using f(2) unfolding a(6) fin mod_add_left_eq by blast
          qed
          have g2: "grows (({sb_bmapstart S, b} \<union> (if ?k < 12 then {} else {A' ! 12})) \<union> {b}) L (logged L1 b)"
            by (rule grows_trans [OF g1 grows_logged]) simp
          show "fsblk.budget (logged L1 b) H c (6 + 3 * fuel)"
            by (rule budget_grows [OF Suc.prems(6) g2]) (use T in \<open>auto simp: insert_absorb\<close>)
          show "(\<forall>k\<in>touched (unat (off + m)) (unat n - unat (tot + m)). faddr v2 (i_addrs (set_addrs I ip A' ip)) k \<noteq> 0) \<or>
              2 * fuel \<le> card (freeb S v2)"
            using Suc.prems(7)
          proof
            assume h: "\<forall>k\<in>touched (unat off) (unat n - unat tot). faddr v ?A k \<noteq> 0"
            have "faddr v2 A' k \<noteq> 0" if "k \<in> touched (unat (off + m)) (unat n - unat (tot + m))" for k
            proof -
              have "k \<in> touched (unat off) (unat n - unat tot)"
                using that touched_append [of "unat off" "unat m"] fin a(6) by (metis UnI2)
              moreover from this have "k < 140" using Suc.prems(3) by (auto simp: touched_def)
              ultimately show ?thesis using h writtenD(5) [OF ws(1)] by metis
            qed
            then show ?thesis by simp
          next
            assume "2 * Suc fuel \<le> card (freeb S v)"
            then have "2 * fuel \<le> card (freeb S v')" using mappedD(5) [OF mp] by simp
            moreover have "freeb S v2 = freeb S v'" using us(3) by (simp add: freeb_def v2_def)
            ultimately show ?thesis by simp
          qed
          fix v3 A3 L3 w
          assume w: "written S c v2 (i_addrs (set_addrs I ip A' ip)) (unat (off + m))
              (slice (unat (tot + m)) (unat n - unat (tot + m)) src) v3 A3"
            and fs3: "fs S c v3 L3 H (set_addrs (set_addrs I ip A') ip A3) w"
            and g3: "grows (wrset S v3 A3 (unat (off + m)) (unat n - unat (tot + m))) (logged L1 b) L3"
          let ?ys = "slice (unat tot + unat m) (unat n - unat tot - unat m) src"
          have w3: "written S c v2 A' (unat off + unat m) ?ys v3 A3" using w by (simp add: a(5,6))
          have ly: "length ?ys = unat n - unat tot - unat m" using src fin a(8) by simp
          have "written S c v ?A (unat off) (?xs @ ?ys) v3 A3"
            by (rule written_trans [OF ws(1)]) (use w3 lx ly Suc.prems(3) fin in simp_all)
          then have W: "written S c v ?A (unat off) (slice (unat tot) (unat n - unat tot) src) v3 A3"
            using slice_add [of "unat tot" "unat m" "unat n - unat tot - unat m" src] fin by simp
          have "grows (wrset S v3 A3 (unat off) (unat m + length ?ys)) L L3"
            by (rule wrset_step [OF mp a(7) ws(2) w3 g1 _ a(4,9)]) (use g3 ly in \<open>simp add: a(5,6)\<close>)
          then have G: "grows (wrset S v3 A3 (unat off) (unat n - unat tot)) L L3" using ly fin by simp
          have "off + m + (n - (tot + m)) = off + (n - tot)" by simp
          then show "Q (off + m + (n - (tot + m))) w" using Suc.prems(8) [OF W _ G] fs3 by simp
        qed
      qed
    qed simp
  qed
qed simp

text \<open>The inode in the cache after the write, and the blocks after its copy to the disk.\<close>

definition grown :: "uint list \<Rightarrow> uint \<Rightarrow> inode \<Rightarrow> inode" where
  "grown A e i = i\<lparr>i_addrs := A, i_size := max (i_size i) e\<rparr>"

lemma grown_simps [simp]:
  "i_addrs (grown A e i) = A" "i_size (grown A e i) = max (i_size i) e" "i_inum (grown A e i) = i_inum i"
  "i_dev (grown A e i) = i_dev i" "i_type (grown A e i) = i_type i" "i_nlink (grown A e i) = i_nlink i"
  "i_ref (grown A e i) = i_ref i" "i_valid (grown A e i) = i_valid i"
  by (simp_all add: grown_def)

definition saved :: "superblock \<Rightarrow> inode \<Rightarrow> uint list \<Rightarrow> uint \<Rightarrow> (uint \<Rightarrow> block) \<Rightarrow> uint \<Rightarrow> block" where
  "saved S i A e v = (if i_size i < e then put_dino S (i_inum i) (to_dinode (grown A e i)) v else v)"

lemma writei_wp:
  assumes f: "reg_file S c v L H I ip s" and off: "unat off \<le> unat (i_size (I ip))"
    and n: "unat off + unat n \<le> 71680" "unat n \<le> length src"
    and bud: "fsblk.budget L H c (15 + 3 * (unat n div 512))"
    and room: "(\<forall>k\<in>touched (unat off) (unat n). faddr v (i_addrs (I ip)) k \<noteq> 0) \<or> 2 * (unat n div 512 + 3) \<le> card (freeb S v)"
    and Q: "\<And>v' A' L' t. \<lbrakk>written S c v (i_addrs (I ip)) (unat off) (take (unat n) src) v' A';
      fs S c (saved S (I ip) A' (off + n) v') L' H (I(ip := grown A' (off + n) (I ip))) t;
      grows (wrset S v' A' (unat off) (unat n) \<union> {IBLOCK (i_inum (I ip)) S}) L L'\<rbrakk> \<Longrightarrow> Q (int (unat n)) t"
  shows "wpK (writei devsw ip src off n) Q s"
proof -
  have o: "open_file S c v L H I ip s" "i_type (I ip) \<noteq> T_DEV" and sz: "unat (i_size (I ip)) \<le> 71680"
    using f by (simp_all add: reg_file_def)
  note d = open_fileD [OF o(1)]
  let ?sz = "i_size (I ip)" and ?A = "i_addrs (I ip)" and ?ib = "IBLOCK (i_inum (I ip)) S"
  have sum: "unat (off + n) = unat off + unat n" using n by (simp add: unat_add_uint)
  have c0: "(off > ?sz \<or> off + n < off) = False" "(i_type (I ip) = T_DEV) = False"
    "(off + n > of_nat (MAXFILE * 512)) = False" "(length src < unat n) = False"
    using off sum o(2) n by (auto simp: word_less_nat_alt)
  have sm: "sint n = int (unat n)" using n by (intro small_sint) simp
  show ?thesis
    unfolding writei_def inode_get_def wpK_bind_get fs_ic [OF d(1)] id_apply c0 if_False
      wpK_bindK [of "writei_loop _ _ _ _ _ _"]
  proof (rule writei_loop_wp [OF o(1) n(2)])
    show "unat off mod 512 + (unat n - unat (0 :: uint)) + 512 \<le> 512 * (unat n div 512 + 3)"
      using enough_fuel [of "unat off mod 512" "unat n"] by simp
    show "fsblk.budget L H c (6 + 3 * (unat n div 512 + 3))" using bud by (simp add: distrib_left)
    fix v' A' L' t
    assume w0: "written S c v ?A (unat off) (slice (unat (0 :: uint)) (unat n - unat (0 :: uint)) src) v' A'"
      and t: "fs S c v' L' H (set_addrs I ip A') t"
      and g0: "grows (wrset S v' A' (unat off) (unat n - unat (0 :: uint))) L L'"
    have w: "written S c v ?A (unat off) (take (unat n) src) v' A'" using w0 by (simp add: slice_def)
    have g: "grows (wrset S v' A' (unat off) (unat n)) L L'" using g0 by simp
    have pos: "0 < n" if "off + n > ?sz" using that off sum by (simp add: word_less_nat_alt)
    have sz': "i_size (set_addrs I ip A' ip) = ?sz" by simp
    show "wpK (thenK (whenK (n > 0 \<and> off + (n - 0) > i_size (icache t ip))
        (thenK (inode_upd ip (\<lambda>i. i\<lparr>i_size := off + (n - 0)\<rparr>)) (iupdate ip))) (ret (sint n))) Q t"
      unfolding fs_ic [OF t] sz'
    proof (cases "off + n > ?sz")
      case False
      have "grown A' (off + n) (I ip) = (I ip)\<lparr>i_addrs := A'\<rparr>" using False by (simp add: grown_def max_def not_less)
      then have "fs S c (saved S (I ip) A' (off + n) v') L' H (I(ip := grown A' (off + n) (I ip))) t"
        using t False by (simp add: saved_def set_addrs_def)
      then show "wpK (thenK (whenK (n > 0 \<and> off + (n - 0) > ?sz) (thenK (inode_upd ip (\<lambda>i. i\<lparr>i_size := off + (n - 0)\<rparr>)) (iupdate ip)))
          (ret (sint n))) Q t"
        using False Q [OF w _ grows_mono [OF g Un_upper1]] sm by simp
    next
      case True
      let ?J = "I(ip := grown A' (off + n) (I ip))"
      have J: "(set_addrs I ip A')(ip := (set_addrs I ip A' ip)\<lparr>i_size := off + n\<rparr>) = ?J"
        using True by (simp add: set_addrs_def grown_def max_absorb2)
      have "wpK (thenK (inode_upd ip (\<lambda>i. i\<lparr>i_size := off + n\<rparr>)) (iupdate ip)) (\<lambda>_. Q (sint n)) t"
        unfolding wpK_thenK
      proof (rule inode_upd_wp [OF t])
        fix u assume "fs S c v' L' H ((set_addrs I ip A')(ip := (set_addrs I ip A' ip)\<lparr>i_size := off + n\<rparr>)) u"
        then have u: "fs S c v' L' H ?J u" by (simp only: J)
        have "card (wrset S v' A' (unat off) (unat n) - set L) \<le> unat n div 512 + 4"
          using card_mono [of "wrset S v' A' (unat off) (unat n)"] card_wrset [of S v' A' "unat off" "unat n"]
          by (meson Diff_subset finite_wrset order_trans)
        then have b2: "fsblk.budget L' H c 2" by (intro budget_grows [OF bud g]) simp_all
        show "wpK (iupdate ip) (\<lambda>_. Q (sint n)) u"
        proof (rule iupdate_wp [OF u d(2) _ _ _ b2])
          fix x assume x: "fs S c (put_dino S (i_inum (?J ip)) (to_dinode (?J ip)) v') (logged L' (IBLOCK (i_inum (?J ip)) S)) H ?J x"
          have "grows (wrset S v' A' (unat off) (unat n) \<union> {?ib}) L (logged L' ?ib)"
            by (rule grows_trans [OF g grows_logged]) simp
          then show "Q (sint n) x" using Q [OF w, of "logged L' ?ib" x] x True sm by (simp add: saved_def)
        qed (use d wf_fileD(1) [OF writtenD(1) [OF w]] in simp_all)
      qed
      then show "wpK (thenK (whenK (n > 0 \<and> off + (n - 0) > ?sz) (thenK (inode_upd ip (\<lambda>i. i\<lparr>i_size := off + (n - 0)\<rparr>)) (iupdate ip)))
          (ret (sint n))) Q t"
        using True pos by simp
    qed
  qed (use n room in simp_all)
qed

lemma writei_refused:
  assumes "fs S c v L H I s" "i_type (I ip) \<noteq> T_DEV"
    and "i_size (I ip) < off \<or> off + n < off \<or> 71680 < unat (off + n)"
  shows "writei devsw ip src off n s = Inr (- 1, s)"
  using assms(2,3) by (auto simp: writei_def inode_get_def fs_ic [OF assms(1)] word_less_nat_alt)

end
