(* ===== verification/Dir.thy ===== *)
theory Dir
  imports Filewr
begin

text \<open>
  \<^verbatim>\<open>fs.c\<close>, directories and path names. A directory is a file whose content is a sequence of 16-byte
  entries. Names and paths are the bytes at the pointer; a path is its bytes before the NUL. The
  buffer \<^verbatim>\<open>name\<close> of \<^verbatim>\<open>DIRSIZ\<close> bytes that \<open>skipelem\<close> fills is passed and returned.
\<close>

definition ROOTINO :: uint where "ROOTINO = 1"
definition DIRSIZ :: nat where "DIRSIZ = 14"

record dirent =
  de_inum :: ushort
  de_name :: "uchar list"

definition dirent_of :: "uchar list \<Rightarrow> dirent" where
  "dirent_of bs = \<lparr>de_inum = le_ushort (slice 0 2 bs), de_name = slice 2 DIRSIZ bs\<rparr>"

definition dirent_bytes :: "dirent \<Rightarrow> uchar list" where
  "dirent_bytes de = ushort_bytes (de_inum de) @ de_name de"

section \<open>Operations\<close>

definition namecmp :: "uchar list \<Rightarrow> uchar list \<Rightarrow> int" where
  "namecmp s t = strncmp_l s t DIRSIZ"

text \<open>
  \<open>dirlookup\<close> returns the inode and the byte offset of the entry. An iteration advances by 16 bytes and
  the size is not changed, so that \<open>size / 16 + 2\<close> iterations suffice.
\<close>

primrec dirlookup_loop ::
  "nat \<Rightarrow> 'z kfs_scheme devsw \<Rightarrow> nat \<Rightarrow> uchar list \<Rightarrow> uint \<Rightarrow> ('z kfs_scheme, (nat \<times> uint) option) kern" where
  "dirlookup_loop 0 = (\<lambda>devsw dp name off. spin)"
| "dirlookup_loop (Suc fuel) = (\<lambda>devsw dp name off.
     bindK (inode_get dp i_size) (\<lambda>sz.
     if \<not> off < sz then ret None else
     bindK (readi devsw dp off 16) (\<lambda>(r, de).
     if r \<noteq> 16 then panic ''dirlookup read'' else
     if de_inum (dirent_of de) = 0 then dirlookup_loop fuel devsw dp name (off + 16) else
     if namecmp name (de_name (dirent_of de)) = 0 then
       bindK (inode_get dp i_dev) (\<lambda>dev.
       bindK (iget dev (ucast (de_inum (dirent_of de)))) (\<lambda>ip.
       ret (Some (ip, off))))
     else dirlookup_loop fuel devsw dp name (off + 16))))"

definition dirlookup ::
  "'z kfs_scheme devsw \<Rightarrow> nat \<Rightarrow> uchar list \<Rightarrow> ('z kfs_scheme, (nat \<times> uint) option) kern" where
  "dirlookup devsw dp name =
     bindK (inode_get dp id) (\<lambda>i.
     if i_type i \<noteq> T_DIR then panic ''dirlookup not DIR''
     else dirlookup_loop (unat (i_size i) div 16 + 2) devsw dp name 0)"

text \<open>The search for an empty entry.\<close>

primrec dirlink_scan :: "nat \<Rightarrow> 'z kfs_scheme devsw \<Rightarrow> nat \<Rightarrow> uint \<Rightarrow> ('z kfs_scheme, uint) kern" where
  "dirlink_scan 0 = (\<lambda>devsw dp off. spin)"
| "dirlink_scan (Suc fuel) = (\<lambda>devsw dp off.
     bindK (inode_get dp i_size) (\<lambda>sz.
     if \<not> off < sz then ret off else
     bindK (readi devsw dp off 16) (\<lambda>(r, de).
     if r \<noteq> 16 then panic ''dirlink read'' else
     if de_inum (dirent_of de) = 0 then ret off
     else dirlink_scan fuel devsw dp (off + 16))))"

definition dirlink :: "'z kfs_scheme devsw \<Rightarrow> nat \<Rightarrow> uchar list \<Rightarrow> uint \<Rightarrow> ('z kfs_scheme, int) kern" where
  "dirlink devsw dp name inum =
     bindK (dirlookup devsw dp name) (\<lambda>p. case p of
       Some (ip, _) \<Rightarrow> thenK (iput ip) (ret (- 1))
     | None \<Rightarrow>
         bindK (inode_get dp i_size) (\<lambda>sz.
         bindK (dirlink_scan (unat sz div 16 + 2) devsw dp 0) (\<lambda>off.
         bindK (writei devsw dp (dirent_bytes \<lparr>de_inum = ucast inum, de_name = strncpy_l name DIRSIZ\<rparr>) off 16) (\<lambda>r.
         if r \<noteq> 16 then panic ''dirlink'' else ret 0))))"

definition SLASH :: uchar where "SLASH = 0x2f"

definition skipelem :: "uchar list \<Rightarrow> uchar list \<Rightarrow> (uchar list \<times> uchar list) option" where
  "skipelem path name =
     (let path = dropWhile (\<lambda>c. c = SLASH) path in
      if path = [] then None else
      let s = takeWhile (\<lambda>c. c \<noteq> SLASH) path;
          path = dropWhile (\<lambda>c. c \<noteq> SLASH) path;
          name = (if length s \<ge> DIRSIZ then overwrite 0 (take DIRSIZ s) name
                  else overwrite 0 (s @ [0]) name)
      in Some (dropWhile (\<lambda>c. c = SLASH) path, name))"

text \<open>Every iteration of \<open>namex\<close> takes an element off the path.\<close>

primrec namex_loop ::
  "nat \<Rightarrow> 'z kfs_scheme devsw \<Rightarrow> uchar list \<Rightarrow> bool \<Rightarrow> uchar list \<Rightarrow> nat \<Rightarrow> ('z kfs_scheme, nat option \<times> uchar list) kern" where
  "namex_loop 0 = (\<lambda>devsw path parent name ip. spin)"
| "namex_loop (Suc fuel) = (\<lambda>devsw path parent name ip.
     case skipelem path name of
       None \<Rightarrow> if parent then thenK (iput ip) (ret (None, name)) else ret (Some ip, name)
     | Some (path, name) \<Rightarrow>
         thenK (iread (Some ip)) (
         bindK (inode_get ip i_type) (\<lambda>ty.
         if ty \<noteq> T_DIR then thenK (iput ip) (ret (None, name)) else
         if parent \<and> path = [] then ret (Some ip, name) else
         bindK (dirlookup devsw ip name) (\<lambda>p. case p of
           None \<Rightarrow> thenK (iput ip) (ret (None, name))
         | Some (nxt, _) \<Rightarrow> thenK (iput ip) (namex_loop fuel devsw path parent name nxt)))))"

definition namex ::
  "'z kfs_scheme devsw \<Rightarrow> uchar list \<Rightarrow> bool \<Rightarrow> uchar list \<Rightarrow> ('z kfs_scheme, nat option \<times> uchar list) kern" where
  "namex devsw path parent name =
     bindK (iget ROOTDEV ROOTINO) (\<lambda>ip. namex_loop (length path + 1) devsw path parent name ip)"

text \<open>The buffer \<^verbatim>\<open>name\<close> of \<open>namei\<close> is a local array, whose first contents are not used.\<close>

definition namei :: "'z kfs_scheme devsw \<Rightarrow> uchar list \<Rightarrow> ('z kfs_scheme, nat option) kern" where
  "namei devsw path = bindK (namex devsw path False (replicate DIRSIZ 0)) (\<lambda>(ip, name). ret ip)"

definition nameiparent ::
  "'z kfs_scheme devsw \<Rightarrow> uchar list \<Rightarrow> uchar list \<Rightarrow> ('z kfs_scheme, nat option \<times> uchar list) kern" where
  "nameiparent devsw path name = namex devsw path True name"

section \<open>Entries\<close>

lemma dirent_roundtrip: "length (de_name de) = 14 \<Longrightarrow> dirent_of (dirent_bytes de) = de"
  by (simp add: dirent_of_def dirent_bytes_def slice_append_left slice_append_right slice_full DIRSIZ_def)

text \<open>Entry \<open>k\<close> of a directory, the search for a name, and what it finds.\<close>

definition dent :: "(uint \<Rightarrow> block) \<Rightarrow> uint list \<Rightarrow> nat \<Rightarrow> dirent" where
  "dent v A k = dirent_of (map (fbyte v A) [16 * k..<16 * k + 16])"

definition dmatch :: "(uint \<Rightarrow> block) \<Rightarrow> uint list \<Rightarrow> uchar list \<Rightarrow> nat \<Rightarrow> bool" where
  "dmatch v A name k \<longleftrightarrow> de_inum (dent v A k) \<noteq> 0 \<and> namecmp name (de_name (dent v A k)) = 0"

definition dir_find :: "(uint \<Rightarrow> block) \<Rightarrow> uint list \<Rightarrow> nat \<Rightarrow> uchar list \<Rightarrow> nat option" where
  "dir_find v A n name = find (dmatch v A name) [0..<n]"

definition dir_inum :: "(uint \<Rightarrow> block) \<Rightarrow> uint list \<Rightarrow> nat \<Rightarrow> uchar list \<Rightarrow> uint option" where
  "dir_inum v A n name = map_option (\<lambda>k. ucast (de_inum (dent v A k))) (dir_find v A n name)"

definition dir_slot :: "(uint \<Rightarrow> block) \<Rightarrow> uint list \<Rightarrow> nat \<Rightarrow> nat" where
  "dir_slot v A n = (case find (\<lambda>k. de_inum (dent v A k) = 0) [0..<n] of Some k \<Rightarrow> k | None \<Rightarrow> n)"

lemma namecmp_zero: "namecmp s t = 0 \<longleftrightarrow> cname DIRSIZ s = cname DIRSIZ t"
  by (simp add: namecmp_def strncmp_l_zero_iff)

text \<open>A directory that can be searched: whole entries, no holes, a link.\<close>

definition dir_file where
  "dir_file S c v L H I dp s \<longleftrightarrow> reg_file S c v L H I dp s \<and> i_type (I dp) = T_DIR \<and> no_holes v (I dp) \<and>
     16 dvd unat (i_size (I dp)) \<and> 1 \<le> sint (i_nlink (I dp))"

abbreviation dir_len :: "inode \<Rightarrow> nat" where
  "dir_len i \<equiv> unat (i_size i) div 16"

lemma dir_fileD:
  assumes "dir_file S c v L H I dp s"
  shows "reg_file S c v L H I dp s" "i_type (I dp) = T_DIR" "no_holes v (I dp)" "16 * dir_len (I dp) = unat (i_size (I dp))"
    "1 \<le> sint (i_nlink (I dp))" "fs S c v L H I s" "i_dev (I dp) = ROOTDEV" "unat (i_size (I dp)) \<le> 71680"
    "open_file S c v L H I dp s" "dir_len (I dp) \<le> 4480"
proof -
  show r: "reg_file S c v L H I dp s" "i_type (I dp) = T_DIR" "no_holes v (I dp)" "16 * dir_len (I dp) = unat (i_size (I dp))"
    "1 \<le> sint (i_nlink (I dp))"
    using assms by (simp_all add: dir_file_def)
  show o: "open_file S c v L H I dp s" and sz: "unat (i_size (I dp)) \<le> 71680" using r(1) by (simp_all add: reg_file_def)
  show "fs S c v L H I s" "i_dev (I dp) = ROOTDEV" by (rule open_fileD [OF o])+
  show "dir_len (I dp) \<le> 4480" using sz div_le_mono [of _ 71680 16] by fastforce
qed

lemma dir_file_state: "dir_file S c v L H I dp s \<Longrightarrow> fs S c v L H I t \<Longrightarrow> dir_file S c v L H I dp t"
  by (auto simp: dir_file_def reg_file_def open_file_def)

text \<open>Reading entry \<open>k\<close>.\<close>

lemma entry_off:
  assumes "dir_len i \<le> 4480" "k \<le> dir_len i" "16 * dir_len i = unat (i_size i)"
  shows "unat (of_nat (16 * k) :: uint) = 16 * k" "(of_nat (16 * k) :: uint) < i_size i \<longleftrightarrow> k < dir_len i"
    "of_nat (16 * k) + (16 :: uint) = of_nat (16 * Suc k)"
proof -
  show u: "unat (of_nat (16 * k) :: uint) = 16 * k" by (rule unat_of_nat_uint) (use assms in simp)
  show "(of_nat (16 * k) :: uint) < i_size i \<longleftrightarrow> k < dir_len i"
    unfolding word_less_nat_alt u by (subst assms(3) [symmetric]) simp
qed simp

lemma read_entry:
  assumes d: "dir_file S c v L H I dp s" and k: "k < dir_len (I dp)" and bud: "fsblk.budget L H c 6"
    and Q: "\<And>t. dir_file S c v L H I dp t \<Longrightarrow>
      Q (16, map (fbyte v (i_addrs (I dp))) [16 * k..<16 * k + 16]) t"
  shows "wpK (readi devsw dp (of_nat (16 * k)) 16) Q s"
proof -
  note f = dir_fileD [OF d]
  note e = entry_off [OF f(10) less_imp_le [OF k] f(4)]
  have le: "16 * k + 16 \<le> unat (i_size (I dp))" using k f(4) by simp
  have m: "min (unat (16 :: uint)) (unat (i_size (I dp)) - 16 * k) = 16"
    using le by simp
  show ?thesis
  proof (rule readi_wp [OF f(1,3) _ _ f(5) bud])
    fix t assume t: "fs S c v L H I t"
    show "Q (int (min (unat (16 :: uint)) (unat (i_size (I dp)) - unat (of_nat (16 * k) :: uint))),
       slice (unat (of_nat (16 * k) :: uint)) (min (unat (16 :: uint)) (unat (i_size (I dp)) - unat (of_nat (16 * k) :: uint)))
         (fdata v (i_addrs (I dp)) (unat (i_size (I dp))))) t"
      unfolding e(1) m slice_fdata [OF le] using Q [OF dir_file_state [OF d t]] by simp
  qed (use le f(8) in \<open>simp_all only: e(1), simp_all\<close>)
qed

section \<open>Lookup\<close>

lemma dirlookup_loop_wp:
  assumes d: "dir_file S c v L H I dp s" and bud: "fsblk.budget L H c 6"
    and fuel: "dir_len (I dp) < k + fuel" "k \<le> dir_len (I dp)"
    and none: "\<And>t. find (dmatch v (i_addrs (I dp)) name) [k..<dir_len (I dp)] = None \<Longrightarrow> fs S c v L H I t \<Longrightarrow> Q None t"
    and some: "\<And>j ip J t. find (dmatch v (i_addrs (I dp)) name) [k..<dir_len (I dp)] = Some j \<Longrightarrow>
      iget_cache ROOTDEV (ucast (de_inum (dent v (i_addrs (I dp)) j))) I = Some (ip, J) \<Longrightarrow> fs S c v L H J t \<Longrightarrow>
      Q (Some (ip, of_nat (16 * j))) t"
    and slot: "\<And>j. find (dmatch v (i_addrs (I dp)) name) [k..<dir_len (I dp)] = Some j \<Longrightarrow>
      iget_cache ROOTDEV (ucast (de_inum (dent v (i_addrs (I dp)) j))) I \<noteq> None"
  shows "wpK (dirlookup_loop fuel devsw dp name (of_nat (16 * k))) Q s"
  using d fuel none some slot
proof (induction fuel arbitrary: k s)
  case (Suc fuel)
  let ?A = "i_addrs (I dp)" and ?n = "dir_len (I dp)"
  note f = dir_fileD [OF Suc.prems(1)]
  note e = entry_off [OF f(10) Suc.prems(3) f(4)]
  show ?case
  proof (cases "k < ?n")
    case False
    then have c0: "(\<not> (of_nat (16 * k) :: uint) < i_size (I dp)) = True" using e(2) by simp
    show ?thesis
      unfolding dirlookup_loop.simps inode_get_def wpK_bind_get fs_ic [OF f(6)] c0 if_True wpK_ret
      by (rule Suc.prems(4)) (use f(6) False in simp_all)
  next
    case True
    have c1: "(\<not> (of_nat (16 * k) :: uint) < i_size (I dp)) = False" using True e(2) by simp
    have up: "[k..<?n] = k # [Suc k..<?n]" using True by (simp add: upt_conv_Cons)
    let ?de = "dent v ?A k"
    have de: "dirent_of (map (fbyte v ?A) [16 * k..<16 * k + 16]) = ?de" by (simp add: dent_def)
    show ?thesis
      unfolding dirlookup_loop.simps inode_get_def wpK_bind_get fs_ic [OF f(6)] c1 if_False wpK_bindK [of "readi _ _ _ _"]
    proof (rule read_entry [OF Suc.prems(1) True bud], unfold prod.case de)
      fix t assume t: "dir_file S c v L H I dp t"
      have ft: "fs S c v L H I t" by (rule dir_fileD(6) [OF t])
      have rec: "wpK (dirlookup_loop fuel devsw dp name (of_nat (16 * k) + 16)) Q t" if no: "\<not> dmatch v ?A name k"
        unfolding e(3)
      proof (rule Suc.IH [OF t])
        show "dir_len (I dp) < Suc k + fuel" "Suc k \<le> dir_len (I dp)" using Suc.prems(2) True by simp_all
      qed (use Suc.prems(4-6) no in \<open>simp_all add: up\<close>)
      show "wpK (if (16 :: int) \<noteq> 16 then panic ''dirlookup read'' else
          if de_inum ?de = 0 then dirlookup_loop fuel devsw dp name (of_nat (16 * k) + 16) else
          if namecmp name (de_name ?de) = 0 then
            bindK (getK (\<lambda>s. i_dev (icache s dp))) (\<lambda>dev. bindK (iget dev (ucast (de_inum ?de))) (\<lambda>ip. ret (Some (ip, of_nat (16 * k)))))
          else dirlookup_loop fuel devsw dp name (of_nat (16 * k) + 16)) Q t"
      proof (cases "dmatch v ?A name k")
        case False
        show ?thesis using rec [OF False] False by (auto simp: dmatch_def)
      next
        case hit: True
        then have fd: "find (dmatch v ?A name) [k..<?n] = Some k" by (simp add: up)
        from Suc.prems(6) [OF fd] obtain ip J where J: "iget_cache ROOTDEV (ucast (de_inum ?de)) I = Some (ip, J)" by auto
        have c2: "(de_inum ?de = 0) = False" "(namecmp name (de_name ?de) = 0) = True" "((16 :: int) \<noteq> 16) = False"
          using hit by (simp_all add: dmatch_def)
        show ?thesis
          unfolding c2 if_False if_True wpK_bind_get fs_ic [OF ft] f(7) wpK_bindK [of "iget _ _"]
          by (rule iget_wp [OF ft J]) (use Suc.prems(5) [OF fd J] in simp)
      qed
    qed
  qed
qed simp

lemma dirlookup_wp:
  assumes d: "dir_file S c v L H I dp s" and bud: "fsblk.budget L H c 6"
    and none: "\<And>t. dir_find v (i_addrs (I dp)) (dir_len (I dp)) name = None \<Longrightarrow> fs S c v L H I t \<Longrightarrow> Q None t"
    and some: "\<And>j ip J t. dir_find v (i_addrs (I dp)) (dir_len (I dp)) name = Some j \<Longrightarrow>
      iget_cache ROOTDEV (ucast (de_inum (dent v (i_addrs (I dp)) j))) I = Some (ip, J) \<Longrightarrow> fs S c v L H J t \<Longrightarrow>
      Q (Some (ip, of_nat (16 * j))) t"
    and slot: "\<And>i. dir_inum v (i_addrs (I dp)) (dir_len (I dp)) name = Some i \<Longrightarrow> iget_cache ROOTDEV i I \<noteq> None"
  shows "wpK (dirlookup devsw dp name) Q s"
proof -
  note f = dir_fileD [OF d]
  have "wpK (dirlookup_loop (dir_len (I dp) + 2) devsw dp name (of_nat (16 * 0))) Q s"
    by (rule dirlookup_loop_wp [OF d bud]) (use none some slot in \<open>simp_all add: dir_find_def dir_inum_def\<close>)
  then show ?thesis by (simp add: dirlookup_def inode_get_def fs_ic [OF f(6)] f(2))
qed

lemma dirlookup_not_dir: "fs S c v L H I s \<Longrightarrow> i_type (I dp) \<noteq> T_DIR \<Longrightarrow> dirlookup devsw dp name s = Inl (Panic ''dirlookup not DIR'')"
  by (simp add: dirlookup_def inode_get_def fs_ic)

section \<open>Adding an entry\<close>

lemma dir_slot_le: "dir_slot v A n \<le> n"
  by (auto simp: dir_slot_def find_Some_iff split: option.split)

lemma dir_slot_free: "dir_slot v A n < n \<Longrightarrow> de_inum (dent v A (dir_slot v A n)) = 0"
proof (cases "find (\<lambda>k. de_inum (dent v A k) = 0) [0..<n]")
  case (Some k)
  then have "de_inum (dent v A k) = 0" by (auto simp: find_Some_iff)
  then show ?thesis using Some by (simp add: dir_slot_def)
qed (simp add: dir_slot_def)

lemma find_snoc: "find P (xs @ [x]) = (case find P xs of None \<Rightarrow> if P x then Some x else None | Some y \<Rightarrow> Some y)"
  by (induction xs) simp_all

lemma dirlink_scan_wp:
  assumes d: "dir_file S c v L H I dp s" and bud: "fsblk.budget L H c 6"
    and fuel: "dir_len (I dp) < k + fuel" "k \<le> dir_len (I dp)"
    and Q: "\<And>t. fs S c v L H I t \<Longrightarrow> Q (of_nat (16 * (case find (\<lambda>k. de_inum (dent v (i_addrs (I dp)) k) = 0) [k..<dir_len (I dp)] of
      Some j \<Rightarrow> j | None \<Rightarrow> dir_len (I dp)))) t"
  shows "wpK (dirlink_scan fuel devsw dp (of_nat (16 * k))) Q s"
  using d fuel Q
proof (induction fuel arbitrary: k s)
  case (Suc fuel)
  let ?A = "i_addrs (I dp)" and ?n = "dir_len (I dp)"
  note f = dir_fileD [OF Suc.prems(1)]
  note e = entry_off [OF f(10) Suc.prems(3) f(4)]
  show ?case
  proof (cases "k < ?n")
    case False
    then have c0: "(\<not> (of_nat (16 * k) :: uint) < i_size (I dp)) = True" and k: "k = ?n" using e(2) Suc.prems(3) by simp_all
    show ?thesis
      unfolding dirlink_scan.simps inode_get_def wpK_bind_get fs_ic [OF f(6)] c0 if_True wpK_ret
      using Suc.prems(4) [OF f(6)] unfolding k by simp
  next
    case True
    have c1: "(\<not> (of_nat (16 * k) :: uint) < i_size (I dp)) = False" using True e(2) by simp
    have up: "[k..<?n] = k # [Suc k..<?n]" using True by (simp add: upt_conv_Cons)
    have de: "dirent_of (map (fbyte v ?A) [16 * k..<16 * k + 16]) = dent v ?A k" by (simp add: dent_def)
    show ?thesis
      unfolding dirlink_scan.simps inode_get_def wpK_bind_get fs_ic [OF f(6)] c1 if_False wpK_bindK [of "readi _ _ _ _"]
    proof (rule read_entry [OF Suc.prems(1) True bud], unfold prod.case de)
      fix t assume t: "dir_file S c v L H I dp t"
      have ft: "fs S c v L H I t" by (rule dir_fileD(6) [OF t])
      show "wpK (if (16 :: int) \<noteq> 16 then panic ''dirlink read'' else
          if de_inum (dent v ?A k) = 0 then ret (of_nat (16 * k)) else dirlink_scan fuel devsw dp (of_nat (16 * k) + 16)) Q t"
      proof (cases "de_inum (dent v ?A k) = 0")
        case True
        then show ?thesis using Suc.prems(4) [OF ft] by (simp add: up)
      next
        case False
        have "wpK (dirlink_scan fuel devsw dp (of_nat (16 * k) + 16)) Q t"
          unfolding e(3)
        proof (rule Suc.IH [OF t])
          show "dir_len (I dp) < Suc k + fuel" "Suc k \<le> dir_len (I dp)" using Suc.prems(2) True by simp_all
        qed (use Suc.prems(4) False in \<open>simp add: up\<close>)
        then show ?thesis using False by simp
      qed
    qed
  qed
qed simp

lemma dirlink_wp:
  fixes inum :: uint
  defines "de name \<equiv> \<lparr>de_inum = ucast inum, de_name = strncpy_l name DIRSIZ\<rparr>"
  assumes d: "dir_file S c v L H I dp s" and bud: "fsblk.budget L H c 15"
    and none: "dir_find v (i_addrs (I dp)) (dir_len (I dp)) name = None"
    and e: "e = dir_slot v (i_addrs (I dp)) (dir_len (I dp))" and fits: "16 * e + 16 \<le> 71680"
    and room: "faddr v (i_addrs (I dp)) (16 * e div 512) \<noteq> 0 \<or> 6 \<le> card (freeb S v)"
    and Q: "\<And>v' A' L' t. \<lbrakk>written S c v (i_addrs (I dp)) (16 * e) (dirent_bytes (de name)) v' A';
      fs S c (saved S (I dp) A' (of_nat (16 * e) + 16) v') L' H (I(dp := grown A' (of_nat (16 * e) + 16) (I dp))) t;
      grows (wrset S v' A' (16 * e) 16 \<union> {IBLOCK (i_inum (I dp)) S}) L L'\<rbrakk> \<Longrightarrow> Q 0 t"
  shows "wpK (dirlink devsw dp name inum) Q s"
proof -
  note f = dir_fileD [OF d]
  let ?A = "i_addrs (I dp)" and ?n = "dir_len (I dp)"
  have bud6: "fsblk.budget L H c 6" by (rule fsblk.budget_mono [OF bud]) simp
  have en: "e \<le> ?n" using dir_slot_le e by simp
  note eo = entry_off [OF f(10) en f(4)]
  have len: "length (dirent_bytes (de name)) = 16" by (simp add: dirent_bytes_def de_def DIRSIZ_def)
  have touch: "touched (16 * e) 16 = {16 * e div 512}"
  proof (rule touched_block)
    have "(16 * e) mod 512 = 16 * (e mod 32)" using mod_mult_mult1 [of 16 e 32] by simp
    moreover have "e mod 32 < 32" by simp
    ultimately show "16 * e mod 512 + 16 \<le> 512" by linarith
  qed simp
  show ?thesis
    unfolding dirlink_def wpK_bindK [of "dirlookup _ _ _"]
  proof (rule dirlookup_wp [OF d bud6])
    fix t assume t: "fs S c v L H I t"
    note dt = dir_file_state [OF d t]
    have "wpK (dirlink_scan (?n + 2) devsw dp (of_nat (16 * 0))) (\<lambda>off.
        wpK (bindK (writei devsw dp (dirent_bytes (de name)) off 16) (\<lambda>r. if r \<noteq> 16 then panic ''dirlink'' else ret 0)) Q) t"
    proof (rule dirlink_scan_wp [OF dt bud6])
      fix u assume u: "fs S c v L H I u"
      note fu = dir_fileD [OF dir_file_state [OF d u]]
      have "wpK (writei devsw dp (dirent_bytes (de name)) (of_nat (16 * e)) 16) (\<lambda>r. wpK (if r \<noteq> 16 then panic ''dirlink'' else ret 0) Q) u"
      proof (rule writei_wp [OF fu(1)])
        show "unat (of_nat (16 * e) :: uint) \<le> unat (i_size (I dp))" using en f(4) unfolding eo(1) by linarith
        show "unat (of_nat (16 * e) :: uint) + unat (16 :: uint) \<le> 71680" using fits unfolding eo(1) by simp
        show "unat (16 :: uint) \<le> length (dirent_bytes (de name))" using len by simp
        show "fsblk.budget L H c (15 + 3 * (unat (16 :: uint) div 512))" using bud by simp
        show "(\<forall>k\<in>touched (unat (of_nat (16 * e) :: uint)) (unat (16 :: uint)). faddr v ?A k \<noteq> 0) \<or>
            2 * (unat (16 :: uint) div 512 + 3) \<le> card (freeb S v)"
          using room touch unfolding eo(1) by simp
        fix v' A' L' w
        assume "written S c v ?A (unat (of_nat (16 * e) :: uint)) (take (unat (16 :: uint)) (dirent_bytes (de name))) v' A'"
          and w: "fs S c (saved S (I dp) A' (of_nat (16 * e) + 16) v') L' H (I(dp := grown A' (of_nat (16 * e) + 16) (I dp))) w"
          and "grows (wrset S v' A' (unat (of_nat (16 * e) :: uint)) (unat (16 :: uint)) \<union> {IBLOCK (i_inum (I dp)) S}) L L'"
        then have "written S c v ?A (16 * e) (dirent_bytes (de name)) v' A'"
          "grows (wrset S v' A' (16 * e) 16 \<union> {IBLOCK (i_inum (I dp)) S}) L L'"
          using len unfolding eo(1) by simp_all
        then have "Q 0 w" using Q w by blast
        then show "wpK (if int (unat (16 :: uint)) \<noteq> 16 then panic ''dirlink'' else ret 0) Q w" by simp
      qed
      then show "wpK (bindK (writei devsw dp (dirent_bytes (de name))
          (of_nat (16 * (case find (\<lambda>k. de_inum (dent v ?A k) = 0) [0..<?n] of Some j \<Rightarrow> j | None \<Rightarrow> ?n))) 16)
          (\<lambda>r. if r \<noteq> 16 then panic ''dirlink'' else ret 0)) Q u"
        unfolding wpK_bindK e dir_slot_def .
    qed simp_all
    then show "wpK (case None of Some (ip, _) \<Rightarrow> thenK (iput ip) (ret (- 1))
       | None \<Rightarrow> bindK (inode_get dp i_size) (\<lambda>sz. bindK (dirlink_scan (unat sz div 16 + 2) devsw dp 0) (\<lambda>off.
         bindK (writei devsw dp (dirent_bytes \<lparr>de_inum = ucast inum, de_name = strncpy_l name DIRSIZ\<rparr>) off 16) (\<lambda>r.
         if r \<noteq> 16 then panic ''dirlink'' else ret 0)))) Q t"
      unfolding option.case inode_get_def wpK_bind_get fs_ic [OF t] wpK_bindK [of "dirlink_scan _ _ _ _"] de_def mult_0_right semiring_1_class.of_nat_0 .
  qed (use none in \<open>simp_all add: dir_inum_def\<close>)
qed

text \<open>The entries of the directory after the write.\<close>

lemma written_entries:
  assumes w: "written S c v A (16 * e) (dirent_bytes de) v' A'" and len: "length (de_name de) = 14" and k: "k < 4480"
  shows "dent v' A' k = (if k = e then de else dent v A k)"
proof -
  have l16: "length (dirent_bytes de) = 16" using len by (simp add: dirent_bytes_def)
  have b: "fbyte v' A' i = (if k = e then dirent_bytes de ! (i - 16 * k) else fbyte v A i)" if "i \<in> set [16 * k..<16 * k + 16]" for i
  proof -
    have "i < 71680" using that k by simp
    then show ?thesis using writtenD(4) [OF w] that l16 by auto
  qed
  have "map (fbyte v' A') [16 * k..<16 * k + 16] = (if k = e then dirent_bytes de else map (fbyte v A) [16 * k..<16 * k + 16])"
    using b l16 by (auto simp: list_eq_iff_nth_eq)
  then show ?thesis using dirent_roundtrip [OF len] by (simp add: dent_def)
qed

lemma dir_inum_link:
  assumes ent: "\<And>k. k < 4480 \<Longrightarrow> dent v' A' k = (if k = e then de else dent v A k)" and n: "n \<le> 4480" "e < 4480"
    and e: "e = dir_slot v A n" and none: "dir_find v A n name = None" and nz: "de_inum de \<noteq> 0"
    and nm: "cname DIRSIZ (de_name de) = cname DIRSIZ name"
  shows "dir_inum v' A' (max n (Suc e)) x = (if cname DIRSIZ x = cname DIRSIZ name then Some (ucast (de_inum de)) else dir_inum v A n x)"
proof -
  let ?n = "max n (Suc e)"
  have le: "e \<le> n" using dir_slot_le e by simp
  have m: "dmatch v' A' x k \<longleftrightarrow> (if k = e then cname DIRSIZ x = cname DIRSIZ name else dmatch v A x k)" if "k < ?n" for k
    using ent [of k] that n nz nm by (simp add: dmatch_def namecmp_zero)
  have old: "\<not> dmatch v A x e" if "e < n" using dir_slot_free [of v A n] that e by (simp add: dmatch_def)
  show ?thesis
  proof (cases "cname DIRSIZ x = cname DIRSIZ name")
    case True
    have no: "\<not> dmatch v A x k" if "k < n" for k
      using none that True by (auto simp: dir_find_def find_None_iff dmatch_def namecmp_zero)
    have "dir_find v' A' ?n x = Some e"
      unfolding dir_find_def find_Some_iff using m no True le by (intro exI [of _ e]) (auto simp: max_def)
    then show ?thesis using True ent [of e] n by (simp add: dir_inum_def)
  next
    case False
    have "find (dmatch v' A' x) [0..<n] = find (dmatch v A x) [0..<n]"
      by (rule find_cong) (use m old False in auto)
    moreover have "find (dmatch v' A' x) [0..<?n] = find (dmatch v' A' x) [0..<n]"
    proof (cases "e < n")
      case True
      then have "?n = n" by simp
      then show ?thesis by simp
    next
      case e: False
      then have "e = n" "?n = Suc n" using le by simp_all
      moreover have "\<not> dmatch v' A' x n" using m [of n] False \<open>e = n\<close> by simp
      ultimately show ?thesis by (cases "find (dmatch v' A' x) [0..<n]") (auto simp: find_snoc)
    qed
    ultimately have f: "dir_find v' A' ?n x = dir_find v A n x" by (simp add: dir_find_def)
    have "dent v' A' k = dent v A k" if "dir_find v A n x = Some k" for k
    proof -
      have "k < n" "dmatch v A x k" using that by (auto simp: dir_find_def find_Some_iff)
      then show ?thesis using ent [of k] n old by auto
    qed
    then show ?thesis using False f by (cases "dir_find v A n x") (simp_all add: dir_inum_def)
  qed
qed

end
