(* ===== verification/Names.thy ===== *)
theory Names
  imports Dir
begin

text \<open>
  Path names. A path is the list of its elements, each cut to \<^verbatim>\<open>DIRSIZ\<close> bytes; on a consistent disk
  \<open>namei\<close> follows the directories from the root, element by element, and \<open>nameiparent\<close> stops one
  element early. Both return one new reference to the inode they find and leave the reference counts
  of all other inodes as they were, on every way out.
\<close>

section \<open>Path elements\<close>

function path_elems :: "uchar list \<Rightarrow> uchar list list" where
  "path_elems p = (let q = dropWhile (\<lambda>c. c = SLASH) p in if q = [] then [] else
     take DIRSIZ (takeWhile (\<lambda>c. c \<noteq> SLASH) q) # path_elems (dropWhile (\<lambda>c. c \<noteq> SLASH) q))"
  by auto
termination
proof (relation "measure length")
  fix p q assume q: "q = dropWhile (\<lambda>c. c = SLASH) p" "q \<noteq> []"
  then have "hd q \<noteq> SLASH" using hd_dropWhile [of "\<lambda>c. c = SLASH" p] by simp
  then have "length (dropWhile (\<lambda>c. c \<noteq> SLASH) q) < length q"
    using q(2) by (cases q) (simp_all add: less_Suc_eq_le length_dropWhile_le)
  also have "\<dots> \<le> length p" by (simp add: q length_dropWhile_le)
  finally show "(dropWhile (\<lambda>c. c \<noteq> SLASH) q, p) \<in> measure length" by simp
qed simp

declare path_elems.simps [simp del]

lemma path_elems_Nil [simp]: "path_elems [] = []"
  by (simp add: path_elems.simps)

lemma path_elems_skip: "path_elems (dropWhile (\<lambda>c. c = SLASH) p) = path_elems p"
  by (simp add: path_elems.simps [of p] path_elems.simps [of "dropWhile (\<lambda>c. c = SLASH) p"] dropWhile_idem)

lemma cname_short: "0 \<notin> set s \<Longrightarrow> length s < n \<Longrightarrow> cname n (s @ 0 # r) = s"
  by (cases "n - length s") (auto simp: cname_def takeWhile_append)

lemma cname_exact: "0 \<notin> set s \<Longrightarrow> length s \<le> n \<Longrightarrow> cname n s = s"
  by (auto simp: cname_def takeWhile_eq_all_conv)

lemma cname_idem: "cname n (cname n bs) = cname n bs"
  by (rule cname_exact) (use cname_nonzero length_cname in auto)

lemma skipelem_None: "skipelem p name = None \<longleftrightarrow> path_elems p = []"
  by (simp add: skipelem_def path_elems.simps [of p] Let_def)

lemma skipelem_Some:
  assumes "skipelem p name = Some (p', nm)" "0 \<notin> set p" "length name = DIRSIZ"
  shows "path_elems p = cname DIRSIZ nm # path_elems p'" "length nm = DIRSIZ" "0 \<notin> set p'" "length p' < length p"
    "p' = [] \<longleftrightarrow> path_elems p' = []"
proof -
  let ?q = "dropWhile (\<lambda>c. c = SLASH) p"
  let ?s = "takeWhile (\<lambda>c. c \<noteq> SLASH) ?q" and ?r = "dropWhile (\<lambda>c. c \<noteq> SLASH) ?q"
  have q: "?q \<noteq> []" and p': "p' = dropWhile (\<lambda>c. c = SLASH) ?r"
    and nm: "nm = (if length ?s \<ge> DIRSIZ then overwrite 0 (take DIRSIZ ?s) name else overwrite 0 (?s @ [0]) name)"
    using assms(1) by (auto simp: skipelem_def Let_def split: if_splits)
  have zs: "0 \<notin> set ?s" "0 \<notin> set ?r"
    using assms(2) by (metis set_dropWhileD set_takeWhileD)+
  show "length nm = DIRSIZ" unfolding nm using assms(3) by (auto simp: overwrite_def)
  have "cname DIRSIZ nm = take DIRSIZ ?s"
  proof (cases "length ?s \<ge> DIRSIZ")
    case True
    have "cname DIRSIZ (take DIRSIZ ?s) = take DIRSIZ ?s" by (rule cname_exact) (use zs(1) in \<open>auto dest: in_set_takeD\<close>)
    then show ?thesis unfolding nm using assms(3) True by (simp add: overwrite_def)
  next
    case False
    then show ?thesis unfolding nm using assms(3) zs(1) by (simp add: overwrite_def cname_short)
  qed
  moreover have "path_elems p = take DIRSIZ ?s # path_elems ?r" using q by (simp add: path_elems.simps [of p] Let_def)
  ultimately show "path_elems p = cname DIRSIZ nm # path_elems p'" by (simp add: p' path_elems_skip)
  show "0 \<notin> set p'" using zs(2) unfolding p' by (metis set_dropWhileD)
  have "hd ?q \<noteq> SLASH" using q hd_dropWhile [of "\<lambda>c. c = SLASH" p] by simp
  then have "length ?r < length ?q" using q by (cases ?q) (simp_all add: less_Suc_eq_le length_dropWhile_le)
  moreover have "length p' \<le> length ?r" "length ?q \<le> length p" by (simp_all add: p' length_dropWhile_le)
  ultimately show "length p' < length p" by linarith
  have "dropWhile (\<lambda>c. c = SLASH) p' = p'" by (simp add: p' dropWhile_idem)
  then show "p' = [] \<longleftrightarrow> path_elems p' = []" by (simp add: path_elems.simps [of p'] Let_def)
qed

lemma dir_inum_cong: "cname DIRSIZ x = cname DIRSIZ y \<Longrightarrow> dir_inum v A n x = dir_inum v A n y"
proof -
  assume e: "cname DIRSIZ x = cname DIRSIZ y"
  have "dmatch v A x = dmatch v A y" by (simp add: fun_eq_iff dmatch_def namecmp_zero e)
  then show ?thesis by (simp add: dir_inum_def dir_find_def)
qed

section \<open>References to inodes\<close>

definition islot :: "uint \<Rightarrow> inode \<Rightarrow> int" where
  "islot i x = (if i_inum x = i then i_ref x else 0)"

definition iref :: "(nat \<Rightarrow> inode) \<Rightarrow> uint \<Rightarrow> int" where
  "iref I i = (\<Sum>ip<50. islot i (I ip))"

text \<open>The cache agrees with the disk, and no inode is cached twice.\<close>

definition icoh :: "superblock \<Rightarrow> (uint \<Rightarrow> block) \<Rightarrow> (nat \<Rightarrow> inode) \<Rightarrow> bool" where
  "icoh S v I \<longleftrightarrow> (\<forall>ip<50. 0 \<le> i_ref (I ip)) \<and>
     (\<forall>ip<50. 0 < i_ref (I ip) \<longrightarrow> i_dev (I ip) = ROOTDEV \<and> i_inum (I ip) < sb_ninodes S \<and>
        (i_valid (I ip) \<noteq> 0 \<longrightarrow> to_dinode (I ip) = dino S v (i_inum (I ip)))) \<and>
     (\<forall>ip<50. \<forall>jp<50. 0 < i_ref (I ip) \<longrightarrow> 0 < i_ref (I jp) \<longrightarrow> i_inum (I ip) = i_inum (I jp) \<longrightarrow> ip = jp)"

lemma icohD:
  assumes "icoh S v I"
  shows "ip < 50 \<Longrightarrow> 0 \<le> i_ref (I ip)"
    "ip < 50 \<Longrightarrow> 0 < i_ref (I ip) \<Longrightarrow> i_dev (I ip) = ROOTDEV"
    "ip < 50 \<Longrightarrow> 0 < i_ref (I ip) \<Longrightarrow> i_inum (I ip) < sb_ninodes S"
    "ip < 50 \<Longrightarrow> 0 < i_ref (I ip) \<Longrightarrow> i_valid (I ip) \<noteq> 0 \<Longrightarrow> to_dinode (I ip) = dino S v (i_inum (I ip))"
    "ip < 50 \<Longrightarrow> jp < 50 \<Longrightarrow> 0 < i_ref (I ip) \<Longrightarrow> 0 < i_ref (I jp) \<Longrightarrow> i_inum (I ip) = i_inum (I jp) \<Longrightarrow> ip = jp"
  using assms unfolding icoh_def by blast+

lemma iref_rest:
  assumes "ip < 50"
  shows "iref I i = islot i (I ip) + (\<Sum>jp\<in>{..<50} - {ip}. islot i (I jp))"
  unfolding iref_def by (rule sum.remove) (use assms in simp_all)

lemma iref_upd:
  assumes "ip < 50"
  shows "iref (I(ip := x)) i = iref I i - islot i (I ip) + islot i x"
proof -
  have "(\<Sum>jp\<in>{..<50} - {ip}. islot i ((I(ip := x)) jp)) = (\<Sum>jp\<in>{..<50} - {ip}. islot i (I jp))"
    by (rule sum.cong) auto
  then show ?thesis using iref_rest [OF assms, of "I(ip := x)" i] iref_rest [OF assms, of I i] by simp
qed

lemma iref_slot:
  assumes "icoh S v I" "ip < 50" "0 < i_ref (I ip)"
  shows "iref I (i_inum (I ip)) = i_ref (I ip)"
proof -
  have "islot (i_inum (I ip)) (I jp) = 0" if "jp \<in> {..<50} - {ip}" for jp
  proof (rule ccontr)
    assume "islot (i_inum (I ip)) (I jp) \<noteq> 0"
    then have "i_inum (I jp) = i_inum (I ip)" "i_ref (I jp) \<noteq> 0" by (auto simp: islot_def split: if_splits)
    moreover have "0 \<le> i_ref (I jp)" using icohD(1) [OF assms(1)] that by simp
    ultimately show False using icohD(5) [OF assms(1), of jp ip] that assms(2,3) by simp
  qed
  then have "(\<Sum>jp\<in>{..<50} - {ip}. islot (i_inum (I ip)) (I jp)) = 0" by (rule sum.neutral [OF ballI])
  then show ?thesis using iref_rest [OF assms(2), of I "i_inum (I ip)"] by (simp add: islot_def)
qed

lemma iref_pos:
  assumes "icoh S v I" "0 < iref I i"
  obtains ip where "ip < 50" "0 < i_ref (I ip)" "i_inum (I ip) = i"
proof -
  have "\<exists>ip\<in>{..<50}. islot i (I ip) \<noteq> 0"
  proof (rule ccontr)
    assume "\<not> ?thesis"
    then have "iref I i = 0" unfolding iref_def by (intro sum.neutral) simp
    then show False using assms(2) by simp
  qed
  then obtain ip where "ip < 50" "i_inum (I ip) = i" "i_ref (I ip) \<noteq> 0" by (auto simp: islot_def split: if_splits)
  then show ?thesis using that icohD(1) [OF assms(1), of ip] by simp
qed

text \<open>Every inode with a reference takes one slot.\<close>

definition active :: "(nat \<Rightarrow> inode) \<Rightarrow> uint set" where
  "active I = {i. 0 < iref I i}"

lemma active_eq: "icoh S v I \<Longrightarrow> active I = (\<lambda>ip. i_inum (I ip)) ` {ip. ip < 50 \<and> 0 < i_ref (I ip)}"
  unfolding active_def by (force simp: iref_slot elim: iref_pos)

lemma finite_active: "icoh S v I \<Longrightarrow> finite (active I)"
  by (simp add: active_eq)

lemma free_slot:
  assumes "icoh S v I" "card (active I) < 50"
  shows "\<exists>ip<50. i_ref (I ip) = 0"
proof (rule ccontr)
  assume "\<not> ?thesis"
  then have "{ip. ip < 50 \<and> 0 < i_ref (I ip)} = {..<50}"
    using icohD(1) [OF assms(1)] by (auto simp: less_le)
  moreover have "inj_on (\<lambda>ip. i_inum (I ip)) {ip. ip < 50 \<and> 0 < i_ref (I ip)}"
    using icohD(5) [OF assms(1)] by (auto intro: inj_onI)
  ultimately have "card (active I) = 50" using active_eq [OF assms(1)] card_image by fastforce
  then show False using assms(2) by simp
qed

text \<open>A new reference: what \<open>iget\<close> does.\<close>

definition got :: "superblock \<Rightarrow> (uint \<Rightarrow> block) \<Rightarrow> (nat \<Rightarrow> inode) \<Rightarrow> uint \<Rightarrow> nat \<Rightarrow> (nat \<Rightarrow> inode) \<Rightarrow> bool" where
  "got S v I i ip J \<longleftrightarrow> icoh S v J \<and> ip < 50 \<and> 0 < i_ref (J ip) \<and> i_inum (J ip) = i \<and>
     iref J = (iref I)(i := iref I i + 1) \<and> (\<forall>jp. jp \<noteq> ip \<longrightarrow> J jp = I jp) \<and>
     (0 < i_ref (I ip) \<longrightarrow> J ip = (I ip)\<lparr>i_ref := i_ref (I ip) + 1\<rparr>)"

lemma iget_cache_got:
  assumes coh: "icoh S v I" and room: "card (active I) < 50" and i: "i < sb_ninodes S"
  obtains ip J where "iget_cache ROOTDEV i I = Some (ip, J)" "got S v I i ip J"
proof -
  have N: "NINODE = 50" by (simp add: NINODE_def)
  consider (hit) ip where "find (slot_hit I ROOTDEV i) [0..<50] = Some ip" | (miss) "find (slot_hit I ROOTDEV i) [0..<50] = None"
    by (cases "find (slot_hit I ROOTDEV i) [0..<50]") auto
  then show ?thesis
  proof cases
    case hit
    then have h: "ip < 50" "0 < i_ref (I ip)" "i_inum (I ip) = i" by (auto simp: find_Some_iff slot_hit_def)
    let ?J = "I(ip := (I ip)\<lparr>i_ref := i_ref (I ip) + 1\<rparr>)"
    have "icoh S v ?J" using coh h unfolding icoh_def by (auto simp: to_dinode_def)
    moreover have "iref ?J = (iref I)(i := iref I i + 1)" using h by (auto simp: iref_upd islot_def)
    ultimately have "got S v I i ip ?J" using h by (simp add: got_def)
    moreover have "iget_cache ROOTDEV i I = Some (ip, ?J)" using hit by (simp add: iget_cache_def iget_scan_find N)
    ultimately show ?thesis using that by blast
  next
    case miss
    then have no: "\<not> (0 < i_ref (I jp) \<and> i_inum (I jp) = i)" if "jp < 50" for jp
      using that icohD(2) [OF coh that] by (auto simp: find_None_iff slot_hit_def)
    obtain ip where f: "find (slot_free I) [0..<50] = Some ip"
      using free_slot [OF coh room] by (cases "find (slot_free I) [0..<50]") (auto simp: find_None_iff slot_free_def)
    then have h: "ip < 50" "i_ref (I ip) = 0" by (auto simp: find_Some_iff slot_free_def)
    let ?J = "I(ip := (I ip)\<lparr>i_dev := ROOTDEV, i_inum := i, i_ref := 1, i_valid := 0\<rparr>)"
    have "icoh S v ?J" using coh h i no unfolding icoh_def by auto
    moreover have "iref ?J = (iref I)(i := iref I i + 1)" using h by (auto simp: iref_upd islot_def)
    ultimately have "got S v I i ip ?J" using h by (simp add: got_def)
    moreover have "iget_cache ROOTDEV i I = Some (ip, ?J)" using miss f by (simp add: iget_cache_def iget_scan_find N)
    ultimately show ?thesis using that by blast
  qed
qed

text \<open>Dropping a reference that is not the last one to an unlinked inode.\<close>

definition unref :: "(nat \<Rightarrow> inode) \<Rightarrow> nat \<Rightarrow> nat \<Rightarrow> inode" where
  "unref I ip = I(ip := (I ip)\<lparr>i_ref := i_ref (I ip) - 1\<rparr>)"

lemma iput_keep_wp:
  assumes s: "fs S c v L H I s" and keep: "\<not> (i_valid (I ip) \<noteq> 0 \<and> i_nlink (I ip) = 0 \<and> i_ref (I ip) = 1)"
    and Q: "\<And>t. fs S c v L H (unref I ip) t \<Longrightarrow> Q () t"
  shows "wpK (iput ip) Q s"
proof -
  note ic = fs_ic [OF s]
  have wf: "0 \<le> ncli s" "ncli s < INT_MAX" "0 < ncli s \<Longrightarrow> \<not> eflags_if s" using fs_cpu [OF s] by (auto simp: cpu_wf_def)
  have pop: "popcli (s\<lparr>eflags_if := False, intena := (if ncli s = 0 then eflags_if s else intena s),
      ncli := ncli s + 1, icache := J\<rparr>) = Inr ((), (settle s)\<lparr>icache := J\<rparr>)" for J
    using wf by (cases s) (auto simp: settle_def)
  have k: "(i_valid (I ip) \<noteq> 0 \<and> i_nlink (I ip) = 0 \<and> i_ref (I ip) = 1) = False" using keep by simp
  have "iput ip s = Inr ((), (settle s)\<lparr>icache := unref I ip\<rparr>)"
    using wf(2) by (simp add: iput_def inode_get_def inode_upd_def ic k unref_def pop)
  moreover have "fs S c v L H (unref I ip) ((settle s)\<lparr>icache := unref I ip\<rparr>)"
    by (rule fs_icache) (use s in \<open>simp add: fs_settle\<close>)
  ultimately show ?thesis using Q by (intro wpK_I)
qed

lemma unref_coh:
  assumes "icoh S v I" "ip < 50" "0 < i_ref (I ip)"
  shows "icoh S v (unref I ip)" "iref (unref I ip) = (iref I)(i_inum (I ip) := iref I (i_inum (I ip)) - 1)"
  using assms unfolding unref_def by (auto simp: icoh_def to_dinode_def iref_upd islot_def)

lemma loaded_coh:
  assumes "icoh S v I" "ip < 50" "0 < i_ref (I ip)"
  shows "icoh S v (I(ip := loaded S v (I ip)))" "iref (I(ip := loaded S v (I ip))) = iref I"
    "to_dinode (loaded S v (I ip)) = dino S v (i_inum (I ip))"
proof -
  show d: "to_dinode (loaded S v (I ip)) = dino S v (i_inum (I ip))"
    using icohD(4) [OF assms] by (simp add: loaded_def to_dinode_def Let_def)
  have l: "i_ref (loaded S v (I ip)) = i_ref (I ip)" "i_inum (loaded S v (I ip)) = i_inum (I ip)" "i_dev (loaded S v (I ip)) = i_dev (I ip)"
    by (simp_all add: loaded_def Let_def)
  show "icoh S v (I(ip := loaded S v (I ip)))" using assms d l unfolding icoh_def by auto
  show "iref (I(ip := loaded S v (I ip))) = iref I" using assms(2) l by (auto simp: fun_eq_iff iref_upd islot_def)
qed

section \<open>Directory trees\<close>

text \<open>
  A directory on the disk that can be searched, and whose entries name allocated inodes with a link. On
  a consistent disk every directory is one, and the root exists.
\<close>

definition dnode_ok :: "superblock \<Rightarrow> 'z lctx \<Rightarrow> (uint \<Rightarrow> block) \<Rightarrow> uint \<Rightarrow> bool" where
  "dnode_ok S c v i \<longleftrightarrow> (let d = dino S v i; A = di_addrs d; sz = unat (di_size d) in
     wf_file S c v A \<and> sz \<le> 71680 \<and> 16 dvd sz \<and> (\<forall>k<140. 512 * k < sz \<longrightarrow> faddr v A k \<noteq> 0) \<and> 1 \<le> sint (di_nlink d) \<and>
     (\<forall>k < sz div 16. de_inum (dent v A k) \<noteq> 0 \<longrightarrow> ucast (de_inum (dent v A k)) < sb_ninodes S \<and>
        di_type (dino S v (ucast (de_inum (dent v A k)))) \<noteq> 0 \<and> di_nlink (dino S v (ucast (de_inum (dent v A k)))) \<noteq> 0))"

definition tree_ok :: "superblock \<Rightarrow> 'z lctx \<Rightarrow> (uint \<Rightarrow> block) \<Rightarrow> bool" where
  "tree_ok S c v \<longleftrightarrow> geo S c \<and> bitmap_ok S c v \<and> ROOTINO < sb_ninodes S \<and> di_type (dino S v ROOTINO) \<noteq> 0 \<and>
     di_nlink (dino S v ROOTINO) \<noteq> 0 \<and> (\<forall>i < sb_ninodes S. di_type (dino S v i) = T_DIR \<longrightarrow> dnode_ok S c v i)"

definition child :: "superblock \<Rightarrow> (uint \<Rightarrow> block) \<Rightarrow> uint \<Rightarrow> uchar list \<Rightarrow> uint option" where
  "child S v i name = dir_inum v (di_addrs (dino S v i)) (unat (di_size (dino S v i)) div 16) name"

fun resolve :: "superblock \<Rightarrow> (uint \<Rightarrow> block) \<Rightarrow> uint \<Rightarrow> uchar list list \<Rightarrow> uint option" where
  "resolve S v i [] = Some i"
| "resolve S v i (e # es) = (if di_type (dino S v i) \<noteq> T_DIR then None else
     case child S v i e of None \<Rightarrow> None | Some j \<Rightarrow> resolve S v j es)"

text \<open>What \<open>namex\<close> looks for: the inode of the path, or of its parent, which must be a directory.\<close>

definition path_inode :: "superblock \<Rightarrow> (uint \<Rightarrow> block) \<Rightarrow> uint \<Rightarrow> bool \<Rightarrow> uchar list list \<Rightarrow> uint option" where
  "path_inode S v i parent es = (if \<not> parent then resolve S v i es else if es = [] then None else
     case resolve S v i (butlast es) of None \<Rightarrow> None
     | Some j \<Rightarrow> if di_type (dino S v j) = T_DIR then Some j else None)"

lemma path_inode_step:
  assumes "di_type (dino S v i) = T_DIR" "\<not> (parent \<and> es = [])"
  shows "path_inode S v i parent (e # es) = (case child S v i e of None \<Rightarrow> None | Some j \<Rightarrow> path_inode S v j parent es)"
  using assms by (auto simp: path_inode_def split: option.split)

lemma path_inode_file: "di_type (dino S v i) \<noteq> T_DIR \<Longrightarrow> path_inode S v i parent (e # es) = None"
  by (auto simp: path_inode_def)

lemma path_inode_last: "di_type (dino S v i) = T_DIR \<Longrightarrow> path_inode S v i True [e] = Some i"
  by (simp add: path_inode_def)

lemma child_ok:
  assumes "tree_ok S c v" "i < sb_ninodes S" "di_type (dino S v i) = T_DIR" "child S v i e = Some j"
  shows "j < sb_ninodes S" "di_type (dino S v j) \<noteq> 0" "di_nlink (dino S v j) \<noteq> 0"
proof -
  have "dnode_ok S c v i" using assms(1-3) by (simp add: tree_ok_def)
  moreover obtain k where "k < unat (di_size (dino S v i)) div 16" "de_inum (dent v (di_addrs (dino S v i)) k) \<noteq> 0"
    "j = ucast (de_inum (dent v (di_addrs (dino S v i)) k))"
    using assms(4) by (auto simp: child_def dir_inum_def dir_find_def find_Some_iff dmatch_def)
  ultimately show "j < sb_ninodes S" "di_type (dino S v j) \<noteq> 0" "di_nlink (dino S v j) \<noteq> 0"
    by (auto simp: dnode_ok_def Let_def)
qed

text \<open>A cached directory that has been read can be searched.\<close>

lemma tree_dir_file:
  assumes tr: "tree_ok S c v" and coh: "icoh S v I" and s: "fs S c v L H I s"
    and ip: "ip < 50" "0 < i_ref (I ip)" "i_valid (I ip) \<noteq> 0" "i_type (I ip) = T_DIR"
  shows "dir_file S c v L H I ip s" "child S v (i_inum (I ip)) e = dir_inum v (i_addrs (I ip)) (dir_len (I ip)) e"
proof -
  let ?i = "i_inum (I ip)"
  note d = icohD(2,3) [OF coh ip(1,2)]
  have eq: "di_addrs (dino S v ?i) = i_addrs (I ip)" "di_size (dino S v ?i) = i_size (I ip)"
    "di_nlink (dino S v ?i) = i_nlink (I ip)" "di_type (dino S v ?i) = T_DIR"
    using icohD(4) [OF coh ip(1-3), symmetric] ip(4) by (simp_all add: to_dinode_def)
  have ok: "dnode_ok S c v ?i" using tr d eq by (simp add: tree_ok_def)
  have "no_holes v (I ip)" unfolding no_holes_def
  proof (intro allI impI)
    fix k assume "512 * k < unat (i_size (I ip))"
    moreover have "unat (i_size (I ip)) \<le> 71680" using ok eq by (simp add: dnode_ok_def Let_def)
    ultimately show "faddr v (i_addrs (I ip)) k \<noteq> 0" using ok eq by (auto simp: dnode_ok_def Let_def)
  qed
  moreover have "T_DIR \<noteq> T_DEV" by (simp add: T_DIR_def T_DEV_def)
  ultimately show "dir_file S c v L H I ip s"
    using ok eq d s tr ip(4) by (auto simp: dir_file_def reg_file_def open_file_def dnode_ok_def tree_ok_def Let_def)
  show "child S v ?i e = dir_inum v (i_addrs (I ip)) (dir_len (I ip)) e" by (simp add: child_def eq)
qed

section \<open>\<open>namex\<close>\<close>

definition found :: "(nat \<Rightarrow> inode) \<Rightarrow> (nat \<Rightarrow> inode) \<Rightarrow> uint option \<Rightarrow> nat option \<Rightarrow> bool" where
  "found I J w r \<longleftrightarrow> (case w of None \<Rightarrow> r = None \<and> iref J = iref I
     | Some i \<Rightarrow> \<exists>ip. r = Some ip \<and> ip < 50 \<and> 0 < i_ref (J ip) \<and> i_inum (J ip) = i \<and> iref J = (iref I)(i := iref I i + 1))"

text \<open>One inode is held in addition to those of the cache \<open>I0\<close>.\<close>

definition holding where
  "holding S v I0 I ip \<longleftrightarrow> icoh S v I \<and> ip < 50 \<and> 0 < i_ref (I ip) \<and> i_inum (I ip) < sb_ninodes S \<and>
     di_type (dino S v (i_inum (I ip))) \<noteq> 0 \<and> di_nlink (dino S v (i_inum (I ip))) \<noteq> 0 \<and>
     iref I = (iref I0)(i_inum (I ip) := iref I0 (i_inum (I ip)) + 1)"

lemma holding_release:
  assumes h: "holding S v I0 I ip" and s: "fs S c v L H I s"
    and Q: "\<And>t. fs S c v L H (unref I ip) t \<Longrightarrow> icoh S v (unref I ip) \<Longrightarrow> iref (unref I ip) = iref I0 \<Longrightarrow> Q () t"
  shows "wpK (iput ip) Q s"
proof (rule iput_keep_wp [OF s])
  have d: "icoh S v I" "ip < 50" "0 < i_ref (I ip)" using h by (simp_all add: holding_def)
  show "\<not> (i_valid (I ip) \<noteq> 0 \<and> i_nlink (I ip) = 0 \<and> i_ref (I ip) = 1)"
    using icohD(4) [OF d, symmetric] h by (auto simp: holding_def to_dinode_def)
  show "Q () t" if "fs S c v L H (unref I ip) t" for t
    by (rule Q [OF that unref_coh(1) [OF d]]) (use unref_coh(2) [OF d] h in \<open>simp add: holding_def\<close>)
qed

lemma holding_load:
  assumes h: "holding S v I0 I ip"
  shows "holding S v I0 (I(ip := loaded S v (I ip))) ip" "to_dinode (loaded S v (I ip)) = dino S v (i_inum (I ip))"
    "i_valid (loaded S v (I ip)) \<noteq> 0" "i_type (loaded S v (I ip)) = di_type (dino S v (i_inum (I ip)))"
    "i_inum (loaded S v (I ip)) = i_inum (I ip)"
proof -
  have d: "icoh S v I" "ip < 50" "0 < i_ref (I ip)" using h by (simp_all add: holding_def)
  note l = loaded_coh [OF d]
  show "to_dinode (loaded S v (I ip)) = dino S v (i_inum (I ip))" by (rule l(3))
  then show "i_type (loaded S v (I ip)) = di_type (dino S v (i_inum (I ip)))" by (metis dinode.select_convs(1) to_dinode_def)
  show e: "i_inum (loaded S v (I ip)) = i_inum (I ip)" by (simp add: loaded_def Let_def)
  show "i_valid (loaded S v (I ip)) \<noteq> 0" by (simp add: loaded_def Let_def)
  have "i_ref (loaded S v (I ip)) = i_ref (I ip)" by (simp add: loaded_def Let_def)
  then show "holding S v I0 (I(ip := loaded S v (I ip))) ip" using h l(1,2) e by (simp add: holding_def)
qed

text \<open>Moving on to the inode \<open>k\<close>: its reference is taken before the one to the directory is dropped.\<close>

lemma holding_move:
  assumes h: "holding S v I0 I ip" and g: "got S v I k nx J"
    and k: "k < sb_ninodes S" "di_type (dino S v k) \<noteq> 0" "di_nlink (dino S v k) \<noteq> 0"
  shows "icoh S v J" "ip < 50" "0 < i_ref (J ip)" "i_inum (J ip) = i_inum (I ip)"
    "i_valid (I ip) \<noteq> 0 \<Longrightarrow> i_nlink (J ip) \<noteq> 0" "holding S v I0 (unref J ip) nx"
proof -
  let ?i = "i_inum (I ip)"
  have d: "icoh S v I" "ip < 50" "0 < i_ref (I ip)" "di_nlink (dino S v ?i) \<noteq> 0" "iref I = (iref I0)(?i := iref I0 ?i + 1)"
    using h by (simp_all add: holding_def)
  have j: "icoh S v J" "nx < 50" "0 < i_ref (J nx)" "i_inum (J nx) = k" "iref J = (iref I)(k := iref I k + 1)"
    and same: "\<And>jp. jp \<noteq> nx \<Longrightarrow> J jp = I jp" and hit: "0 < i_ref (I nx) \<Longrightarrow> J nx = (I nx)\<lparr>i_ref := i_ref (I nx) + 1\<rparr>"
    using g by (simp_all add: got_def)
  have "nx \<noteq> ip \<and> J ip = I ip \<or> nx = ip \<and> J ip = (I ip)\<lparr>i_ref := i_ref (I ip) + 1\<rparr>" using same hit d(3) by (cases "ip = nx") auto
  then have e: "0 < i_ref (J ip)" "i_inum (J ip) = ?i" "i_nlink (J ip) = i_nlink (I ip)" "nx = ip \<Longrightarrow> 1 < i_ref (J ip)"
    using d(3) same by auto
  show "0 < i_ref (J ip)" "i_inum (J ip) = ?i" "icoh S v J" "ip < 50" using e j d by simp_all
  show "i_valid (I ip) \<noteq> 0 \<Longrightarrow> i_nlink (J ip) \<noteq> 0"
    using icohD(4) [OF d(1-3), symmetric] d(4) e(3) by (simp add: to_dinode_def)
  note u = unref_coh [OF j(1) d(2) e(1)]
  have "iref (unref J ip) = (iref I0)(k := iref I0 k + 1)"
    unfolding u(2) e(2) j(5) d(5) by (auto simp: fun_eq_iff)
  moreover have "0 < i_ref (unref J ip nx)" "i_inum (unref J ip nx) = k" using j(3,4) e(4) by (auto simp: unref_def)
  ultimately show "holding S v I0 (unref J ip) nx" using u(1) j(2) k by (simp add: holding_def)
qed

lemma holding_room:
  assumes h: "holding S v I0 I ip" and c0: "icoh S v I0" "card (active I0) + 2 \<le> 50"
  shows "card (active I) < 50"
proof -
  have "active I \<subseteq> insert (i_inum (I ip)) (active I0)" using h by (auto simp: active_def holding_def)
  then have "card (active I) \<le> Suc (card (active I0))"
    using finite_active [OF c0(1)] card_mono [of "insert (i_inum (I ip)) (active I0)" "active I"] by (simp add: card_insert_if split: if_splits)
  then show ?thesis using c0(2) by simp
qed

lemma namex_loop_wp:
  assumes tr: "tree_ok S c v" and c0: "icoh S v I0" "card (active I0) + 2 \<le> 50" and bud: "fsblk.budget L H c 6"
    and s: "fs S c v L H I s" and h: "holding S v I0 I ip" and len: "length path < fuel"
    and path: "0 \<notin> set path" "length name = DIRSIZ"
    and Q: "\<And>r nm J t. \<lbrakk>fs S c v L H J t; icoh S v J; length nm = DIRSIZ;
      found I0 J (path_inode S v (i_inum (I ip)) parent (path_elems path)) r;
      parent \<Longrightarrow> r \<noteq> None \<Longrightarrow> cname DIRSIZ nm = last (path_elems path)\<rbrakk> \<Longrightarrow> Q (r, nm) t"
  shows "wpK (namex_loop fuel devsw path parent name ip) Q s"
  using s h len path Q
proof (induction fuel arbitrary: s I path name ip)
  case (Suc fuel)
  let ?i = "i_inum (I ip)"
  note h = Suc.prems(2)
  have d: "icoh S v I" "ip < 50" "0 < i_ref (I ip)" "?i < sb_ninodes S" "di_type (dino S v ?i) \<noteq> 0"
    "iref I = (iref I0)(?i := iref I0 ?i + 1)"
    using h by (simp_all add: holding_def)
  have g: "geo S c" using tr by (simp add: tree_ok_def)
  show ?case
  proof (cases "skipelem path name")
    case None
    then have es: "path_elems path = []" by (simp add: skipelem_None)
    show ?thesis
    proof (cases parent)
      case True
      have "wpK (iput ip) (\<lambda>_. Q (None, name)) s"
        by (rule holding_release [OF h Suc.prems(1)], rule Suc.prems(6) [where J = "unref I ip"]) (simp_all add: found_def path_inode_def es True Suc.prems(5))
      then show ?thesis using None True by simp
    next
      case False
      have "Q (Some ip, name) s"
        by (rule Suc.prems(6) [OF Suc.prems(1) d(1)]) (use d False es Suc.prems(5) in \<open>simp_all add: found_def path_inode_def\<close>)
      then show ?thesis using None False by simp
    qed
  next
    case (Some pn)
    obtain p nm where pn: "pn = (p, nm)" by fastforce
    note k = skipelem_Some [OF Some [unfolded pn] Suc.prems(4,5)]
    let ?e = "cname DIRSIZ nm"
    let ?J = "I(ip := loaded S v (I ip))"
    note l = holding_load [OF h]
    have lJ: "?J ip = loaded S v (I ip)" by simp
    have hJ: "icoh S v ?J" "0 < i_ref (?J ip)" "i_inum (?J ip) = ?i" using l(1,5) by (simp_all add: holding_def)
    have ce: "child S v ?i nm = child S v ?i ?e" unfolding child_def
      by (rule dir_inum_cong) (simp add: cname_idem)
    let ?go = "\<lambda>ty. if ty \<noteq> T_DIR then thenK (iput ip) (ret (None, nm)) else
         if parent \<and> p = [] then ret (Some ip, nm) else
         bindK (dirlookup devsw ip nm) (\<lambda>q. case q of
           None \<Rightarrow> thenK (iput ip) (ret (None, nm))
         | Some (nxt, _) \<Rightarrow> thenK (iput ip) (namex_loop fuel devsw p parent nm nxt))"
    have "wpK (iread (Some ip)) (\<lambda>_. wpK (bindK (inode_get ip i_type) ?go) Q) s"
    proof (rule iread_wp [OF Suc.prems(1) g icohD(2) [OF d(1-3)] d(4,3)])
      show "di_type (dino S v ?i) \<noteq> 0" by (rule d(5))
      show "fsblk.budget L H c 0" by (rule fsblk.budget_mono [OF bud]) simp
      fix t assume t: "fs S c v L H ?J t"
      have ty: "i_type (?J ip) = di_type (dino S v ?i)" using l(4) by simp
      have drop: "wpK (thenK (iput ip) (ret (None, nm))) Q t"
        if no: "path_inode S v ?i parent (path_elems path) = None"
      proof -
        have "wpK (iput ip) (\<lambda>_. Q (None, nm)) t"
          by (rule holding_release [OF l(1) t], rule Suc.prems(6) [where J = "unref ?J ip"]) (simp_all add: found_def no k(2))
        then show ?thesis by simp
      qed
      show "wpK (bindK (inode_get ip i_type) ?go) Q t"
        unfolding inode_get_def wpK_bind_get fs_ic [OF t] ty
      proof (cases "di_type (dino S v ?i) = T_DIR")
        case False
        have "path_inode S v ?i parent (path_elems path) = None" unfolding k(1) by (rule path_inode_file [OF False])
        then show "wpK (?go (di_type (dino S v ?i))) Q t" using drop False by simp
      next
        case dir: True
        show "wpK (?go (di_type (dino S v ?i))) Q t"
        proof (cases "parent \<and> p = []")
          case True
          have "iref ?J = (iref I0)(?i := iref I0 ?i + 1)" using l(1) hJ(3) unfolding holding_def by metis
          then have "found I0 ?J (Some ?i) (Some ip)" using d(2) hJ(2,3) unfolding found_def by simp
          moreover have "path_inode S v ?i parent (path_elems path) = Some ?i" "cname DIRSIZ nm = last (path_elems path)"
            using True k(1) path_inode_last [OF dir] by simp_all
          ultimately have "Q (Some ip, nm) t" by (intro Suc.prems(6) [OF t hJ(1) k(2)]) (simp_all add: fun_upd_def)
          then show ?thesis using True dir by simp
        next
          case False
          have step: "path_inode S v ?i parent (path_elems path) =
              (case child S v ?i ?e of None \<Rightarrow> None | Some j \<Rightarrow> path_inode S v j parent (path_elems p))"
            unfolding k(1) by (rule path_inode_step [OF dir]) (use False k(5) in auto)
          have tyJ: "i_type (?J ip) = T_DIR" "i_valid (?J ip) \<noteq> 0" using ty dir l(3) by simp_all
          note df = tree_dir_file [OF tr hJ(1) t d(2) hJ(2) tyJ(2,1)]
          have ch: "child S v ?i ?e = dir_inum v (i_addrs (?J ip)) (dir_len (?J ip)) nm"
            using df(2) [of nm] ce hJ(3) by simp
          have got: "\<exists>nx K. iget_cache ROOTDEV j ?J = Some (nx, K) \<and> got S v ?J j nx K" if "child S v ?i ?e = Some j" for j
            using iget_cache_got [OF hJ(1) holding_room [OF l(1) c0] child_ok(1) [OF tr d(4) dir that]] by metis
          have "wpK (dirlookup devsw ip nm) (\<lambda>q. wpK (case q of None \<Rightarrow> thenK (iput ip) (ret (None, nm))
              | Some (nxt, _) \<Rightarrow> thenK (iput ip) (namex_loop fuel devsw p parent nm nxt)) Q) t"
          proof (rule dirlookup_wp [OF df(1) bud])
            fix u assume "dir_find v (i_addrs (?J ip)) (dir_len (?J ip)) nm = None" and u: "fs S c v L H ?J u"
            then have "child S v ?i ?e = None" using ch by (simp add: dir_inum_def)
            then have "path_inode S v ?i parent (path_elems path) = None" by (simp add: step)
            then have "wpK (iput ip) (\<lambda>_. Q (None, nm)) u"
              by (intro holding_release [OF l(1) u], intro Suc.prems(6) [where J = "unref ?J ip"]) (simp_all add: found_def k(2))
            then show "wpK (case None of None \<Rightarrow> thenK (iput ip) (ret (None, nm))
              | Some (nxt, _) \<Rightarrow> thenK (iput ip) (namex_loop fuel devsw p parent nm nxt)) Q u" by simp
          next
            fix j nx K u assume f: "dir_find v (i_addrs (?J ip)) (dir_len (?J ip)) nm = Some j"
              and K: "iget_cache ROOTDEV (ucast (de_inum (dent v (i_addrs (?J ip)) j))) ?J = Some (nx, K)" and u: "fs S c v L H K u"
            let ?k = "ucast (de_inum (dent v (i_addrs (?J ip)) j)) :: uint"
            have chk: "child S v ?i ?e = Some ?k" using ch f by (simp add: dir_inum_def)
            have gk: "got S v ?J ?k nx K" using got [OF chk] K by simp
            note ck = child_ok [OF tr d(4) dir chk]
            note mv = holding_move [OF l(1) gk ck]
            have "wpK (iput ip) (\<lambda>_. wpK (namex_loop fuel devsw p parent nm nx) Q) u"
            proof (rule iput_keep_wp [OF u])
              show "\<not> (i_valid (K ip) \<noteq> 0 \<and> i_nlink (K ip) = 0 \<and> i_ref (K ip) = 1)" using mv(5) tyJ(2) by simp
              fix w assume w: "fs S c v L H (unref K ip) w"
              have nxk: "i_inum (unref K ip nx) = ?k" using gk by (auto simp: got_def unref_def)
              show "wpK (namex_loop fuel devsw p parent nm nx) Q w"
              proof (rule Suc.IH [OF w mv(6) _ k(3,2)])
                show "length p < fuel" using k(4) Suc.prems(3) by simp
                fix r nm' K' x assume "fs S c v L H K' x" "icoh S v K'" "length nm' = DIRSIZ"
                  and fd: "found I0 K' (path_inode S v (i_inum (unref K ip nx)) parent (path_elems p)) r"
                  and nm': "parent \<Longrightarrow> r \<noteq> None \<Longrightarrow> cname DIRSIZ nm' = last (path_elems p)"
                moreover have "found I0 K' (path_inode S v ?i parent (path_elems path)) r"
                  using fd unfolding step chk nxk by simp
                moreover have "cname DIRSIZ nm' = last (path_elems path)" if "parent" "r \<noteq> None"
                  using nm' [OF that] False that(1) k(1,5) by simp
                ultimately show "Q (r, nm') x" by (intro Suc.prems(6))
              qed
            qed
            then show "wpK (case Some (nx, of_nat (16 * j)) of None \<Rightarrow> thenK (iput ip) (ret (None, nm))
              | Some (nxt, _) \<Rightarrow> thenK (iput ip) (namex_loop fuel devsw p parent nm nxt)) Q u" by simp
          next
            fix j assume "dir_inum v (i_addrs (?J ip)) (dir_len (?J ip)) nm = Some j"
            then show "iget_cache ROOTDEV j ?J \<noteq> None" using got [of j] ch by auto
          qed
          then show ?thesis using False dir by auto
        qed
      qed
    qed
    then show ?thesis using Some pn by simp
  qed
qed simp

lemma namex_wp:
  assumes tr: "tree_ok S c v" and c0: "icoh S v I" "card (active I) + 2 \<le> 50" and bud: "fsblk.budget L H c 6"
    and s: "fs S c v L H I s" and path: "0 \<notin> set path" "length name = DIRSIZ"
    and Q: "\<And>r nm J t. \<lbrakk>fs S c v L H J t; icoh S v J; length nm = DIRSIZ;
      found I J (path_inode S v ROOTINO parent (path_elems path)) r;
      parent \<Longrightarrow> r \<noteq> None \<Longrightarrow> cname DIRSIZ nm = last (path_elems path)\<rbrakk> \<Longrightarrow> Q (r, nm) t"
  shows "wpK (namex devsw path parent name) Q s"
proof -
  have root: "ROOTINO < sb_ninodes S" "di_type (dino S v ROOTINO) \<noteq> 0" "di_nlink (dino S v ROOTINO) \<noteq> 0"
    using tr by (simp_all add: tree_ok_def)
  have "card (active I) < 50" using c0(2) by simp
  from iget_cache_got [OF c0(1) this root(1)]
  obtain ip J where J: "iget_cache ROOTDEV ROOTINO I = Some (ip, J)" and g: "got S v I ROOTINO ip J" .
  have i: "i_inum (J ip) = ROOTINO" and h: "holding S v I J ip" using g root by (simp_all add: got_def holding_def)
  show ?thesis
    unfolding namex_def wpK_bindK
  proof (rule iget_wp [OF s J])
    fix t assume t: "fs S c v L H J t"
    show "wpK (namex_loop (length path + 1) devsw path parent name ip) Q t"
      by (rule namex_loop_wp [OF tr c0 bud t h _ path]) (use Q i in auto)
  qed
qed

lemma namei_wp:
  assumes tr: "tree_ok S c v" and c0: "icoh S v I" "card (active I) + 2 \<le> 50" and bud: "fsblk.budget L H c 6"
    and s: "fs S c v L H I s" and path: "0 \<notin> set path"
    and Q: "\<And>r J t. \<lbrakk>fs S c v L H J t; icoh S v J; found I J (resolve S v ROOTINO (path_elems path)) r\<rbrakk> \<Longrightarrow> Q r t"
  shows "wpK (namei devsw path) Q s"
  unfolding namei_def wpK_bindK
  by (rule namex_wp [OF tr c0 bud s path]) (use Q in \<open>auto simp: path_inode_def\<close>)

lemma nameiparent_wp:
  assumes tr: "tree_ok S c v" and c0: "icoh S v I" "card (active I) + 2 \<le> 50" and bud: "fsblk.budget L H c 6"
    and s: "fs S c v L H I s" and path: "0 \<notin> set path" "length name = DIRSIZ"
    and Q: "\<And>r nm J t. \<lbrakk>fs S c v L H J t; icoh S v J; length nm = DIRSIZ;
      found I J (path_inode S v ROOTINO True (path_elems path)) r;
      r \<noteq> None \<Longrightarrow> cname DIRSIZ nm = last (path_elems path)\<rbrakk> \<Longrightarrow> Q (r, nm) t"
  shows "wpK (nameiparent devsw path name) Q s"
  unfolding nameiparent_def by (rule namex_wp [OF tr c0 bud s path]) (use Q in auto)

end
