(* ===== verification/Filefree.thy ===== *)
theory Filefree
  imports Names
begin

text \<open>
  Truncation: \<open>itrunc\<close> gives every block of a file back to the bitmap, each exactly once, and the last
  \<open>iput\<close> of an inode without links frees the inode as well.
\<close>

section \<open>Giving blocks back\<close>

definition freed :: "superblock \<Rightarrow> 'z lctx \<Rightarrow> (uint \<Rightarrow> block) \<Rightarrow> uint set \<Rightarrow> (uint \<Rightarrow> block) \<Rightarrow> bool" where
  "freed S c v F v' \<longleftrightarrow> freeb S v' = freeb S v \<union> F \<and> bitmap_ok S c v' \<and> (\<forall>n. n \<noteq> sb_bmapstart S \<longrightarrow> v' n = v n)"

lemma freed_refl: "bitmap_ok S c v \<Longrightarrow> freed S c v {} v"
  by (simp add: freed_def)

lemma freed_wp:
  assumes s: "fs S c v' L' H I s" and g: "geo S c" and f: "freed S c v F v'" and b: "usable S c v b" "b \<notin> F"
    and gr: "grows {sb_bmapstart S} L L'" and bud: "fsblk.budget L H c 3"
    and Q: "\<And>v'' L'' t. \<lbrakk>fs S c v'' L'' H I t; freed S c v (insert b F) v''; grows {sb_bmapstart S} L L'';
      \<And>j m. holds s j m \<Longrightarrow> m \<in> pinned (set L') H \<Longrightarrow> holds t j m\<rbrakk> \<Longrightarrow> Q () t"
  shows "wpK (bfree ROOTDEV b) Q s"
proof -
  let ?bm = "sb_bmapstart S"
  have ok: "bitmap_ok S c v'" and fr: "freeb S v' = freeb S v \<union> F" using f by (simp_all add: freed_def)
  have b': "b < sb_size S" "b \<notin> freeb S v'" "b \<notin> meta S c" using b fr by (simp_all add: usable_def)
  have bud2: "fsblk.budget L' H c 2"
    by (rule budget_grows [OF bud gr]) (simp_all add: card_insert_if Diff_insert0 insert_Diff_if)
  note fb = freeb_free [OF b'(1,3) ok g]
  have "freed S c v (insert b F) (free_block S b v')"
    using fb fr f by (simp add: freed_def free_block_def)
  moreover have "grows {?bm} L (logged L' ?bm)"
    using grows_trans [OF gr grows_logged [of ?bm "{?bm}" L']] by simp
  ultimately show ?thesis by (intro bfree_wp [OF s g ok b'(1,2) bud2] Q)
qed

text \<open>The blocks of a file.\<close>

definition owned :: "(uint \<Rightarrow> block) \<Rightarrow> uint list \<Rightarrow> uint set" where
  "owned v A = (insert (A ! 12) (faddr v A ` {..<140})) - {0}"

lemma owned_parts: "owned v A = ((\<lambda>k. A ! k) ` {..<12} - {0}) \<union> ((\<lambda>j. faddr v A (12 + j)) ` {..<128} - {0}) \<union> ({A ! 12} - {0})"
proof -
  have "{..<140} = {..<12} \<union> (\<lambda>j. 12 + j) ` {..<128 :: nat}"
  proof -
    have "x \<in> {..<12} \<union> (\<lambda>j. 12 + j) ` {..<128}" if "x < 140" for x :: nat
      using that by (cases "x < 12") (auto intro: image_eqI [of _ _ "x - 12"])
    then show ?thesis by auto
  qed
  then have "faddr v A ` {..<140} = (\<lambda>k. faddr v A k) ` {..<12} \<union> (\<lambda>j. faddr v A (12 + j)) ` {..<128}"
    by (simp only: image_Un image_image)
  moreover have "(\<lambda>k. faddr v A k) ` {..<12} = (\<lambda>k. A ! k) ` {..<12}" by (auto simp: faddr_def)
  ultimately show ?thesis unfolding owned_def by auto
qed

lemma wf_direct:
  assumes "wf_file S c v A" "k < 12" "A ! k \<noteq> 0"
  shows "usable S c v (A ! k)" "A ! k \<notin> (\<lambda>j. A ! j) ` {..<k}" "A ! k \<noteq> A ! 12"
proof -
  have f: "faddr v A j = A ! j" if "j \<le> k" for j using that assms(2) by (simp add: faddr_def)
  have k: "k < 140" "faddr v A k \<noteq> 0" using assms f by simp_all
  note w = wf_fileD [OF assms(1)]
  show "usable S c v (A ! k)" "A ! k \<noteq> A ! 12" using w(3,4) [OF k] f by simp_all
  have "A ! j \<noteq> A ! k" if "j < k" for j
    using w(5) [OF k(1) _ k(2), of j] f [of j] f [of k] that k(1) by auto
  then show "A ! k \<notin> (\<lambda>j. A ! j) ` {..<k}" by force
qed

lemma wf_indirect:
  assumes "wf_file S c v A" "j < 128" "faddr v A (12 + j) \<noteq> 0"
  shows "usable S c v (faddr v A (12 + j))" "faddr v A (12 + j) \<notin> (\<lambda>i. faddr v A (12 + i)) ` {..<j}"
    "faddr v A (12 + j) \<noteq> A ! 12" "faddr v A (12 + j) \<notin> (\<lambda>k. A ! k) ` {..<12}"
proof -
  have k: "12 + j < 140" using assms(2) by simp
  note w = wf_fileD [OF assms(1)]
  show "usable S c v (faddr v A (12 + j))" "faddr v A (12 + j) \<noteq> A ! 12" using w(3,4) [OF k assms(3)] by simp_all
  have ne: "faddr v A i \<noteq> faddr v A (12 + j)" if "i < 12 + j" for i
    using w(5) [OF k _ assms(3), of i] that k by auto
  have "faddr v A (12 + i) \<noteq> faddr v A (12 + j)" if "i < j" for i using ne [of "12 + i"] that by simp
  then show "faddr v A (12 + j) \<notin> (\<lambda>i. faddr v A (12 + i)) ` {..<j}" by force
  have "A ! i \<noteq> faddr v A (12 + j)" if "i < 12" for i using ne [of i] that by (simp add: faddr_def)
  then show "faddr v A (12 + j) \<notin> (\<lambda>k. A ! k) ` {..<12}" by force
qed

section \<open>\<open>itrunc\<close>\<close>

lemma image_lessThan_Suc: "f ` {..<Suc k} = insert (f k) (f ` {..<k})"
  by (auto simp: lessThan_Suc)

lemma insert_minus_zero: "insert x F - {0} = (if x = 0 then F - {0} else insert x (F - {0}))"
  by auto

lemma zap:
  assumes "k < length A"
  shows "(replicate k 0 @ drop k A)[k := x] = replicate k 0 @ x # drop (Suc k) A" "(replicate k 0 @ drop k A) ! k = A ! k"
    "replicate k y @ y # zs = replicate (Suc k) y @ zs"
  using assms Cons_nth_drop_Suc [of k A, symmetric]
  by (simp_all add: list_update_append nth_append replicate_append_same [symmetric] del: replicate_append_same)

lemma itrunc_direct_wp:
  assumes o: "open_file S c v L H I ip s" and bud: "fsblk.budget L H c 3"
    and Q: "\<And>v' L' t. \<lbrakk>fs S c v' L' H (set_addrs I ip (replicate 12 0 @ drop 12 (i_addrs (I ip)))) t;
      freed S c v ((\<lambda>k. i_addrs (I ip) ! k) ` {..<12} - {0}) v'; grows {sb_bmapstart S} L L'\<rbrakk> \<Longrightarrow> Q () t"
  shows "wpK (for_range 0 NDIRECT (\<lambda>k.
       bindK (inode_get ip (\<lambda>i. (i_dev i, i_addrs i ! k))) (\<lambda>(dev, a).
       whenK (a \<noteq> 0) (
         thenK (bfree dev a)
         (inode_upd ip (\<lambda>i. i\<lparr>i_addrs := (i_addrs i)[k := 0]\<rparr>)))))) Q s"
proof -
  let ?A = "i_addrs (I ip)"
  note d = open_fileD [OF o]
  have len: "length ?A = 13" by (rule wf_fileD(1) [OF d(6)])
  let ?cut = "\<lambda>k. replicate k 0 @ drop k ?A"
  have cut: "(?cut k)[k := 0] = ?cut (Suc k)" "(?cut k) ! k = ?A ! k" if "k < 12" for k
    using zap [of k ?A] that len by simp_all
  have skip: "?cut k = ?cut (Suc k)" if "k < 12" "?A ! k = 0" for k
    using cut [OF that(1)] list_update_id [of "?cut k" k] that(2) by simp
  let ?I = "\<lambda>k t. \<exists>v' L'. fs S c v' L' H (set_addrs I ip (?cut k)) t \<and>
      freed S c v ((\<lambda>j. ?A ! j) ` {..<k} - {0}) v' \<and> grows {sb_bmapstart S} L L'"
  have "wpK (for_range 0 12 (\<lambda>k.
       bindK (inode_get ip (\<lambda>i. (i_dev i, i_addrs i ! k))) (\<lambda>(dev, a).
       whenK (a \<noteq> 0) (
         thenK (bfree dev a)
         (inode_upd ip (\<lambda>i. i\<lparr>i_addrs := (i_addrs i)[k := 0]\<rparr>)))))) (\<lambda>_. ?I 12) s"
  proof (rule wpK_for_range [where I = ?I])
    have "fs S c v L H (set_addrs I ip (?cut 0)) s" using d(1) by simp
    then show "?I 0 s" using freed_refl [OF d(3)] grows_refl [of "{sb_bmapstart S}" L] by (simp del: grows_refl) blast
    fix k t assume k: "k < (12 :: nat)" and "?I k t"
    then obtain v' L' where t: "fs S c v' L' H (set_addrs I ip (?cut k)) t"
      and f: "freed S c v ((\<lambda>j. ?A ! j) ` {..<k} - {0}) v'" and g: "grows {sb_bmapstart S} L L'" by blast
    have e: "i_dev (set_addrs I ip (?cut k) ip) = ROOTDEV" "i_addrs (set_addrs I ip (?cut k) ip) ! k = ?A ! k"
      using d(4) cut(2) [OF k] by simp_all
    have "wpK (whenK (?A ! k \<noteq> 0) (thenK (bfree ROOTDEV (?A ! k)) (inode_upd ip (\<lambda>i. i\<lparr>i_addrs := (i_addrs i)[k := 0]\<rparr>)))) (\<lambda>_. ?I (Suc k)) t"
    proof (cases "?A ! k = 0")
      case True
      have "?I (Suc k) t"
        using t f g skip [OF k True] True by (auto simp: image_lessThan_Suc insert_minus_zero simp del: replicate_Suc drop_Suc)
      then show ?thesis using True by simp
    next
      case False
      note w = wf_direct [OF d(6) k False]
      have "wpK (bfree ROOTDEV (?A ! k)) (\<lambda>_. wpK (inode_upd ip (\<lambda>i. i\<lparr>i_addrs := (i_addrs i)[k := 0]\<rparr>)) (\<lambda>_. ?I (Suc k))) t"
      proof (rule freed_wp [OF t d(2) f w(1) _ g bud])
        show "?A ! k \<notin> (\<lambda>j. ?A ! j) ` {..<k} - {0}" using w(2) by blast
        fix v'' L'' u assume u: "fs S c v'' L'' H (set_addrs I ip (?cut k)) u"
          and f': "freed S c v (insert (?A ! k) ((\<lambda>j. ?A ! j) ` {..<k} - {0})) v''" and g': "grows {sb_bmapstart S} L L''"
        show "wpK (inode_upd ip (\<lambda>i. i\<lparr>i_addrs := (i_addrs i)[k := 0]\<rparr>)) (\<lambda>_. ?I (Suc k)) u"
        proof (rule inode_upd_wp [OF u])
          fix x assume "fs S c v'' L'' H ((set_addrs I ip (?cut k))(ip := (set_addrs I ip (?cut k) ip)\<lparr>i_addrs :=
            (i_addrs (set_addrs I ip (?cut k) ip))[k := 0]\<rparr>)) x"
          then have "fs S c v'' L'' H (set_addrs I ip (?cut (Suc k))) x" using cut(1) [OF k] by (simp add: set_addrs_def)
          moreover have "freed S c v ((\<lambda>j. ?A ! j) ` {..<Suc k} - {0}) v''" using f' False by (simp add: image_lessThan_Suc insert_minus_zero)
          ultimately show "?I (Suc k) x" using g' by blast
        qed
      qed
      then show ?thesis using False by simp
    qed
    then show "wpK (bindK (inode_get ip (\<lambda>i. (i_dev i, i_addrs i ! k))) (\<lambda>(dev, a).
       whenK (a \<noteq> 0) (thenK (bfree dev a) (inode_upd ip (\<lambda>i. i\<lparr>i_addrs := (i_addrs i)[k := 0]\<rparr>))))) (\<lambda>_. ?I (Suc k)) t"
      unfolding inode_get_def wpK_bind_get fs_ic [OF t] e prod.case .
  qed simp
  then show ?thesis unfolding N_consts by (rule wpK_mono) (use Q in auto)
qed

text \<open>The entries of the indirect block, which is held in the buffer \<open>bp\<close>.\<close>

lemma itrunc_entries_wp:
  assumes A: "wf_file S c v A" and n: "A ! 12 \<noteq> 0" and g: "geo S c" and bud: "fsblk.budget L H c 3"
    and s: "fs S c v1 L1 H J s" "holds s bp (A ! 12)" and H: "0 < H (A ! 12)"
    and f: "freed S c v F v1" "F \<subseteq> (\<lambda>k. A ! k) ` {..<12}" and gr: "grows {sb_bmapstart S} L L1"
    and Q: "\<And>v' L' t. \<lbrakk>fs S c v' L' H J t; holds t bp (A ! 12);
      freed S c v (F \<union> ((\<lambda>j. faddr v A (12 + j)) ` {..<128} - {0})) v'; grows {sb_bmapstart S} L L'\<rbrakk> \<Longrightarrow> Q () t"
  shows "wpK (for_range 0 NINDIRECT (\<lambda>j.
         bindK (getK (\<lambda>s. get_uint j (b_data (bufs s bp)))) (\<lambda>e. whenK (e \<noteq> 0) (bfree ROOTDEV e)))) Q s"
proof -
  let ?n = "A ! 12" and ?e = "\<lambda>j. faddr v A (12 + j)"
  note us = usableD [OF wf_fileD(2) [OF A n] g]
  let ?I = "\<lambda>j t. \<exists>v' L'. fs S c v' L' H J t \<and> holds t bp ?n \<and> freed S c v (F \<union> (?e ` {..<j} - {0})) v' \<and>
      grows {sb_bmapstart S} L L'"
  have "wpK (for_range 0 128 (\<lambda>j.
         bindK (getK (\<lambda>s. get_uint j (b_data (bufs s bp)))) (\<lambda>e. whenK (e \<noteq> 0) (bfree ROOTDEV e)))) (\<lambda>_. ?I 128) s"
  proof (rule wpK_for_range [where I = ?I])
    show "?I 0 s" using s f(1) gr by (intro exI [of _ v1] exI [of _ L1]) simp
    fix j t assume j: "j < (128 :: nat)" and "?I j t"
    then obtain v' L' where t: "fs S c v' L' H J t" "holds t bp ?n" and f': "freed S c v (F \<union> (?e ` {..<j} - {0})) v'"
      and g': "grows {sb_bmapstart S} L L'" by blast
    have "v' ?n = v ?n" using f' us(3) by (simp add: freed_def)
    then have e: "get_uint j (b_data (bufs t bp)) = ?e j"
      using kf.contents_law [OF t] n by (simp add: faddr_def)
    have "wpK (whenK (?e j \<noteq> 0) (bfree ROOTDEV (?e j))) (\<lambda>_. ?I (Suc j)) t"
    proof (cases "?e j = 0")
      case True
      have "?I (Suc j) t" unfolding image_lessThan_Suc insert_minus_zero using t f' g' True by auto
      then show ?thesis using True by simp
    next
      case False
      note w = wf_indirect [OF A j False]
      have "wpK (bfree ROOTDEV (?e j)) (\<lambda>_. ?I (Suc j)) t"
      proof (rule freed_wp [OF t(1) g f' w(1) _ g' bud])
        show "?e j \<notin> F \<union> (?e ` {..<j} - {0})" using w(2,4) f(2) by blast
        fix v'' L'' u assume u: "fs S c v'' L'' H J u" "freed S c v (insert (?e j) (F \<union> (?e ` {..<j} - {0}))) v''"
          "grows {sb_bmapstart S} L L''" and h: "\<And>j m. holds t j m \<Longrightarrow> m \<in> pinned (set L') H \<Longrightarrow> holds u j m"
        have "holds u bp ?n" by (rule h [OF t(2)]) (use H in \<open>simp add: pinned_def\<close>)
        moreover have "insert (?e j) (F \<union> (?e ` {..<j} - {0})) = F \<union> (?e ` {..<Suc j} - {0})"
          unfolding image_lessThan_Suc insert_minus_zero using False by simp
        ultimately show "?I (Suc j) u" using u by metis
      qed
      then show ?thesis using False by simp
    qed
    then show "wpK (bindK (getK (\<lambda>s. get_uint j (b_data (bufs s bp)))) (\<lambda>e. whenK (e \<noteq> 0) (bfree ROOTDEV e))) (\<lambda>_. ?I (Suc j)) t"
      unfolding wpK_bind_get e .
  qed simp
  then show ?thesis unfolding N_consts by (rule wpK_mono) (use Q in auto)
qed

text \<open>The truncated inode.\<close>

definition emptied :: "inode \<Rightarrow> inode" where
  "emptied i = i\<lparr>i_addrs := replicate 13 0, i_size := 0\<rparr>"

lemma itrunc_wp:
  assumes o: "open_file S c v L H I ip s" and bud: "fsblk.budget L H c 6"
    and Q: "\<And>v' L' t. \<lbrakk>freed S c v (owned v (i_addrs (I ip))) v';
      fs S c (put_dino S (i_inum (I ip)) (to_dinode (emptied (I ip))) v') L' H (I(ip := emptied (I ip))) t;
      grows {sb_bmapstart S, IBLOCK (i_inum (I ip)) S} L L'\<rbrakk> \<Longrightarrow> Q () t"
  shows "wpK (itrunc ip) Q s"
proof -
  let ?A = "i_addrs (I ip)" and ?bm = "sb_bmapstart S" and ?ib = "IBLOCK (i_inum (I ip)) S"
  let ?D = "(\<lambda>k. ?A ! k) ` {..<12} - {0}" and ?E = "(\<lambda>j. faddr v ?A (12 + j)) ` {..<128} - {0}"
  note d = open_fileD [OF o]
  have len: "length ?A = 13" by (rule wf_fileD(1) [OF d(6)])
  let ?B = "replicate 12 0 @ drop 12 ?A"
  have B12: "?B ! 12 = ?A ! 12" "?B[12 := 0] = replicate 13 0" "?A ! 12 = 0 \<Longrightarrow> ?B = replicate 13 0"
  proof -
    show "?B ! 12 = ?A ! 12" using zap(2) [of 12 ?A] len by simp
    show "?B[12 := 0] = replicate 13 0" by (rule nth_equalityI) (use len in \<open>auto simp: nth_append nth_list_update\<close>)
    then show "?A ! 12 = 0 \<Longrightarrow> ?B = replicate 13 0" using \<open>?B ! 12 = ?A ! 12\<close> list_update_id [of ?B 12] by simp
  qed
  have b3: "fsblk.budget L H c 3" by (rule fsblk.budget_mono [OF bud]) simp
  have fin: "wpK (thenK (inode_upd ip (\<lambda>i. i\<lparr>i_size := 0\<rparr>)) (iupdate ip)) Q u"
    if u: "fs S c v' L' H (set_addrs I ip (replicate 13 0)) u" and f: "freed S c v (owned v ?A) v'" and g: "grows {?bm} L L'" for v' L' u
    unfolding wpK_thenK
  proof (rule inode_upd_wp [OF u])
    fix x assume "fs S c v' L' H ((set_addrs I ip (replicate 13 0))(ip := (set_addrs I ip (replicate 13 0) ip)\<lparr>i_size := 0\<rparr>)) x"
    then have x: "fs S c v' L' H (I(ip := emptied (I ip))) x" by (simp add: set_addrs_def emptied_def)
    have b2: "fsblk.budget L' H c 2" by (rule budget_grows [OF bud g]) (simp_all add: insert_Diff_if)
    show "wpK (iupdate ip) Q x"
    proof (rule iupdate_wp [OF x d(2) _ _ _ b2])
      fix y assume "fs S c (put_dino S (i_inum ((I(ip := emptied (I ip))) ip)) (to_dinode ((I(ip := emptied (I ip))) ip)) v')
        (logged L' (IBLOCK (i_inum ((I(ip := emptied (I ip))) ip)) S)) H (I(ip := emptied (I ip))) y"
      then have "fs S c (put_dino S (i_inum (I ip)) (to_dinode (emptied (I ip))) v') (logged L' ?ib) H (I(ip := emptied (I ip))) y"
        by (simp add: emptied_def)
      moreover have "grows ({?bm} \<union> {?ib}) L (logged L' ?ib)" by (rule grows_trans [OF g grows_logged]) simp
      ultimately show "Q () y" using Q [OF f] by (simp add: insert_commute)
    qed (use d(4,5) in \<open>simp_all add: emptied_def\<close>)
  qed
  show ?thesis
    unfolding itrunc_def wpK_thenK [of "for_range 0 NDIRECT _"]
  proof (rule itrunc_direct_wp [OF o b3])
    fix v1 L1 t assume t: "fs S c v1 L1 H (set_addrs I ip ?B) t" and f: "freed S c v ?D v1" and g: "grows {?bm} L L1"
    have e: "(i_dev (set_addrs I ip ?B ip), i_addrs (set_addrs I ip ?B ip) ! NDIRECT) = (ROOTDEV, ?A ! 12)" using d(4) B12 by simp
    let ?ind = "\<lambda>dev a. bindK (bread dev a) (\<lambda>bp.
       thenK (for_range 0 NINDIRECT (\<lambda>j.
         bindK (getK (\<lambda>s. get_uint j (b_data (bufs s bp)))) (\<lambda>e.
         whenK (e \<noteq> 0) (bfree dev e)))) (
       thenK (brelse bp) (
       thenK (bfree dev a)
       (inode_upd ip (\<lambda>i. i\<lparr>i_addrs := (i_addrs i)[NDIRECT := 0]\<rparr>)))))"
    have "wpK (whenK (?A ! 12 \<noteq> 0) (?ind ROOTDEV (?A ! 12))) (\<lambda>_. wpK (thenK (inode_upd ip (\<lambda>i. i\<lparr>i_size := 0\<rparr>)) (iupdate ip)) Q) t"
    proof (cases "?A ! 12 = 0")
      case True
      have "?E = {}" using True by (auto simp: faddr_def)
      then have "owned v ?A = ?D" using True unfolding owned_parts by auto
      then show ?thesis using fin t f g True B12(3) by simp
    next
      case False
      let ?n = "?A ! 12"
      note us = usableD [OF wf_fileD(2) [OF d(6) False] d(2)]
      have b6: "fsblk.budget L1 H c 5" by (rule budget_grows [OF bud g]) (simp_all add: insert_Diff_if)
      have "wpK (?ind ROOTDEV ?n) (\<lambda>_. wpK (thenK (inode_upd ip (\<lambda>i. i\<lparr>i_size := 0\<rparr>)) (iupdate ip)) Q) t"
        unfolding wpK_bindK [of "bread _ _"]
      proof (rule kf.rd_wp [OF t us(1) fsblk.budget_mono [OF b6]])
        fix bp u assume u: "fs S c v1 L1 (H(?n := Suc (H ?n))) (set_addrs I ip ?B) u" "holds u bp ?n"
        have bH: "fsblk.budget L (H(?n := Suc (H ?n))) c 3" by (rule fsblk.budget_hold, rule fsblk.budget_mono [OF bud]) simp
        show "wpK (thenK (for_range 0 NINDIRECT (\<lambda>j.
         bindK (getK (\<lambda>s. get_uint j (b_data (bufs s bp)))) (\<lambda>e.
         whenK (e \<noteq> 0) (bfree ROOTDEV e)))) (
       thenK (brelse bp) (
       thenK (bfree ROOTDEV ?n)
       (inode_upd ip (\<lambda>i. i\<lparr>i_addrs := (i_addrs i)[NDIRECT := 0]\<rparr>)))))
         (\<lambda>_. wpK (thenK (inode_upd ip (\<lambda>i. i\<lparr>i_size := 0\<rparr>)) (iupdate ip)) Q) u"
          unfolding wpK_thenK [of "for_range 0 NINDIRECT _"]
        proof (rule itrunc_entries_wp [OF d(6) False d(2) bH u _ f _ g])
          fix v2 L2 w assume w: "fs S c v2 L2 (H(?n := Suc (H ?n))) (set_addrs I ip ?B) w" "holds w bp ?n"
            and f2: "freed S c v (?D \<union> ?E) v2" and g2: "grows {?bm} L L2"
          show "wpK (thenK (brelse bp) (thenK (bfree ROOTDEV ?n) (inode_upd ip (\<lambda>i. i\<lparr>i_addrs := (i_addrs i)[NDIRECT := 0]\<rparr>))))
            (\<lambda>_. wpK (thenK (inode_upd ip (\<lambda>i. i\<lparr>i_size := 0\<rparr>)) (iupdate ip)) Q) w"
          proof (rule kf.rel_then_wp [OF w])
            fix x assume x: "fs S c v2 L2 H (set_addrs I ip ?B) x"
            have no: "?n \<notin> ?D \<union> ?E" using wf_direct(3) [OF d(6)] wf_indirect(3) [OF d(6)] by fastforce
            have own: "insert ?n (?D \<union> ?E) = owned v ?A" unfolding owned_parts using False by auto
            show "wpK (thenK (bfree ROOTDEV ?n) (inode_upd ip (\<lambda>i. i\<lparr>i_addrs := (i_addrs i)[NDIRECT := 0]\<rparr>)))
              (\<lambda>_. wpK (thenK (inode_upd ip (\<lambda>i. i\<lparr>i_size := 0\<rparr>)) (iupdate ip)) Q) x"
              unfolding wpK_thenK [of "bfree _ _"]
            proof (rule freed_wp [OF x d(2) f2 wf_fileD(2) [OF d(6) False] no g2 b3])
              fix v3 L3 y assume y: "fs S c v3 L3 H (set_addrs I ip ?B) y" and f3: "freed S c v (insert ?n (?D \<union> ?E)) v3"
                and g3: "grows {?bm} L L3"
              show "wpK (inode_upd ip (\<lambda>i. i\<lparr>i_addrs := (i_addrs i)[NDIRECT := 0]\<rparr>))
                (\<lambda>_. wpK (thenK (inode_upd ip (\<lambda>i. i\<lparr>i_size := 0\<rparr>)) (iupdate ip)) Q) y"
                by (rule inode_upd_wp [OF y]) (rule fin [OF _ f3 [unfolded own] g3], use B12(2) in \<open>simp add: set_addrs_def\<close>)
            qed
          qed
        qed auto
      qed simp
      then show ?thesis using False by simp
    qed
    then show "wpK (bindK (inode_get ip (\<lambda>i. (i_dev i, i_addrs i ! NDIRECT))) (\<lambda>(dev, a).
     thenK (whenK (a \<noteq> 0) (?ind dev a)) (thenK (inode_upd ip (\<lambda>i. i\<lparr>i_size := 0\<rparr>)) (iupdate ip)))) Q t"
      unfolding inode_get_def wpK_bind_get fs_ic [OF t] e prod.case wpK_thenK [of "whenK _ _"] .
  qed
qed

section \<open>The last reference to an unlinked inode\<close>

lemma thenK_assoc: "thenK (thenK a b) c = thenK a (thenK b c)"
  by (simp add: thenK_def bindK_assoc)

lemma wpK_result: "m s = Inr (x, t) \<Longrightarrow> wpK m Q s = Q x t"
  by (simp add: wpK_def)

lemma whenK_True: "whenK True m = m"
  by (simp add: whenK_def)

lemma put_dino_twice:
  assumes "length (v (IBLOCK i S)) = 512" "length (di_addrs d) = 13" "length (di_addrs e) = 13"
  shows "put_dino S i e (put_dino S i d v) = put_dino S i e v"
  using assms inode_off_le [of i] by (simp add: put_dino_def overwrite_overwrite)

definition dropped :: "inode \<Rightarrow> inode" where
  "dropped i = (emptied i)\<lparr>i_type := 0, i_valid := 0, i_ref := 0\<rparr>"

lemma cli_unref_wp:
  assumes s: "fs S c v L H I s" and Q: "\<And>t. fs S c v L H (unref I ip) t \<Longrightarrow> Q () t"
  shows "wpK (thenK pushcli (thenK (inode_upd ip (\<lambda>i. i\<lparr>i_ref := i_ref i - 1\<rparr>)) popcli)) Q s"
proof -
  have wf: "0 \<le> ncli s" "ncli s < INT_MAX" "0 < ncli s \<Longrightarrow> \<not> eflags_if s" using fs_cpu [OF s] by (auto simp: cpu_wf_def)
  have pop: "popcli (s\<lparr>eflags_if := False, intena := (if ncli s = 0 then eflags_if s else intena s),
      ncli := ncli s + 1, icache := J\<rparr>) = Inr ((), (settle s)\<lparr>icache := J\<rparr>)" for J
    using wf by (cases s) (auto simp: settle_def)
  have "thenK pushcli (thenK (inode_upd ip (\<lambda>i. i\<lparr>i_ref := i_ref i - 1\<rparr>)) popcli) s = Inr ((), (settle s)\<lparr>icache := unref I ip\<rparr>)"
    using wf(2) by (simp add: inode_upd_def fs_ic [OF s] unref_def pop)
  moreover have "fs S c v L H (unref I ip) ((settle s)\<lparr>icache := unref I ip\<rparr>)"
    by (rule fs_icache) (use s in \<open>simp add: fs_settle\<close>)
  ultimately show ?thesis using Q by (intro wpK_I)
qed

lemma iput_last_wp:
  assumes o: "open_file S c v L H I ip s" and last: "i_valid (I ip) \<noteq> 0" "i_nlink (I ip) = 0" "i_ref (I ip) = 1"
    and bud: "fsblk.budget L H c 6"
    and Q: "\<And>v' L' t. \<lbrakk>freed S c v (owned v (i_addrs (I ip))) v';
      fs S c (put_dino S (i_inum (I ip)) (to_dinode (dropped (I ip))) v') L' H (I(ip := dropped (I ip))) t;
      grows {sb_bmapstart S, IBLOCK (i_inum (I ip)) S} L L'\<rbrakk> \<Longrightarrow> Q () t"
  shows "wpK (iput ip) Q s"
proof -
  note d = open_fileD [OF o]
  let ?i = "i_inum (I ip)" and ?bm = "sb_bmapstart S" and ?ib = "IBLOCK (i_inum (I ip)) S"
  have wf: "0 \<le> ncli s" "ncli s < INT_MAX" "0 < ncli s \<Longrightarrow> \<not> eflags_if s" using fs_cpu [OF d(1)] by (auto simp: cpu_wf_def)
  let ?s1 = "s\<lparr>eflags_if := False, intena := (if ncli s = 0 then eflags_if s else intena s), ncli := ncli s + 1\<rparr>"
  have push: "pushcli s = Inr ((), ?s1)" using wf(2) by (rule pushcli_eq)
  have pop: "popcli ?s1 = Inr ((), settle s)" using wf by (cases s) (auto simp: settle_def)
  have ic: "icache ?s1 = I" using fs_ic [OF d(1)] by simp
  let ?tail = "thenK pushcli (thenK (inode_upd ip (\<lambda>i. i\<lparr>i_ref := i_ref i - 1\<rparr>)) popcli)"
  let ?m = "thenK (itrunc ip) (thenK (inode_upd ip (\<lambda>i. i\<lparr>i_type := 0\<rparr>)) (thenK (iupdate ip)
    (thenK (inode_upd ip (\<lambda>i. i\<lparr>i_valid := 0\<rparr>)) ?tail)))"
  have c1: "(i_valid (I ip) \<noteq> 0 \<and> i_nlink (I ip) = 0 \<and> i_ref (I ip) = 1) = True" using last by simp
  have eq: "wpK (iput ip) Q s = wpK ?m Q (settle s)"
    unfolding iput_def wpK_thenK [of pushcli] wpK_result [where m = pushcli, OF push] inode_get_def wpK_bind_get ic id_apply c1 whenK_True
      thenK_assoc wpK_thenK [of popcli] wpK_result [where m = popcli, OF pop] ..
  have o': "open_file S c v L H I ip (settle s)" using o by (simp add: open_file_def fs_settle)
  show ?thesis
    unfolding eq wpK_thenK [of "itrunc ip"]
  proof (rule itrunc_wp [OF o' bud])
    fix v' L' t assume f: "freed S c v (owned v (i_addrs (I ip))) v'"
      and t: "fs S c (put_dino S ?i (to_dinode (emptied (I ip))) v') L' H (I(ip := emptied (I ip))) t"
      and g: "grows {?bm, ?ib} L L'"
    let ?v = "put_dino S ?i (to_dinode (emptied (I ip))) v'"
    have b2: "fsblk.budget L' H c 2" by (rule budget_grows [OF bud g]) (use card_pair [of ?bm ?ib "set L"] in simp_all)
    let ?z = "(emptied (I ip))\<lparr>i_type := 0\<rparr>"
    show "wpK (thenK (inode_upd ip (\<lambda>i. i\<lparr>i_type := 0\<rparr>)) (thenK (iupdate ip)
      (thenK (inode_upd ip (\<lambda>i. i\<lparr>i_valid := 0\<rparr>)) ?tail))) Q t"
      unfolding wpK_thenK [of "inode_upd ip _"]
    proof (rule inode_upd_wp [OF t])
      fix u assume "fs S c ?v L' H ((I(ip := emptied (I ip)))(ip := (((I(ip := emptied (I ip))) ip)\<lparr>i_type := 0\<rparr>))) u"
      then have u: "fs S c ?v L' H (I(ip := ?z)) u" by simp
      have len: "length (v' ?ib) = 512"
      proof -
        have ib: "?ib \<in> iblocks S" by (rule iblock [OF d(5)])
        then have "?ib \<noteq> ?bm" using geoD(4) [OF d(2)] by auto
        then have "v' ?ib = v ?ib" using f by (simp add: freed_def)
        then show ?thesis using kf.length_law [OF d(1) geoD(5) [OF d(2) ib]] by simp
      qed
      have tw: "put_dino S ?i (to_dinode ?z) ?v = put_dino S ?i (to_dinode (dropped (I ip))) v'"
        by (subst put_dino_twice) (simp_all add: len to_dinode_def emptied_def dropped_def)
      show "wpK (thenK (iupdate ip) (thenK (inode_upd ip (\<lambda>i. i\<lparr>i_valid := 0\<rparr>)) ?tail)) Q u"
        unfolding wpK_thenK [of "iupdate ip"]
      proof (rule iupdate_wp [OF u d(2) _ _ _ b2])
        fix w assume "fs S c (put_dino S (i_inum ((I(ip := ?z)) ip)) (to_dinode ((I(ip := ?z)) ip)) ?v)
          (logged L' (IBLOCK (i_inum ((I(ip := ?z)) ip)) S)) H (I(ip := ?z)) w"
        then have w: "fs S c (put_dino S ?i (to_dinode (dropped (I ip))) v') (logged L' ?ib) H (I(ip := ?z)) w"
          using tw by (simp add: emptied_def)
        have g2: "grows {?bm, ?ib} L (logged L' ?ib)"
          using grows_trans [OF g grows_logged [of ?ib "{?ib}" L']] by (simp add: insert_commute)
        show "wpK (thenK (inode_upd ip (\<lambda>i. i\<lparr>i_valid := 0\<rparr>)) ?tail) Q w"
          unfolding wpK_thenK [of "inode_upd ip (\<lambda>i. i\<lparr>i_valid := 0\<rparr>)"]
        proof (rule inode_upd_wp [OF w])
          fix x assume "fs S c (put_dino S ?i (to_dinode (dropped (I ip))) v') (logged L' ?ib) H
            ((I(ip := ?z))(ip := ((I(ip := ?z)) ip)\<lparr>i_valid := 0\<rparr>)) x"
          then have x: "fs S c (put_dino S ?i (to_dinode (dropped (I ip))) v') (logged L' ?ib) H (I(ip := ?z\<lparr>i_valid := 0\<rparr>)) x" by simp
          have fin: "unref (I(ip := ?z\<lparr>i_valid := 0\<rparr>)) ip = I(ip := dropped (I ip))"
            using last(3) by (simp add: unref_def dropped_def emptied_def)
          show "wpK ?tail Q x" by (rule cli_unref_wp [OF x]) (use Q [OF f _ g2] in \<open>simp add: fin\<close>)
        qed
      qed (use d(4,5) in \<open>simp_all add: emptied_def\<close>)
    qed
  qed
qed

end
