(* ===== verification/File.thy ===== *)
theory File
  imports Filefree
begin

text \<open>
  \<^verbatim>\<open>file.c\<close>: the table of open files, reading and writing through it, and the operations on path names.
  The theorem on the size of a write transaction is in \<^verbatim>\<open>Fsthms\<close>.
\<close>

datatype ftype = FD_NONE | FD_INODE

record file_s =
  f_type :: ftype
  f_ref :: int
  f_readable :: bool
  f_writable :: bool
  f_ip :: nat
  f_off :: uint

record kfile = kfs +
  ftable :: "nat \<Rightarrow> file_s"

definition NFILE :: nat where "NFILE = 100"
definition O_RDONLY :: uint where "O_RDONLY = 0x000"
definition O_WRONLY :: uint where "O_WRONLY = 0x001"
definition O_RDWR :: uint where "O_RDWR = 0x002"
definition O_CREATE :: uint where "O_CREATE = 0x200"
definition CONSOLE :: int where "CONSOLE = 1"

text \<open>\<^verbatim>\<open>consoleinit\<close> enters the console into the table of devices.\<close>

definition consoleinit :: "('z kfile_scheme, unit) kern \<Rightarrow> 'z kfile_scheme devsw \<Rightarrow> 'z kfile_scheme devsw" where
  "consoleinit intr devsw = devsw\<lparr>
     dev_write := (dev_write devsw)(CONSOLE := Some (\<lambda>buf n. consolewrite buf n)),
     dev_read := (dev_read devsw)(CONSOLE := Some (\<lambda>n. consoleread intr n))\<rparr>"

section \<open>Operations\<close>

definition fileinit :: "('z kfile_scheme, unit) kern" where
  "fileinit = ret ()"

definition file_get :: "nat \<Rightarrow> (file_s \<Rightarrow> 'a) \<Rightarrow> ('z kfile_scheme, 'a) kern" where
  "file_get f g = getK (\<lambda>s. g (ftable s f))"

definition file_upd :: "nat \<Rightarrow> (file_s \<Rightarrow> file_s) \<Rightarrow> ('z kfile_scheme, unit) kern" where
  "file_upd f g = modK (\<lambda>s. s\<lparr>ftable := (ftable s)(f := g (ftable s f))\<rparr>)"

text \<open>The first entry with \<^verbatim>\<open>ref == 0\<close> among the \<open>k\<close> entries from \<open>f\<close> on.\<close>

primrec filealloc_scan :: "nat \<Rightarrow> nat \<Rightarrow> (nat \<Rightarrow> file_s) \<Rightarrow> nat option" where
  "filealloc_scan 0 f T = None"
| "filealloc_scan (Suc k) f T = (if f_ref (T f) = 0 then Some f else filealloc_scan k (Suc f) T)"

definition filealloc :: "('z kfile_scheme, nat option) kern" where
  "filealloc =
     thenK pushcli (
     bindK (getK (\<lambda>s. filealloc_scan NFILE 0 (ftable s))) (\<lambda>r. case r of
       Some f \<Rightarrow> thenK (file_upd f (\<lambda>x. x\<lparr>f_ref := 1\<rparr>)) (thenK popcli (ret (Some f)))
     | None \<Rightarrow> thenK popcli (ret None)))"

definition filedup :: "nat \<Rightarrow> ('z kfile_scheme, nat) kern" where
  "filedup f =
     thenK pushcli (
     bindK (file_get f f_ref) (\<lambda>r.
     if r < 1 then panic ''filedup'' else
     thenK (file_upd f (\<lambda>x. x\<lparr>f_ref := f_ref x + 1\<rparr>)) (
     thenK popcli (ret f))))"

definition fileclose :: "nat \<Rightarrow> ('z kfile_scheme, unit) kern" where
  "fileclose f =
     thenK pushcli (
     bindK (file_get f f_ref) (\<lambda>r.
     if r < 1 then panic ''fileclose'' else
     thenK (file_upd f (\<lambda>x. x\<lparr>f_ref := r - 1\<rparr>)) (
     if r - 1 > 0 then popcli else
     bindK (file_get f id) (\<lambda>ff.
     thenK (file_upd f (\<lambda>x. x\<lparr>f_ref := 0, f_type := FD_NONE\<rparr>)) (
     thenK popcli (
     whenK (f_type ff = FD_INODE) (
       thenK begin_op (
       thenK (iput (f_ip ff))
       end_op))))))))"

definition filestat :: "nat \<Rightarrow> ('z kfile_scheme, int \<times> stat option) kern" where
  "filestat f =
     bindK (file_get f id) (\<lambda>x.
     if f_type x = FD_INODE then
       thenK (iread (Some (f_ip x))) (
       bindK (stati (f_ip x)) (\<lambda>st. ret (0, Some st)))
     else ret (- 1, None))"

text \<open>\<open>fileread\<close> returns the bytes it puts at \<^verbatim>\<open>addr\<close>.\<close>

definition fileread :: "'z kfile_scheme devsw \<Rightarrow> nat \<Rightarrow> int \<Rightarrow> ('z kfile_scheme, int \<times> uchar list) kern" where
  "fileread devsw f n =
     bindK (file_get f id) (\<lambda>x.
     if \<not> f_readable x then ret (- 1, []) else
     if f_type x = FD_INODE then
       thenK (iread (Some (f_ip x))) (
       bindK (readi devsw (f_ip x) (f_off x) (of_int n)) (\<lambda>(r, bs).
       thenK (whenK (r > 0) (file_upd f (\<lambda>x. x\<lparr>f_off := f_off x + of_int r\<rparr>)))
       (ret (r, bs))))
     else panic ''fileread'')"

definition max_write :: int where
  "max_write = ((int MAXOPBLOCKS - 1 - 1 - 2) div 2) * 512"

text \<open>
  The loop of \<open>filewrite\<close>. It leaves the loop on an error; otherwise \<open>i\<close> advances by up to 1536 bytes, so that
  \<open>n / 1536 + 2\<close> iterations suffice.
\<close>

primrec filewrite_loop ::
  "nat \<Rightarrow> 'z kfile_scheme devsw \<Rightarrow> nat \<Rightarrow> uchar list \<Rightarrow> int \<Rightarrow> int \<Rightarrow> ('z kfile_scheme, int) kern" where
  "filewrite_loop 0 = (\<lambda>devsw f addr n i. spin)"
| "filewrite_loop (Suc fuel) = (\<lambda>devsw f addr n i.
     if \<not> i < n then ret i else
     let n1 = (if n - i > max_write then max_write else n - i) in
     thenK begin_op (
     bindK (file_get f f_ip) (\<lambda>ip.
     thenK (iread (Some ip)) (
     bindK (file_get f f_off) (\<lambda>off.
     bindK (writei devsw ip (drop (nat i) addr) off (of_int n1)) (\<lambda>r.
     thenK (whenK (r > 0) (file_upd f (\<lambda>x. x\<lparr>f_off := f_off x + of_int r\<rparr>))) (
     thenK end_op (
     if r < 0 then ret i else
     if r \<noteq> n1 then panic ''short filewrite'' else
     filewrite_loop fuel devsw f addr n (i + r)))))))))"

definition filewrite :: "'z kfile_scheme devsw \<Rightarrow> nat \<Rightarrow> uchar list \<Rightarrow> int \<Rightarrow> ('z kfile_scheme, int) kern" where
  "filewrite devsw f addr n =
     bindK (file_get f id) (\<lambda>x.
     if \<not> f_writable x then ret (- 1) else
     if f_type x = FD_INODE then
       bindK (filewrite_loop (nat n div 1536 + 2) devsw f addr n 0) (\<lambda>i.
       ret (if i = n then n else - 1))
     else panic ''filewrite'')"

primrec isdirempty_loop :: "nat \<Rightarrow> 'z kfile_scheme devsw \<Rightarrow> nat \<Rightarrow> uint \<Rightarrow> ('z kfile_scheme, bool) kern" where
  "isdirempty_loop 0 = (\<lambda>devsw dp off. spin)"
| "isdirempty_loop (Suc fuel) = (\<lambda>devsw dp off.
     bindK (inode_get dp i_size) (\<lambda>sz.
     if \<not> off < sz then ret True else
     bindK (readi devsw dp off 16) (\<lambda>(r, de).
     if r \<noteq> 16 then panic ''isdirempty: readi'' else
     if de_inum (dirent_of de) \<noteq> 0 then ret False
     else isdirempty_loop fuel devsw dp (off + 16))))"

definition isdirempty :: "'z kfile_scheme devsw \<Rightarrow> nat \<Rightarrow> ('z kfile_scheme, bool) kern" where
  "isdirempty devsw dp =
     bindK (inode_get dp i_size) (\<lambda>sz. isdirempty_loop (unat sz div 16 + 2) devsw dp (2 * 16))"

text \<open>The code from the label \<^verbatim>\<open>bad\<close> on.\<close>

definition unlink_bad :: "nat \<Rightarrow> ('z kfile_scheme, int) kern" where
  "unlink_bad dp = thenK (iput dp) (thenK end_op (ret (- 1)))"

definition unlink :: "'z kfile_scheme devsw \<Rightarrow> uchar list \<Rightarrow> uchar list \<Rightarrow> ('z kfile_scheme, int) kern" where
  "unlink devsw path name =
     thenK begin_op (
     bindK (nameiparent devsw path name) (\<lambda>(p, name). case p of
       None \<Rightarrow> thenK end_op (ret (- 1))
     | Some dp \<Rightarrow>
       thenK (iread (Some dp)) (
       if namecmp name (str ''.'') = 0 \<or> namecmp name (str ''..'') = 0 then unlink_bad dp else
       bindK (dirlookup devsw dp name) (\<lambda>q. case q of
         None \<Rightarrow> unlink_bad dp
       | Some (ip, off) \<Rightarrow>
         thenK (iread (Some ip)) (
         bindK (inode_get ip id) (\<lambda>i.
         if sint (i_nlink i) < 1 then panic ''unlink: nlink < 1'' else
         bindK (if i_type i = T_DIR then bindK (isdirempty devsw ip) (\<lambda>b. ret (\<not> b)) else ret False) (\<lambda>nonempty.
         if nonempty then thenK (iput ip) (unlink_bad dp) else
         bindK (writei devsw dp (replicate 16 0) off 16) (\<lambda>r.
         if r \<noteq> 16 then panic ''unlink: writei'' else
         thenK (whenK (i_type i = T_DIR) (
           thenK (inode_upd dp (\<lambda>d. d\<lparr>i_nlink := i_nlink d - 1\<rparr>))
           (iupdate dp))) (
         thenK (iput dp) (
         thenK (inode_upd ip (\<lambda>i. i\<lparr>i_nlink := i_nlink i - 1\<rparr>)) (
         thenK (iupdate ip) (
         thenK (iput ip) (
         thenK end_op (ret 0))))))))))))))"

text \<open>
  \<open>create\<close>; \<^verbatim>\<open>name\<close> is a local array whose first contents are not used. \<open>ialloc\<close> never returns 0: it panics
  when no inode is free.
\<close>

definition create ::
  "'z kfile_scheme devsw \<Rightarrow> uchar list \<Rightarrow> ushort \<Rightarrow> ushort \<Rightarrow> ushort \<Rightarrow> ('z kfile_scheme, nat option) kern" where
  "create devsw path type major minor =
     bindK (nameiparent devsw path (replicate DIRSIZ 0)) (\<lambda>(p, name). case p of
       None \<Rightarrow> ret None
     | Some dp \<Rightarrow>
       thenK (iread (Some dp)) (
       bindK (dirlookup devsw dp name) (\<lambda>q. case q of
         Some (ip, _) \<Rightarrow>
           thenK (iput dp) (
           thenK (iread (Some ip)) (
           bindK (inode_get ip i_type) (\<lambda>ty.
           if type = T_FILE \<and> ty = T_FILE then ret (Some ip)
           else thenK (iput ip) (ret None))))
       | None \<Rightarrow>
           bindK (inode_get dp i_dev) (\<lambda>dev.
           bindK (ialloc dev type) (\<lambda>ip.
           thenK (iread (Some ip)) (
           thenK (inode_upd ip (\<lambda>i. i\<lparr>i_major := major, i_minor := minor, i_nlink := 1\<rparr>)) (
           thenK (iupdate ip) (
           bindK (inode_get ip i_inum) (\<lambda>inum.
           thenK (whenK (type = T_DIR) (
             thenK (inode_upd dp (\<lambda>d. d\<lparr>i_nlink := i_nlink d + 1\<rparr>)) (
             thenK (iupdate dp) (
             bindK (dirlink devsw ip (str ''.'') inum) (\<lambda>r.
             if r < 0 then panic ''create dots'' else
             bindK (inode_get dp i_inum) (\<lambda>dinum.
             bindK (dirlink devsw ip (str ''..'') dinum) (\<lambda>r.
             whenK (r < 0) (panic ''create dots''))))))))  (
           bindK (dirlink devsw dp name inum) (\<lambda>r.
           if r < 0 then panic ''create: dirlink'' else
           thenK (iput dp) (ret (Some ip))))))))))))) "

definition open_inode :: "'z kfile_scheme devsw \<Rightarrow> uchar list \<Rightarrow> uint \<Rightarrow> ('z kfile_scheme, nat option) kern" where
  "open_inode devsw path omode =
     (if omode AND O_CREATE \<noteq> 0 then create devsw path T_FILE 0 0
      else bindK (namei devsw path) (\<lambda>p. case p of
        None \<Rightarrow> ret None
      | Some ip \<Rightarrow>
          thenK (iread (Some ip)) (
          bindK (inode_get ip i_type) (\<lambda>ty.
          if ty = T_DIR \<and> omode \<noteq> O_RDONLY then thenK (iput ip) (ret None)
          else ret (Some ip)))))"

definition set_file :: "nat \<Rightarrow> nat \<Rightarrow> uint \<Rightarrow> ('z kfile_scheme, unit) kern" where
  "set_file f ip omode = file_upd f (\<lambda>x. x\<lparr>f_type := FD_INODE, f_ip := ip, f_off := 0,
     f_readable := (omode AND O_WRONLY = 0),
     f_writable := (omode AND O_WRONLY \<noteq> 0 \<or> omode AND O_RDWR \<noteq> 0)\<rparr>)"

definition file_open :: "'z kfile_scheme devsw \<Rightarrow> uchar list \<Rightarrow> uint \<Rightarrow> ('z kfile_scheme, nat option) kern" where
  "file_open devsw path omode =
     thenK begin_op (
     bindK (open_inode devsw path omode) (\<lambda>p. case p of
       None \<Rightarrow> thenK end_op (ret None)
     | Some ip \<Rightarrow>
       bindK filealloc (\<lambda>q. case q of
         None \<Rightarrow> thenK (iput ip) (thenK end_op (ret None))
       | Some f \<Rightarrow> thenK (set_file f ip omode) (thenK end_op (ret (Some f))))))"

definition mknod :: "'z kfile_scheme devsw \<Rightarrow> uchar list \<Rightarrow> int \<Rightarrow> int \<Rightarrow> ('z kfile_scheme, int) kern" where
  "mknod devsw path major minor =
     thenK begin_op (
     bindK (create devsw path T_DEV (of_int major) (of_int minor)) (\<lambda>p. case p of
       None \<Rightarrow> thenK end_op (ret (- 1))
     | Some ip \<Rightarrow> thenK (iput ip) (thenK end_op (ret 0))))"

definition mkdir :: "'z kfile_scheme devsw \<Rightarrow> uchar list \<Rightarrow> ('z kfile_scheme, int) kern" where
  "mkdir devsw path =
     thenK begin_op (
     bindK (create devsw path T_DIR 0 0) (\<lambda>p. case p of
       None \<Rightarrow> thenK end_op (ret (- 1))
     | Some ip \<Rightarrow> thenK (iput ip) (thenK end_op (ret 0))))"

end
