(* ===== verification/Segment.thy ===== *)
theory Segment
  imports Kalloc
begin

text \<open>
  \<^verbatim>\<open>mmu.h\<close>: segment descriptors, the task state segment and gate descriptors, with the bit fields at
  their widths. \<open>seg_base\<close>, \<open>seg_top\<close> and \<open>gate_offset\<close> read a descriptor the way the processor does.
\<close>

definition FL_IF :: uint where "FL_IF = 0x00000200"
definition SEG_KCODE :: nat where "SEG_KCODE = 1"
definition SEG_KDATA :: nat where "SEG_KDATA = 2"
definition SEG_UCODE :: nat where "SEG_UCODE = 3"
definition SEG_UDATA :: nat where "SEG_UDATA = 4"
definition SEG_TSS :: nat where "SEG_TSS = 5"
definition NSEGS :: nat where "NSEGS = 6"
definition STA_X :: "4 word" where "STA_X = 0x8"
definition STA_W :: "4 word" where "STA_W = 0x2"
definition STA_R :: "4 word" where "STA_R = 0x2"
definition DPL_USER :: uint where "DPL_USER = 0x3"
definition STS_T32A :: "4 word" where "STS_T32A = 0x9"
definition STS_IG32 :: "4 word" where "STS_IG32 = 0xE"
definition STS_TG32 :: "4 word" where "STS_TG32 = 0xF"

record segdesc =
  lim_15_0 :: "16 word"
  base_15_0 :: "16 word"
  base_23_16 :: "8 word"
  seg_type :: "4 word"
  seg_s :: "1 word"
  seg_dpl :: "2 word"
  seg_p :: "1 word"
  lim_19_16 :: "4 word"
  avl :: "1 word"
  seg_rsv1 :: "1 word"
  seg_db :: "1 word"
  seg_g :: "1 word"
  base_31_24 :: "8 word"

definition SEG :: "4 word \<Rightarrow> uint \<Rightarrow> uint \<Rightarrow> uint \<Rightarrow> segdesc" where
  "SEG type base lim dpl = \<lparr>
     lim_15_0 = ucast (drop_bit 12 lim AND 0xffff), base_15_0 = ucast (base AND 0xffff),
     base_23_16 = ucast (drop_bit 16 base AND 0xff), seg_type = type, seg_s = 1, seg_dpl = ucast dpl, seg_p = 1,
     lim_19_16 = ucast (drop_bit 28 lim), avl = 0, seg_rsv1 = 0, seg_db = 1, seg_g = 1,
     base_31_24 = ucast (drop_bit 24 base)\<rparr>"

definition SEG16 :: "4 word \<Rightarrow> uint \<Rightarrow> uint \<Rightarrow> uint \<Rightarrow> segdesc" where
  "SEG16 type base lim dpl = \<lparr>
     lim_15_0 = ucast (lim AND 0xffff), base_15_0 = ucast (base AND 0xffff),
     base_23_16 = ucast (drop_bit 16 base AND 0xff), seg_type = type, seg_s = 1, seg_dpl = ucast dpl, seg_p = 1,
     lim_19_16 = ucast (drop_bit 16 lim), avl = 0, seg_rsv1 = 0, seg_db = 1, seg_g = 0,
     base_31_24 = ucast (drop_bit 24 base)\<rparr>"

record taskstate =
  ts_link :: uint
  ts_esp0 :: uint
  ts_ss0 :: ushort
  ts_esp1 :: uint
  ts_ss1 :: ushort
  ts_esp2 :: uint
  ts_ss2 :: ushort
  ts_cr3 :: uint
  ts_eip :: uint
  ts_eflags :: uint
  ts_eax :: uint
  ts_ecx :: uint
  ts_edx :: uint
  ts_ebx :: uint
  ts_esp :: uint
  ts_ebp :: uint
  ts_esi :: uint
  ts_edi :: uint
  ts_es :: ushort
  ts_cs :: ushort
  ts_ss :: ushort
  ts_ds :: ushort
  ts_fs :: ushort
  ts_gs :: ushort
  ts_ldt :: ushort
  ts_t :: ushort
  ts_iomb :: ushort

record gatedesc =
  off_15_0 :: "16 word"
  gate_cs :: "16 word"
  gate_args :: "5 word"
  gate_rsv1 :: "3 word"
  gate_type :: "4 word"
  gate_s :: "1 word"
  gate_dpl :: "2 word"
  gate_p :: "1 word"
  off_31_16 :: "16 word"

definition SETGATE :: "bool \<Rightarrow> uint \<Rightarrow> uint \<Rightarrow> uint \<Rightarrow> gatedesc" where
  "SETGATE istrap sel off d = \<lparr>
     off_15_0 = ucast (off AND 0xffff), gate_cs = ucast sel, gate_args = 0, gate_rsv1 = 0,
     gate_type = (if istrap then STS_TG32 else STS_IG32), gate_s = 0, gate_dpl = ucast d, gate_p = 1,
     off_31_16 = ucast (drop_bit 16 off)\<rparr>"

section \<open>How the processor reads descriptors\<close>

definition seg_base :: "segdesc \<Rightarrow> uint" where
  "seg_base d = ucast (base_15_0 d) OR push_bit 16 (ucast (base_23_16 d)) OR push_bit 24 (ucast (base_31_24 d))"

definition seg_limit :: "segdesc \<Rightarrow> uint" where
  "seg_limit d = ucast (lim_15_0 d) OR push_bit 16 (ucast (lim_19_16 d))"

text \<open>The last offset inside the segment: with the granularity bit the limit counts pages of 4096 bytes.\<close>

definition seg_top :: "segdesc \<Rightarrow> nat" where
  "seg_top d = (if seg_g d = 1 then unat (seg_limit d) * 4096 + 4095 else unat (seg_limit d))"

definition gate_offset :: "gatedesc \<Rightarrow> uint" where
  "gate_offset g = ucast (off_15_0 g) OR push_bit 16 (ucast (off_31_16 g))"

text \<open>Interrupts stay on when the processor enters through a trap gate.\<close>

definition gate_keeps_if :: "gatedesc \<Rightarrow> bool" where
  "gate_keeps_if g \<longleftrightarrow> gate_type g = STS_TG32"

lemma cut_fields: "ucast (x AND 0xffff) = (ucast x :: 16 word)" "ucast (x AND 0xff) = (ucast x :: 8 word)" for x :: uint
proof -
  have "x AND 0xffff = take_bit 16 x" "x AND 0xff = take_bit 8 x" by (simp_all add: take_bit_eq_mask mask_eq_exp_minus_1)
  then show "ucast (x AND 0xffff) = (ucast x :: 16 word)" "ucast (x AND 0xff) = (ucast x :: 8 word)"
    by (auto simp only: intro!: bit_word_eqI) (simp_all add: bit_simps)
qed

lemma base_parts: "ucast (ucast b :: 16 word) OR push_bit 16 (ucast (ucast (drop_bit 16 b) :: 8 word)) OR
    push_bit 24 (ucast (ucast (drop_bit 24 b) :: 8 word)) = b" (is "?w = b") for b :: uint
proof (rule bit_word_eqI)
  fix n assume "n < LENGTH(32)"
  then consider "n < 16" | "16 \<le> n" "n < 24" | "24 \<le> n" "n < 32" by fastforce
  then show "bit ?w n = bit b n"
    by cases (auto simp: bit_simps)
qed

lemma seg_base_SEG: "seg_base (SEG type base lim dpl) = base" "seg_base (SEG16 type base lim dpl) = base"
  by (simp_all add: seg_base_def SEG_def SEG16_def cut_fields base_parts)

lemma seg_limit_SEG: "seg_limit (SEG type base lim dpl) = drop_bit 12 lim"
  by (rule bit_word_eqI) (auto simp: seg_limit_def SEG_def cut_fields bit_simps dest: bit_imp_le_length)

lemma gate_offset_SETGATE: "gate_offset (SETGATE istrap sel off d) = off"
  by (rule bit_word_eqI) (auto simp: gate_offset_def SETGATE_def cut_fields bit_simps)

lemma seg_top_SEG: "seg_top (SEG type base lim dpl) = unat (drop_bit 12 lim) * 4096 + 4095"
  by (simp add: seg_top_def seg_limit_SEG) (simp add: SEG_def)

end
