(* ===== verification/Proc.thy ===== *)
theory Proc
  imports File Segment
begin

text \<open>
  \<^verbatim>\<open>proc.c\<close> and \<^verbatim>\<open>vm.c\<close>: the process table, the segments of a process, and the scheduler. Trap frames and
  kernel contexts are in the memory, at the offsets that \<^verbatim>\<open>struct trapframe\<close> and \<^verbatim>\<open>struct context\<close> give
  them. The addresses that the linker assigns are the record \<open>layout\<close>. \<^verbatim>\<open>swtch\<close> leaves the running function and
  comes back later: \<open>swtch p\<close> is an argument, the effect on the state between the two.
\<close>

datatype procstate = UNUSED | EMBRYO | RUNNABLE | RUNNING

record proc =
  p_sz :: uint
  p_offset :: uint
  p_kstack :: uint
  p_state :: procstate
  p_pid :: int
  p_parent :: "nat option"
  p_tf :: uint
  p_context :: uint
  p_ofile :: "nat \<Rightarrow> nat option"
  p_cwd :: "nat option"
  p_name :: "uchar list"

record kproc = kfile +
  ptable :: "nat \<Rightarrow> proc"
  initproc :: "nat option"
  nextpid :: int
  cpu_proc :: "nat option"
  gdt :: "nat \<Rightarrow> segdesc"
  ts :: taskstate
  gdtr :: "uint \<times> ushort"
  tr :: ushort
  idt :: "nat \<Rightarrow> gatedesc"
  idtr :: "uint \<times> ushort"
  ticks :: uint

record layout =
  a_gdt :: uint
  a_ts :: uint
  a_idt :: uint
  a_trapret :: uint
  a_forkret :: uint
  a_vectors :: "nat \<Rightarrow> uint"
  a_initcode :: uint
  initcode_size :: uint

definition NPROC :: nat where "NPROC = 64"
definition KSTACKSIZE :: uint where "KSTACKSIZE = 4096"
definition NOFILE :: nat where "NOFILE = 16"

text \<open>Offsets in \<^verbatim>\<open>struct trapframe\<close> and \<^verbatim>\<open>struct context\<close>, and their sizes.\<close>

definition TF_eax :: uint where "TF_eax = 28"
definition TF_es :: uint where "TF_es = 40"
definition TF_ds :: uint where "TF_ds = 44"
definition TF_trapno :: uint where "TF_trapno = 48"
definition TF_eip :: uint where "TF_eip = 56"
definition TF_cs :: uint where "TF_cs = 60"
definition TF_eflags :: uint where "TF_eflags = 64"
definition TF_esp :: uint where "TF_esp = 68"
definition TF_ss :: uint where "TF_ss = 72"
definition sizeof_trapframe :: uint where "sizeof_trapframe = 76"
definition CTX_eip :: uint where "CTX_eip = 16"
definition sizeof_context :: uint where "sizeof_context = 20"

definition st16 :: "memory \<Rightarrow> uint \<Rightarrow> ushort \<Rightarrow> memory" where
  "st16 m a w = m(a := ucast w, a + 1 := ucast (drop_bit 8 w))"

definition store32 :: "uint \<Rightarrow> uint \<Rightarrow> ('z kmem_scheme, unit) kern" where
  "store32 a w = modK (\<lambda>s. s\<lparr>mem := st32 (mem s) a w\<rparr>)"

definition store16 :: "uint \<Rightarrow> ushort \<Rightarrow> ('z kmem_scheme, unit) kern" where
  "store16 a w = modK (\<lambda>s. s\<lparr>mem := st16 (mem s) a w\<rparr>)"

section \<open>Processes\<close>

definition cpuid :: int where "cpuid = 0"

definition myproc :: "('z kproc_scheme, nat option) kern" where
  "myproc = getK cpu_proc"

definition proc_get :: "nat \<Rightarrow> (proc \<Rightarrow> 'a) \<Rightarrow> ('z kproc_scheme, 'a) kern" where
  "proc_get p f = getK (\<lambda>s. f (ptable s p))"

definition proc_upd :: "nat \<Rightarrow> (proc \<Rightarrow> proc) \<Rightarrow> ('z kproc_scheme, unit) kern" where
  "proc_upd p f = modK (\<lambda>s. s\<lparr>ptable := (ptable s)(p := f (ptable s p))\<rparr>)"

primrec allocproc_scan :: "nat \<Rightarrow> nat \<Rightarrow> (nat \<Rightarrow> proc) \<Rightarrow> nat option" where
  "allocproc_scan 0 p T = None"
| "allocproc_scan (Suc k) p T = (if p_state (T p) = UNUSED then Some p else allocproc_scan k (Suc p) T)"

definition allocproc :: "layout \<Rightarrow> ('z kproc_scheme, nat option) kern" where
  "allocproc lk =
     thenK pushcli (
     bindK (getK (\<lambda>s. allocproc_scan NPROC 0 (ptable s))) (\<lambda>r. case r of
       None \<Rightarrow> thenK popcli (ret None)
     | Some p \<Rightarrow>
       thenK (proc_upd p (\<lambda>x. x\<lparr>p_state := EMBRYO\<rparr>)) (
       bindK (getK nextpid) (\<lambda>pid.
       thenK (proc_upd p (\<lambda>x. x\<lparr>p_pid := pid\<rparr>)) (
       thenK (modK (\<lambda>s. s\<lparr>nextpid := pid + 1\<rparr>)) (
       thenK popcli (
       bindK kalloc (\<lambda>off.
       thenK (proc_upd p (\<lambda>x. x\<lparr>p_offset := off\<rparr>)) (
       if off = 0 then thenK (proc_upd p (\<lambda>x. x\<lparr>p_state := UNUSED\<rparr>)) (ret None) else
       let sp = off + PGSIZE;
           kstack = sp - KSTACKSIZE;
           sp = sp - sizeof_trapframe;
           tf = sp;
           sp = sp - 4;
           ret_slot = sp;
           ctx = sp - sizeof_context in
       thenK (proc_upd p (\<lambda>x. x\<lparr>p_sz := PGSIZE - KSTACKSIZE, p_kstack := kstack, p_tf := tf\<rparr>)) (
       thenK (store32 ret_slot (a_trapret lk)) (
       thenK (proc_upd p (\<lambda>x. x\<lparr>p_context := ctx\<rparr>)) (
       thenK (modK (\<lambda>s. s\<lparr>mem := memset (mem s) ctx 0 sizeof_context\<rparr>)) (
       thenK (store32 (ctx + CTX_eip) (a_forkret lk)) (
       ret (Some p)))))))))))))))"

text \<open>
  \<^verbatim>\<open>pinit\<close> uses the result of \<open>allocproc\<close> without a check: a null pointer is a \<open>fault\<close>.
\<close>

definition pinit :: "layout \<Rightarrow> 'z kproc_scheme devsw \<Rightarrow> ('z kproc_scheme, unit) kern" where
  "pinit lk devsw =
     bindK (allocproc lk) (\<lambda>r.
     thenK (modK (\<lambda>s. s\<lparr>initproc := r\<rparr>)) (
     case r of None \<Rightarrow> fault | Some p \<Rightarrow>
     bindK (proc_get p id) (\<lambda>x.
     thenK (modK (\<lambda>s. s\<lparr>mem := memmove (mem s) (p_offset x) (a_initcode lk) (initcode_size lk)\<rparr>)) (
     thenK (modK (\<lambda>s. s\<lparr>mem := memset (mem s) (p_tf x) 0 sizeof_trapframe\<rparr>)) (
     let ucs = of_nat SEG_UCODE * 8 OR ucast DPL_USER; uds = of_nat SEG_UDATA * 8 OR ucast DPL_USER in
     thenK (store16 (p_tf x + TF_cs) ucs) (
     thenK (store16 (p_tf x + TF_ds) uds) (
     thenK (store16 (p_tf x + TF_es) uds) (
     thenK (store16 (p_tf x + TF_ss) uds) (
     thenK (store32 (p_tf x + TF_eflags) FL_IF) (
     thenK (store32 (p_tf x + TF_esp) (PGSIZE - KSTACKSIZE)) (
     thenK (store32 (p_tf x + TF_eip) 0) (
     thenK (proc_upd p (\<lambda>x. x\<lparr>p_name := overwrite 0 (str ''initcode'' @ [0]) (p_name x)\<rparr>)) (
     bindK (namei devsw (str ''/'')) (\<lambda>d.
     thenK (proc_upd p (\<lambda>x. x\<lparr>p_cwd := d\<rparr>))
     (proc_upd p (\<lambda>x. x\<lparr>p_state := RUNNABLE\<rparr>))))))))))))))))"

section \<open>Segments\<close>

definition lgdt :: "uint \<Rightarrow> uint \<Rightarrow> ('z kproc_scheme, unit) kern" where
  "lgdt p sz = modK (\<lambda>s. s\<lparr>gdtr := (p, ucast (sz - 1))\<rparr>)"

definition ltr :: "ushort \<Rightarrow> ('z kproc_scheme, unit) kern" where
  "ltr sel = modK (\<lambda>s. s\<lparr>tr := sel\<rparr>)"

definition set_gdt :: "nat \<Rightarrow> segdesc \<Rightarrow> ('z kproc_scheme, unit) kern" where
  "set_gdt k d = modK (\<lambda>s. s\<lparr>gdt := (gdt s)(k := d)\<rparr>)"

definition sizeof_gdt :: uint where "sizeof_gdt = of_nat NSEGS * 8"
definition sizeof_taskstate :: uint where "sizeof_taskstate = 104"

definition seginit :: "layout \<Rightarrow> ('z kproc_scheme, unit) kern" where
  "seginit lk =
     thenK (set_gdt SEG_KCODE (SEG (STA_X OR STA_R) 0 0xffffffff 0)) (
     thenK (set_gdt SEG_KDATA (SEG STA_W 0 0xffffffff 0))
     (lgdt (a_gdt lk) sizeof_gdt))"

definition switchuvm :: "layout \<Rightarrow> nat option \<Rightarrow> ('z kproc_scheme, unit) kern" where
  "switchuvm lk q = (case q of None \<Rightarrow> panic ''switchuvm: no process'' | Some p \<Rightarrow>
     bindK (proc_get p id) (\<lambda>x.
     if p_kstack x = 0 then panic ''switchuvm: no kstack'' else
     thenK pushcli (
     thenK (set_gdt SEG_UCODE (SEG (STA_X OR STA_R) (p_offset x) (push_bit 12 PROCSIZE) DPL_USER)) (
     thenK (set_gdt SEG_UDATA (SEG STA_W (p_offset x) (push_bit 12 PROCSIZE) DPL_USER)) (
     thenK (lgdt (a_gdt lk) sizeof_gdt) (
     thenK (set_gdt SEG_TSS ((SEG16 STS_T32A (a_ts lk) (sizeof_taskstate - 1) 0)\<lparr>seg_s := 0\<rparr>)) (
     thenK (modK (\<lambda>s. s\<lparr>ts := (ts s)\<lparr>ts_ss0 := of_nat SEG_KDATA * 8, ts_esp0 := p_kstack x + KSTACKSIZE,
       ts_iomb := 0xFFFF\<rparr>\<rparr>)) (
     thenK (ltr (of_nat SEG_TSS * 8))
     popcli))))))))"

section \<open>The scheduler\<close>

text \<open>The body of the loop over the process table, one pass of the endless loop, and \<open>n\<close> passes.\<close>

definition scheduler_visit :: "layout \<Rightarrow> (nat \<Rightarrow> ('z kproc_scheme, unit) kern) \<Rightarrow> nat \<Rightarrow> ('z kproc_scheme, unit) kern" where
  "scheduler_visit lk swtch p =
     bindK (proc_get p p_state) (\<lambda>st.
     if st \<noteq> RUNNABLE then ret () else
     thenK (modK (\<lambda>s. s\<lparr>cpu_proc := Some p\<rparr>)) (
     thenK (proc_upd p (\<lambda>x. x\<lparr>p_state := RUNNING\<rparr>)) (
     thenK (switchuvm lk (Some p))
     (swtch p))))"

definition scheduler_pass :: "layout \<Rightarrow> (nat \<Rightarrow> ('z kproc_scheme, unit) kern) \<Rightarrow> ('z kproc_scheme, unit) kern" where
  "scheduler_pass lk swtch =
     thenK sti (
     thenK pushcli (
     thenK (for_range 0 NPROC (scheduler_visit lk swtch))
     popcli))"

primrec scheduler_loop :: "nat \<Rightarrow> layout \<Rightarrow> (nat \<Rightarrow> ('z kproc_scheme, unit) kern) \<Rightarrow> ('z kproc_scheme, unit) kern" where
  "scheduler_loop 0 lk swtch = ret ()"
| "scheduler_loop (Suc n) lk swtch = thenK (scheduler_pass lk swtch) (scheduler_loop n lk swtch)"

definition scheduler :: "nat \<Rightarrow> layout \<Rightarrow> (nat \<Rightarrow> ('z kproc_scheme, unit) kern) \<Rightarrow> ('z kproc_scheme, unit) kern" where
  "scheduler n lk swtch = thenK (modK (\<lambda>s. s\<lparr>cpu_proc := None\<rparr>)) (scheduler_loop n lk swtch)"

text \<open>\<^verbatim>\<open>sched\<close> up to the switch, with the value of \<^verbatim>\<open>intena\<close> it keeps on its stack, and from there on.\<close>

definition sched_out :: "('z kproc_scheme, bool) kern" where
  "sched_out =
     bindK myproc (\<lambda>q. case q of None \<Rightarrow> fault | Some p \<Rightarrow>
     bindK (proc_get p p_state) (\<lambda>st.
     if st = RUNNING then panic ''sched running'' else
     bindK readeflags_if (\<lambda>ie.
     if ie then panic ''sched interruptible'' else getK intena)))"

definition sched_in :: "bool \<Rightarrow> ('z kproc_scheme, unit) kern" where
  "sched_in ie = modK (\<lambda>s. s\<lparr>intena := ie\<rparr>)"

definition sched :: "('z kproc_scheme, unit) kern \<Rightarrow> ('z kproc_scheme, unit) kern" where
  "sched swtch = bindK sched_out (\<lambda>ie. thenK swtch (sched_in ie))"

definition yield_out :: "('z kproc_scheme, unit) kern" where
  "yield_out =
     thenK pushcli (
     bindK myproc (\<lambda>q. case q of None \<Rightarrow> fault | Some p \<Rightarrow> proc_upd p (\<lambda>x. x\<lparr>p_state := RUNNABLE\<rparr>)))"

definition yield :: "('z kproc_scheme, unit) kern \<Rightarrow> ('z kproc_scheme, unit) kern" where
  "yield swtch = thenK yield_out (thenK (sched swtch) popcli)"

definition forkret :: "('z kproc_scheme, unit) kern" where
  "forkret = popcli"

definition state_name :: "procstate \<Rightarrow> uchar list" where
  "state_name st = (case st of UNUSED \<Rightarrow> str ''unused'' | EMBRYO \<Rightarrow> str ''embryo'' | RUNNABLE \<Rightarrow> str ''runble''
     | RUNNING \<Rightarrow> str ''run   '')"

definition procdump :: "('z kproc_scheme, unit) kern" where
  "procdump =
     thenK pushcli (
     thenK (for_range 0 NPROC (\<lambda>p.
       bindK (proc_get p id) (\<lambda>x.
       if p_state x = UNUSED then ret () else
       thenK (cprintf (Some (str ''%d %s %s'')) [CInt (of_int (p_pid x)), CStr (Some (state_name (p_state x))),
         CStr (Some (takeWhile (\<lambda>c. c \<noteq> 0) (p_name x)))])
       (cprintf (Some [0x0a]) []))))
     popcli)"

end
