(* ===== verification/Crash.thy ===== *)
theory Crash
  imports Logged
begin

text \<open>
  Power failures. A failure during \<open>commit\<close> or during recovery leaves the disk with a prefix of the
  sector writes applied. The lemmas compute what recovery makes of every such disk.
\<close>

definition recovered :: "logst \<Rightarrow> (uint \<Rightarrow> block) \<Rightarrow> uint \<Rightarrow> block" where
  "recovered l d = apply_writes (recover_trace l d) d"

lemma hdr_list_hdr:
  assumes "length x = 512" "length L \<le> 30"
  shows "hdr_list (hdr x L) = L" "0 \<le> sint (get_uint 0 (hdr x L))"
proof -
  have "sint (of_nat (length L) :: uint) = int (length L)"
    using assms(2) by (simp add: sint_uint unsigned_of_nat take_bit_nat_eq_self signed_take_bit_int_eq_self)
  then have n: "sint (get_uint 0 (hdr x L)) = int (length L)"
    using hdr_facts(2) [OF assms] by simp
  then show "0 \<le> sint (get_uint 0 (hdr x L))" by simp
  show "hdr_list (hdr x L) = L"
    unfolding hdr_list_def n using hdr_facts(3) [OF assms] by (auto intro: nth_equalityI)
qed

lemma hdr_ok_hdr:
  assumes "length x = 512" "log_geom l" "log_fits l L"
  shows "hdr_ok l (hdr x L)" "hdr_list (hdr x L) = L"
proof -
  have "length L \<le> 30"
    using log_geom_LOGSIZE [OF assms(2), of "length L"] assms(3)
    by (simp add: log_fits_def LOGSIZE_def MAXOPBLOCKS_def)
  then show "hdr_ok l (hdr x L)" "hdr_list (hdr x L) = L"
    using hdr_list_hdr [OF assms(1)] assms(3) by (auto simp: hdr_ok_def)
qed

lemma recovered_other:
  assumes "n \<noteq> log_start l" "n \<notin> set (hdr_list (d (log_start l)))"
  shows "recovered l d n = d n"
  unfolding recovered_def recover_trace_def Let_def
  using assms by (simp add: apply_writes_append apply_installs_other)

lemma apply_writes_base:
  "n \<in> fst ` set ws \<Longrightarrow> apply_writes ws d n = apply_writes ws d' n"
proof (induction ws arbitrary: d d')
  case (Cons w ws)
  obtain m x where w: "w = (m, x)" by (cases w)
  show ?case
  proof (cases "n \<in> fst ` set ws")
    case True
    with Cons.IH show ?thesis by (simp add: w)
  next
    case False
    with Cons.prems w show ?thesis by (simp add: apply_writes_other)
  qed
qed simp

lemma recovered_logged:
  assumes "n \<noteq> log_start l" "n \<in> set (hdr_list (d (log_start l)))"
  shows "recovered l d n = apply_writes (map (\<lambda>i. (hdr_list (d (log_start l)) ! i, d (slot l i)))
    [0..<length (hdr_list (d (log_start l)))]) d' n"
proof -
  let ?L = "hdr_list (d (log_start l))"
  let ?ws = "map (\<lambda>i. (?L ! i, d (slot l i))) [0..<length ?L]"
  have "fst ` set ?ws = set ?L" by (auto simp: in_set_conv_nth image_image)
  then have "apply_writes ?ws d n = apply_writes ?ws d' n"
    using assms(2) by (intro apply_writes_base) simp
  then show ?thesis
    using assms(1) by (simp add: recovered_def recover_trace_def Let_def apply_writes_append)
qed

text \<open>Recovery of an empty header changes nothing outside the log area.\<close>

lemma recovered_clean:
  assumes "log_geom l" "hdr_list (d (log_start l)) = []" "n \<notin> area l"
  shows "recovered l d n = d n"
  using assms start_facts(1) [OF assms(1)] by (intro recovered_other) auto

lemma recovered_committed:
  assumes l: "log_geom l" "log_fits l L" and L: "distinct L"
    and h: "hdr_list (d (log_start l)) = L" and slots: "\<And>i. i < length L \<Longrightarrow> d (slot l i) = v (L ! i)"
    and d: "\<And>n. n \<notin> area l \<Longrightarrow> n \<notin> set L \<Longrightarrow> d n = v n" and n: "n \<notin> area l"
  shows "recovered l d n = v n"
proof -
  have n': "n \<noteq> log_start l" using n start_facts(1) [OF l(1)] by auto
  show ?thesis
  proof (cases "n \<in> set L")
    case True
    then obtain i where i: "i < length L" "n = L ! i" by (auto simp: in_set_conv_nth)
    have "recovered l d n = apply_writes (map (\<lambda>i. (L ! i, d (slot l i))) [0..<length L]) d n"
      using recovered_logged [OF n', of d d] True by (simp add: h)
    also have "\<dots> = d (slot l i)"
      unfolding i(2) using i L by (intro apply_writes_map) (auto simp: map_nth)
    finally show ?thesis using slots i by simp
  next
    case False
    then show ?thesis using recovered_other [OF n', of d] h d n by simp
  qed
qed

lemma commit_prefix:
  "take j (commit_trace l v L) =
    (if j \<le> length L then map (\<lambda>i. (slot l i, v (L ! i))) [0..<j]
     else if j \<le> 2 * length L + 1 then
       map (\<lambda>i. (slot l i, v (L ! i))) [0..<length L] @ [(log_start l, hdr (v (log_start l)) L)] @
       map (\<lambda>i. (L ! i, v (L ! i))) [0..<j - length L - 1]
     else commit_trace l v L)"
  by (auto simp: commit_trace_def take_map take_Cons' not_le min_def)

text \<open>
  \<open>txn l L v d\<close>: a transaction that logged the blocks \<open>L\<close>, takes the disk \<open>d\<close>, whose log is empty,
  to the contents \<open>v\<close>.
\<close>

definition txn :: "logst \<Rightarrow> uint list \<Rightarrow> (uint \<Rightarrow> block) \<Rightarrow> (uint \<Rightarrow> block) \<Rightarrow> bool" where
  "txn l L v d \<longleftrightarrow> log_geom l \<and> log_fits l L \<and> distinct L \<and>
     hdr_ok l (d (log_start l)) \<and> hdr_list (d (log_start l)) = [] \<and> length (d (log_start l)) = 512 \<and>
     (\<forall>n. n \<notin> set L \<longrightarrow> v n = d n)"

lemma txnD:
  assumes "txn l L v d"
  shows "log_geom l" "log_fits l L" "distinct L" "hdr_ok l (d (log_start l))"
    "hdr_list (d (log_start l)) = []" "length (d (log_start l)) = 512"
    "n \<notin> set L \<Longrightarrow> v n = d n" "v (log_start l) = d (log_start l)" "length L < nat (log_size l)"
    "m \<in> set L \<Longrightarrow> m \<notin> area l"
proof -
  show l: "log_geom l" "log_fits l L" "distinct L" "hdr_ok l (d (log_start l))"
    "hdr_list (d (log_start l)) = []" "length (d (log_start l)) = 512" and v: "n \<notin> set L \<Longrightarrow> v n = d n" for n
    using assms unfolding txn_def by blast+
  show "length L < nat (log_size l)" "m \<in> set L \<Longrightarrow> m \<notin> area l"
    using l(2) by (auto simp: log_fits_def)
  have "log_start l \<notin> set L" using l(2) start_facts(1) [OF l(1)] by (auto simp: log_fits_def)
  then show "v (log_start l) = d (log_start l)" by (rule v)
qed

lemma before_header:
  assumes T: "txn l L v d0" and j: "j \<le> length L"
  defines "d \<equiv> apply_writes (take j (commit_trace l v L)) d0"
  shows "hdr_ok l (d (log_start l))" "n \<notin> area l \<Longrightarrow> recovered l d n = d0 n"
proof -
  note l = txnD(1,2) [OF T] and len = txnD(9) [OF T] and clean = txnD(4,5) [OF T]
  have d: "d = apply_writes (map (\<lambda>i. (slot l i, v (L ! i))) [0..<j]) d0"
    using j by (simp add: d_def commit_prefix)
  have same: "m \<notin> area l \<or> m = log_start l \<Longrightarrow> d m = d0 m" for m
    unfolding d by (rule slots_written(2) [OF l(1) le_less_trans [OF j len]])
  show "hdr_ok l (d (log_start l))" using clean same by simp
  show "recovered l d n = d0 n" if "n \<notin> area l"
    using recovered_clean [OF l(1), of d n] clean same that by simp
qed

lemma after_header:
  assumes T: "txn l L v d0" and j: "length L < j"
  defines "d \<equiv> apply_writes (take j (commit_trace l v L)) d0"
  shows "hdr_ok l (d (log_start l))" "n \<notin> area l \<Longrightarrow> recovered l d n = v n"
proof -
  let ?a = "log_start l"
  note l = txnD(1,2) [OF T] and L = txnD(3) [OF T] and len = txnD(9) [OF T]
    and clean = txnD(4,5,6) [OF T] and v = txnD(8,7) [OF T]
  have a: "?a \<in> area l" using start_facts [OF l(1)] by simp
  note out = txnD(10) [OF T]
  define d1 where "d1 = (apply_writes (map (\<lambda>i. (slot l i, v (L ! i))) [0..<length L]) d0)(?a := hdr (v ?a) L)"
  have d1: "d1 ?a = hdr (d0 ?a) L" "i < length L \<Longrightarrow> d1 (slot l i) = v (L ! i)"
    "m \<notin> area l \<Longrightarrow> d1 m = d0 m" for i m
    using a v(1) slots_written [OF l(1) len] slot_facts(3) [OF l(1), of i] len
    by (auto simp: d1_def)
  define ins where "ins k = map (\<lambda>i. (L ! i, v (L ! i))) [0..<k]" for k
  have keep: "m \<in> area l \<Longrightarrow> k \<le> length L \<Longrightarrow> apply_writes (ins k) d1 m = d1 m" for m k
    unfolding ins_def using out by (intro apply_installs_other) auto
  note hd = hdr_ok_hdr [OF clean(3) l]
  have "hdr_ok l (d ?a) \<and> (\<forall>n. n \<notin> area l \<longrightarrow> recovered l d n = v n)"
  proof (cases "j \<le> 2 * length L + 1")
    case True
    then have d: "d = apply_writes (ins (j - length L - 1)) d1" and k: "j - length L - 1 \<le> length L"
      using j by (simp_all add: d_def commit_prefix d1_def ins_def apply_writes_append)
    have da: "d ?a = hdr (d0 ?a) L" using d1(1) keep [OF a k] by (simp add: d)
    have "slot l i \<in> area l" if "i < length L" for i
      using slot_facts(1) [OF l(1), of i] len that by simp
    then have ds: "i < length L \<Longrightarrow> d (slot l i) = v (L ! i)" for i using keep [OF _ k] d1(2) by (simp add: d)
    have do: "d m = v m" if "m \<notin> area l" "m \<notin> set L" for m
      using that d1(3) v(2) apply_installs_other [OF that(2) k] by (simp add: d ins_def)
    show ?thesis
      using recovered_committed [OF l L _ ds do] hd by (simp add: da)
  next
    case False
    let ?h2 = "hdr (hdr (d0 ?a) L) []"
    have d: "d = (apply_writes (ins (length L)) d1)(?a := ?h2)"
      using j False v(1)
      by (simp add: d_def commit_prefix) (simp add: commit_trace_def apply_writes_append d1_def ins_def v(1))
    have fit: "log_fits l []" using l(1) by (auto simp: log_fits_def log_geom_def)
    have "length (hdr (d0 ?a) L) = 512"
      using hdr_facts(1) [OF clean(3)] log_geom_LOGSIZE [OF l(1) len]
      by (simp add: LOGSIZE_def MAXOPBLOCKS_def)
    note h2 = hdr_ok_hdr [OF this l(1) fit]
    have "recovered l d n = v n" if n: "n \<notin> area l" for n
    proof -
      have "recovered l d n = d n" using recovered_clean [OF l(1) _ n] h2(2) by (simp add: d)
      also have "\<dots> = apply_writes (ins (length L)) d1 n" using n a by (auto simp: d)
      also have "\<dots> = v n"
      proof (cases "n \<in> set L")
        case True
        then obtain i where "i < length L" "n = L ! i" by (auto simp: in_set_conv_nth)
        then show ?thesis
          using apply_writes_map [of "(!) L" "[0..<length L]" i "\<lambda>i. v (L ! i)" d1] L by (simp add: ins_def map_nth)
      next
        case False
        then show ?thesis using apply_installs_other [OF False, of "length L"] d1(3) [OF n] v(2) by (simp add: ins_def)
      qed
      finally show ?thesis .
    qed
    then show ?thesis using h2(1) by (simp add: d)
  qed
  then show "hdr_ok l (d ?a)" "n \<notin> area l \<Longrightarrow> recovered l d n = v n" by blast+
qed

lemma recover_prefix:
  fixes j :: nat
  assumes l: "log_geom l" and h: "hdr_ok l (d (log_start l))" "length (d (log_start l)) = 512"
  defines "d' \<equiv> apply_writes (take j (recover_trace l d)) d"
  shows "hdr_ok l (d' (log_start l))" "n \<notin> area l \<Longrightarrow> recovered l d' n = recovered l d n"
proof -
  let ?a = "log_start l" and ?L = "hdr_list (d (log_start l))"
  have a: "?a \<in> area l" using start_facts [OF l] by simp
  have out: "\<And>n. n \<in> set ?L \<Longrightarrow> n \<notin> area l" and len: "length ?L < nat (log_size l)"
    using h(1) by (auto simp: hdr_ok_def log_fits_def)
  define ins where "ins k = map (\<lambda>i. (?L ! i, d (slot l i))) [0..<k]" for k
  have keep: "apply_writes (ins k) d m = d m" if "m \<in> area l" "k \<le> length ?L" for m k
    unfolding ins_def using out that by (intro apply_installs_other) auto
  have "hdr_ok l (d' ?a) \<and> (\<forall>n. n \<notin> area l \<longrightarrow> recovered l d' n = recovered l d n)"
  proof (cases "j \<le> length ?L")
    case True
    then have d': "d' = apply_writes (ins j) d"
      by (simp add: d'_def recover_trace_def Let_def ins_def take_map)
    have same: "d' m = d m" if "m \<in> area l" for m using keep [OF that True] by (simp add: d')
    have slots: "d' (slot l i) = d (slot l i)" if "i < length ?L" for i
      using same slot_facts(1) [OF l, of i] len that by simp
    have "recovered l d' n = recovered l d n" if n: "n \<notin> area l" for n
    proof (cases "n \<in> set ?L")
      case T: True
      have na: "n \<noteq> ?a" using n a by auto
      have ws: "map (\<lambda>i. (?L ! i, d' (slot l i))) [0..<length ?L] = map (\<lambda>i. (?L ! i, d (slot l i))) [0..<length ?L]"
        using slots by auto
      have "recovered l d' n = apply_writes (map (\<lambda>i. (?L ! i, d' (slot l i))) [0..<length ?L]) d n"
        using recovered_logged [OF na, of d' d] T same [OF a] by simp
      also have "\<dots> = recovered l d n"
        unfolding ws using recovered_logged [OF na, of d d] T by simp
      finally show ?thesis .
    next
      case False
      then have "recovered l d' n = d' n" "recovered l d n = d n"
        using n a same [OF a] by (auto intro!: recovered_other)
      moreover have "d' n = d n"
        using apply_installs_other [OF False True] by (simp add: d' ins_def)
      ultimately show ?thesis by simp
    qed
    then show ?thesis using h(1) same [OF a] by simp
  next
    case False
    then have d': "d' = recovered l d"
      by (simp add: d'_def recovered_def recover_trace_def Let_def)
    have "d' ?a = hdr (d ?a) []"
      by (simp add: d' recovered_def recover_trace_def Let_def)
    moreover have "log_fits l []" using l by (auto simp: log_fits_def log_geom_def)
    ultimately have "hdr_ok l (d' ?a)" "hdr_list (d' ?a) = []"
      using hdr_ok_hdr [OF h(2) l] by auto
    then show ?thesis using recovered_clean [OF l] by (simp add: d')
  qed
  then show "hdr_ok l (d' ?a)" "n \<notin> area l \<Longrightarrow> recovered l d' n = recovered l d n" by blast+
qed

section \<open>Start-up after a failure\<close>

text \<open>
  The part of \<^verbatim>\<open>main\<close> that brings up the storage: \<^verbatim>\<open>binit\<close>, interrupts on, \<^verbatim>\<open>initlog(ROOTDEV)\<close>.
  \<open>cold d s\<close> is the machine before it, with an idle disk that holds \<open>d\<close>; \<open>sb_on d l\<close> says that the
  super block of \<open>d\<close> places the log as \<open>l\<close> does.
\<close>

definition storage_boot :: "('z klog_scheme, unit) kern" where
  "storage_boot = thenK (thenK binit sti) (initlog ROOTDEV)"

definition cold :: "(uint \<Rightarrow> block) \<Rightarrow> 'z klog_scheme \<Rightarrow> bool" where
  "cold d s \<longleftrightarrow> ncli s = 0 \<and> idequeue s = None \<and> ide_ready s \<and> havedisk1 s \<and> disk s True = d \<and>
     (\<forall>i<NBUF. unused (bufs s i) \<and> length (b_data (bufs s i)) = 512)"

definition sb_on :: "(uint \<Rightarrow> block) \<Rightarrow> logst \<Rightarrow> bool" where
  "sb_on d l \<longleftrightarrow> sb_logstart (superblock_of (d 1)) = log_start l \<and>
     sint (sb_nlog (superblock_of (d 1))) = log_size l"

lemma storage_boot_run:
  fixes s :: "'z klog_scheme"
  assumes cold: "cold d s" and len: "\<And>n. n < FSSIZE \<Longrightarrow> length (d n) = 512"
    and l: "log_geom l" "sb_on d l" "hdr_ok l (d (log_start l))"
  shows "\<exists>t. storage_boot s = Inr ((), t) \<and> lblk (recovered l d) [] (\<lambda>_. 0) t \<and>
    disk t True = recovered l d \<and> dwrites t = dwrites s @ on_disk (recover_trace l d) \<and> same_geom (lg t) l"
proof -
  have "io_ok (s\<lparr>eflags_if := True\<rparr>)"
    using cold by (simp add: cold_def io_ok_def ide_ready_def)
  then obtain t where t: "thenK binit sti s = Inr ((), t)" "bc d {} (\<lambda>_. 0) t" "disk t = disk s"
      "dwrites t = dwrites s"
    using binit_bc [of s] cold len by (auto simp: cold_def)
  then have st: "bst d {} (\<lambda>_. 0) d (dwrites s) (rest t) t"
    using cold by (simp add: bst_def cold_def)
  let ?l = "sb_log (superblock_of (d 1)) (lg t)"
  have g: "same_geom ?l l" using l by (simp add: same_geom_def sb_log_def sb_on_def log_geom_def)
  note eq = same_geom_facts [OF g]
  have h: "log_geom ?l" "hdr_ok ?l (d (log_start ?l))" using l by (simp_all add: eq)
  obtain u where u: "initlog ROOTDEV t = Inr ((), u)"
    "bst (recovered l d) {} (\<lambda>_. 0) (recovered l d) (dwrites s @ on_disk (recover_trace l d)) (rest (t\<lparr>lg := lg u\<rparr>)) u"
    "log_rep [] (lg u)" "lg u = ?l\<lparr>lh_n := 0, lh_block := lh_block (lg u)\<rparr>"
    using initlog_run [OF st refl h] by (auto simp: wpK_iff eq recovered_def)
  have g': "same_geom (lg u) l" by (subst u(4)) (use g in \<open>simp add: same_geom_def\<close>)
  have "lblk (recovered l d) [] (\<lambda>_. 0) u"
    using u(2,3) same_geom_facts [OF g'] l(1) by (auto simp: lblk_def bst_def log_fits_def log_geom_def)
  with t(1) u(1,2) g' show ?thesis
    by (intro exI [of _ u]) (simp add: storage_boot_def bst_def)
qed

section \<open>A committed transaction\<close>

definition hdr_clean :: "logst \<Rightarrow> (uint \<Rightarrow> block) \<Rightarrow> bool" where
  "hdr_clean l d \<longleftrightarrow> hdr_ok l (d (log_start l)) \<and> hdr_list (d (log_start l)) = []"

definition crash_disk :: "nat \<Rightarrow> 'z kblk_scheme \<Rightarrow> 'z kblk_scheme \<Rightarrow> uint \<Rightarrow> block" where
  "crash_disk j s t = apply_writes (map snd (take j (drop (length (dwrites s)) (dwrites t)))) (disk s True)"

lemma snd_on_disk [simp]: "map snd (on_disk ws) = ws"
  by (simp add: on_disk_def comp_def)

lemma take_on_disk: "take j (on_disk ws) = on_disk (take j ws)"
  by (simp add: on_disk_def take_map)

lemma crash_disk_eq: "dwrites t = dwrites s @ on_disk ws \<Longrightarrow> crash_disk j s t = apply_writes (take j ws) (disk s True)"
  by (simp add: crash_disk_def take_on_disk)

lemma apply_writes_length:
  "(\<And>w. w \<in> set ws \<Longrightarrow> length (snd w) = 512) \<Longrightarrow> length (d n) = 512 \<Longrightarrow> length (apply_writes ws d n) = 512"
proof (induction ws arbitrary: d)
  case (Cons w ws)
  obtain m x where w: "w = (m, x)" by (cases w)
  have "length ((d(m := x)) n) = 512" using Cons.prems(1) [of w] Cons.prems(2) w by simp
  then have "length (apply_writes ws (d(m := x)) n) = 512"
    using Cons.prems(1) by (intro Cons.IH) auto
  then show ?case by (simp add: w)
qed simp

lemma lblk_txn:
  assumes "lblk v L H s" "hdr_clean (lg s) (disk s True)"
  shows "txn (lg s) L v (disk s True)"
proof -
  have bc: "bc v (set L) H s" and g: "log_geom (lg s)" using assms(1) by (auto simp: lblk_def)
  show ?thesis
    using assms bcD(7) [OF bc] bcD(8) [OF bc start_facts(2) [OF g]]
    by (auto simp: txn_def lblk_def hdr_clean_def)
qed

lemma commit_trace_blocks:
  assumes "txn l L v d" "\<And>n. n < FSSIZE \<Longrightarrow> length (v n) = 512" "w \<in> set (commit_trace l v L)"
  shows "length (snd w) = 512" "fst w \<in> area l \<union> set L"
proof -
  note T = txnD [OF assms(1)]
  have L: "L ! i < FSSIZE" "L ! i \<in> set L" "slot l i \<in> area l" if "i < length L" for i
    using T(2,9) that slot_facts(1) [OF T(1), of i] by (auto simp: log_fits_def)
  have "length L \<le> 30"
    using log_geom_LOGSIZE [OF T(1,9)] by (simp add: LOGSIZE_def MAXOPBLOCKS_def)
  then have h: "length (hdr (v (log_start l)) L) = 512" "length (hdr (hdr (v (log_start l)) L) []) = 512"
    using hdr_facts(1) T(6,8) by simp_all
  show "length (snd w) = 512" "fst w \<in> area l \<union> set L"
    using assms(2,3) L h start_facts(1) [OF T(1)] by (auto simp: commit_trace_def)
qed

lemma commit_lblk:
  fixes s :: "'z klog_scheme"
  assumes b: "lblk v L H s" and L: "L \<noteq> []" and fr: "free_refs (set L) H"
  defines "v' \<equiv> apply_writes (commit_trace (lg s) v L) v"
  shows "\<exists>t. commit s = Inr ((), t) \<and> lblk v' [] H t \<and> disk t True = v' \<and>
    dwrites t = dwrites s @ on_disk (commit_trace (lg s) v L) \<and> same_geom (lg t) (lg s)"
proof -
  let ?l = "lg s"
  have bc: "bc v (set L) H s" and l: "log_geom ?l" "log_rep L ?l" "log_fits ?l L" "distinct L"
    using b by (auto simp: lblk_def)
  have st: "bst v (set L) H (disk s True) (dwrites s) (rest s) s" using bc by (simp add: bst_def)
  obtain t where t: "commit s = Inr ((), t)" "bst v' {} H (apply_writes (commit_trace ?l v L) (disk s True))
      (dwrites s @ on_disk (commit_trace ?l v L)) (rest (s\<lparr>lg := ?l\<lparr>lh_n := 0\<rparr>\<rparr>)) t"
    using commit_run [OF st fr refl l(1,2,3,4) L] by (auto simp: wpK_iff v'_def)
  have lgt: "lg t = ?l\<lparr>lh_n := 0\<rparr>"
    using t(2) rest_lg [of t "s\<lparr>lg := ?l\<lparr>lh_n := 0\<rparr>\<rparr>"] by (simp add: bst_def)
  have g: "same_geom (lg t) ?l" by (simp add: lgt same_geom_def)
  have bct: "bc v' {} H t" using t(2) by (simp add: bst_def)
  then have "disk t True = v'" using bcD(7) [OF bct] by (auto simp: fun_eq_iff)
  moreover have "lblk v' [] H t"
    using bct l(1) same_geom_facts [OF g] by (auto simp: lblk_def lgt log_rep_def log_fits_def log_geom_def)
  ultimately show ?thesis using t g by (intro exI [of _ t]) (simp add: bst_def)
qed

lemma commit_result:
  assumes "txn l L v d" "n \<notin> area l"
  shows "apply_writes (commit_trace l v L) v n = v n"
proof -
  note T = txnD [OF assms(1)]
  have n: "n \<noteq> log_start l" using assms(2) start_facts(1) [OF T(1)] by auto
  have "apply_writes (map (\<lambda>i. (L ! i, v (L ! i))) [0..<k]) v0 n = v n" if "v0 n = v n" "k \<le> length L" for v0 k
    using that by (induction k) auto
  with n slots_written(2) [OF T(1,9)] assms(2) show ?thesis
    by (simp add: commit_trace_def apply_writes_append)
qed

end
