(* ===== verification/Durable.thy ===== *)
theory Durable
  imports Crash
begin

text \<open>
  What the log promises: a transaction is atomic under power failures, durable once committed, and
  recovery may itself be cut short. The theorems are applied to a concrete machine with a freshly
  formatted disk, laid out as \<^verbatim>\<open>mkfs\<close> does (1000 blocks, the log in blocks 2 to 31), on which a
  transaction has changed one block.
\<close>

section \<open>A formatted disk\<close>

definition zero_block :: block where
  "zero_block = replicate 512 0"

definition demo_sb :: block where
  "demo_sb = put_uint 6 58 (put_uint 5 32 (put_uint 4 2 (put_uint 3 30 (put_uint 2 200
     (put_uint 1 941 (put_uint 0 1000 zero_block))))))"

definition demo_disk :: "uint \<Rightarrow> block" where
  "demo_disk n = (if n = 1 then demo_sb else zero_block)"

definition demo_log :: logst where
  "demo_log = \<lparr>log_start = 2, log_size = 30, log_committing = 0, log_dev = ROOTDEV, lh_n = 0,
     lh_block = (\<lambda>_. 0)\<rparr>"

definition demo_machine :: "(uint \<Rightarrow> block) \<Rightarrow> klog" where
  "demo_machine d = \<lparr>eflags_if = False, ncli = 0, intena = False, mem = (\<lambda>_. 0), freelist = 0,
     bufs = (\<lambda>_. \<lparr>b_flags = 0, b_dev = 0, b_blockno = 0, b_refcnt = 0, b_prev = 0, b_next = 0,
       b_qnext = None, b_data = zero_block\<rparr>),
     idequeue = None, havedisk1 = True, ide_status = IDE_DRDY, ports = (\<lambda>_. 0), disk = (\<lambda>_. d),
     dwrites = [], lg = demo_log\<rparr>"

lemma demo_cold: "cold d (demo_machine d)"
  by (simp add: cold_def demo_machine_def ide_ready_def IDE_BSY_def IDE_DRDY_def IDE_DF_def IDE_ERR_def
      unused_def zero_block_def)

lemma demo_geom: "log_geom demo_log" "1 \<notin> area demo_log" "100 \<notin> area demo_log" "log_fits demo_log []"
  by (simp_all add: log_geom_def demo_log_def area_def NBUF_def FSSIZE_def log_fits_def)

lemma demo_disk_facts:
  "length (demo_disk n) = 512" "sb_on demo_disk demo_log" "hdr_ok demo_log (demo_disk 2)"
  "hdr_list (demo_disk 2) = []"
proof -
  have len: "length zero_block = 512" by (simp add: zero_block_def)
  then show "length (demo_disk n) = 512" by (simp add: demo_disk_def demo_sb_def)
  show "sb_on demo_disk demo_log"
    using len by (simp add: sb_on_def demo_disk_def demo_sb_def superblock_of_def get_put_uint demo_log_def)
  have "get_uint 0 zero_block = 0" by (simp add: zero_block_def get_uint_zero)
  then show "hdr_ok demo_log (demo_disk 2)" "hdr_list (demo_disk 2) = []"
    using demo_geom(4) by (simp_all add: hdr_ok_def hdr_list_def demo_disk_def)
qed

definition demo_start :: "uint \<Rightarrow> block" where
  "demo_start = recovered demo_log demo_disk"

lemma demo_boot:
  "\<exists>t. storage_boot (demo_machine demo_disk) = Inr ((), t) \<and> lblk demo_start [] (\<lambda>_. 0) t \<and>
     disk t True = demo_start \<and> same_geom (lg t) demo_log"
proof -
  have "hdr_ok demo_log (demo_disk (log_start demo_log))"
    using demo_disk_facts(3) by (simp add: demo_log_def)
  then show ?thesis
    using storage_boot_run [OF demo_cold demo_disk_facts(1) demo_geom(1) demo_disk_facts(2)]
    unfolding demo_start_def by blast
qed

lemma demo_start_facts:
  "demo_start 1 = demo_sb" "demo_start 100 = zero_block" "hdr_clean demo_log demo_start"
proof -
  have a: "log_start demo_log = 2" by (simp add: demo_log_def)
  show "demo_start 1 = demo_sb" "demo_start 100 = zero_block"
    using recovered_other [of _ demo_log demo_disk] demo_disk_facts(4)
    by (simp_all add: demo_start_def a demo_disk_def)
  have "demo_start 2 = hdr (demo_disk 2) []"
    by (simp add: demo_start_def recovered_def recover_trace_def Let_def a)
  then show "hdr_clean demo_log demo_start"
    using hdr_ok_hdr [OF demo_disk_facts(1) demo_geom(1,4), of 2] by (simp add: hdr_clean_def a)
qed

text \<open>A transaction that fills block 100.\<close>

definition demo_new :: "uint \<Rightarrow> block" where
  "demo_new = demo_start(100 := replicate 512 7)"

lemma demo_txn:
  "\<exists>s :: klog. lblk demo_new [100] (\<lambda>_. 0) s \<and> disk s True = demo_start \<and> same_geom (lg s) demo_log"
proof -
  obtain t :: klog where t: "lblk demo_start [] (\<lambda>_. 0) t" "disk t True = demo_start" "same_geom (lg t) demo_log"
    using demo_boot by blast
  have geo: "log_start (lg t) = 2" "log_size (lg t) = 30"
    using t(3) by (simp_all add: same_geom_def demo_log_def)
  have n: "100 < FSSIZE" "100 \<notin> larea (lctx t)"
    by (simp_all add: FSSIZE_def larea_def lctx_def geo)
  have bud: "fsblk.budget [] (\<lambda>_. 0) (lctx t) (Suc (Suc 0))"
    by (simp add: fsblk.budget_def lcap_def lctx_def geo pinned_def NBUF_def)
  have "wpK (bindK (bread ROOTDEV 100) (\<lambda>b. thenK (log_modify b (\<lambda>_. replicate 512 7)) (thenK (brelse b) (ret ()))))
      (\<lambda>_ s. lblk demo_new [100] (\<lambda>_. 0) s \<and> lctx s = lctx t) t"
    by (rule fsblk.modify_wp [OF t(1) n(1) bud n(2)]) (simp_all add: demo_new_def logged_def)
  then obtain s where s: "lblk demo_new [100] (\<lambda>_. 0) s" "lctx s = lctx t"
    by (auto simp: wpK_iff)
  then have "same_geom (lg s) demo_log" "disk s True = demo_start"
    using t geo by (auto simp: lctx_def same_geom_def lblk_def log_geom_def demo_log_def)
  with s(1) show ?thesis by blast
qed

lemma demo_txn_facts:
  assumes "same_geom (lg s) demo_log" "disk s True = demo_start"
  shows "hdr_clean (lg s) (disk s True)" "sb_on (disk s True) (lg s)" "1 \<notin> set [100] \<union> area (lg s)"
    "100 \<notin> area (lg s)" "free_refs (set [100]) (\<lambda>_. 0)"
proof -
  note g = same_geom_facts [OF assms(1)]
  show "hdr_clean (lg s) (disk s True)" using demo_start_facts(3) assms(2) by (simp add: hdr_clean_def g)
  show "sb_on (disk s True) (lg s)"
    using demo_disk_facts(2) assms(2) demo_start_facts(1) by (simp add: sb_on_def g demo_disk_def)
  show "1 \<notin> set [100] \<union> area (lg s)" "100 \<notin> area (lg s)" using demo_geom by (simp_all add: g)
  show "free_refs (set [100]) (\<lambda>_. 0)" by (simp add: free_refs_def pinned_def NBUF_def)
qed

section \<open>Properties\<close>

text \<open>
  C1: atomicity of a transaction. Let \<open>commit\<close> run in a state whose logged blocks are \<open>L\<close>
  and let the power fail after any number \<open>j\<close> of its sector writes. Starting the machine again
  succeeds, and outside the log area the disk holds either exactly what it held before the
  transaction (when the failure came before the header was written) or exactly the contents the
  transaction produced; the log is then empty.
\<close>

theorem commit_crash_atomic:
  fixes s t b :: "'z klog_scheme"
  assumes b: "lblk v L H s" "L \<noteq> []" "free_refs (set L) H"
    and clean: "hdr_clean (lg s) (disk s True)" and sb: "sb_on (disk s True) (lg s)" "1 \<notin> set L \<union> area (lg s)"
    and run: "commit s = Inr ((), t)" and fail: "cold (crash_disk j s t) b"
  shows "\<exists>u. storage_boot b = Inr ((), u) \<and> lblk (disk u True) [] (\<lambda>_. 0) u \<and>
    (\<forall>n. n \<notin> area (lg s) \<longrightarrow> disk u True n = (if j \<le> length L then disk s True n else v n))"
proof -
  let ?l = "lg s" and ?ws = "commit_trace (lg s) v L"
  define d where "d = apply_writes (take j ?ws) (disk s True)"
  have T: "txn ?l L v (disk s True)" by (rule lblk_txn [OF b(1) clean])
  have bc: "bc v (set L) H s" using b(1) by (simp add: lblk_def)
  have cd: "crash_disk j s t = d"
    using commit_lblk [OF b] run by (auto simp: d_def intro: crash_disk_eq)
  have sub: "set (take j ?ws) \<subseteq> set ?ws" by (rule set_take_subset)
  have len: "length (d n) = 512" if "n < FSSIZE" for n
    unfolding d_def using sub bcD(8) [OF bc that] commit_trace_blocks(1) [OF T bc_length [OF bc]]
    by (intro apply_writes_length) auto
  have "d 1 = disk s True 1"
    unfolding d_def using sub sb(2) commit_trace_blocks(2) [OF T bc_length [OF bc]]
    by (intro apply_writes_other) fastforce
  then have sbd: "sb_on d ?l" using sb(1) by (simp add: sb_on_def)
  have "hdr_ok ?l (d (log_start ?l)) \<and>
    (\<forall>n. n \<notin> area ?l \<longrightarrow> recovered ?l d n = (if j \<le> length L then disk s True n else v n))"
  proof (cases "j \<le> length L")
    case True
    then show ?thesis using before_header [OF T True] by (simp add: d_def)
  next
    case False
    then have "length L < j" by simp
    from after_header [OF T this] False show ?thesis by (simp add: d_def)
  qed
  then have hok: "hdr_ok ?l (d (log_start ?l))"
    and out: "\<And>n. n \<notin> area ?l \<Longrightarrow> recovered ?l d n = (if j \<le> length L then disk s True n else v n)"
    by blast+
  obtain u where u: "storage_boot b = Inr ((), u)" "lblk (recovered ?l d) [] (\<lambda>_. 0) u" "disk u True = recovered ?l d"
    using storage_boot_run [OF fail [unfolded cd] len txnD(1) [OF T] sbd hok] by blast
  with out show ?thesis by (intro exI [of _ u]) simp
qed

text \<open>The power fails after the first sector write: block 100 is as before.\<close>

theorem commit_crash_atomic_witness:
  "\<exists>(s :: klog) t u. lblk demo_new [100] (\<lambda>_. 0) s \<and> commit s = Inr ((), t) \<and>
     storage_boot (demo_machine (crash_disk 1 s t)) = Inr ((), u) \<and> disk u True 100 = zero_block"
proof -
  obtain s :: klog where s: "lblk demo_new [100] (\<lambda>_. 0) s" "disk s True = demo_start" "same_geom (lg s) demo_log"
    using demo_txn by blast
  note f = demo_txn_facts [OF s(3,2)]
  obtain t where t: "commit s = Inr ((), t)" using commit_lblk [OF s(1) _ f(5)] by auto
  from commit_crash_atomic [OF s(1) _ f(5,1,2,3) t demo_cold, of 1] f(4) s(2)
  show ?thesis using s(1) t by (auto simp: demo_start_facts)
qed

text \<open>
  C2: durability. \<open>commit\<close> returns, writes the disk in the order log copies, header, installed
  blocks, cleared header, and leaves every block outside the log area on the disk with the
  contents the transaction gave it; no block stays pinned and the log is empty.
\<close>

theorem commit_durable:
  fixes s :: "'z klog_scheme"
  assumes "lblk v L H s" "L \<noteq> []" "free_refs (set L) H" "hdr_clean (lg s) (disk s True)"
  shows "\<exists>t. commit s = Inr ((), t) \<and> lblk (disk t True) [] H t \<and>
    (\<forall>n. n \<notin> area (lg s) \<longrightarrow> disk t True n = v n) \<and> hdr_clean (lg t) (disk t True) \<and>
    dwrites t = dwrites s @ on_disk (commit_trace (lg s) v L)"
proof -
  let ?l = "lg s" and ?v = "apply_writes (commit_trace (lg s) v L) v"
  have T: "txn ?l L v (disk s True)" by (rule lblk_txn [OF assms(1,4)])
  obtain t where t: "commit s = Inr ((), t)" "lblk ?v [] H t" "disk t True = ?v"
      "dwrites t = dwrites s @ on_disk (commit_trace ?l v L)" "same_geom (lg t) ?l"
    using commit_lblk [OF assms(1-3)] by blast
  have "length (hdr (v (log_start ?l)) L) = 512"
    using hdr_facts(1) txnD(6,8) [OF T] log_geom_LOGSIZE [OF txnD(1,9) [OF T]]
    by (simp add: LOGSIZE_def MAXOPBLOCKS_def)
  moreover have "log_fits ?l []" using txnD(1) [OF T] by (auto simp: log_fits_def log_geom_def)
  moreover have "?v (log_start ?l) = hdr (hdr (v (log_start ?l)) L) []"
    by (simp add: commit_trace_def apply_writes_append)
  ultimately have "hdr_clean (lg t) (disk t True)"
    using hdr_ok_hdr [OF _ txnD(1) [OF T]] same_geom_facts [OF t(5)] by (simp add: hdr_clean_def t(3))
  with t commit_result [OF T] show ?thesis by (intro exI [of _ t]) simp
qed

theorem commit_durable_witness:
  "\<exists>(s :: klog) t. lblk demo_new [100] (\<lambda>_. 0) s \<and> commit s = Inr ((), t) \<and>
     disk t True 100 = replicate 512 7"
proof -
  obtain s :: klog where s: "lblk demo_new [100] (\<lambda>_. 0) s" "disk s True = demo_start" "same_geom (lg s) demo_log"
    using demo_txn by blast
  note f = demo_txn_facts [OF s(3,2)]
  from commit_durable [OF s(1) _ f(5,1)] s(1) f(4) show ?thesis by (auto simp: demo_new_def)
qed

text \<open>
  C3: recovery can itself be interrupted. If the power fails after any number of the sector
  writes that start-up makes, the next start-up leaves every block outside the log area as an
  undisturbed start-up would have.
\<close>

theorem recovery_restartable:
  fixes s t b :: "'z klog_scheme"
  assumes cold: "cold d s" and len: "\<forall>n<FSSIZE. length (d n) = 512"
    and l: "log_geom l" "sb_on d l" "hdr_ok l (d (log_start l))" "1 \<notin> set (hdr_list (d (log_start l))) \<union> area l"
    and run: "storage_boot s = Inr ((), t)" and fail: "cold (crash_disk j s t) b"
  shows "\<exists>u. storage_boot b = Inr ((), u) \<and> lblk (disk u True) [] (\<lambda>_. 0) u \<and>
    (\<forall>n. n \<notin> area l \<longrightarrow> disk u True n = disk t True n)"
proof -
  let ?a = "log_start l" and ?L = "hdr_list (d (log_start l))"
  define d' where "d' = apply_writes (take j (recover_trace l d)) d"
  have d: "disk s True = d" using cold by (simp add: cold_def)
  have t: "disk t True = recovered l d" "crash_disk j s t = d'"
    using storage_boot_run [OF cold _ l(1-3)] len run crash_disk_eq [of t s "recover_trace l d" j] by (auto simp: d'_def d)
  have a: "length (d ?a) = 512" using len start_facts(2) [OF l(1)] by simp
  have fits: "length ?L < nat (log_size l)" "\<And>n. n \<in> set ?L \<Longrightarrow> n < FSSIZE"
    using l(3) by (auto simp: hdr_ok_def log_fits_def)
  have ws: "length (snd w) = 512 \<and> fst w \<in> set ?L \<union> area l" if "w \<in> set (recover_trace l d)" for w
  proof -
    have "length (d (slot l i)) = 512" if "i < length ?L" for i
      using slot_facts(2) [OF l(1), of i] len fits(1) that by simp
    then show ?thesis
      using that a hdr_facts(1) [OF a, of "[]"] start_facts(1) [OF l(1)]
      by (auto simp: recover_trace_def Let_def)
  qed
  have sub: "set (take j (recover_trace l d)) \<subseteq> set (recover_trace l d)" by (rule set_take_subset)
  have len': "length (d' n) = 512" if "n < FSSIZE" for n
    unfolding d'_def using sub ws len that by (intro apply_writes_length) auto
  have "d' 1 = d 1"
    unfolding d'_def using sub ws l(4) by (intro apply_writes_other) fastforce
  then have "sb_on d' l" using l(2) by (simp add: sb_on_def)
  moreover have "hdr_ok l (d' ?a)" "\<And>n. n \<notin> area l \<Longrightarrow> recovered l d' n = recovered l d n"
    unfolding d'_def using recover_prefix [of l d, where j = j] l(1,3) a by blast+
  ultimately obtain u where "storage_boot b = Inr ((), u)" "lblk (recovered l d') [] (\<lambda>_. 0) u"
      "disk u True = recovered l d'"
    using storage_boot_run [OF fail [unfolded t(2)] len' l(1)] by blast
  with \<open>\<And>n. n \<notin> area l \<Longrightarrow> recovered l d' n = recovered l d n\<close> show ?thesis
    unfolding t(1) by (intro exI [of _ u]) simp
qed

theorem recovery_restartable_witness:
  "\<exists>t u. storage_boot (demo_machine demo_disk) = Inr ((), t) \<and>
     storage_boot (demo_machine (crash_disk 1 (demo_machine demo_disk) t)) = Inr ((), u) \<and>
     disk u True 100 = disk t True 100"
proof -
  obtain t where t: "storage_boot (demo_machine demo_disk) = Inr ((), t)" using demo_boot by blast
  have h: "hdr_ok demo_log (demo_disk (log_start demo_log))" "1 \<notin> set (hdr_list (demo_disk (log_start demo_log))) \<union> area demo_log"
    using demo_disk_facts(3,4) demo_geom(2) by (simp_all add: demo_log_def)
  from recovery_restartable [OF demo_cold _ demo_geom(1) demo_disk_facts(2) h t demo_cold, of 1]
  show ?thesis using t demo_disk_facts(1) demo_geom(3) by auto
qed

text \<open>
  C4: the cache and the log implement an array of blocks. Any sequence of block reads and logged
  writes that the transaction has room for returns what the array returns, leaves the array's final
  contents as the current contents, keeps the reference counts, and logs each written block once, in
  the order of the first writes.
\<close>

theorem block_array_refines:
  assumes "lblk v L H s" "\<forall>p\<in>set ps. bop_ok (lctx s) p"
    and "fsblk.budget L H (lctx s) (card (set (bop_writes ps) - set L) + 2)"
    and "array_run ps v = (xs, w)"
  shows "\<exists>t. block_run ps s = Inr (xs, t) \<and> lblk w (fold (\<lambda>n L. logged L n) (bop_writes ps) L) H t \<and>
    disk t True = disk s True"
  using block_run_wp [OF assms(1-3)] assms(4) by (auto simp: wpK_iff lctx_def)

theorem block_array_refines_witness:
  "\<exists>s t. storage_boot (demo_machine demo_disk) = Inr ((), s) \<and>
     block_run [Rd 100, Wr 100 demo_sb, Wr 100 (replicate 512 7), Rd 1, Rd 100] s =
       Inr ([zero_block, demo_sb, replicate 512 7], t) \<and>
     lblk demo_new [100] (\<lambda>_. 0) t"
proof -
  obtain s where s: "storage_boot (demo_machine demo_disk) = Inr ((), s)" "lblk demo_start [] (\<lambda>_. 0) s"
    "same_geom (lg s) demo_log"
    using demo_boot by blast
  have geo: "log_start (lg s) = 2" "log_size (lg s) = 30"
    using s(3) by (simp_all add: same_geom_def demo_log_def)
  let ?ps = "[Rd 100, Wr 100 demo_sb, Wr 100 (replicate 512 7), Rd 1, Rd 100]"
  have "length demo_sb = 512" using demo_disk_facts(1) [of 1] by (simp add: demo_disk_def)
  then have ok: "\<forall>p\<in>set ?ps. bop_ok (lctx s) p"
    by (simp add: FSSIZE_def larea_def lctx_def geo)
  have bud: "fsblk.budget [] (\<lambda>_. 0) (lctx s) (card (set (bop_writes ?ps) - set []) + 2)"
    by (simp add: fsblk.budget_def lcap_def lctx_def geo pinned_def NBUF_def)
  have "array_run ?ps demo_start = ([zero_block, demo_sb, replicate 512 7], demo_new)"
    using demo_start_facts by (simp add: demo_new_def)
  from block_array_refines [OF s(2) ok bud this] show ?thesis
    using s(1) by (auto simp: logged_def)
qed

end
