(* ===== verification/Kstate.thy ===== *)
theory Kstate
  imports Proc Durable
begin

text \<open>
  The state of the kernel before its first instruction: the static data are zero, as the C language has it, except for
  \<^verbatim>\<open>nextpid\<close>. The theorems are applied to states that are reached from here.
\<close>

definition nil_file :: file_s where
  "nil_file = \<lparr>f_type = FD_NONE, f_ref = 0, f_readable = False, f_writable = False, f_ip = 0, f_off = 0\<rparr>"

definition nil_proc :: proc where
  "nil_proc = \<lparr>p_sz = 0, p_offset = 0, p_kstack = 0, p_state = UNUSED, p_pid = 0, p_parent = None, p_tf = 0,
     p_context = 0, p_ofile = (\<lambda>_. None), p_cwd = None, p_name = replicate 16 0\<rparr>"

definition nil_seg :: segdesc where
  "nil_seg = \<lparr>lim_15_0 = 0, base_15_0 = 0, base_23_16 = 0, seg_type = 0, seg_s = 0, seg_dpl = 0, seg_p = 0,
     lim_19_16 = 0, avl = 0, seg_rsv1 = 0, seg_db = 0, seg_g = 0, base_31_24 = 0\<rparr>"

definition nil_gate :: gatedesc where
  "nil_gate = \<lparr>off_15_0 = 0, gate_cs = 0, gate_args = 0, gate_rsv1 = 0, gate_type = 0, gate_s = 0, gate_dpl = 0,
     gate_p = 0, off_31_16 = 0\<rparr>"

definition nil_ts :: taskstate where
  "nil_ts = \<lparr>ts_link = 0, ts_esp0 = 0, ts_ss0 = 0, ts_esp1 = 0, ts_ss1 = 0, ts_esp2 = 0, ts_ss2 = 0, ts_cr3 = 0,
     ts_eip = 0, ts_eflags = 0, ts_eax = 0, ts_ecx = 0, ts_edx = 0, ts_ebx = 0, ts_esp = 0, ts_ebp = 0, ts_esi = 0,
     ts_edi = 0, ts_es = 0, ts_cs = 0, ts_ss = 0, ts_ds = 0, ts_fs = 0, ts_gs = 0, ts_ldt = 0, ts_t = 0,
     ts_iomb = 0\<rparr>"

definition nil_sb :: superblock where
  "nil_sb = \<lparr>sb_size = 0, sb_nblocks = 0, sb_ninodes = 0, sb_nlog = 0, sb_logstart = 0, sb_inodestart = 0,
     sb_bmapstart = 0\<rparr>"

text \<open>\<open>d\<close> is the disk of the file system, \<open>m\<close> the memory.\<close>

definition kstart :: "(uint \<Rightarrow> block) \<Rightarrow> memory \<Rightarrow> kproc" where
  "kstart d m = \<lparr>eflags_if = False, ncli = 0, intena = False, mem = m, freelist = 0,
     bufs = (\<lambda>_. \<lparr>b_flags = 0, b_dev = 0, b_blockno = 0, b_refcnt = 0, b_prev = 0, b_next = 0,
       b_qnext = None, b_data = zero_block\<rparr>),
     idequeue = None, havedisk1 = True, ide_status = IDE_DRDY, ports = (\<lambda>_. 0), disk = (\<lambda>_. d),
     dwrites = [],
     lg = \<lparr>log_start = 0, log_size = 0, log_committing = 0, log_dev = 0, lh_n = 0, lh_block = (\<lambda>_. 0)\<rparr>,
     uart = False, uart_lsr = 0x20, uart_rx = [], uart_tx = [], in_buf = (\<lambda>_. 0), in_r = 0, in_w = 0, in_e = 0,
     ioapic_sel = 0, ioapic_regs = (\<lambda>_. 0), lapic = 0, lapic_regs = (\<lambda>_. 0), ncpu = 0, apicids = (\<lambda>_. 0),
     ioapicid = 0, sb = nil_sb, icache = (\<lambda>_. nil_inode), ftable = (\<lambda>_. nil_file), ptable = (\<lambda>_. nil_proc),
     initproc = None, nextpid = 1, cpu_proc = None, gdt = (\<lambda>_. nil_seg), ts = nil_ts, gdtr = (0, 0), tr = 0,
     idt = (\<lambda>_. nil_gate), idtr = (0, 0), ticks = 0\<rparr>"

lemma kstart_cold: "cold d (kstart d m)"
  by (simp add: cold_def kstart_def ide_ready_def IDE_BSY_def IDE_DRDY_def IDE_DF_def IDE_ERR_def
      unused_def zero_block_def)

end
