(* ===== verification/Syscall.thy ===== *)
theory Syscall
  imports Kstate
begin

text \<open>
  \<^verbatim>\<open>syscall.c\<close>, \<^verbatim>\<open>sysfile.c\<close> and \<^verbatim>\<open>sysproc.c\<close>: fetching the arguments of a system call from the memory of the
  process, and the system calls. A function that returns -1 or stores a result through a pointer returns an
  option. Buffers of the process are in the memory: \<open>sys_write\<close> reads the bytes there, \<open>sys_read\<close> stores them there.
\<close>

definition SYS_open :: int where "SYS_open = 1"
definition SYS_write :: int where "SYS_write = 2"
definition SYS_close :: int where "SYS_close = 3"
definition SYS_uptime :: int where "SYS_uptime = 4"

section \<open>Arguments\<close>

text \<open>The current process; a null pointer is a fault.\<close>

definition curproc :: "('z kproc_scheme, nat \<times> proc) kern" where
  "curproc = bindK myproc (\<lambda>q. case q of None \<Rightarrow> fault | Some p \<Rightarrow> bindK (proc_get p id) (\<lambda>x. ret (p, x)))"

definition fetchint :: "uint \<Rightarrow> ('z kproc_scheme, uint option) kern" where
  "fetchint addr =
     bindK curproc (\<lambda>(p, x).
     if addr \<ge> p_sz x \<or> addr + 4 > p_sz x then ret None else
     bindK (getK mem) (\<lambda>m. ret (Some (ld32 m (addr + p_offset x)))))"

primrec fetchstr_loop :: "nat \<Rightarrow> memory \<Rightarrow> uint \<Rightarrow> uint \<Rightarrow> uint \<Rightarrow> ('z kproc_scheme, uint option) kern" where
  "fetchstr_loop 0 = (\<lambda>m pp ep s. spin)"
| "fetchstr_loop (Suc fuel) = (\<lambda>m pp ep s.
     if \<not> s < ep then ret None else
     if m s = 0 then ret (Some (s - pp)) else fetchstr_loop fuel m pp ep (s + 1))"

definition fetchstr :: "uint \<Rightarrow> ('z kproc_scheme, (uint \<times> uint) option) kern" where
  "fetchstr addr =
     bindK curproc (\<lambda>(p, x).
     if addr \<ge> p_sz x then ret None else
     let pp = addr + p_offset x; ep = p_sz x + p_offset x in
     bindK (getK mem) (\<lambda>m.
     bindK (fetchstr_loop (unat ep - unat pp + 1) m pp ep pp) (\<lambda>r.
     ret (map_option (\<lambda>l. (l, pp)) r))))"

definition argint :: "nat \<Rightarrow> ('z kproc_scheme, uint option) kern" where
  "argint n =
     bindK curproc (\<lambda>(p, x).
     bindK (getK mem) (\<lambda>m.
     fetchint (ld32 m (p_tf x + TF_esp) + 4 + 4 * of_nat n)))"

definition argptr :: "nat \<Rightarrow> uint \<Rightarrow> ('z kproc_scheme, uint option) kern" where
  "argptr n sz =
     bindK curproc (\<lambda>(p, x).
     bindK (argint n) (\<lambda>r. case r of
       None \<Rightarrow> ret None
     | Some i \<Rightarrow>
       if sz <s 0 \<or> i \<ge> p_sz x \<or> i + sz > p_sz x then ret None
       else ret (Some (i + p_offset x))))"

definition argstr :: "nat \<Rightarrow> ('z kproc_scheme, (uint \<times> uint) option) kern" where
  "argstr n =
     bindK (argint n) (\<lambda>r. case r of None \<Rightarrow> ret None | Some addr \<Rightarrow> fetchstr addr)"

text \<open>The descriptor and the file; the caller that passes null pointers ignores one of them.\<close>

definition argfd :: "nat \<Rightarrow> ('z kproc_scheme, (nat \<times> nat) option) kern" where
  "argfd n =
     bindK (argint n) (\<lambda>r. case r of
       None \<Rightarrow> ret None
     | Some fd \<Rightarrow>
       if sint fd < 0 \<or> sint fd \<ge> int NOFILE then ret None else
       bindK curproc (\<lambda>(p, x). ret (map_option (\<lambda>f. (unat fd, f)) (p_ofile x (unat fd)))))"

section \<open>The system calls\<close>

primrec fdalloc_scan :: "nat \<Rightarrow> nat \<Rightarrow> (nat \<Rightarrow> nat option) \<Rightarrow> nat option" where
  "fdalloc_scan 0 fd ofile = None"
| "fdalloc_scan (Suc k) fd ofile = (if ofile fd = None then Some fd else fdalloc_scan k (Suc fd) ofile)"

definition fdalloc :: "nat \<Rightarrow> ('z kproc_scheme, nat option) kern" where
  "fdalloc f =
     bindK curproc (\<lambda>(p, x).
     case fdalloc_scan NOFILE 0 (p_ofile x) of
       None \<Rightarrow> ret None
     | Some fd \<Rightarrow> thenK (proc_upd p (\<lambda>x. x\<lparr>p_ofile := (p_ofile x)(fd \<mapsto> f)\<rparr>)) (ret (Some fd)))"

text \<open>The arguments \<^verbatim>\<open>(fd, p, n)\<close> of \<^verbatim>\<open>read\<close> and \<^verbatim>\<open>write\<close>.\<close>

definition rw_args :: "('z kproc_scheme, (nat \<times> uint \<times> uint) option) kern" where
  "rw_args =
     bindK (argfd 0) (\<lambda>a. case a of None \<Rightarrow> ret None | Some (fd, f) \<Rightarrow>
     bindK (argint 2) (\<lambda>b. case b of None \<Rightarrow> ret None | Some n \<Rightarrow>
     bindK (argptr 1 n) (\<lambda>c. case c of None \<Rightarrow> ret None | Some p \<Rightarrow> ret (Some (f, p, n)))))"

definition store_bytes :: "uint \<Rightarrow> uchar list \<Rightarrow> memory \<Rightarrow> memory" where
  "store_bytes a bs m = (\<lambda>x. if unat (x - a) < length bs then bs ! unat (x - a) else m x)"

definition sys_read :: "'z kproc_scheme devsw \<Rightarrow> ('z kproc_scheme, int) kern" where
  "sys_read devsw =
     bindK rw_args (\<lambda>r. case r of None \<Rightarrow> ret (- 1) | Some (f, p, n) \<Rightarrow>
     bindK (fileread devsw f (sint n)) (\<lambda>(k, bs).
     thenK (modK (\<lambda>s. s\<lparr>mem := store_bytes p bs (mem s)\<rparr>)) (ret k)))"

definition sys_write :: "'z kproc_scheme devsw \<Rightarrow> ('z kproc_scheme, int) kern" where
  "sys_write devsw =
     bindK rw_args (\<lambda>r. case r of None \<Rightarrow> ret (- 1) | Some (f, p, n) \<Rightarrow>
     bindK (getK mem) (\<lambda>m.
     filewrite devsw f (bytes_at m p (unat n)) (sint n)))"

definition sys_close :: "('z kproc_scheme, int) kern" where
  "sys_close =
     bindK (argfd 0) (\<lambda>a. case a of None \<Rightarrow> ret (- 1) | Some (fd, f) \<Rightarrow>
     bindK curproc (\<lambda>(p, x).
     thenK (proc_upd p (\<lambda>x. x\<lparr>p_ofile := (p_ofile x)(fd := None)\<rparr>)) (
     thenK (fileclose f) (ret 0))))"

text \<open>\<^verbatim>\<open>sysfile.c\<close> has its own copy of \<^verbatim>\<open>create\<close>, with the same body as the one of \<^verbatim>\<open>file.c\<close>.\<close>

definition sysfile_create ::
  "'z kproc_scheme devsw \<Rightarrow> uchar list \<Rightarrow> ushort \<Rightarrow> ushort \<Rightarrow> ushort \<Rightarrow> ('z kproc_scheme, nat option) kern" where
  "sysfile_create devsw path type major minor = create devsw path type major minor"

definition sys_open_inode :: "'z kproc_scheme devsw \<Rightarrow> uchar list \<Rightarrow> uint \<Rightarrow> ('z kproc_scheme, nat option) kern" where
  "sys_open_inode devsw path omode =
     (if omode AND O_CREATE \<noteq> 0 then sysfile_create devsw path T_FILE 0 0
      else bindK (namei devsw path) (\<lambda>p. case p of
        None \<Rightarrow> ret None
      | Some ip \<Rightarrow>
          thenK (iread (Some ip)) (
          bindK (inode_get ip i_type) (\<lambda>ty.
          if ty = T_DIR \<and> omode \<noteq> O_RDONLY then thenK (iput ip) (ret None)
          else ret (Some ip)))))"

definition sys_open :: "'z kproc_scheme devsw \<Rightarrow> ('z kproc_scheme, int) kern" where
  "sys_open devsw =
     bindK (argstr 0) (\<lambda>a. case a of None \<Rightarrow> ret (- 1) | Some (l, pp) \<Rightarrow>
     bindK (argint 1) (\<lambda>b. case b of None \<Rightarrow> ret (- 1) | Some omode \<Rightarrow>
     thenK begin_op (
     bindK (getK mem) (\<lambda>m.
     bindK (sys_open_inode devsw (bytes_at m pp (unat l)) omode) (\<lambda>q. case q of
       None \<Rightarrow> thenK end_op (ret (- 1))
     | Some ip \<Rightarrow>
       bindK filealloc (\<lambda>g. case g of
         None \<Rightarrow> thenK (iput ip) (thenK end_op (ret (- 1)))
       | Some f \<Rightarrow>
         bindK (fdalloc f) (\<lambda>d. case d of
           None \<Rightarrow> thenK (fileclose f) (thenK (iput ip) (thenK end_op (ret (- 1))))
         | Some fd \<Rightarrow>
           thenK end_op (
           thenK (file_upd f (\<lambda>x. x\<lparr>f_type := FD_INODE, f_ip := ip, f_off := 0,
             f_readable := (omode AND O_WRONLY = 0),
             f_writable := (omode AND O_WRONLY \<noteq> 0 \<or> omode AND O_RDWR \<noteq> 0)\<rparr>))
           (ret (int fd))))))))))"

definition sys_uptime :: "('z kproc_scheme, int) kern" where
  "sys_uptime = bindK (getK ticks) (\<lambda>t. ret (sint t))"

definition syscalls :: "'z kproc_scheme devsw \<Rightarrow> int \<Rightarrow> ('z kproc_scheme, int) kern option" where
  "syscalls devsw num =
     (if num = SYS_open then Some (sys_open devsw)
      else if num = SYS_write then Some (sys_write devsw)
      else if num = SYS_close then Some sys_close
      else if num = SYS_uptime then Some sys_uptime
      else None)"

definition NELEM_syscalls :: int where "NELEM_syscalls = 5"

definition syscall :: "'z kproc_scheme devsw \<Rightarrow> ('z kproc_scheme, unit) kern" where
  "syscall devsw =
     bindK curproc (\<lambda>(p, x).
     bindK (getK (\<lambda>s. sint (ld32 (mem s) (p_tf x + TF_eax)))) (\<lambda>num.
     case (if num > 0 \<and> num < NELEM_syscalls then syscalls devsw num else None) of
       Some h \<Rightarrow> bindK h (\<lambda>r. bindK (proc_get p p_tf) (\<lambda>tf. store32 (tf + TF_eax) (of_int r)))
     | None \<Rightarrow>
       thenK (cprintf (Some (str ''%d %s: unknown sys call %d'' @ [0x0a])) [CInt (of_int (p_pid x)),
         CStr (Some (takeWhile (\<lambda>c. c \<noteq> 0) (p_name x))), CInt (of_int num)])
       (store32 (p_tf x + TF_eax) (- 1))))"

section \<open>Pointers of a process\<close>

text \<open>The memory of a process does not wrap around, and is at most half of the address space.\<close>

definition proc_mem_ok :: "proc \<Rightarrow> bool" where
  "proc_mem_ok x \<longleftrightarrow> unat (p_offset x) + unat (p_sz x) < 2 ^ 32 \<and> unat (p_sz x) \<le> 2 ^ 31"

text \<open>The \<open>n\<close> bytes at \<open>a\<close> are memory of the process.\<close>

definition in_proc :: "proc \<Rightarrow> uint \<Rightarrow> nat \<Rightarrow> bool" where
  "in_proc x a n \<longleftrightarrow> unat (p_offset x) \<le> unat a \<and> unat a + n \<le> unat (p_offset x) + unat (p_sz x)"

lemma unat_off_add:
  "unat (b::uint) + unat (i::uint) < 2 ^ 32 \<Longrightarrow> unat (i + b) = unat b + unat i"
  by (subst add.commute) (simp add: unat_word_ariths)

lemma in_proc_add:
  assumes "proc_mem_ok x" "unat i + n \<le> unat (p_sz x)"
  shows "in_proc x (i + p_offset x) n"
  using assms by (simp add: in_proc_def proc_mem_ok_def unat_off_add)

lemma curproc_run: "cpu_proc s = Some p \<Longrightarrow> curproc s = Inr ((p, ptable s p), s)"
  by (simp add: curproc_def myproc_def proc_get_def kern_simps)

lemma fetchint_run:
  assumes "cpu_proc s = Some p"
  shows "\<exists>r. fetchint a s = Inr (r, s)"
  using assms by (auto simp: fetchint_def curproc_run kern_simps)

lemma argint_run:
  assumes "cpu_proc s = Some p"
  shows "\<exists>r. argint n s = Inr (r, s)"
  using fetchint_run [OF assms] assms by (auto simp: argint_def curproc_run kern_simps)

text \<open>The check of \<open>argptr\<close> does not overflow.\<close>

lemma ptr_check:
  assumes "unat (l::uint) \<le> 2 ^ 31" "\<not> sz <s 0" "\<not> i \<ge> l" "\<not> i + sz > l"
  shows "unat i + unat sz \<le> unat l"
proof -
  have "sint sz \<ge> 0" using assms(2) by (simp add: word_sless_alt)
  then have "uint sz = sint sz" using sint_lt [of sz] by (simp add: uint_sint take_bit_int_eq_self)
  then have "unat sz < 2 ^ 31" using sint_lt [of sz] by (simp add: unat_eq_nat_uint)
  moreover have "unat i < unat l" using assms(3) by (simp add: word_less_nat_alt word_le_nat_alt)
  ultimately have "unat (i + sz) = unat i + unat sz" using assms(1) by (simp add: unat_word_ariths)
  then show ?thesis using assms(4) by (simp add: word_le_nat_alt word_less_nat_alt)
qed

lemma argptr_run:
  assumes "cpu_proc s = Some p" "proc_mem_ok (ptable s p)"
  shows "\<exists>r. argptr n sz s = Inr (r, s) \<and> (\<forall>a. r = Some a \<longrightarrow> in_proc (ptable s p) a (unat sz))"
proof -
  obtain r where r: "argint n s = Inr (r, s)" using argint_run [OF assms(1)] by blast
  show ?thesis
    using assms(2) ptr_check [of "p_sz (ptable s p)" sz]
    by (cases r) (auto simp: argptr_def curproc_run [OF assms(1)] r kern_simps proc_mem_ok_def
        intro!: in_proc_add [unfolded proc_mem_ok_def])
qed

text \<open>The bytes up to the NUL.\<close>

definition cstr_at :: "memory \<Rightarrow> uint \<Rightarrow> nat \<Rightarrow> bool" where
  "cstr_at m a l \<longleftrightarrow> (\<forall>i < l. m (a + of_nat i) \<noteq> 0) \<and> m (a + of_nat l) = 0"

lemma fetchstr_loop_run:
  assumes "unat ep - unat s' < fuel" "pp \<le> s'" "s' \<le> ep" "\<forall>i < unat (s' - pp). m (pp + of_nat i) \<noteq> 0"
  shows "\<exists>r. fetchstr_loop fuel m pp ep s' s = Inr (r, s) \<and>
    (\<forall>l. r = Some l \<longrightarrow> unat pp + unat l < unat ep \<and> cstr_at m pp (unat l))"
  using assms
proof (induction fuel arbitrary: s')
  case 0
  then show ?case by simp
next
  case (Suc fuel)
  show ?case
  proof (cases "s' < ep \<and> m s' \<noteq> 0")
    case False
    moreover have "unat pp + unat (s' - pp) = unat s'"
      using Suc.prems(2) by (simp add: unat_sub word_le_nat_alt)
    ultimately show ?thesis
      using Suc.prems by (auto simp: kern_simps cstr_at_def word_less_nat_alt)
  next
    case True
    then have s1: "unat (s' + 1) = unat s' + 1"
      using unat_uint_less [of ep] by (simp add: unat_word_ariths word_less_nat_alt)
    have le: "pp \<le> s' + 1" "s' + 1 \<le> ep" using True Suc.prems(2) s1 by (auto simp: word_le_nat_alt word_less_nat_alt)
    have d: "unat (s' + 1 - pp) = Suc (unat (s' - pp))"
      using le(1) Suc.prems(2) s1 by (simp add: unat_sub word_le_nat_alt)
    have "pp + of_nat (unat (s' - pp)) = s'" by simp
    then have nz: "\<forall>i < unat (s' + 1 - pp). m (pp + of_nat i) \<noteq> 0"
      using Suc.prems(4) True unfolding d by (metis less_Suc_eq)
    have "unat ep - unat (s' + 1) < fuel" using Suc.prems(1) True s1 by (auto simp: word_less_nat_alt)
    from Suc.IH [OF this le nz] show ?thesis using True by (simp add: kern_simps)
  qed
qed

lemma fetchstr_run:
  assumes p: "cpu_proc s = Some p" and ok: "proc_mem_ok (ptable s p)"
  shows "\<exists>r. fetchstr addr s = Inr (r, s) \<and>
    (\<forall>l a. r = Some (l, a) \<longrightarrow> in_proc (ptable s p) a (unat l + 1) \<and> cstr_at (mem s) a (unat l))"
proof (cases "addr < p_sz (ptable s p)")
  case False
  then show ?thesis by (auto simp: fetchstr_def curproc_run [OF p] kern_simps)
next
  case True
  let ?x = "ptable s p" let ?pp = "addr + p_offset ?x" let ?ep = "p_sz ?x + p_offset ?x"
  have pp: "unat ?pp = unat (p_offset ?x) + unat addr" and ep: "unat ?ep = unat (p_offset ?x) + unat (p_sz ?x)"
    using ok True by (auto simp: proc_mem_ok_def word_less_nat_alt intro!: unat_off_add)
  have le: "?pp \<le> ?ep" using True by (simp add: word_le_nat_alt pp ep word_less_nat_alt)
  from fetchstr_loop_run [of ?ep ?pp "unat ?ep - unat ?pp + 1" ?pp "mem s" s] le
  obtain r where r: "fetchstr_loop (unat ?ep - unat ?pp + 1) (mem s) ?pp ?ep ?pp s = Inr (r, s)"
    and b: "\<forall>l. r = Some l \<longrightarrow> unat ?pp + unat l < unat ?ep \<and> cstr_at (mem s) ?pp (unat l)" by auto
  show ?thesis using True r b
    by (cases r) (auto simp: fetchstr_def curproc_run [OF p] kern_simps Let_def in_proc_def pp ep simp del: fetchstr_loop.simps)
qed

lemma argstr_run:
  assumes "cpu_proc s = Some p" "proc_mem_ok (ptable s p)"
  shows "\<exists>r. argstr n s = Inr (r, s) \<and>
    (\<forall>l a. r = Some (l, a) \<longrightarrow> in_proc (ptable s p) a (unat l + 1) \<and> cstr_at (mem s) a (unat l))"
proof -
  obtain r where r: "argint n s = Inr (r, s)" using argint_run [OF assms(1)] by blast
  show ?thesis using fetchstr_run [OF assms] by (cases r) (auto simp: argstr_def r kern_simps)
qed

section \<open>The theorem\<close>

text \<open>
  C25: whatever a process passes as arguments, \<open>argptr\<close> and \<open>argstr\<close> return, change nothing,
  and a pointer that they hand out stays in the memory of the process. All the bytes of a buffer do, and a string
  lies there together with the NUL that ends it.
\<close>

theorem user_pointers_confined:
  assumes "cpu_proc s = Some p" "proc_mem_ok (ptable s p)"
  shows "(\<exists>r. argptr n sz s = Inr (r, s) \<and> (\<forall>a. r = Some a \<longrightarrow> in_proc (ptable s p) a (unat sz))) \<and>
    (\<exists>r. argstr n s = Inr (r, s) \<and>
      (\<forall>l a. r = Some (l, a) \<longrightarrow> in_proc (ptable s p) a (unat l + 1) \<and> cstr_at (mem s) a (unat l)))"
  using argptr_run [OF assms] argstr_run [OF assms] by blast

text \<open>A process of one page whose stack pointer is at its end, and whose first argument is the word at address 4.\<close>

definition demo_proc :: proc where
  "demo_proc = nil_proc\<lparr>p_sz := 0xff000, p_offset := 0x200000, p_kstack := 0x2ff000, p_tf := 0x2fffb4,
     p_state := RUNNING\<rparr>"

definition demo_caller :: kproc where
  "demo_caller = (kstart (\<lambda>_. zero_block) (st32 (\<lambda>_. 0) 0x200004 0xfefff))\<lparr>ptable := (\<lambda>_. demo_proc), cpu_proc := Some 0\<rparr>"

theorem user_pointers_confined_witness:
  "(\<exists>r. argptr 0 1 demo_caller = Inr (r, demo_caller) \<and> (\<forall>a. r = Some a \<longrightarrow> in_proc demo_proc a 1)) \<and>
   argptr 0 1 demo_caller = Inr (Some 0x2fefff, demo_caller) \<and> argptr 0 2 demo_caller = Inr (None, demo_caller)"
proof -
  have c: "cpu_proc demo_caller = Some 0" "ptable demo_caller 0 = demo_proc"
    by (simp_all add: demo_caller_def)
  have ok: "proc_mem_ok (ptable demo_caller 0)"
    by (simp add: c proc_mem_ok_def demo_proc_def)
  have m: "mem demo_caller = st32 (\<lambda>_. 0) 0x200004 0xfefff"
    by (simp add: demo_caller_def kstart_def)
  have esp: "ld32 (mem demo_caller) (0x2fffb4 + TF_esp) = 0" and arg: "ld32 (mem demo_caller) 0x200004 = 0xfefff"
    by (simp_all add: m ld32_def st32_def TF_esp_def le_uint_def)
  have i: "argint 0 demo_caller = Inr (Some 0xfefff, demo_caller)"
    using esp arg by (simp add: argint_def fetchint_def curproc_run [OF c(1)] c(2) demo_proc_def)
  show ?thesis
    using user_pointers_confined [OF c(1) ok, of 0 1]
    by (simp add: c(2) argptr_def curproc_run [OF c(1)] i) (simp add: demo_proc_def word_sless_alt)
qed

end
