(* ===== verification/Trap.thy ===== *)
theory Trap
  imports Syscall
begin

text \<open>
  \<^verbatim>\<open>trap.c\<close>: the interrupt descriptor table and the handler of all traps. The trap frame is in the memory, at the address
  \<open>tf\<close>. The value of \<^verbatim>\<open>cr2\<close> and, as in \<^verbatim>\<open>sched\<close>, the effect of \<^verbatim>\<open>swtch\<close> are arguments.
\<close>

definition T_SYSCALL :: uint where "T_SYSCALL = 64"

definition lidt :: "uint \<Rightarrow> uint \<Rightarrow> ('z kproc_scheme, unit) kern" where
  "lidt p sz = modK (\<lambda>s. s\<lparr>idtr := (p, ucast (sz - 1))\<rparr>)"

definition set_idt :: "nat \<Rightarrow> gatedesc \<Rightarrow> ('z kproc_scheme, unit) kern" where
  "set_idt i g = modK (\<lambda>s. s\<lparr>idt := (idt s)(i := g)\<rparr>)"

definition tvinit :: "layout \<Rightarrow> ('z kproc_scheme, unit) kern" where
  "tvinit lk =
     thenK (for_range 0 256 (\<lambda>i. set_idt i (SETGATE False (of_nat SEG_KCODE * 8) (a_vectors lk i) 0)))
     (set_idt (unat T_SYSCALL)
       (SETGATE True (of_nat SEG_KCODE * 8) (a_vectors lk (unat T_SYSCALL)) DPL_USER))"

definition idtinit :: "layout \<Rightarrow> ('z kproc_scheme, unit) kern" where
  "idtinit lk = lidt (a_idt lk) (256 * 8)"

definition tf_get :: "uint \<Rightarrow> uint \<Rightarrow> ('z kproc_scheme, uint) kern" where
  "tf_get tf off = getK (\<lambda>s. ld32 (mem s) (tf + off))"

definition tf_cs :: "uint \<Rightarrow> ('z kproc_scheme, ushort) kern" where
  "tf_cs tf = bindK (tf_get tf TF_cs) (\<lambda>w. ret (ucast w))"

text \<open>The \<^verbatim>\<open>switch\<close> over the trap number.\<close>

definition trap_switch :: "uint \<Rightarrow> uint \<Rightarrow> uint \<Rightarrow> ('z kproc_scheme, unit) kern" where
  "trap_switch cr2 tf trapno =
     (if trapno = T_IRQ0 + IRQ_TIMER then thenK (modK (\<lambda>s. s\<lparr>ticks := ticks s + 1\<rparr>)) lapiceoi
      else if trapno = T_IRQ0 + IRQ_IDE then thenK ideintr lapiceoi
      else if trapno = T_IRQ0 + IRQ_COM1 then thenK (uartintr procdump) lapiceoi
      else if trapno = T_IRQ0 + 7 \<or> trapno = T_IRQ0 + IRQ_SPURIOUS then
        bindK (tf_cs tf) (\<lambda>cs.
        bindK (tf_get tf TF_eip) (\<lambda>eip.
        thenK (cprintf (Some (str ''cpu%d: spurious interrupt at %x:%x'' @ [0x0a]))
          [CInt (of_int cpuid), CInt (ucast cs), CInt eip])
        lapiceoi))
      else
        bindK myproc (\<lambda>q.
        bindK (tf_cs tf) (\<lambda>cs.
        whenK (q = None \<or> cs AND 3 = 0) (
          bindK (tf_get tf TF_eip) (\<lambda>eip.
          thenK (cprintf (Some (str ''unexpected trap %d from cpu %d eip %x (cr2=0x%x)'' @ [0x0a]))
            [CInt trapno, CInt (of_int cpuid), CInt eip, CInt cr2])
          (panic ''trap''))))))"

definition trap_yields :: "uint \<Rightarrow> ('z kproc_scheme, bool) kern" where
  "trap_yields trapno =
     bindK myproc (\<lambda>q. case q of
       None \<Rightarrow> ret False
     | Some p \<Rightarrow> bindK (proc_get p p_state) (\<lambda>st. ret (st = RUNNING \<and> trapno = T_IRQ0 + IRQ_TIMER)))"

definition trap_enter :: "'z kproc_scheme devsw \<Rightarrow> uint \<Rightarrow> uint \<Rightarrow> ('z kproc_scheme, bool) kern" where
  "trap_enter devsw cr2 tf =
     bindK (tf_get tf TF_trapno) (\<lambda>trapno.
     if trapno = T_SYSCALL then
       bindK curproc (\<lambda>(p, x).
       thenK (proc_upd p (\<lambda>x. x\<lparr>p_tf := tf\<rparr>)) (
       thenK (syscall devsw) (ret False)))
     else
       thenK (trap_switch cr2 tf trapno)
       (trap_yields trapno))"

definition trap :: "'z kproc_scheme devsw \<Rightarrow> uint \<Rightarrow> ('z kproc_scheme, unit) kern \<Rightarrow> uint \<Rightarrow> ('z kproc_scheme, unit) kern" where
  "trap devsw cr2 swtch tf = bindK (trap_enter devsw cr2 tf) (\<lambda>b. whenK b (yield swtch))"

section \<open>The start of the kernel\<close>

text \<open>
  \<^verbatim>\<open>main.c\<close>. \<open>kend\<close> is the address of the linker symbol \<^verbatim>\<open>end\<close>, \<open>st1\<close> what \<open>ideinit\<close> reads from disk 1. \<open>swtch\<close> and \<open>n\<close> are the arguments of \<open>scheduler\<close>, whose
  loop never ends: \<open>n\<close> passes of it.
\<close>

definition kmain :: "layout \<Rightarrow> uint \<Rightarrow> (nat \<Rightarrow> uchar) \<Rightarrow> (nat \<Rightarrow> ('z kproc_scheme, unit) kern) \<Rightarrow> nat \<Rightarrow> ('z kproc_scheme, unit) kern" where
  "kmain lk kend st1 swtch n =
     thenK (kinit kend kend PHYSTOP) (
     thenK mpinit (
     thenK lapicinit (
     thenK picinit (
     thenK ioapicinit (
     let devsw = consoleinit procdump \<lparr>dev_read = (\<lambda>_. None), dev_write = (\<lambda>_. None)\<rparr> in
     thenK uartinit (
     thenK (ideinit st1) (
     thenK (tvinit lk) (
     thenK binit (
     thenK fileinit (
     thenK (idtinit lk) (
     thenK sti (
     thenK (iinit ROOTDEV) (
     thenK (initlog ROOTDEV) (
     bindK (mknod devsw (str ''console'') CONSOLE CONSOLE) (\<lambda>_.
     thenK (seginit lk) (
     thenK (pinit lk devsw) (
     thenK (pinit lk devsw)
     (scheduler n lk swtch))))))))))))))))))"

end
