(* ===== verification/Sched.thy ===== *)
theory Sched
  imports Trap
begin

text \<open>
  The scheduler as a round robin. What the scheduler relies on when it switches to a process is the locale
  \<open>time_slice\<close>: the process comes back with interrupts off inside one \<open>pushcli\<close> section, \<open>RUNNABLE\<close>, after one tick, and
  has not changed the state of other processes. The slice that the kernel gives a process, from \<^verbatim>\<open>forkret\<close> or the end of
  \<^verbatim>\<open>sched\<close> through user code to the timer interrupt and \<^verbatim>\<open>yield\<close>, keeps this contract whatever the user code computes.
\<close>

section \<open>Traps\<close>

lemma set_idt_range:
  "i \<le> n \<Longrightarrow> for_range i n (\<lambda>k. set_idt k (g k)) s =
    Inr ((), s\<lparr>idt := (\<lambda>k. if i \<le> k \<and> k < n then g k else idt s k)\<rparr>)"
proof (induction "n - i" arbitrary: i s)
  case 0
  then have "(\<lambda>k. if i \<le> k \<and> k < n then g k else idt s k) = idt s" by (auto simp: fun_eq_iff)
  then show ?case using 0 by (cases s) simp
next
  case (Suc d)
  have "(\<lambda>k. if Suc i \<le> k \<and> k < n then g k else ((idt s)(i := g i)) k) =
      (\<lambda>k. if i \<le> k \<and> k < n then g k else idt s k)"
    using Suc.hyps(2) by (auto simp: fun_eq_iff)
  then show ?case using Suc.hyps(1) [of "Suc i"] Suc.hyps(2)
    by (subst for_range.simps) (simp add: set_idt_def cong: if_cong)
qed

section \<open>The contract of a time slice\<close>

text \<open>What the kernel guarantees a process, and what the process leaves alone.\<close>

definition given_cpu :: "nat \<Rightarrow> 'z kproc_scheme \<Rightarrow> bool" where
  "given_cpu p s \<longleftrightarrow> ncli s = 1 \<and> \<not> eflags_if s \<and> cpu_proc s = Some p \<and> p_state (ptable s p) = RUNNING"

definition same_procs :: "'z kproc_scheme \<Rightarrow> 'z kproc_scheme \<Rightarrow> bool" where
  "same_procs s t \<longleftrightarrow>
     (\<forall>q. p_state (ptable t q) = p_state (ptable s q) \<and> p_kstack (ptable t q) = p_kstack (ptable s q))"

definition gave_back :: "nat \<Rightarrow> 'z kproc_scheme \<Rightarrow> 'z kproc_scheme \<Rightarrow> bool" where
  "gave_back p s t \<longleftrightarrow> ncli t = 1 \<and> \<not> eflags_if t \<and> ticks t = ticks s + 1 \<and>
     same_procs (s\<lparr>ptable := (ptable s)(p := (ptable s p)\<lparr>p_state := RUNNABLE\<rparr>)\<rparr>) t"

definition runnable :: "nat \<Rightarrow> (nat \<Rightarrow> proc) \<Rightarrow> nat list" where
  "runnable i T = filter (\<lambda>p. p_state (T p) = RUNNABLE) [i..<NPROC]"

text \<open>Giving the CPU to \<open>p\<close>, one round of dispatching the processes \<open>ps\<close>, and \<open>n\<close> rounds.\<close>

definition dispatch :: "layout \<Rightarrow> (nat \<Rightarrow> ('z kproc_scheme, unit) kern) \<Rightarrow> nat \<Rightarrow> ('z kproc_scheme, unit) kern" where
  "dispatch lk sl p =
     thenK (modK (\<lambda>s. s\<lparr>cpu_proc := Some p, ptable := (ptable s)(p := (ptable s p)\<lparr>p_state := RUNNING\<rparr>)\<rparr>)) (
     thenK (switchuvm lk (Some p))
     (sl p))"

definition rr_round :: "layout \<Rightarrow> (nat \<Rightarrow> ('z kproc_scheme, unit) kern) \<Rightarrow> nat list \<Rightarrow> ('z kproc_scheme, unit) kern" where
  "rr_round lk sl ps = thenK sti (thenK pushcli (thenK (eachK (dispatch lk sl) ps) popcli))"

primrec rr_rounds :: "nat \<Rightarrow> layout \<Rightarrow> (nat \<Rightarrow> ('z kproc_scheme, unit) kern) \<Rightarrow> nat list \<Rightarrow> ('z kproc_scheme, unit) kern" where
  "rr_rounds 0 lk sl ps = ret ()"
| "rr_rounds (Suc n) lk sl ps = thenK (rr_round lk sl ps) (rr_rounds n lk sl ps)"

lemma visit_dispatch:
  "scheduler_visit lk sl p s = (if p_state (ptable s p) = RUNNABLE then dispatch lk sl p s else Inr ((), s))"
  by (simp add: scheduler_visit_def dispatch_def proc_get_def proc_upd_def thenK_def bindK_def)

lemma runnable_step:
  "i < NPROC \<Longrightarrow> runnable i T = (if p_state (T i) = RUNNABLE then i # runnable (Suc i) T else runnable (Suc i) T)"
  by (simp add: runnable_def upt_rec [of i])

lemma runnable_cong: "(\<And>q. i \<le> q \<Longrightarrow> p_state (T q) = p_state (U q)) \<Longrightarrow> runnable i T = runnable i U"
  unfolding runnable_def by (rule filter_cong) auto

text \<open>\<open>switchuvm\<close> only writes segments and the task state.\<close>

lemma switchuvm_run:
  assumes "p_kstack (ptable s p) \<noteq> 0" "ncli s = 1" "\<not> eflags_if s"
  shows "\<exists>g u x r. switchuvm lk (Some p) s = Inr ((), s\<lparr>gdt := g, ts := u, gdtr := x, tr := r\<rparr>) \<and>
    ts_esp0 u = p_kstack (ptable s p) + KSTACKSIZE"
  using assms
  by (cases s) (simp add: switchuvm_def proc_get_def set_gdt_def lgdt_def ltr_def)

locale time_slice =
  fixes sl :: "nat \<Rightarrow> ('z kproc_scheme, unit) kern"
  assumes slice: "given_cpu p s \<Longrightarrow> \<exists>t. sl p s = Inr ((), t) \<and> gave_back p s t"
begin

lemma dispatch_run:
  assumes "p_kstack (ptable s p) \<noteq> 0" "ncli s = 1" "\<not> eflags_if s" "p_state (ptable s p) = RUNNABLE"
  shows "\<exists>t. dispatch lk sl p s = Inr ((), t) \<and> ncli t = 1 \<and> \<not> eflags_if t \<and> ticks t = ticks s + 1 \<and> same_procs s t"
proof -
  let ?s = "s\<lparr>cpu_proc := Some p, ptable := (ptable s)(p := (ptable s p)\<lparr>p_state := RUNNING\<rparr>)\<rparr>"
  obtain g u x r where sw: "switchuvm lk (Some p) ?s = Inr ((), ?s\<lparr>gdt := g, ts := u, gdtr := x, tr := r\<rparr>)"
    using switchuvm_run [of ?s p lk] assms by auto
  have "given_cpu p (?s\<lparr>gdt := g, ts := u, gdtr := x, tr := r\<rparr>)" using assms by (simp add: given_cpu_def)
  from slice [OF this] obtain t where "sl p (?s\<lparr>gdt := g, ts := u, gdtr := x, tr := r\<rparr>) = Inr ((), t)"
    "gave_back p (?s\<lparr>gdt := g, ts := u, gdtr := x, tr := r\<rparr>) t" by blast
  then show ?thesis using sw assms(4) by (auto simp: dispatch_def gave_back_def same_procs_def)
qed

lemma visits_run:
  assumes "ncli s = 1" "\<not> eflags_if s" "\<forall>p. p_state (ptable s p) = RUNNABLE \<longrightarrow> p_kstack (ptable s p) \<noteq> 0"
  shows "\<exists>t. for_range i NPROC (scheduler_visit lk sl) s = Inr ((), t) \<and>
    eachK (dispatch lk sl) (runnable i (ptable s)) s = Inr ((), t) \<and> ncli t = 1 \<and> \<not> eflags_if t \<and>
    ticks t = ticks s + of_nat (length (runnable i (ptable s))) \<and> same_procs s t"
  using assms
proof (induction "NPROC - i" arbitrary: i s)
  case 0
  then show ?case by (auto simp: runnable_def same_procs_def)
next
  case (Suc d)
  then have i: "i < NPROC" by simp
  show ?case
  proof (cases "p_state (ptable s i) = RUNNABLE")
    case False
    then show ?thesis using Suc.hyps(1) [of "Suc i" s] Suc.hyps(2) Suc.prems i
      by (subst for_range.simps) (simp add: visit_dispatch runnable_step)
  next
    case True
    obtain t where t: "dispatch lk sl i s = Inr ((), t)" "ncli t = 1" "\<not> eflags_if t" "ticks t = ticks s + 1"
        "same_procs s t"
      using dispatch_run [of s i lk] Suc.prems True by blast
    have "runnable (Suc i) (ptable t) = runnable (Suc i) (ptable s)"
      using t(5) by (auto intro!: runnable_cong simp: same_procs_def)
    moreover have "\<forall>p. p_state (ptable t p) = RUNNABLE \<longrightarrow> p_kstack (ptable t p) \<noteq> 0"
      using t(5) Suc.prems(3) by (simp add: same_procs_def)
    ultimately show ?thesis using Suc.hyps(1) [of "Suc i" t] Suc.hyps(2) t i True
      by (subst for_range.simps) (auto simp: visit_dispatch runnable_step same_procs_def add.assoc)
  qed
qed

lemma pass_run:
  assumes "ncli s = 0" "\<forall>p. p_state (ptable s p) = RUNNABLE \<longrightarrow> p_kstack (ptable s p) \<noteq> 0"
  shows "\<exists>t. scheduler_pass lk sl s = Inr ((), t) \<and> rr_round lk sl (runnable 0 (ptable s)) s = Inr ((), t) \<and>
    ncli t = 0 \<and> ticks t = ticks s + of_nat (length (runnable 0 (ptable s))) \<and> same_procs s t"
proof -
  let ?s = "s\<lparr>eflags_if := False, intena := True, ncli := 1\<rparr>"
  from visits_run [of ?s 0 lk] assms(2) obtain t where
    "for_range 0 NPROC (scheduler_visit lk sl) ?s = Inr ((), t)"
    "eachK (dispatch lk sl) (runnable 0 (ptable s)) ?s = Inr ((), t)" "ncli t = 1" "\<not> eflags_if t"
    "ticks t = ticks s + of_nat (length (runnable 0 (ptable s)))" "same_procs ?s t" by auto
  moreover have "same_procs s t \<longleftrightarrow> same_procs ?s t" by (simp add: same_procs_def)
  ultimately show ?thesis using assms(1)
    by (auto simp: scheduler_pass_def rr_round_def sti_def same_procs_def)
qed

lemma loop_run:
  assumes "ncli s = 0" "\<forall>p. p_state (ptable s p) = RUNNABLE \<longrightarrow> p_kstack (ptable s p) \<noteq> 0"
  shows "\<exists>t. scheduler_loop n lk sl s = Inr ((), t) \<and> rr_rounds n lk sl (runnable 0 (ptable s)) s = Inr ((), t) \<and>
    ncli t = 0 \<and> ticks t = ticks s + of_nat (n * length (runnable 0 (ptable s))) \<and> same_procs s t"
  using assms
proof (induction n arbitrary: s)
  case 0
  then show ?case by (simp add: same_procs_def)
next
  case (Suc n)
  from pass_run [OF Suc.prems, of lk] obtain t where t: "scheduler_pass lk sl s = Inr ((), t)"
    "rr_round lk sl (runnable 0 (ptable s)) s = Inr ((), t)" "ncli t = 0"
    "ticks t = ticks s + of_nat (length (runnable 0 (ptable s)))" "same_procs s t" by blast
  have r: "runnable 0 (ptable t) = runnable 0 (ptable s)"
    using t(5) by (auto intro!: runnable_cong simp: same_procs_def)
  have "\<forall>p. p_state (ptable t p) = RUNNABLE \<longrightarrow> p_kstack (ptable t p) \<noteq> 0"
    using t(5) Suc.prems(2) by (simp add: same_procs_def)
  from Suc.IH [OF t(3) this] show ?case using t r by (auto simp: same_procs_def algebra_simps)
qed

end

section \<open>A time slice of this kernel\<close>

text \<open>
  A process that runs for the first time enters through \<^verbatim>\<open>forkret\<close>; otherwise it continues behind the \<^verbatim>\<open>swtch\<close> of
  \<^verbatim>\<open>sched\<close>, with the \<^verbatim>\<open>intena\<close> that the timer interrupt left (interrupts were off). \<^verbatim>\<open>iret\<close> then turns interrupts on,
  user code runs until the timer interrupt builds a trap frame on the kernel stack that the task state names, and
  \<^verbatim>\<open>trap\<close> yields.
\<close>

definition timer_interrupt :: "'z kproc_scheme devsw \<Rightarrow> uint \<Rightarrow> ('z kproc_scheme, unit) kern" where
  "timer_interrupt devsw fault_addr =
     thenK cli (
     bindK (getK (\<lambda>s. ts_esp0 (ts s) - sizeof_trapframe)) (\<lambda>tf.
     thenK (store32 (tf + TF_trapno) (T_IRQ0 + IRQ_TIMER)) (
     bindK (trap_enter devsw fault_addr tf) (\<lambda>b.
     if b then thenK yield_out (bindK sched_out (\<lambda>ie. ret ())) else spin))))"

definition proc_slice :: "'z kproc_scheme devsw \<Rightarrow> uint \<Rightarrow> ('z kproc_scheme \<Rightarrow> bool) \<Rightarrow>
    (nat \<Rightarrow> ('z kproc_scheme, unit) kern) \<Rightarrow> nat \<Rightarrow> ('z kproc_scheme, unit) kern" where
  "proc_slice devsw fault_addr fresh user p =
     bindK (getK fresh) (\<lambda>new.
     thenK (if new then forkret else thenK (sched_in False) popcli) (
     thenK (modK (\<lambda>s. s\<lparr>eflags_if := True\<rparr>)) (
     thenK (user p)
     (timer_interrupt devsw fault_addr))))"

text \<open>User code: it returns, and leaves the processor and the process table to the kernel.\<close>

definition user_runs :: "'z kproc_scheme \<Rightarrow> 'z kproc_scheme \<Rightarrow> bool" where
  "user_runs s t \<longleftrightarrow> ncli t = ncli s \<and> eflags_if t = eflags_if s \<and> cpu_proc t = cpu_proc s \<and> ticks t = ticks s \<and>
     same_procs s t"

lemma lapiceoi_run: "\<exists>r. lapiceoi s = Inr ((), s\<lparr>lapic_regs := r\<rparr>)"
  by (cases s) (simp add: lapiceoi_def lapicw_def)

lemma timer_interrupt_run:
  assumes "ncli s = 0" "cpu_proc s = Some p" "p_state (ptable s p) = RUNNING"
  shows "\<exists>t. timer_interrupt devsw fault_addr s = Inr ((), t) \<and> gave_back p s t"
proof -
  let ?tf = "ts_esp0 (ts s) - sizeof_trapframe"
  let ?s = "s\<lparr>eflags_if := False, mem := st32 (mem s) (?tf + TF_trapno) (T_IRQ0 + IRQ_TIMER), ticks := ticks s + 1\<rparr>"
  obtain r where r: "lapiceoi ?s = Inr ((), ?s\<lparr>lapic_regs := r\<rparr>)" using lapiceoi_run by blast
  have n: "T_IRQ0 + IRQ_TIMER \<noteq> T_SYSCALL" by (simp add: T_IRQ0_def IRQ_TIMER_def T_SYSCALL_def)
  have "trap_enter devsw fault_addr ?tf (?s\<lparr>ticks := ticks s\<rparr>) = Inr (True, ?s\<lparr>lapic_regs := r\<rparr>)"
    using n r assms by (simp add: trap_enter_def tf_get_def ld32_st32 trap_switch_def trap_yields_def myproc_def proc_get_def)
  then show ?thesis using assms
    by (simp add: timer_interrupt_def store32_def cli_def yield_out_def sched_out_def myproc_def proc_upd_def
        proc_get_def readeflags_if_def gave_back_def same_procs_def bindK_assoc)
qed

locale user_code =
  fixes user :: "nat \<Rightarrow> ('z kproc_scheme, unit) kern"
  assumes runs: "ncli s = 0 \<Longrightarrow> eflags_if s \<Longrightarrow> cpu_proc s = Some p \<Longrightarrow> p_state (ptable s p) = RUNNING \<Longrightarrow>
    \<exists>t. user p s = Inr ((), t) \<and> user_runs s t"
begin

lemma slice_run:
  assumes "given_cpu p s"
  shows "\<exists>t. proc_slice devsw fault_addr fresh user p s = Inr ((), t) \<and> gave_back p s t"
proof -
  define ie where "ie = (fresh s \<and> intena s)"
  have ie: "(if fresh s then forkret else thenK (sched_in False) popcli) s =
      Inr ((), s\<lparr>ncli := 0, intena := ie, eflags_if := ie\<rparr>)"
    using assms by (cases s) (simp add: ie_def given_cpu_def forkret_def sched_in_def)
  let ?s = "s\<lparr>ncli := 0, intena := ie, eflags_if := True\<rparr>"
  obtain t where t: "user p ?s = Inr ((), t)" "user_runs ?s t"
    using runs [of ?s p] assms by (auto simp: given_cpu_def)
  have t': "ncli t = 0" "cpu_proc t = Some p" "p_state (ptable t p) = RUNNING" "ticks t = ticks s" "same_procs s t"
    using t(2) assms by (simp_all add: user_runs_def given_cpu_def same_procs_def)
  from timer_interrupt_run [OF t'(1-3)] obtain u where
    "timer_interrupt devsw fault_addr t = Inr ((), u)" "gave_back p t u" by blast
  then show ?thesis using ie t t' by (simp add: proc_slice_def gave_back_def same_procs_def)
qed

end

sublocale user_code \<subseteq> ts: time_slice "proc_slice devsw fault_addr fresh user" for devsw fault_addr fresh
  by unfold_locales (rule slice_run)

context user_code
begin

lemmas passes_run = ts.loop_run

end

text \<open>The endless loop that \<^verbatim>\<open>init.c\<close> ends in is user code: it changes nothing.\<close>

interpretation idle: user_code "\<lambda>p. ret ()"
  by unfold_locales (simp add: user_runs_def same_procs_def)

section \<open>The theorems\<close>

text \<open>
  C26: the scheduler is a round robin. When every runnable process has a kernel stack, and user
  code keeps its hands off the processor state, then \<open>n\<close> passes of the endless loop neither panic nor hang, and do
  exactly this: \<open>n\<close> times, they switch to each of the processes that were runnable at the start, once, in the order of
  the table. Afterwards all of them are runnable again and the clock has advanced by one tick for every slice.
\<close>

theorem scheduler_round_robin:
  assumes "\<And>p s. ncli s = 0 \<Longrightarrow> eflags_if s \<Longrightarrow> cpu_proc s = Some p \<Longrightarrow> p_state (ptable s p) = RUNNING \<Longrightarrow>
      \<exists>t. user p s = Inr ((), t) \<and> user_runs s t"
    and "ncli s = 0" "\<forall>p. p_state (ptable s p) = RUNNABLE \<longrightarrow> p_kstack (ptable s p) \<noteq> 0"
  shows "\<exists>t. scheduler n lk (proc_slice devsw fault_addr fresh user) s = Inr ((), t) \<and>
    rr_rounds n lk (proc_slice devsw fault_addr fresh user) (runnable 0 (ptable s)) (s\<lparr>cpu_proc := None\<rparr>) = Inr ((), t) \<and>
    ticks t = ticks s + of_nat (n * length (runnable 0 (ptable s))) \<and>
    (\<forall>p. p_state (ptable t p) = p_state (ptable s p))"
proof -
  have u: "user_code user" using assms(1) by unfold_locales blast
  show ?thesis
    using user_code.passes_run [OF u, of "s\<lparr>cpu_proc := None\<rparr>" n lk devsw fault_addr fresh] assms(2-)
    by (auto simp: scheduler_def same_procs_def)
qed

text \<open>Two runnable processes.\<close>

definition demo_table :: "nat \<Rightarrow> proc" where
  "demo_table = (\<lambda>_. nil_proc)(0 := demo_proc\<lparr>p_state := RUNNABLE\<rparr>, 2 := demo_proc\<lparr>p_state := RUNNABLE\<rparr>)"

definition demo_layout :: layout where
  "demo_layout = \<lparr>a_gdt = 0x109000, a_ts = 0x108000, a_idt = 0x10a000, a_trapret = 0x100200, a_forkret = 0x100300,
     a_vectors = (\<lambda>i. 0x101000 + 8 * of_nat i), a_initcode = 0x107000, initcode_size = 2048\<rparr>"

definition no_devices :: "kproc devsw" where
  "no_devices = \<lparr>dev_read = (\<lambda>_. None), dev_write = (\<lambda>_. None)\<rparr>"

lemma demo_runnable: "runnable 0 demo_table = [0, 2]"
proof -
  have "filter (\<lambda>p. p_state (demo_table p) = RUNNABLE) [3..<64] = []"
    by (auto simp: filter_empty_conv demo_table_def nil_proc_def)
  moreover have "[0..<64] = [0, 1, 2] @ [3..<64]" by (simp add: upt_conv_Cons)
  ultimately show ?thesis unfolding runnable_def NPROC_def
    by (simp only: filter_append) (simp add: demo_table_def nil_proc_def demo_proc_def)
qed

definition demo_two :: kproc where
  "demo_two = (kstart (\<lambda>_. zero_block) (\<lambda>_. 0))\<lparr>ptable := demo_table\<rparr>"

theorem scheduler_round_robin_witness:
  "\<exists>t. scheduler 3 demo_layout (proc_slice no_devices 0 (\<lambda>_. True) (\<lambda>p. ret ())) demo_two = Inr ((), t) \<and> ticks t = 6"
proof -
  have s: "ncli demo_two = 0" "ticks demo_two = 0" "ptable demo_two = demo_table"
    by (simp_all add: demo_two_def kstart_def)
  have k: "\<forall>p. p_state (demo_table p) = RUNNABLE \<longrightarrow> p_kstack (demo_table p) \<noteq> 0"
    by (simp add: demo_table_def nil_proc_def demo_proc_def)
  show ?thesis
    using scheduler_round_robin [of "\<lambda>p. ret ()" demo_two 3 demo_layout no_devices 0 "\<lambda>_. True"] k
    by (auto simp: user_runs_def same_procs_def demo_runnable s)
qed

text \<open>
  C31: switching to a process gives it user segments that start at its memory, a kernel stack at the
  end of its own page, and a present task state. But the segments end 4096 bytes behind its page: the limit of a
  segment is the last page it contains, and \<^verbatim>\<open>PROCSIZE << 12\<close> is the page after. User code can therefore reach the
  first 4096 bytes of the next page, besides its own kernel stack.
\<close>

theorem switchuvm_segments:
  assumes "p_kstack (ptable s p) \<noteq> 0" "0 \<le> ncli s" "ncli s < INT_MAX"
  shows "\<exists>t. switchuvm lk (Some p) s = Inr ((), t) \<and>
    seg_base (gdt t SEG_UCODE) = p_offset (ptable s p) \<and> seg_top (gdt t SEG_UCODE) = unat PGSIZE + 4095 \<and>
    seg_base (gdt t SEG_UDATA) = p_offset (ptable s p) \<and> seg_top (gdt t SEG_UDATA) = unat PGSIZE + 4095 \<and>
    ts_esp0 (ts t) = p_kstack (ptable s p) + KSTACKSIZE \<and> seg_base (gdt t SEG_TSS) = a_ts lk \<and> seg_s (gdt t SEG_TSS) = 0"
  using assms
  by (simp add: switchuvm_def proc_get_def set_gdt_def lgdt_def ltr_def seg_base_SEG seg_top_SEG SEG_UCODE_def SEG_UDATA_def
      SEG_TSS_def PGSIZE_def PROCSIZE_def) (simp add: seg_base_def SEG16_def cut_fields base_parts)

theorem switchuvm_segments_witness:
  "\<exists>t. switchuvm demo_layout (Some 0) demo_caller = Inr ((), t) \<and> seg_base (gdt t SEG_UDATA) = 0x200000 \<and>
    seg_top (gdt t SEG_UDATA) = 0x100fff"
  using switchuvm_segments [of demo_caller 0 demo_layout]
  by (auto simp: demo_caller_def kstart_def demo_proc_def PGSIZE_def PROCSIZE_def)

text \<open>
  \<open>tvinit\<close> sets up all 256 gates. Each leads to its own entry point in the kernel's code segment. Only the
  gate for system calls can be entered by user code, and it alone leaves interrupts on.
\<close>

lemma tvinit_gates:
  assumes "i < 256"
  shows "\<exists>t. tvinit lk s = Inr ((), t) \<and> gate_offset (idt t i) = a_vectors lk i \<and> gate_p (idt t i) = 1 \<and>
    unat (gate_cs (idt t i)) = SEG_KCODE * 8 \<and> (gate_dpl (idt t i) = 3 \<longleftrightarrow> i = 64) \<and> (gate_keeps_if (idt t i) \<longleftrightarrow> i = 64)"
  using assms set_idt_range [of 0 256 "\<lambda>i. SETGATE False (of_nat SEG_KCODE * 8) (a_vectors lk i) 0" s]
  by (simp add: tvinit_def set_idt_def gate_offset_SETGATE T_SYSCALL_def)
    (simp add: SETGATE_def gate_keeps_if_def STS_TG32_def STS_IG32_def SEG_KCODE_def DPL_USER_def)

lemma tvinit_gates_example:
  "\<exists>t. tvinit demo_layout (kstart (\<lambda>_. zero_block) (\<lambda>_. 0)) = Inr ((), t) \<and> gate_offset (idt t 14) = 0x101070 \<and>
    \<not> gate_keeps_if (idt t 14)"
  using tvinit_gates [of 14 demo_layout "kstart (\<lambda>_. zero_block) (\<lambda>_. 0)"] by (auto simp: demo_layout_def)

text \<open>
  C32: a processor exception in user mode, for instance a protection fault, leaves no trace at all.
  \<open>trap\<close> returns with the state it was called in; the instruction that faulted is executed again, and the process
  faults for ever.
\<close>

theorem user_fault_ignored:
  assumes "cpu_proc s = Some p" "ld32 (mem s) (tf + TF_trapno) < T_IRQ0" "ucast (ld32 (mem s) (tf + TF_cs)) AND (3 :: ushort) \<noteq> 0"
  shows "trap devsw fault_addr swtch tf s = Inr ((), s)"
proof -
  let ?n = "ld32 (mem s) (tf + TF_trapno)"
  have n: "?n \<noteq> T_SYSCALL" "?n \<noteq> T_IRQ0 + IRQ_TIMER" "?n \<noteq> T_IRQ0 + IRQ_IDE" "?n \<noteq> T_IRQ0 + IRQ_COM1"
    "?n \<noteq> T_IRQ0 + 7" "?n \<noteq> T_IRQ0 + IRQ_SPURIOUS"
    using assms(2) by (auto simp: T_SYSCALL_def T_IRQ0_def IRQ_TIMER_def IRQ_IDE_def IRQ_COM1_def IRQ_SPURIOUS_def)
  then show ?thesis using assms(1,3)
    by (simp add: trap_def trap_enter_def tf_get_def trap_switch_def myproc_def tf_cs_def trap_yields_def proc_get_def)
qed

theorem user_fault_ignored_witness:
  "trap no_devices 0 (ret ()) 0x2fffb4 (demo_caller\<lparr>mem := st32 (st32 (\<lambda>_. 0) 0x2fffe4 13) 0x2ffff0 0x1b\<rparr>) =
    Inr ((), demo_caller\<lparr>mem := st32 (st32 (\<lambda>_. 0) 0x2fffe4 13) 0x2ffff0 0x1b\<rparr>)"
  by (rule user_fault_ignored [where p = 0])
    (simp_all add: demo_caller_def TF_trapno_def TF_cs_def T_IRQ0_def ld32_def st32_def le_uint_def)

end
