(* ===== verification/Swtch.thy ===== *)
theory Swtch
  imports Sched
begin

text \<open>
  The assembly code: \<^verbatim>\<open>swtch.S\<close>, \<^verbatim>\<open>trapasm.S\<close> and the entry points that \<^verbatim>\<open>vectors.pl\<close> generates, as programs for a machine with
  the registers of the processor and the memory of the kernel. The offsets at which C code looks into \<^verbatim>\<open>struct trapframe\<close> and
  \<^verbatim>\<open>struct context\<close> are computed from the declarations of these structures.
\<close>

datatype reg = EAX | ECX | EDX | EBX | ESP | EBP | ESI | EDI | CS | DS | ES | FS | GS | SS | EIP | EFLAGS

record machine =
  regs :: "reg \<Rightarrow> uint"
  xmem :: memory

datatype instr =
    Pushl reg | Pushi uint | Popl reg | Load uint reg reg | Store reg reg | Movl reg reg | Movwi uint reg | Movw reg reg
  | Addl uint reg | Pushal | Popal | Ret | Iret

definition push :: "uint \<Rightarrow> machine \<Rightarrow> machine" where
  "push v M = M\<lparr>regs := (regs M)(ESP := regs M ESP - 4), xmem := st32 (xmem M) (regs M ESP - 4) v\<rparr>"

definition pop :: "reg \<Rightarrow> machine \<Rightarrow> machine" where
  "pop r M = M\<lparr>regs := (regs M)(ESP := regs M ESP + 4, r := ld32 (xmem M) (regs M ESP))\<rparr>"

definition seg_reg :: "reg \<Rightarrow> bool" where
  "seg_reg r \<longleftrightarrow> r \<in> {CS, DS, ES, FS, GS, SS}"

text \<open>Segment registers have 16 bits: only these are loaded.\<close>

definition cut :: "reg \<Rightarrow> machine \<Rightarrow> machine" where
  "cut r M = (if seg_reg r then M\<lparr>regs := (regs M)(r := take_bit 16 (regs M r))\<rparr> else M)"

text \<open>\<^verbatim>\<open>iret\<close> pops the stack pointer as well when it returns to another privilege level.\<close>

definition iret :: "machine \<Rightarrow> machine" where
  "iret M =
     (let N = pop EFLAGS (cut CS (pop CS (pop EIP M))) in
      if regs N CS AND 3 = regs M CS AND 3 then N else
      let esp = ld32 (xmem N) (regs N ESP); ss = ld32 (xmem N) (regs N ESP + 4)
      in N\<lparr>regs := (regs N)(ESP := esp, SS := take_bit 16 ss)\<rparr>)"

fun exec :: "instr \<Rightarrow> machine \<Rightarrow> machine" where
  "exec (Pushl r) M = push (regs M r) M"
| "exec (Pushi v) M = push v M"
| "exec (Popl r) M = cut r (pop r M)"
| "exec (Load off b r) M = M\<lparr>regs := (regs M)(r := ld32 (xmem M) (regs M b + off))\<rparr>"
| "exec (Store r b) M = M\<lparr>xmem := st32 (xmem M) (regs M b) (regs M r)\<rparr>"
| "exec (Movl r q) M = M\<lparr>regs := (regs M)(q := regs M r)\<rparr>"
| "exec (Movwi v r) M = M\<lparr>regs := (regs M)(r := push_bit 16 (drop_bit 16 (regs M r)) OR take_bit 16 v)\<rparr>"
| "exec (Movw r q) M = M\<lparr>regs := (regs M)(q := take_bit 16 (regs M r))\<rparr>"
| "exec (Addl v r) M = M\<lparr>regs := (regs M)(r := regs M r + v)\<rparr>"
| "exec Pushal M = (let e = regs M ESP in
     fold push [regs M EAX, regs M ECX, regs M EDX, regs M EBX, e, regs M EBP, regs M ESI, regs M EDI] M)"
| "exec Popal M = (let N = pop EBP (pop ESI (pop EDI M)) in
     fold pop [EBX, EDX, ECX, EAX] (N\<lparr>regs := (regs N)(ESP := regs N ESP + 4)\<rparr>))"
| "exec Ret M = pop EIP M"
| "exec Iret M = iret M"

definition run :: "instr list \<Rightarrow> machine \<Rightarrow> machine" where
  "run is = fold exec is"

section \<open>The programs\<close>

definition swtch_code :: "instr list" where
  "swtch_code =
    [Load 4 ESP EAX, Load 8 ESP EDX,
     Pushl EBP, Pushl EBX, Pushl ESI, Pushl EDI,
     Store ESP EAX, Movl EDX ESP,
     Popl EDI, Popl ESI, Popl EBX, Popl EBP, Ret]"

text \<open>\<^verbatim>\<open>alltraps\<close> up to the call of \<^verbatim>\<open>trap\<close>, and from its return on.\<close>

definition alltraps_code :: "instr list" where
  "alltraps_code =
    [Pushl DS, Pushl ES, Pushl FS, Pushl GS, Pushal,
     Movwi (of_nat SEG_KDATA * 8) EAX, Movw EAX DS, Movw EAX ES,
     Pushl ESP]"

definition trapret_code :: "instr list" where
  "trapret_code = [Popal, Popl GS, Popl FS, Popl ES, Popl DS, Addl 8 ESP, Iret]"

text \<open>The entry point of a vector pushes 0 as the error code, unless the processor has pushed one.\<close>

definition has_error_code :: "nat \<Rightarrow> bool" where
  "has_error_code i \<longleftrightarrow> i = 8 \<or> (i \<ge> 10 \<and> i \<le> 14) \<or> i = 17"

definition vector_code :: "nat \<Rightarrow> instr list" where
  "vector_code i = (if has_error_code i then [] else [Pushi 0]) @ [Pushi (of_nat i)]"

text \<open>
  The processor. Its exceptions have the numbers of \<^verbatim>\<open>traps.h\<close>; it pushes an error code for a double fault, for the four
  exceptions about segments, for a page fault and for an alignment check. When it comes from user mode it takes the
  stack from the task state and saves the old one; when the kernel is interrupted it stays on the stack.
\<close>

definition T_DBLFLT :: nat where "T_DBLFLT = 8"
definition T_TSS :: nat where "T_TSS = 10"
definition T_SEGNP :: nat where "T_SEGNP = 11"
definition T_STACK :: nat where "T_STACK = 12"
definition T_GPFLT :: nat where "T_GPFLT = 13"
definition T_PGFLT :: nat where "T_PGFLT = 14"
definition T_ALIGN :: nat where "T_ALIGN = 17"

definition cpu_error_code :: "nat \<Rightarrow> bool" where
  "cpu_error_code i \<longleftrightarrow> i \<in> {T_DBLFLT, T_TSS, T_SEGNP, T_STACK, T_GPFLT, T_PGFLT, T_ALIGN}"

definition user_mode :: "machine \<Rightarrow> bool" where
  "user_mode M \<longleftrightarrow> regs M CS AND 3 \<noteq> 0"

definition cpu_enter :: "taskstate \<Rightarrow> nat \<Rightarrow> uint \<Rightarrow> machine \<Rightarrow> machine" where
  "cpu_enter u i err M =
     (let N = (if user_mode M
               then fold push [regs M SS, regs M ESP] (M\<lparr>regs := (regs M)(ESP := ts_esp0 u, SS := ucast (ts_ss0 u))\<rparr>)
               else M);
          N = fold push [regs M EFLAGS, regs M CS, regs M EIP] N;
          N = (if cpu_error_code i then push err N else N)
      in N\<lparr>regs := (regs N)(CS := of_nat SEG_KCODE * 8)\<rparr>)"

lemma vectors_agree: "has_error_code i = cpu_error_code i"
  by (auto simp: has_error_code_def cpu_error_code_def T_DBLFLT_def T_TSS_def T_SEGNP_def T_STACK_def T_GPFLT_def
      T_PGFLT_def T_ALIGN_def)

section \<open>Layout of the structures\<close>

text \<open>The fields of a structure with their sizes, and the offset of a field.\<close>

primrec offset_of :: "string \<Rightarrow> (string \<times> nat) list \<Rightarrow> nat" where
  "offset_of f [] = 0"
| "offset_of f (x # xs) = (if fst x = f then 0 else snd x + offset_of f xs)"

definition trapframe :: "(string \<times> nat) list" where
  "trapframe =
    [(''edi'', 4), (''esi'', 4), (''ebp'', 4), (''oesp'', 4), (''ebx'', 4), (''edx'', 4), (''ecx'', 4), (''eax'', 4),
     (''gs'', 2), (''padding1'', 2), (''fs'', 2), (''padding2'', 2), (''es'', 2), (''padding3'', 2), (''ds'', 2),
     (''padding4'', 2), (''trapno'', 4), (''err'', 4), (''eip'', 4), (''cs'', 2), (''padding5'', 2), (''eflags'', 4),
     (''esp'', 4), (''ss'', 2), (''padding6'', 2)]"

definition context_s :: "(string \<times> nat) list" where
  "context_s = [(''edi'', 4), (''esi'', 4), (''ebx'', 4), (''ebp'', 4), (''eip'', 4)]"

lemma layout_offsets:
  "TF_eax = of_nat (offset_of ''eax'' trapframe)" "TF_es = of_nat (offset_of ''es'' trapframe)"
  "TF_ds = of_nat (offset_of ''ds'' trapframe)" "TF_trapno = of_nat (offset_of ''trapno'' trapframe)"
  "TF_eip = of_nat (offset_of ''eip'' trapframe)" "TF_cs = of_nat (offset_of ''cs'' trapframe)"
  "TF_eflags = of_nat (offset_of ''eflags'' trapframe)" "TF_esp = of_nat (offset_of ''esp'' trapframe)"
  "TF_ss = of_nat (offset_of ''ss'' trapframe)" "sizeof_trapframe = of_nat (sum_list (map snd trapframe))"
  "CTX_eip = of_nat (offset_of ''eip'' context_s)" "sizeof_context = of_nat (sum_list (map snd context_s))"
  by (simp_all add: trapframe_def context_s_def TF_eax_def TF_es_def TF_ds_def TF_trapno_def TF_eip_def TF_cs_def
      TF_eflags_def TF_esp_def TF_ss_def sizeof_trapframe_def CTX_eip_def sizeof_context_def)

section \<open>Loads after stores\<close>

lemma ld32_st32_off:
  assumes "3 < b - (a::uint)" "3 < a - b"
  shows "ld32 (st32 m a v) b = ld32 m b"
proof -
  have ne: "a + i \<noteq> b + j" if "i \<le> 3" "j \<le> 3" for i j :: uint
  proof
    assume e: "a + i = b + j"
    then have d: "b - a = i - j" "a - b = j - i" by (simp_all add: algebra_simps) 
    show False
    proof (cases "j \<le> i")
      case True
      then have "i - j \<le> i" by (simp add: word_le_nat_alt unat_sub)
      with that(1) assms(1) d(1) show False by order
    next
      case False
      then have "j - i \<le> j" by (simp add: word_le_nat_alt unat_sub)
      with that(2) assms(2) d(2) show False by order
    qed
  qed
  have "st32 m a v (b + j) = m (b + j)" if "j \<le> 3" for j
    using ne [of 0 j] ne [of 1 j] ne [of 2 j] ne [of 3 j] that by (simp add: st32_def)
  from this [of 0] this [of 1] this [of 2] this [of 3] show ?thesis by (simp add: ld32_def)
qed

lemma ld32_cong:
  assumes "\<And>j. j < 4 \<Longrightarrow> m' (a + of_nat j) = m (a + of_nat j)"
  shows "ld32 m' a = ld32 m a"
  using assms [of 0] assms [of 1] assms [of 2] assms [of 3] by (simp add: ld32_def)

section \<open>Stacks\<close>

text \<open>The memory after the words \<open>ws\<close> have been pushed onto a stack whose top is \<open>e\<close>.\<close>

primrec stack_mem :: "uint \<Rightarrow> uint list \<Rightarrow> memory \<Rightarrow> memory" where
  "stack_mem e [] m = m"
| "stack_mem e (w # ws) m = stack_mem (e - 4) ws (st32 m (e - 4) w)"

lemma word_gap:
  assumes "1 \<le> d" "d \<le> 1000"
  shows "3 < 4 * (of_nat d :: uint)" "3 < - (4 * (of_nat d :: uint))"
proof -
  have u: "unat (4 * (of_nat d :: uint)) = 4 * d" using assms by (simp add: unat_word_ariths unat_of_nat)
  show "3 < 4 * (of_nat d :: uint)" using u assms by (simp add: word_less_nat_alt)
  have "unat (- (4 * (of_nat d :: uint))) = 4294967296 - 4 * d" using u assms unat_sub_if' [of 0 "4 * (of_nat d :: uint)"] by simp
  then show "3 < - (4 * (of_nat d :: uint))" using assms by (simp add: word_less_nat_alt)
qed

lemma stack_mem_above:
  "length ws + d \<le> 1000 \<Longrightarrow> ld32 (stack_mem e ws m) (e + 4 * of_nat d) = ld32 m (e + 4 * of_nat d)"
proof (induction ws arbitrary: e m d)
  case (Cons w ws)
  have a: "e + 4 * of_nat d = (e - 4) + 4 * of_nat (Suc d)" by (simp add: algebra_simps)
  have "ld32 (st32 m (e - 4) w) ((e - 4) + 4 * of_nat (Suc d)) = ld32 m ((e - 4) + 4 * of_nat (Suc d))"
    using word_gap [of "Suc d"] Cons.prems by (intro ld32_st32_off) (simp_all add: algebra_simps)
  then show ?case using Cons.IH [of "Suc d" "e - 4"] Cons.prems unfolding a by simp
qed simp

lemma stack_mem_nth:
  "k < length ws \<Longrightarrow> length ws \<le> 1000 \<Longrightarrow> ld32 (stack_mem e ws m) (e - 4 * of_nat (Suc k)) = ws ! k"
proof (induction ws arbitrary: e m k)
  case (Cons w ws)
  show ?case
  proof (cases k)
    case 0
    then show ?thesis using stack_mem_above [of ws 0 "e - 4"] Cons.prems by (simp add: ld32_st32)
  next
    case (Suc j)
    have a: "e - 4 * of_nat (Suc k) = (e - 4) - 4 * of_nat (Suc j)" by (simp add: Suc algebra_simps)
    show ?thesis unfolding a using Cons.IH [of j "e - 4"] Cons.prems Suc by (simp del: of_nat_Suc)
  qed
qed simp

section \<open>Entering the kernel and returning\<close>

definition trap_entry :: "taskstate \<Rightarrow> nat \<Rightarrow> uint \<Rightarrow> machine \<Rightarrow> machine" where
  "trap_entry u i err M = run (vector_code i @ alltraps_code) (cpu_enter u i err M)"

text \<open>
  Where the frame lies: at the top of the kernel stack of the process, or, without the fields \<^verbatim>\<open>esp\<close> and \<^verbatim>\<open>ss\<close>, on the stack that
  the kernel was using.
\<close>

definition frame_ptr :: "taskstate \<Rightarrow> machine \<Rightarrow> uint" where
  "frame_ptr u M =
     (if user_mode M then ts_esp0 u - sizeof_trapframe else regs M ESP - of_nat (offset_of ''esp'' trapframe))"

text \<open>The frame that the processor, the entry point and \<^verbatim>\<open>alltraps\<close> build, from the lowest word upwards.\<close>

definition frame_words :: "taskstate \<Rightarrow> nat \<Rightarrow> uint \<Rightarrow> machine \<Rightarrow> uint list" where
  "frame_words u i err M =
     [regs M EDI, regs M ESI, regs M EBP, frame_ptr u M + 32, regs M EBX, regs M EDX, regs M ECX, regs M EAX,
      regs M GS, regs M FS, regs M ES, regs M DS, of_nat i, if cpu_error_code i then err else 0, regs M EIP, regs M CS,
      regs M EFLAGS] @ (if user_mode M then [regs M ESP, regs M SS] else [])"

definition frame_len :: "machine \<Rightarrow> nat" where
  "frame_len M = (if user_mode M then 19 else 17)"

lemma frame_ptr_eq: "frame_ptr u M = (if user_mode M then ts_esp0 u - 76 else regs M ESP - 68)"
  by (simp add: frame_ptr_def sizeof_trapframe_def trapframe_def)

lemma entry_eq:
  "xmem (trap_entry u i err M) =
     stack_mem (frame_ptr u M + 4 * of_nat (frame_len M)) (rev (frame_words u i err M) @ [frame_ptr u M]) (xmem M) \<and>
   regs (trap_entry u i err M) ESP = frame_ptr u M - 4 \<and> regs (trap_entry u i err M) CS = 8"
  by (cases "user_mode M"; cases "cpu_error_code i")
    (simp_all add: trap_entry_def vector_code_def vectors_agree alltraps_code_def cpu_enter_def run_def push_def Let_def frame_words_def
     frame_ptr_eq frame_len_def SEG_KCODE_def)

lemma frame_at:
  assumes "j < frame_len M"
  shows "ld32 (xmem (trap_entry u i err M)) (frame_ptr u M + 4 * of_nat j) = frame_words u i err M ! j"
proof -
  let ?n = "frame_len M" and ?w = "frame_words u i err M"
  have l: "length ?w = ?n" "?n \<le> 19" by (simp_all add: frame_words_def frame_len_def)
  let ?k = "?n - Suc j"
  have e: "frame_ptr u M + 4 * of_nat j = frame_ptr u M + 4 * of_nat ?n - 4 * of_nat (Suc ?k)"
    using assms by (simp add: of_nat_diff algebra_simps)
  have "(rev ?w @ [frame_ptr u M]) ! ?k = ?w ! j" using assms l by (simp add: nth_append rev_nth)
  then show ?thesis
    using stack_mem_nth [of ?k "rev ?w @ [frame_ptr u M]" "frame_ptr u M + 4 * of_nat ?n" "xmem M"] l assms
    unfolding e by (simp only: entry_eq) simp
qed

lemma entry_arg: "ld32 (xmem (trap_entry u i err M)) (regs (trap_entry u i err M) ESP) = frame_ptr u M"
proof -
  let ?n = "frame_len M" and ?w = "frame_words u i err M"
  have l: "length ?w = ?n" "?n \<le> 19" by (simp_all add: frame_words_def frame_len_def)
  have e: "frame_ptr u M - 4 = frame_ptr u M + 4 * of_nat ?n - 4 * of_nat (Suc ?n)" by (simp add: algebra_simps)
  show ?thesis
    using stack_mem_nth [of ?n "rev ?w @ [frame_ptr u M]" "frame_ptr u M + 4 * of_nat ?n" "xmem M"] l
    by (simp only: entry_eq e) (simp add: nth_append)
qed

lemma entry_ss: "\<not> user_mode M \<Longrightarrow> regs (trap_entry u i err M) SS = regs M SS"
  by (simp add: trap_entry_def vector_code_def alltraps_code_def cpu_enter_def run_def push_def Let_def)

lemmas frame_fields = frame_at [of 0] frame_at [of 1] frame_at [of 2] frame_at [of 4] frame_at [of 5] frame_at [of 6]
  frame_at [of 7] frame_at [of 8] frame_at [of 9] frame_at [of 10] frame_at [of 11] frame_at [of 12] frame_at [of 13]
  frame_at [of 14] frame_at [of 15] frame_at [of 16] frame_at [of 17] frame_at [of 18]

text \<open>The frame is on the stack, as it was built.\<close>

definition frame_kept :: "nat \<Rightarrow> uint \<Rightarrow> memory \<Rightarrow> memory \<Rightarrow> bool" where
  "frame_kept n tf m m' \<longleftrightarrow> (\<forall>k < n. ld32 m' (tf + 4 * of_nat k) = ld32 m (tf + 4 * of_nat k))"

lemma trapret_regs:
  assumes "regs N ESP = tf" "cs = take_bit 16 (ld32 (xmem N) (tf + 60))"
  shows "regs (run trapret_code N) = (\<lambda>r. case r of
    EDI \<Rightarrow> ld32 (xmem N) tf | ESI \<Rightarrow> ld32 (xmem N) (tf + 4) | EBP \<Rightarrow> ld32 (xmem N) (tf + 8) |
    EBX \<Rightarrow> ld32 (xmem N) (tf + 16) | EDX \<Rightarrow> ld32 (xmem N) (tf + 20) | ECX \<Rightarrow> ld32 (xmem N) (tf + 24) |
    EAX \<Rightarrow> ld32 (xmem N) (tf + 28) | GS \<Rightarrow> take_bit 16 (ld32 (xmem N) (tf + 32)) |
    FS \<Rightarrow> take_bit 16 (ld32 (xmem N) (tf + 36)) | ES \<Rightarrow> take_bit 16 (ld32 (xmem N) (tf + 40)) |
    DS \<Rightarrow> take_bit 16 (ld32 (xmem N) (tf + 44)) | EIP \<Rightarrow> ld32 (xmem N) (tf + 56) |
    CS \<Rightarrow> cs | EFLAGS \<Rightarrow> ld32 (xmem N) (tf + 64) |
    ESP \<Rightarrow> if cs AND 3 = regs N CS AND 3 then tf + 68 else ld32 (xmem N) (tf + 68) |
    SS \<Rightarrow> if cs AND 3 = regs N CS AND 3 then regs N SS else take_bit 16 (ld32 (xmem N) (tf + 72)))"
  using assms
  by (simp add: fun_eq_iff trapret_code_def run_def pop_def cut_def seg_reg_def iret_def Let_def add.assoc split: reg.split)

section \<open>Switching stacks\<close>

text \<open>
  A thread that calls \<^verbatim>\<open>swtch\<close>: its stack pointer \<open>e\<close> is at the return address, above it the two arguments. The context it
  saves lies below.
\<close>

lemma swtch_regs:
  assumes "regs M ESP = e" "ld32 (xmem M) (e + 8) = c"
  defines "m \<equiv> xmem (run swtch_code M)"
  shows "regs (run swtch_code M) ESP = c + 20" "regs (run swtch_code M) EDI = ld32 m c"
    "regs (run swtch_code M) ESI = ld32 m (c + 4)" "regs (run swtch_code M) EBX = ld32 m (c + 8)"
    "regs (run swtch_code M) EBP = ld32 m (c + 12)" "regs (run swtch_code M) EIP = ld32 m (c + 16)"
    "m = st32 (stack_mem e [regs M EBP, regs M EBX, regs M ESI, regs M EDI] (xmem M)) (ld32 (xmem M) (e + 4)) (e - 16)"
  using assms by (simp_all add: swtch_code_def run_def push_def pop_def cut_def seg_reg_def add.assoc)

lemma swtch_context:
  assumes "regs M ESP = e" "a = ld32 (xmem M) (e + 4)"
    and "\<forall>k < 5. 3 < (e - 16 + 4 * of_nat k) - a \<and> 3 < a - (e - 16 + 4 * of_nat k)"
  defines "m \<equiv> xmem (run swtch_code M)"
  shows "ld32 m (e - 16) = regs M EDI" "ld32 m (e - 12) = regs M ESI" "ld32 m (e - 8) = regs M EBX"
    "ld32 m (e - 4) = regs M EBP" "ld32 m e = ld32 (xmem M) e" "ld32 m a = e - 16"
proof -
  let ?s = "stack_mem e [regs M EBP, regs M EBX, regs M ESI, regs M EDI] (xmem M)"
  have m: "m = st32 ?s a (e - 16)" using swtch_regs(7) [OF assms(1) refl] assms(2) by (simp add: m_def)
  have s: "ld32 ?s (e - 4 * of_nat (Suc k)) = [regs M EBP, regs M EBX, regs M ESI, regs M EDI] ! k" if "k < 4" for k
    using stack_mem_nth [of k "[regs M EBP, regs M EBX, regs M ESI, regs M EDI]" e] that by simp
  have o: "ld32 m (e - 16 + 4 * of_nat k) = ld32 ?s (e - 16 + 4 * of_nat k)" if "k < 5" for k
    unfolding m using assms(3) that by (intro ld32_st32_off) auto
  show "ld32 m (e - 16) = regs M EDI" using o [of 0] s [of 3] by simp
  show "ld32 m (e - 12) = regs M ESI" using o [of 1] s [of 2] by (simp add: algebra_simps)
  show "ld32 m (e - 8) = regs M EBX" using o [of 2] s [of 1] by (simp add: algebra_simps)
  show "ld32 m (e - 4) = regs M EBP" using o [of 3] s [of 0] by (simp add: algebra_simps)
  show "ld32 m e = ld32 (xmem M) e"
    using o [of 4] stack_mem_above [of "[regs M EBP, regs M EBX, regs M ESI, regs M EDI]" 0 e "xmem M"]
    by (simp add: algebra_simps)
  show "ld32 m a = e - 16" unfolding m by (rule ld32_st32)
qed

section \<open>The theorems\<close>

text \<open>
  C28: the stack that the processor, the entry point of a vector and \<^verbatim>\<open>alltraps\<close> leave is a
  \<^verbatim>\<open>struct trapframe\<close>: every register of the interrupted program is at the offset at which C has the field of its name, the
  trap number and the error code are in their fields, and the address of the frame is on top of the stack, as the argument of \<^verbatim>\<open>trap\<close>.
  The frame ends at the top of the kernel stack when a user program is interrupted, and at the old stack pointer, without the
  fields \<^verbatim>\<open>esp\<close> and \<^verbatim>\<open>ss\<close>, when the kernel is. This holds for all vectors: the entry points push a 0 for exactly those for which the
  processor has no error code.
\<close>

theorem trap_frame_layout:
  "let N = trap_entry u i err M; tf = frame_ptr u M;
       field = (\<lambda>f. ld32 (xmem N) (tf + of_nat (offset_of f trapframe)))
   in map field ([''edi'', ''esi'', ''ebp'', ''ebx'', ''edx'', ''ecx'', ''eax'', ''gs'', ''fs'', ''es'', ''ds'', ''eip'',
        ''cs'', ''eflags''] @ (if user_mode M then [''esp'', ''ss''] else [])) =
      map (regs M) ([EDI, ESI, EBP, EBX, EDX, ECX, EAX, GS, FS, ES, DS, EIP, CS, EFLAGS] @
        (if user_mode M then [ESP, SS] else [])) \<and>
     field ''trapno'' = of_nat i \<and> field ''err'' = (if cpu_error_code i then err else 0) \<and>
     ld32 (xmem N) (regs N ESP) = tf"
  using entry_arg [of u i err M] frame_fields [of M u i err]
  by (simp add: trapframe_def frame_len_def frame_words_def)

text \<open>
  C29: a trap is invisible to the program it interrupts, be it a user program or the kernel. Whatever the handler did, if it left the frame
  alone and comes back to \<^verbatim>\<open>trapret\<close> in the kernel's code and stack segments with the stack pointer at the frame, then every register has the value it had before
  the trap: the general registers, the segments, the flags, the program counter and the stack.
\<close>

theorem trap_transparent:
  assumes "frame_kept (frame_len M) (frame_ptr u M) (xmem (trap_entry u i err M)) (xmem N)" "regs N ESP = frame_ptr u M"
    and "regs N CS = regs (trap_entry u i err M) CS" "regs N SS = regs (trap_entry u i err M) SS"
    and "\<forall>r. seg_reg r \<longrightarrow> take_bit 16 (regs M r) = regs M r"
  shows "regs (run trapret_code N) = regs M"
proof -
  let ?tf = "frame_ptr u M" and ?w = "frame_words u i err M"
  have w: "ld32 (xmem N) (?tf + 4 * of_nat k) = ?w ! k" if "k < frame_len M" for k
    using assms(1) frame_at [OF that] that by (simp add: frame_kept_def)
  have n: "17 \<le> frame_len M" by (simp add: frame_len_def)
  have cut: "take_bit 16 (regs M CS) = regs M CS" "take_bit 16 (regs M DS) = regs M DS" "take_bit 16 (regs M ES) = regs M ES"
    "take_bit 16 (regs M FS) = regs M FS" "take_bit 16 (regs M GS) = regs M GS" "take_bit 16 (regs M SS) = regs M SS"
    using assms(5) by (simp_all add: seg_reg_def)
  note f = w [of 0] w [of 1] w [of 2] w [of 4] w [of 5] w [of 6] w [of 7] w [of 8] w [of 9] w [of 10] w [of 11] w [of 14]
    w [of 15] w [of 16]
  have cs: "regs M CS = take_bit 16 (ld32 (xmem N) (?tf + 60))" using w [of 15] n cut(1) by (simp add: frame_words_def)
  have k: "regs N CS AND 3 = 0" using assms(3) by (simp add: entry_eq)
  have stack: "ld32 (xmem N) (?tf + 68) = regs M ESP" "ld32 (xmem N) (?tf + 72) = regs M SS" if "user_mode M"
    using that w [of 17] w [of 18] by (simp_all add: frame_len_def frame_words_def)
  have same: "regs N SS = regs M SS" "?tf + 68 = regs M ESP" if "\<not> user_mode M"
    using that assms(4) entry_ss [of M u i err] by (simp_all add: frame_ptr_eq)
  show ?thesis
    unfolding trapret_regs [OF assms(2) cs]
    using f n cut k stack same by (auto simp: fun_eq_iff frame_words_def user_mode_def split: reg.split)
qed

definition demo_user :: machine where
  "demo_user = \<lparr>regs = (\<lambda>_. 7)(CS := 0x1b, DS := 0x23, ES := 0x23, SS := 0x23, ESP := 0xff000, EIP := 0x40), xmem = (\<lambda>_. 0)\<rparr>"

theorem trap_transparent_witness:
  "let N = trap_entry (nil_ts\<lparr>ts_esp0 := 0x300000\<rparr>) 14 2 demo_user
   in regs (run trapret_code (N\<lparr>regs := (regs N)(ESP := 0x300000 - 76)\<rparr>)) = regs demo_user"
proof -
  let ?N = "trap_entry (nil_ts\<lparr>ts_esp0 := 0x300000\<rparr>) 14 2 demo_user"
  have "\<forall>r. seg_reg r \<longrightarrow> take_bit 16 (regs demo_user r) = regs demo_user r"
    by (auto simp: seg_reg_def demo_user_def)
  moreover have "user_mode demo_user" by (simp add: user_mode_def demo_user_def)
  ultimately show ?thesis
    using trap_transparent [of demo_user "nil_ts\<lparr>ts_esp0 := 0x300000\<rparr>" 14 2 "?N\<lparr>regs := (regs ?N)(ESP := 0x300000 - 76)\<rparr>"]
    by (simp add: frame_kept_def frame_ptr_eq)
qed

text \<open>
  C30: \<^verbatim>\<open>swtch\<close> saves a thread and brings it back. When a thread calls it, the registers that C functions
  preserve and the return address become a \<^verbatim>\<open>struct context\<close> on the stack of the thread, whose address is stored through
  the first argument. When another thread later calls \<^verbatim>\<open>swtch\<close> with this address, and the context has not been
  overwritten, the first thread returns from its call with these registers and its stack as they were.
\<close>

theorem swtch_roundtrip:
  assumes "regs M ESP = e" "old = ld32 (xmem M) (e + 4)"
    and "\<forall>k < 5. 3 < (e - 16 + 4 * of_nat k) - old \<and> 3 < old - (e - 16 + 4 * of_nat k)"
    and "ld32 (xmem N) (regs N ESP + 8) = ld32 (xmem (run swtch_code M)) old"
    and "\<forall>k < 5. ld32 (xmem (run swtch_code N)) (e - 16 + 4 * of_nat k) = ld32 (xmem (run swtch_code M)) (e - 16 + 4 * of_nat k)"
  shows "map (regs (run swtch_code N)) [EBX, ESI, EDI, EBP] = map (regs M) [EBX, ESI, EDI, EBP] \<and>
    regs (run swtch_code N) EIP = ld32 (xmem M) e \<and> regs (run swtch_code N) ESP = e + 4"
proof -
  note c = swtch_context [OF assms(1-3)]
  have n: "ld32 (xmem N) (regs N ESP + 8) = e - 16" using assms(4) c(6) by simp
  have k: "ld32 (xmem (run swtch_code N)) (e - 16) = regs M EDI" "ld32 (xmem (run swtch_code N)) (e - 12) = regs M ESI"
    "ld32 (xmem (run swtch_code N)) (e - 8) = regs M EBX" "ld32 (xmem (run swtch_code N)) (e - 4) = regs M EBP"
    "ld32 (xmem (run swtch_code N)) e = ld32 (xmem M) e"
    using assms(5) [rule_format, of 0] assms(5) [rule_format, of 1] assms(5) [rule_format, of 2]
      assms(5) [rule_format, of 3] assms(5) [rule_format, of 4] c by (simp_all add: algebra_simps)
  note r = swtch_regs [OF refl n]
  show ?thesis using r k by (simp add: algebra_simps)
qed

text \<open>One thread has its stack at 0x1000, the other at 0x3000; they save their contexts at 0x2000 and 0x4000.\<close>

definition demo_thread :: machine where
  "demo_thread = \<lparr>regs = (\<lambda>_. 7)(ESP := 0x1000, EBX := 11, EDI := 12), xmem = st32 (\<lambda>_. 0) 0x1004 0x2000\<rparr>"

definition demo_other :: machine where
  "demo_other = (let M = run swtch_code demo_thread in
     M\<lparr>regs := (regs M)(ESP := 0x3000, EBX := 0), xmem := st32 (st32 (xmem M) 0x3004 0x4000) 0x3008 0xff0\<rparr>)"

theorem swtch_roundtrip_witness:
  "regs (run swtch_code demo_other) EBX = 11 \<and> regs (run swtch_code demo_other) ESP = 0x1004"
proof -
  have old: "ld32 (xmem demo_thread) 0x1004 = 0x2000" by (simp add: demo_thread_def ld32_st32)
  have e: "regs demo_thread ESP = 0x1000" by (simp add: demo_thread_def)
  have five: "(\<forall>k < 5. P k) \<longleftrightarrow> P 0 \<and> P 1 \<and> P 2 \<and> P 3 \<and> P 4" for P :: "nat \<Rightarrow> bool"
    by (auto simp: less_Suc_eq eval_nat_numeral)
  have far: "\<forall>k < 5. 3 < (0x1000 - 16 + 4 * of_nat k) - (0x2000 :: uint) \<and> 3 < 0x2000 - (0x1000 - 16 + 4 * of_nat k :: uint)"
    unfolding five by simp
  note c = swtch_context [OF e, of "0x2000"]
  have arg: "ld32 (xmem demo_other) (regs demo_other ESP + 8) = ld32 (xmem (run swtch_code demo_thread)) 0x2000"
    using c(6) old far by (simp add: demo_other_def Let_def ld32_st32)
  have e2: "regs demo_other ESP = 0x3000" "ld32 (xmem demo_other) 0x3004 = 0x4000"
    "xmem demo_other = st32 (st32 (xmem (run swtch_code demo_thread)) 0x3004 0x4000) 0x3008 0xff0"
    by (simp_all add: demo_other_def Let_def ld32_st32 ld32_st32_off)
  have "\<forall>k < 5. ld32 (xmem (run swtch_code demo_other)) (0x1000 - 16 + 4 * of_nat k) =
      ld32 (xmem (run swtch_code demo_thread)) (0x1000 - 16 + 4 * of_nat k)"
    unfolding five swtch_regs(7) [OF e2(1) refl] e2(2) [simplified] by (simp add: e2 ld32_st32 ld32_st32_off)
  from swtch_roundtrip [OF e _ _ arg this] old far show ?thesis by (simp add: demo_thread_def)
qed

end
