(* ===== verification/Newproc.thy ===== *)
theory Newproc
  imports Swtch
begin

text \<open>
  A new process: what \<open>allocproc\<close> lays out in memory is what the assembly code expects when the scheduler switches to
  the process for the first time.
\<close>

section \<open>Lemmas\<close>

lemma allocproc_scan_Some:
  "allocproc_scan k p T = Some q \<longleftrightarrow> p \<le> q \<and> q < p + k \<and> p_state (T q) = UNUSED \<and> (\<forall>r. p \<le> r \<and> r < q \<longrightarrow> p_state (T r) \<noteq> UNUSED)"
proof (induction k arbitrary: p)
  case (Suc k)
  then show ?case by (auto simp: Suc_le_eq) (metis le_eq_less_or_eq)+
qed simp

lemma ld32_memset_above:
  "ld32 (memset m c v 20) (c + 20) = ld32 m (c + 20)"
  by (simp add: ld32_def memset_eq add.assoc)

text \<open>The words of a fresh kernel stack: the frame, the address of \<^verbatim>\<open>trapret\<close>, the context.\<close>

lemma fresh_stack:
  "ld32 (st32 (memset (st32 m c20 w) c 0 20) (c + 16) v) (c + 16) = v"
  "ld32 (st32 (memset (st32 m (c + 20) w) c 0 20) (c + 16) v) (c + 20) = w"
  by (simp_all add: ld32_st32 ld32_st32_off ld32_memset_above)

text \<open>A thread that calls \<^verbatim>\<open>swtch\<close> with the context \<open>c\<close> of memory \<open>m\<close>, on a stack that does not overlap it.\<close>

definition calls_swtch :: "machine \<Rightarrow> uint \<Rightarrow> memory \<Rightarrow> bool" where
  "calls_swtch N c m \<longleftrightarrow> ld32 (xmem N) (regs N ESP + 8) = c \<and>
     (\<forall>k < 6. ld32 (xmem (run swtch_code N)) (c + 4 * of_nat k) = ld32 m (c + 4 * of_nat k))"

lemma calls_swtch_fresh:
  assumes "calls_swtch N c m" "ld32 m (c + 16) = fr" "ld32 m (c + 20) = trv"
  shows "regs (run swtch_code N) EIP = fr" "regs (run (swtch_code @ [Ret]) N) EIP = trv"
    "regs (run (swtch_code @ [Ret]) N) ESP = c + 24"
proof -
  have c: "ld32 (xmem N) (regs N ESP + 8) = c" "ld32 (xmem (run swtch_code N)) (c + 16) = fr"
    "ld32 (xmem (run swtch_code N)) (c + 20) = trv"
    using assms by (auto simp: calls_swtch_def dest: spec [where x = 4] spec [where x = 5])
  note r = swtch_regs [OF refl c(1)]
  have run: "run (swtch_code @ [Ret]) N = pop EIP (run swtch_code N)" by (simp add: run_def)
  show "regs (run swtch_code N) EIP = fr" "regs (run (swtch_code @ [Ret]) N) EIP = trv"
    "regs (run (swtch_code @ [Ret]) N) ESP = c + 24"
    using r c by (simp_all add: run pop_def)
qed

lemma allocproc_run:
  assumes "cpu_wf s" "freelist s = pg" "pg \<noteq> 0" "allocproc_scan NPROC 0 (ptable s) = Some p"
  shows "\<exists>t. allocproc lk s = Inr (Some p, t) \<and>
    ptable t = (ptable s)(p := (ptable s p)\<lparr>p_state := EMBRYO, p_pid := nextpid s, p_offset := pg, p_sz := 0xff000,
      p_kstack := pg + 0xff000, p_tf := pg + 0xfffb4, p_context := pg + 0xfff9c\<rparr>) \<and>
    mem t = st32 (memset (st32 (mem s) (pg + 0xfffb0) (a_trapret lk)) (pg + 0xfff9c) 0 20) (pg + 0xfffac) (a_forkret lk)"
  using assms
  by (simp add: allocproc_def proc_upd_def store32_def Let_def kalloc_eq cpu_wf_def settle_def PGSIZE_eq KSTACKSIZE_def
      sizeof_trapframe_def sizeof_context_def CTX_eip_def) (simp add: add.commute)

text \<open>
  C27: a new process is ready to be switched to. \<open>allocproc\<close> takes the first unused slot and a free page,
  and leaves all other processes alone. The page holds, from its end downwards, room for the trap frame, the address of
  \<^verbatim>\<open>trapret\<close> and a context whose program counter is \<^verbatim>\<open>forkret\<close>. So a \<^verbatim>\<open>swtch\<close> to it continues in \<^verbatim>\<open>forkret\<close>, and the return
  from there enters \<^verbatim>\<open>trapret\<close> with the stack pointer at the trap frame.
\<close>

theorem allocproc_first_run:
  assumes "kmem_inv kend (pg # pgs) s" "p < NPROC" "p_state (ptable s p) = UNUSED" "\<forall>q < p. p_state (ptable s q) \<noteq> UNUSED"
  shows "\<exists>t. allocproc lk s = Inr (Some p, t) \<and> (\<forall>q. q \<noteq> p \<longrightarrow> ptable t q = ptable s q) \<and>
    p_offset (ptable t p) = pg \<and> p_sz (ptable t p) + KSTACKSIZE = PGSIZE \<and>
    p_tf (ptable t p) + sizeof_trapframe = pg + PGSIZE \<and> p_kstack (ptable t p) + KSTACKSIZE = pg + PGSIZE \<and>
    (\<forall>N. calls_swtch N (p_context (ptable t p)) (mem t) \<longrightarrow>
      regs (run swtch_code N) EIP = a_forkret lk \<and>
      regs (run (swtch_code @ [Ret]) N) EIP = a_trapret lk \<and> regs (run (swtch_code @ [Ret]) N) ESP = p_tf (ptable t p))"
proof -
  have k: "cpu_wf s" "freelist s = pg" "pg \<noteq> 0" using assms(1) by (auto simp: kmem_inv_def)
  have scan: "allocproc_scan NPROC 0 (ptable s) = Some p" using assms by (auto simp: allocproc_scan_Some)
  obtain t where t: "allocproc lk s = Inr (Some p, t)"
    "ptable t = (ptable s)(p := (ptable s p)\<lparr>p_state := EMBRYO, p_pid := nextpid s, p_offset := pg, p_sz := 0xff000,
      p_kstack := pg + 0xff000, p_tf := pg + 0xfffb4, p_context := pg + 0xfff9c\<rparr>)"
    "mem t = st32 (memset (st32 (mem s) (pg + 0xfffb0) (a_trapret lk)) (pg + 0xfff9c) 0 20) (pg + 0xfffac) (a_forkret lk)"
    using allocproc_run [OF k scan, of lk] by blast
  have w: "ld32 (mem t) (pg + 0xfff9c + 16) = a_forkret lk" "ld32 (mem t) (pg + 0xfff9c + 20) = a_trapret lk"
    using fresh_stack(1) [of "mem s" "pg + 0xfffb0" _ "pg + 0xfff9c"] fresh_stack(2) [of "mem s" "pg + 0xfff9c"]
    by (simp_all add: t(3) add.commute)
  show ?thesis
    using t(1) w calls_swtch_fresh [of _ "pg + 0xfff9c" "mem t"]
    by (auto simp: t(2) KSTACKSIZE_def PGSIZE_eq sizeof_trapframe_def add.commute)
qed

text \<open>A machine with a single free page.\<close>

definition demo_page :: kproc where
  "demo_page = (kstart (\<lambda>_. zero_block) (\<lambda>_. 0))\<lparr>freelist := 0x200000\<rparr>"

theorem allocproc_first_run_witness:
  "\<exists>t. allocproc demo_layout demo_page = Inr (Some 0, t) \<and> p_offset (ptable t 0) = 0x200000 \<and>
    p_tf (ptable t 0) + sizeof_trapframe = 0x300000"
proof -
  have "kmem_inv 0x110000 [0x200000] demo_page"
    by (simp add: kmem_inv_def demo_page_def kstart_def cpu_wf_def page_def PGSIZE_eq ld32_def le_uint_def)
  moreover have "p_state (ptable demo_page 0) = UNUSED" by (simp add: demo_page_def kstart_def nil_proc_def)
  ultimately show ?thesis
    using allocproc_first_run [of "0x110000" "0x200000" "[]" demo_page 0 demo_layout] by (auto simp: NPROC_def PGSIZE_eq)
qed

end
