(* ===== verification/Bootmain.thy ===== *)
theory Bootmain
  imports Ide
begin

text \<open>
  \<^verbatim>\<open>bootmain.c\<close>: the boot loader that reads the kernel, an ELF file, from the first disk and copies its segments to their
  places in memory. The kernel starts at sector 1. The headers are read from memory where the code reads them, so that a segment that is
  loaded over them matters. The call of the entry point is the result.
\<close>

definition SECTSIZE :: uint where "SECTSIZE = 512"
definition ELF_MAGIC :: uint where "ELF_MAGIC = 0x464C457F"

record elfhdr =
  e_magic :: uint
  e_elf :: "uchar list"
  e_type :: ushort
  e_machine :: ushort
  e_version :: uint
  e_entry :: uint
  e_phoff :: uint
  e_shoff :: uint
  e_flags :: uint
  e_ehsize :: ushort
  e_phentsize :: ushort
  e_phnum :: ushort
  e_shentsize :: ushort
  e_shnum :: ushort
  e_shstrndx :: ushort

record proghdr =
  p_type :: uint
  p_off :: uint
  p_vaddr :: uint
  p_paddr :: uint
  p_filesz :: uint
  p_memsz :: uint
  p_flags :: uint
  p_align :: uint

definition elfhdr_at :: "memory \<Rightarrow> uint \<Rightarrow> elfhdr" where
  "elfhdr_at m a = \<lparr>e_magic = ld32 m a, e_elf = map (\<lambda>i. m (a + 4 + of_nat i)) [0..<12], e_type = ld16 m (a + 16),
     e_machine = ld16 m (a + 18), e_version = ld32 m (a + 20), e_entry = ld32 m (a + 24), e_phoff = ld32 m (a + 28),
     e_shoff = ld32 m (a + 32), e_flags = ld32 m (a + 36), e_ehsize = ld16 m (a + 40), e_phentsize = ld16 m (a + 42),
     e_phnum = ld16 m (a + 44), e_shentsize = ld16 m (a + 46), e_shnum = ld16 m (a + 48), e_shstrndx = ld16 m (a + 50)\<rparr>"

definition proghdr_at :: "memory \<Rightarrow> uint \<Rightarrow> proghdr" where
  "proghdr_at m a = \<lparr>p_type = ld32 m a, p_off = ld32 m (a + 4), p_vaddr = ld32 m (a + 8), p_paddr = ld32 m (a + 12),
     p_filesz = ld32 m (a + 16), p_memsz = ld32 m (a + 20), p_flags = ld32 m (a + 24), p_align = ld32 m (a + 28)\<rparr>"

section \<open>Operations\<close>

definition waitdisk :: "('z kblk_scheme, unit) kern" where
  "waitdisk = bindK (getK ide_status) (\<lambda>r. if r AND 0xC0 \<noteq> 0x40 then spin else ret ())"

text \<open>\<^verbatim>\<open>insl\<close> into memory.\<close>

fun poke :: "memory \<Rightarrow> uint \<Rightarrow> uchar list \<Rightarrow> memory" where
  "poke m d [] = m"
| "poke m d (x # xs) = poke (m(d := x)) (d + 1) xs"

definition readsect :: "uint \<Rightarrow> uint \<Rightarrow> ('z kblk_scheme, unit) kern" where
  "readsect dst offset =
     thenK waitdisk (
     thenK (outb 0x1f2 1) (
     thenK (outb 0x1f3 (ucast offset)) (
     thenK (outb 0x1f4 (ucast (drop_bit 8 offset))) (
     thenK (outb 0x1f5 (ucast (drop_bit 16 offset))) (
     thenK (outb 0x1f6 (ucast (drop_bit 24 offset OR 0xe0))) (
     thenK (outb 0x1f7 0x20) (
     thenK waitdisk (
     bindK insl (\<lambda>d.
     modK (\<lambda>s. s\<lparr>mem := poke (mem s) dst (take (unat SECTSIZE) d)\<rparr>))))))))))"

text \<open>
  The addresses rise by \<^verbatim>\<open>SECTSIZE\<close>, so that the loop either ends after the number of sectors in the range or,
  when no address of that alignment lies behind the end, never.
\<close>

primrec readseg_loop :: "nat \<Rightarrow> uint \<Rightarrow> uint \<Rightarrow> uint \<Rightarrow> ('z kblk_scheme, unit) kern" where
  "readseg_loop 0 = (\<lambda>pa epa offset. spin)"
| "readseg_loop (Suc fuel) = (\<lambda>pa epa offset. if \<not> pa < epa then ret () else
     thenK (readsect pa offset) (readseg_loop fuel (pa + SECTSIZE) epa (offset + 1)))"

definition readseg :: "uint \<Rightarrow> uint \<Rightarrow> uint \<Rightarrow> ('z kblk_scheme, unit) kern" where
  "readseg pa count offset =
     (let epa = pa + count;
          pa = pa - offset mod SECTSIZE;
          offset = offset div SECTSIZE + 1 in
     readseg_loop (unat (epa - pa) div 512 + 2) pa epa offset)"

primrec bootmain_loop :: "nat \<Rightarrow> uint \<Rightarrow> uint \<Rightarrow> ('z kblk_scheme, unit) kern" where
  "bootmain_loop 0 = (\<lambda>ph eph. spin)"
| "bootmain_loop (Suc fuel) = (\<lambda>ph eph. if \<not> ph < eph then ret () else
     bindK (getK (\<lambda>s. proghdr_at (mem s) ph)) (\<lambda>p.
     let pa = p_paddr p in
     thenK (readseg pa (p_filesz p) (p_off p)) (
     bindK (getK (\<lambda>s. proghdr_at (mem s) ph)) (\<lambda>p.
     thenK (whenK (p_memsz p > p_filesz p)
       (modK (\<lambda>s. s\<lparr>mem := stosb (mem s) (pa + p_filesz p) 0 (unat (p_memsz p - p_filesz p))\<rparr>)))
     (bootmain_loop fuel (ph + 32) eph)))))"

definition bootmain :: "('z kblk_scheme, uint option) kern" where
  "bootmain =
     (let elf = 0x10000 in
     thenK (readseg elf 4096 0) (
     bindK (getK (\<lambda>s. elfhdr_at (mem s) elf)) (\<lambda>e.
     if e_magic e \<noteq> ELF_MAGIC then ret None else
     let ph = elf + e_phoff e;
         eph = ph + 32 * ucast (e_phnum e) in
     thenK (bootmain_loop (unat (e_phnum e) + 1) ph eph) (
     bindK (getK (\<lambda>s. elfhdr_at (mem s) elf)) (\<lambda>e.
     ret (Some (e_entry e)))))))"

section \<open>Reading sectors\<close>

definition load_regs :: "uint \<Rightarrow> (ushort \<Rightarrow> uchar) \<Rightarrow> ushort \<Rightarrow> uchar" where
  "load_regs n p = p(0x1f2 := 1, 0x1f3 := ucast n, 0x1f4 := ucast (drop_bit 8 n), 0x1f5 := ucast (drop_bit 16 n),
     0x1f6 := ucast (drop_bit 24 n OR 0xe0), 0x1f7 := 0x20)"

lemma bit_port_byte: "bit (ucast (ucast x :: uchar) :: uint) i \<longleftrightarrow> i < 8 \<and> bit (x :: uint) i"
  by (auto simp: bit_simps)

lemma bit_port_nibble: "bit (ucast (ucast (x OR e) AND mask 4 :: uchar) :: uint) i \<longleftrightarrow> i < 4 \<and> (bit (x :: uint) i \<or> bit e i)"
  by (auto simp: bit_simps)

lemma load_regs_ports:
  "load_regs n p 0x1f3 = ucast n" "load_regs n p 0x1f4 = ucast (drop_bit 8 n)" "load_regs n p 0x1f5 = ucast (drop_bit 16 n)"
  "load_regs n p 0x1f6 = ucast (drop_bit 24 n OR 0xe0)"
  by (simp_all add: load_regs_def)

lemma load_regs_lba:
  assumes "n < 268435456"
  shows "ata_lba (load_regs n p) = n" "\<not> ata_drive (load_regs n p)"
proof -
  show "ata_lba (load_regs n p) = n"
  proof (rule bit_word_eqI)
    fix i assume i: "i < LENGTH(32)"
    have "bit (ata_lba (load_regs n p)) i \<longleftrightarrow>
       i < 8 \<and> bit n i \<or> 8 \<le> i \<and> i - 8 < 8 \<and> bit n (8 + (i - 8)) \<or>
       16 \<le> i \<and> i - 16 < 8 \<and> bit n (16 + (i - 16)) \<or> 24 \<le> i \<and> i - 24 < 4 \<and> bit n (24 + (i - 24))"
      using i unfolding ata_lba_def load_regs_ports mask_nibble bit_or_iff bit_push_bit_iff bit_port_byte bit_port_nibble
        bit_drop_bit_eq o_def bit_0xe0
      by auto
    also have "\<dots> \<longleftrightarrow> bit n i"
      using bit_above [OF assms, of i]
      by (cases "i < 8"; cases "i < 16"; cases "i < 24"; cases "i < 28") (auto simp: less_diff_conv2)
    finally show "bit (ata_lba (load_regs n p)) i = bit n i" .
  qed
  have "(0x10 :: uchar) = 2 ^ 4" by simp
  then have "ata_drive (load_regs n p) = bit (load_regs n p 0x1f6) 4"
    by (simp only: ata_drive_def and_exp_eq_0_iff_not_bit not_not)
  also have "\<dots> = bit n 28" unfolding load_regs_ports by (simp add: bit_simps bit_0xe0)
  finally show "\<not> ata_drive (load_regs n p)" using bit_above [OF assms, of 28] by simp
qed

lemma poke_eq: "length xs \<le> 2 ^ 32 \<Longrightarrow> poke m d xs = (\<lambda>a. if unat (a - d) < length xs then xs ! unat (a - d) else m a)"
proof (induction xs arbitrary: m d)
  case (Cons x xs)
  show ?case
  proof
    fix a
    show "poke m d (x # xs) a = (if unat (a - d) < length (x # xs) then (x # xs) ! unat (a - d) else m a)"
    proof (cases "a = d")
      case True
      have "unat (d - (d + 1)) = 2 ^ 32 - 1" by (simp add: unat_minus_1_uint)
      then show ?thesis using Cons True by simp
    next
      case False
      then have "a - d \<noteq> 0" by simp
      then have "unat (a - d) \<noteq> 0" by (simp only: unsigned_eq_0_iff not_False_eq_True)
      then have "unat (a - d) = Suc (unat (a - (d + 1)))" using unat_diff_Suc [OF False] by simp
      then show ?thesis using Cons False by simp
    qed
  qed
qed simp

definition load_ready :: "'z kblk_scheme \<Rightarrow> bool" where
  "load_ready s \<longleftrightarrow> ide_status s AND 0xC0 = 0x40 \<and> (\<forall>n<268435456. length (disk s False n) = 512)"

lemma readsect_eq:
  assumes s: "load_ready s" and n: "n < 268435456"
  shows "readsect dst n s = Inr ((), s\<lparr>ports := load_regs n (ports s), mem := (\<lambda>a. if unat (a - dst) < 512
    then disk s False n ! unat (a - dst) else mem s a)\<rparr>)"
proof -
  have "length (disk s False n) = 512" using s n by (simp add: load_ready_def)
  then show ?thesis
    using s load_regs_lba [OF n, of "ports s"] poke_eq [of "disk s False n" "mem s" dst]
    by (simp add: readsect_def waitdisk_def load_ready_def thenK_outb insl_def load_regs_def SECTSIZE_def)
qed

text \<open>The bytes of the kernel file, and the sectors that a range takes.\<close>

definition kbyte :: "'z kblk_scheme \<Rightarrow> nat \<Rightarrow> uchar" where
  "kbyte s b = disk s False (of_nat (b div 512 + 1)) ! (b mod 512)"

lemma window:
  fixes a :: uint
  assumes "P < 2 ^ 32"
  shows "P \<le> unat a \<Longrightarrow> unat (a - of_nat P) = unat a - P" "unat a < P \<Longrightarrow> 2 ^ 32 - P \<le> unat (a - of_nat P)"
proof -
  obtain k where k: "a = of_nat P + of_nat k" "k = unat (a - of_nat P)" "k < 2 ^ 32" by (rule offset_cases)
  have a: "unat a = (P + k) mod 2 ^ 32"
    using k(1) unat_of_nat [of "P + k", where 'a = 32] by simp
  show "unat (a - of_nat P) = unat a - P" if "P \<le> unat a"
  proof (cases "P + k < 2 ^ 32")
    case True
    then show ?thesis using a k(2) by simp
  next
    case False
    then have "unat a = P + k - 2 ^ 32" using a assms k(3) by (simp add: le_mod_geq)
    then show ?thesis using that assms k(3) False by simp
  qed
  show "2 ^ 32 - P \<le> unat (a - of_nat P)" if "unat a < P"
  proof (rule ccontr)
    assume "\<not> ?thesis"
    then have "P + k < 2 ^ 32" using k(2) by simp
    then show False using a that by simp
  qed
qed

lemma readseg_loop_run:
  assumes "load_ready s" "E \<le> P + 512 * k" "0 < k \<Longrightarrow> P + 512 * k < E + 512" "P + 512 * k < 2 ^ 32" "N + k < 268435456" "k < fuel" "E < 2 ^ 32"
  shows "\<exists>p. readseg_loop fuel (of_nat P) (of_nat E) (of_nat (N + 1)) s = Inr ((), s\<lparr>ports := p,
    mem := (\<lambda>a. if P \<le> unat a \<and> unat a < P + 512 * k then kbyte s (512 * N + (unat a - P)) else mem s a)\<rparr>)"
  using assms
proof (induction fuel arbitrary: P k N s)
  case (Suc fuel)
  note sz = unat_of_nat_uint
  have P: "unat (of_nat P :: uint) = P" "unat (of_nat E :: uint) = E" using Suc.prems(4,7) by (simp_all add: sz)
  show ?case
  proof (cases k)
    case 0
    then have "\<not> (of_nat P :: uint) < of_nat E" using Suc.prems(2) P by (simp add: word_less_nat_alt)
    moreover have "(\<lambda>a. if P \<le> unat a \<and> unat a < P + 512 * k then kbyte s (512 * N + (unat a - P)) else mem s a) = mem s"
      using 0 by (intro ext) auto
    ultimately show ?thesis by (intro exI [of _ "ports s"]) simp
  next
    case (Suc j)
    then have lt: "(of_nat P :: uint) < of_nat E" using Suc.prems(3) P by (simp add: word_less_nat_alt)
    have n: "(of_nat (N + 1) :: uint) < 268435456" using Suc.prems(5) Suc sz [of "N + 1"] by (simp add: word_less_nat_alt)
    define t where "t = s\<lparr>ports := load_regs (of_nat (N + 1)) (ports s), mem := (\<lambda>a. if unat (a - of_nat P) < 512
      then disk s False (of_nat (N + 1)) ! unat (a - of_nat P) else mem s a)\<rparr>"
    have rd: "readsect (of_nat P) (of_nat (N + 1)) s = Inr ((), t)" unfolding t_def by (rule readsect_eq [OF Suc.prems(1) n])
    have "load_ready t" using Suc.prems(1) by (simp add: load_ready_def t_def)
    then obtain p where p: "readseg_loop fuel (of_nat (P + 512)) (of_nat E) (of_nat (N + 1 + 1)) t = Inr ((), t\<lparr>ports := p,
      mem := (\<lambda>a. if P + 512 \<le> unat a \<and> unat a < P + 512 + 512 * j then kbyte t (512 * (N + 1) + (unat a - (P + 512))) else mem t a)\<rparr>)"
      using Suc.IH [of t "P + 512" j "N + 1"] Suc.prems Suc by auto
    have kb: "kbyte t b = kbyte s b" for b by (simp add: kbyte_def t_def)
    have m: "(if P + 512 \<le> unat a \<and> unat a < P + 512 + 512 * j then kbyte s (512 * (N + 1) + (unat a - (P + 512))) else mem t a) =
      (if P \<le> unat a \<and> unat a < P + 512 * k then kbyte s (512 * N + (unat a - P)) else mem s a)" for a
    proof -
      have b: "P + 512 \<le> 2 ^ 32" "P < 2 ^ 32" using Suc.prems(4) Suc by simp_all
      note wi = window [OF b(2), of a]
      consider "unat a < P" | "P \<le> unat a" "unat a < P + 512" | "P + 512 \<le> unat a" by linarith
      then show ?thesis
      proof cases
        case 1
        then have "\<not> unat (a - of_nat P) < 512" using wi(2) b by linarith
        then show ?thesis using 1 by (simp add: t_def)
      next
        case 2
        then have "unat (a - of_nat P) = unat a - P" "unat a - P < 512" using wi(1) by auto
        moreover have "kbyte s (512 * N + (unat a - P)) = disk s False (of_nat (N + 1)) ! (unat a - P)"
          unfolding kbyte_def using calculation(2) by (simp add: div_mult_self4)
        ultimately show ?thesis using 2 Suc by (simp add: t_def)
      next
        case 3
        then have "512 * (N + 1) + (unat a - (P + 512)) = 512 * N + (unat a - P)" by simp
        moreover have "\<not> unat (a - of_nat P) < 512" using wi(1) 3 by simp
        ultimately show ?thesis using 3 Suc by (simp add: t_def)
      qed
    qed
    have "readseg_loop (Suc fuel) (of_nat P) (of_nat E) (of_nat (N + 1)) s = Inr ((), t\<lparr>ports := p,
      mem := (\<lambda>a. if P \<le> unat a \<and> unat a < P + 512 * k then kbyte s (512 * N + (unat a - P)) else mem s a)\<rparr>)"
      using lt rd p unfolding kb m by (simp add: SECTSIZE_def add.commute)
    then show ?thesis by (auto simp: t_def)
  qed
qed simp

section \<open>Loading a segment\<close>

text \<open>Where the copy of a segment starts, and how many sectors it takes.\<close>

definition copy_from :: "uint \<Rightarrow> uint \<Rightarrow> nat" where
  "copy_from pa off = unat pa - unat off mod 512"

definition copy_sectors :: "uint \<Rightarrow> uint \<Rightarrow> nat" where
  "copy_sectors count off = (unat off mod 512 + unat count + 511) div 512"

definition copy_fits :: "uint \<Rightarrow> uint \<Rightarrow> uint \<Rightarrow> bool" where
  "copy_fits pa count off \<longleftrightarrow> unat off mod 512 \<le> unat pa \<and> copy_from pa off + 512 * copy_sectors count off < 2 ^ 32 \<and>
     unat off div 512 + copy_sectors count off < 268435456"

definition copied_mem :: "'z kblk_scheme \<Rightarrow> uint \<Rightarrow> uint \<Rightarrow> uint \<Rightarrow> memory \<Rightarrow> memory" where
  "copied_mem s pa count off m = (\<lambda>a. if copy_from pa off \<le> unat a \<and> unat a < copy_from pa off + 512 * copy_sectors count off
     then kbyte s (512 * (unat off div 512) + (unat a - copy_from pa off)) else m a)"

lemma readseg_run:
  assumes s: "load_ready s" and f: "copy_fits pa count off"
  shows "\<exists>p. readseg pa count off s = Inr ((), s\<lparr>ports := p, mem := copied_mem s pa count off (mem s)\<rparr>)"
proof -
  let ?o = "unat off mod 512" and ?P = "copy_from pa off" and ?k = "copy_sectors count off" and ?E = "unat pa + unat count"
  have o: "?o \<le> unat pa" "?P + 512 * ?k < 2 ^ 32" "unat off div 512 + ?k < 268435456" using f by (simp_all add: copy_fits_def)
  have PE: "?P + ?o = unat pa" using o(1) by (simp add: copy_from_def)
  have k: "?o + unat count \<le> 512 * ?k" "0 < ?k \<Longrightarrow> 512 * ?k < ?o + unat count + 512"
    unfolding copy_sectors_def using div_mult_mod_eq [of "?o + unat count + 511" 512] mod_less_divisor [of 512 "?o + unat count + 511"]
    by linarith+
  have E: "?E \<le> ?P + 512 * ?k" "0 < ?k \<Longrightarrow> ?P + 512 * ?k < ?E + 512" "?E < 2 ^ 32" using k PE o(2) by linarith+
  have w1: "pa + count = of_nat ?E" by simp
  have "unat (off mod SECTSIZE) = ?o" "unat (off div SECTSIZE) = unat off div 512"
    by (simp_all add: SECTSIZE_def unat_mod_distrib unat_div_distrib)
  then have "of_nat (unat (off mod SECTSIZE)) = (of_nat ?o :: uint)" "of_nat (unat (off div SECTSIZE)) = (of_nat (unat off div 512) :: uint)"
    by simp_all
  then have o512: "off mod SECTSIZE = of_nat ?o" "off div SECTSIZE = of_nat (unat off div 512)" by simp_all
  have "of_nat (?P + ?o) = pa" unfolding PE by simp
  then have w2: "pa - off mod SECTSIZE = of_nat ?P" unfolding o512(1) by (metis add_diff_cancel_right' of_nat_add)
  have w3: "off div SECTSIZE + 1 = of_nat (unat off div 512 + 1)" unfolding o512(2) by simp
  have "unat (pa + count - (pa - off mod SECTSIZE)) = ?o + unat count"
  proof -
    have "?E = ?P + (?o + unat count)" using PE by simp
    then have "(of_nat ?E :: uint) - of_nat ?P = of_nat (?o + unat count)" by (metis add_diff_cancel_left' of_nat_add)
    moreover have "?o + unat count < 4294967296" using E(3) PE by simp
    ultimately show ?thesis unfolding w1 w2 using unat_of_nat_uint [of "?o + unat count"] by metis
  qed
  then have "?k < unat (pa + count - (pa - off mod SECTSIZE)) div 512 + 2"
    unfolding copy_sectors_def by (simp add: less_Suc_eq_le)
  from readseg_loop_run [OF s E(1,2) o(2,3) this E(3)]
  show ?thesis unfolding readseg_def Let_def w1 w2 w3 copied_mem_def by simp
qed

text \<open>The memory after a segment is loaded, the bytes that this may change, and those that belong to the segment.\<close>

definition load_seg :: "'z kblk_scheme \<Rightarrow> proghdr \<Rightarrow> memory \<Rightarrow> memory" where
  "load_seg s p m = (\<lambda>a. if unat (p_paddr p) + unat (p_filesz p) \<le> unat a \<and> unat a < unat (p_paddr p) + unat (p_memsz p) then 0
     else copied_mem s (p_paddr p) (p_filesz p) (p_off p) m a)"

definition seg_area :: "proghdr \<Rightarrow> uint set" where
  "seg_area p = {a. copy_from (p_paddr p) (p_off p) \<le> unat a \<and>
     (unat a < copy_from (p_paddr p) (p_off p) + 512 * copy_sectors (p_filesz p) (p_off p) \<or> unat a < unat (p_paddr p) + unat (p_memsz p))}"

definition seg_mem :: "proghdr \<Rightarrow> uint set" where
  "seg_mem p = {a. unat (p_paddr p) \<le> unat a \<and> (unat a < unat (p_paddr p) + unat (p_filesz p) \<or> unat a < unat (p_paddr p) + unat (p_memsz p))}"

definition seg_fits :: "proghdr \<Rightarrow> bool" where
  "seg_fits p \<longleftrightarrow> copy_fits (p_paddr p) (p_filesz p) (p_off p) \<and> unat (p_paddr p) + unat (p_memsz p) \<le> 2 ^ 32"

definition elf_page :: "uint set" where
  "elf_page = {a. 0x10000 \<le> unat a \<and> unat a < 0x11000}"

lemma load_seg_other: "a \<notin> seg_area p \<Longrightarrow> load_seg s p m a = m a"
  by (auto simp: load_seg_def seg_area_def copied_mem_def copy_from_def)

lemma load_seg_file:
  assumes "seg_fits p" "i < unat (p_filesz p)"
  shows "load_seg s p m (p_paddr p + of_nat i) = kbyte s (unat (p_off p) + i)" "p_paddr p + of_nat i \<in> seg_mem p"
    "unat (p_paddr p + of_nat i) = unat (p_paddr p) + i"
proof -
  let ?o = "unat (p_off p) mod 512" and ?P = "copy_from (p_paddr p) (p_off p)" and ?k = "copy_sectors (p_filesz p) (p_off p)"
  have f: "?o \<le> unat (p_paddr p)" "?P + 512 * ?k < 2 ^ 32" using assms(1) by (simp_all add: seg_fits_def copy_fits_def)
  have PE: "?P + ?o = unat (p_paddr p)" using f(1) by (simp add: copy_from_def)
  have k: "?o + unat (p_filesz p) \<le> 512 * ?k"
    unfolding copy_sectors_def using div_mult_mod_eq [of "?o + unat (p_filesz p) + 511" 512]
      mod_less_divisor [of 512 "?o + unat (p_filesz p) + 511"] by linarith
  have "unat (p_paddr p) + i < 4294967296" using PE k f(2) assms(2) by simp
  then show u: "unat (p_paddr p + of_nat i) = unat (p_paddr p) + i"
    using unat_of_nat_uint [of "unat (p_paddr p) + i"] by simp
  show "p_paddr p + of_nat i \<in> seg_mem p" using u assms(2) by (simp add: seg_mem_def)
  have "512 * (unat (p_off p) div 512) + (unat (p_paddr p) + i - ?P) = unat (p_off p) + i"
    using PE div_mult_mod_eq [of "unat (p_off p)" 512] by linarith
  then show "load_seg s p m (p_paddr p + of_nat i) = kbyte s (unat (p_off p) + i)"
    unfolding load_seg_def copied_mem_def u using PE k assms(2) by simp
qed

lemma load_seg_zero:
  assumes "seg_fits p" "unat (p_filesz p) \<le> i" "i < unat (p_memsz p)"
  shows "load_seg s p m (p_paddr p + of_nat i) = 0" "p_paddr p + of_nat i \<in> seg_mem p"
proof -
  have "unat (p_paddr p) + i < 4294967296" using assms by (simp add: seg_fits_def)
  then have u: "unat (p_paddr p + of_nat i) = unat (p_paddr p) + i"
    using unat_of_nat_uint [of "unat (p_paddr p) + i"] by simp
  show "load_seg s p m (p_paddr p + of_nat i) = 0" "p_paddr p + of_nat i \<in> seg_mem p"
    unfolding load_seg_def seg_mem_def using assms by (simp_all add: u)
qed

text \<open>One iteration of the loop.\<close>

lemma stosb_range:
  assumes "unat pa + unat n \<le> 2 ^ 32" "f < n"
  shows "stosb m (pa + f) 0 (unat (n - f)) = (\<lambda>a. if unat pa + unat f \<le> unat a \<and> unat a < unat pa + unat n then 0 else m a)"
proof -
  let ?P = "unat pa + unat f"
  have lt: "unat f < unat n" using assms(2) by (simp add: word_less_nat_alt)
  have P: "?P < 2 ^ 32" using assms(1) lt by linarith
  have u: "unat (n - f) = unat n - unat f" using assms(2) by (intro unat_sub) simp
  have d: "pa + f = of_nat ?P" by simp
  have "unat (a - of_nat ?P) < unat n - unat f \<longleftrightarrow> ?P \<le> unat a \<and> unat a < unat pa + unat n" for a :: uint
    using window [OF P, of a] assms(1) lt by (cases "?P \<le> unat a") auto
  moreover have "unat (n - f) \<le> 2 ^ 32" using unat_uint_less [of "n - f"] by simp
  ultimately show ?thesis using stosb_eq [of "unat (n - f)" m "pa + f" 0] u by simp
qed

lemma ld_cong:
  assumes "\<And>n. n < 32 \<Longrightarrow> m' (a + n) = m (a + n)"
  shows "proghdr_at m' a = proghdr_at m a"
  using assms assms [of 0] by (simp add: proghdr_at_def ld32_def add.assoc)

lemma elf_cong:
  assumes "\<And>n. n < 52 \<Longrightarrow> m' (a + n) = m (a + n)"
  shows "elfhdr_at m' a = elfhdr_at m a"
proof -
  have "map (\<lambda>i. m' (a + 4 + of_nat i)) [0..<12] = map (\<lambda>i. m (a + 4 + of_nat i)) [0..<12]"
  proof (rule map_cong [OF refl])
    fix i assume "i \<in> set [0..<12]"
    then have "4 + of_nat i < (52 :: uint)" using unat_of_nat_uint [of "4 + i"] by (simp add: word_less_nat_alt)
    then show "m' (a + 4 + of_nat i) = m (a + 4 + of_nat i)" using assms [of "4 + of_nat i"] by (simp add: add.assoc)
  qed
  then show ?thesis using assms assms [of 0] by (simp add: elfhdr_at_def ld32_def ld16_def add.assoc)
qed

lemma load_iteration:
  assumes s: "load_ready s" and p: "seg_fits p" "proghdr_at m ph = p"
    and hdr: "\<And>n. n < 32 \<Longrightarrow> ph + n \<notin> seg_area p" and lt: "ph < eph"
  shows "\<exists>q. bootmain_loop (Suc fuel) ph eph (s\<lparr>ports := r, mem := m\<rparr>) =
    bootmain_loop fuel (ph + 32) eph (s\<lparr>ports := q, mem := load_seg s p m\<rparr>)"
proof -
  let ?s = "s\<lparr>ports := r, mem := m\<rparr>" let ?m = "copied_mem s (p_paddr p) (p_filesz p) (p_off p) m"
  have rdy: "load_ready ?s" using s by (simp add: load_ready_def)
  have kb: "copied_mem ?s = copied_mem s" by (simp add: fun_eq_iff copied_mem_def kbyte_def)
  have "copy_fits (p_paddr p) (p_filesz p) (p_off p)" using p(1) by (simp add: seg_fits_def)
  from readseg_run [OF rdy this] obtain q where rd: "readseg (p_paddr p) (p_filesz p) (p_off p) ?s = Inr ((), s\<lparr>ports := q, mem := ?m\<rparr>)"
    unfolding kb by auto
  have "?m (ph + n) = m (ph + n)" if "n < 32" for n
    using hdr [OF that] by (auto simp: copied_mem_def seg_area_def)
  then have same: "proghdr_at ?m ph = p" using ld_cong [of ?m ph m] p(2) by simp
  have "(if p_memsz p > p_filesz p then stosb ?m (p_paddr p + p_filesz p) 0 (unat (p_memsz p - p_filesz p)) else ?m) = load_seg s p m"
  proof (cases "p_memsz p > p_filesz p")
    case True
    then show ?thesis using stosb_range [of "p_paddr p" "p_memsz p" "p_filesz p" ?m] p(1) by (simp add: seg_fits_def load_seg_def)
  next
    case False
    then have "unat (p_memsz p) \<le> unat (p_filesz p)" by (simp add: not_less word_le_nat_alt)
    then show ?thesis using False by (auto simp: load_seg_def fun_eq_iff)
  qed
  then show ?thesis using lt rd same p(2) by (intro exI [of _ q]) (auto simp: Let_def split: if_splits)
qed

lemma load_segments:
  assumes s: "load_ready s" and ps: "\<And>j. j < length ps \<Longrightarrow> seg_fits (ps ! j) \<and> proghdr_at m (ph + 32 * of_nat j) = ps ! j"
    and hdr: "\<And>i j n. i < length ps \<Longrightarrow> j < length ps \<Longrightarrow> n < 32 \<Longrightarrow> ph + 32 * of_nat i + n \<notin> seg_area (ps ! j)"
    and eph: "unat ph + 32 * length ps < 2 ^ 32" "eph = ph + 32 * of_nat (length ps)"
  shows "\<exists>q. bootmain_loop (Suc (length ps)) ph eph (s\<lparr>ports := r, mem := m\<rparr>) = Inr ((), s\<lparr>ports := q, mem := fold (load_seg s) ps m\<rparr>)"
  using ps hdr eph
proof (induction ps arbitrary: ph m r)
  case Nil
  then show ?case by (intro exI [of _ r]) simp
next
  case (Cons p ps)
  have u: "unat (of_nat (32 * Suc (length ps)) :: uint) = 32 * Suc (length ps)" using Cons.prems(3) unat_of_nat_uint [of "32 * Suc (length ps)"] by simp
  have "unat eph = unat ph + 32 * Suc (length ps)"
    using Cons.prems(3,4) u unat_add_uint [of ph "of_nat (32 * Suc (length ps))"] by simp
  then have lt: "ph < eph" by (simp add: word_less_nat_alt)
  have u32: "unat (ph + 32) = unat ph + 32" using Cons.prems(3) unat_add_uint [of ph 32] by simp
  have p: "seg_fits p" "proghdr_at m ph = p" "\<And>n. n < 32 \<Longrightarrow> ph + n \<notin> seg_area p"
    using Cons.prems(1) [of 0] Cons.prems(2) [of 0 0] by simp_all
  obtain q where q: "bootmain_loop (Suc (Suc (length ps))) ph eph (s\<lparr>ports := r, mem := m\<rparr>) =
    bootmain_loop (Suc (length ps)) (ph + 32) eph (s\<lparr>ports := q, mem := load_seg s p m\<rparr>)"
    using load_iteration [OF s p lt] by blast
  have "\<exists>q'. bootmain_loop (Suc (length ps)) (ph + 32) eph (s\<lparr>ports := q, mem := load_seg s p m\<rparr>) =
    Inr ((), s\<lparr>ports := q', mem := fold (load_seg s) ps (load_seg s p m)\<rparr>)"
  proof (rule Cons.IH)
    fix j assume j: "j < length ps"
    have "load_seg s p m (ph + 32 * of_nat (Suc j) + n) = m (ph + 32 * of_nat (Suc j) + n)" if "n < 32" for n
      by (rule load_seg_other) (use Cons.prems(2) [of "Suc j" 0 n] j that in simp)
    then have "proghdr_at (load_seg s p m) (ph + 32 * of_nat (Suc j)) = ps ! j"
      using ld_cong [of "load_seg s p m" "ph + 32 * of_nat (Suc j)" m] Cons.prems(1) [of "Suc j"] j by simp
    then show "seg_fits (ps ! j) \<and> proghdr_at (load_seg s p m) (ph + 32 + 32 * of_nat j) = ps ! j"
      using Cons.prems(1) [of "Suc j"] j by (simp add: algebra_simps)
  next
    fix i j n assume "i < length ps" "j < length ps" "n < (32 :: uint)"
    then show "ph + 32 + 32 * of_nat i + n \<notin> seg_area (ps ! j)" using Cons.prems(2) [of "Suc i" "Suc j" n] by (simp add: algebra_simps)
  qed (use Cons.prems(3,4) u32 in \<open>simp_all add: algebra_simps\<close>)
  then show ?case using q by auto
qed

lemma fold_load_other: "(\<And>p. p \<in> set ps \<Longrightarrow> a \<notin> seg_area p) \<Longrightarrow> fold (load_seg s) ps m a = m a"
  by (induction ps arbitrary: m) (simp_all add: load_seg_other)

lemma fold_load_seg:
  assumes "j < length ps" "\<And>i. j < i \<Longrightarrow> i < length ps \<Longrightarrow> a \<notin> seg_area (ps ! i)"
  shows "\<exists>m'. fold (load_seg s) ps m a = load_seg s (ps ! j) m' a"
proof -
  have ps: "ps = take j ps @ ps ! j # drop (Suc j) ps" using assms(1) by (rule id_take_nth_drop)
  have "a \<notin> seg_area p" if p: "p \<in> set (drop (Suc j) ps)" for p
  proof -
    obtain i where "i < length (drop (Suc j) ps)" "p = drop (Suc j) ps ! i" using p by (metis in_set_conv_nth)
    then show ?thesis using assms(2) [of "Suc j + i"] assms(1) by simp
  qed
  then have "fold (load_seg s) (drop (Suc j) ps) (load_seg s (ps ! j) m') a = load_seg s (ps ! j) m' a" for m'
    by (rule fold_load_other)
  then show ?thesis by (subst ps) auto
qed

section \<open>The kernel in memory\<close>

text \<open>The headers of the kernel file, and when the file can be loaded.\<close>

definition kpage :: "'z kblk_scheme \<Rightarrow> memory" where
  "kpage s = (\<lambda>a. kbyte s (unat a - 0x10000))"

definition khdr :: "'z kblk_scheme \<Rightarrow> elfhdr" where
  "khdr s = elfhdr_at (kpage s) 0x10000"

definition ksegs :: "'z kblk_scheme \<Rightarrow> proghdr list" where
  "ksegs s = map (\<lambda>j. proghdr_at (kpage s) (0x10000 + e_phoff (khdr s) + 32 * of_nat j)) [0..<unat (e_phnum (khdr s))]"

definition bootable :: "'z kblk_scheme \<Rightarrow> bool" where
  "bootable s \<longleftrightarrow> e_magic (khdr s) = ELF_MAGIC \<and> unat (e_phoff (khdr s)) + 32 * unat (e_phnum (khdr s)) \<le> 4096 \<and>
     (\<forall>p\<in>set (ksegs s). seg_fits p \<and> seg_area p \<inter> elf_page = {}) \<and>
     (\<forall>i<length (ksegs s). \<forall>j<i. seg_area (ksegs s ! i) \<inter> seg_mem (ksegs s ! j) = {})"

lemma first_page:
  assumes "load_ready s"
  shows "\<exists>p. readseg 0x10000 4096 0 s = Inr ((), s\<lparr>ports := p, mem := (\<lambda>a. if a \<in> elf_page then kpage s a else mem s a)\<rparr>)"
proof -
  have "copy_fits 0x10000 4096 0" by (simp add: copy_fits_def copy_from_def copy_sectors_def)
  moreover have "copied_mem s 0x10000 4096 0 (mem s) = (\<lambda>a. if a \<in> elf_page then kpage s a else mem s a)"
    by (simp add: fun_eq_iff copied_mem_def copy_from_def copy_sectors_def elf_page_def kpage_def)
  ultimately show ?thesis using readseg_run [OF assms, of "0x10000" 4096 0] by simp
qed

lemma page_offset_in: "n < 4096 \<Longrightarrow> 0x10000 + n \<in> elf_page" for n :: uint
  using unat_add_uint [of "0x10000" n] by (simp add: elf_page_def word_less_nat_alt)

lemma page_headers:
  assumes "\<forall>a\<in>elf_page. m a = kpage s a"
  shows "elfhdr_at m 0x10000 = khdr s"
    "unat (e_phoff (khdr s)) + 32 * unat (e_phnum (khdr s)) \<le> 4096 \<Longrightarrow> j < length (ksegs s) \<Longrightarrow> n < 32 \<Longrightarrow>
      0x10000 + e_phoff (khdr s) + 32 * of_nat j + n \<in> elf_page"
    "unat (e_phoff (khdr s)) + 32 * unat (e_phnum (khdr s)) \<le> 4096 \<Longrightarrow> j < length (ksegs s) \<Longrightarrow>
      proghdr_at m (0x10000 + e_phoff (khdr s) + 32 * of_nat j) = ksegs s ! j"
proof -
  have lt: "n < 52 \<Longrightarrow> n < 4096" for n :: uint by (simp add: word_less_nat_alt)
  show "elfhdr_at m 0x10000 = khdr s"
    unfolding khdr_def by (rule elf_cong, rule assms [rule_format], rule page_offset_in, rule lt)
  show in_page: "0x10000 + e_phoff (khdr s) + 32 * of_nat j + n \<in> elf_page"
    if fit: "unat (e_phoff (khdr s)) + 32 * unat (e_phnum (khdr s)) \<le> 4096" and j: "j < length (ksegs s)" and n: "n < 32" for j and n :: uint
  proof -
    have j': "j < unat (e_phnum (khdr s))" using j by (simp add: ksegs_def)
    let ?x = "unat (e_phoff (khdr s)) + 32 * j + unat n"
    have "?x < 4096" using fit j' n by (simp add: word_less_nat_alt)
    then have "unat (of_nat ?x :: uint) < 4096" using unat_of_nat_uint [of ?x] by simp
    then have "(of_nat ?x :: uint) < 4096" by (simp add: word_less_nat_alt)
    from page_offset_in [OF this] show ?thesis by (simp add: algebra_simps)
  qed
  show "proghdr_at m (0x10000 + e_phoff (khdr s) + 32 * of_nat j) = ksegs s ! j"
    if "unat (e_phoff (khdr s)) + 32 * unat (e_phnum (khdr s)) \<le> 4096" "j < length (ksegs s)"
  proof -
    have "proghdr_at m (0x10000 + e_phoff (khdr s) + 32 * of_nat j) = proghdr_at (kpage s) (0x10000 + e_phoff (khdr s) + 32 * of_nat j)"
      by (rule ld_cong, rule assms [rule_format], rule in_page [OF that])
    then show ?thesis using that(2) by (simp add: ksegs_def)
  qed
qed

text \<open>
  C12: the boot loader puts the kernel into memory as its ELF headers say. If the headers are in the first page of the
  file, and no copy (which works in whole sectors, and so reaches before the start and behind the end of a segment)
  touches the page with the headers or a segment loaded before, then \<open>bootmain\<close> ends and calls the entry point with every segment in
  memory: the bytes of the file, and zeros for the rest. Nothing else in memory has changed, apart from the page and the
  sectors at the borders of the segments.
\<close>

theorem bootmain_loads:
  assumes s: "load_ready s" and b: "bootable s"
  shows "\<exists>t. bootmain s = Inr (Some (e_entry (khdr s)), t) \<and>
    (\<forall>p\<in>set (ksegs s). (\<forall>i<unat (p_filesz p). mem t (p_paddr p + of_nat i) = kbyte s (unat (p_off p) + i)) \<and>
       (\<forall>i<unat (p_memsz p). unat (p_filesz p) \<le> i \<longrightarrow> mem t (p_paddr p + of_nat i) = 0)) \<and>
    (\<forall>a. a \<notin> elf_page \<longrightarrow> (\<forall>p\<in>set (ksegs s). a \<notin> seg_area p) \<longrightarrow> mem t a = mem s a)"
proof -
  let ?m = "\<lambda>a. if a \<in> elf_page then kpage s a else mem s a" and ?ps = "ksegs s" and ?ph = "0x10000 + e_phoff (khdr s)"
  have fit: "unat (e_phoff (khdr s)) + 32 * unat (e_phnum (khdr s)) \<le> 4096" and magic: "e_magic (khdr s) = ELF_MAGIC"
    and segs: "\<And>p. p \<in> set ?ps \<Longrightarrow> seg_fits p \<and> seg_area p \<inter> elf_page = {}"
    and order: "\<And>i j. i < length ?ps \<Longrightarrow> j < i \<Longrightarrow> seg_area (?ps ! i) \<inter> seg_mem (?ps ! j) = {}"
    using b unfolding bootable_def by blast+
  obtain p where first: "readseg 0x10000 4096 0 s = Inr ((), s\<lparr>ports := p, mem := ?m\<rparr>)" using first_page [OF s] by blast
  have "\<forall>a\<in>elf_page. ?m a = kpage s a" by simp
  note hd = page_headers [OF this]
  have len: "length ?ps = unat (e_phnum (khdr s))" by (simp add: ksegs_def)
  have phoff: "unat ?ph = 0x10000 + unat (e_phoff (khdr s))" using fit unat_add_uint [of "0x10000" "e_phoff (khdr s)"] by simp
  have "\<exists>q. bootmain_loop (Suc (length ?ps)) ?ph (?ph + 32 * of_nat (length ?ps)) (s\<lparr>ports := p, mem := ?m\<rparr>) =
    Inr ((), s\<lparr>ports := q, mem := fold (load_seg s) ?ps ?m\<rparr>)"
  proof (rule load_segments [OF s])
    show "seg_fits (?ps ! j) \<and> proghdr_at ?m (?ph + 32 * of_nat j) = ?ps ! j" if "j < length ?ps" for j
      using hd(3) [OF fit that] segs [of "?ps ! j"] that by simp
    show "?ph + 32 * of_nat i + n \<notin> seg_area (?ps ! j)" if "i < length ?ps" "j < length ?ps" "n < 32" for i j n
      using hd(2) [OF fit that(1,3)] segs [of "?ps ! j"] that(2) by auto
  qed (use phoff fit len in simp_all)
  then obtain q where loop: "bootmain_loop (Suc (length ?ps)) ?ph (?ph + 32 * of_nat (length ?ps)) (s\<lparr>ports := p, mem := ?m\<rparr>) =
    Inr ((), s\<lparr>ports := q, mem := fold (load_seg s) ?ps ?m\<rparr>)" by blast
  have "\<forall>a\<in>elf_page. fold (load_seg s) ?ps ?m a = kpage s a"
  proof
    fix a assume "a \<in> elf_page"
    then show "fold (load_seg s) ?ps ?m a = kpage s a" using fold_load_other [of ?ps a s ?m] segs by auto
  qed
  then have entry: "elfhdr_at (fold (load_seg s) ?ps ?m) 0x10000 = khdr s" by (rule page_headers(1))
  have "ucast (e_phnum (khdr s)) = (of_nat (length ?ps) :: uint)" using len by simp
  then have run: "bootmain s = Inr (Some (e_entry (khdr s)), s\<lparr>ports := q, mem := fold (load_seg s) ?ps ?m\<rparr>)"
    using first loop hd(1) entry magic len by (simp add: bootmain_def Let_def)
  have seg: "\<exists>m'. fold (load_seg s) ?ps ?m a = load_seg s p m' a" if p: "p \<in> set ?ps" and a: "a \<in> seg_mem p" for p a
  proof -
    obtain j where j: "j < length ?ps" "p = ?ps ! j" using p by (metis in_set_conv_nth)
    show ?thesis unfolding j(2) by (rule fold_load_seg [OF j(1)]) (use order a j(2) in blast)
  qed
  have "fold (load_seg s) ?ps ?m (p_paddr p + of_nat i) = kbyte s (unat (p_off p) + i)" if p: "p \<in> set ?ps" and i: "i < unat (p_filesz p)" for p i
  proof -
    have f: "seg_fits p" using segs [OF p] by simp
    show ?thesis using seg [OF p load_seg_file(2) [OF f i]] load_seg_file(1) [OF f i, of s] by auto
  qed
  moreover have "fold (load_seg s) ?ps ?m (p_paddr p + of_nat i) = 0"
    if p: "p \<in> set ?ps" and i: "i < unat (p_memsz p)" "unat (p_filesz p) \<le> i" for p i
  proof -
    have f: "seg_fits p" using segs [OF p] by simp
    show ?thesis using seg [OF p load_seg_zero(2) [OF f i(2,1)]] load_seg_zero(1) [OF f i(2,1), of s] by auto
  qed
  moreover have "fold (load_seg s) ?ps ?m a = mem s a" if "a \<notin> elf_page" "\<forall>p\<in>set ?ps. a \<notin> seg_area p" for a
    using fold_load_other [of ?ps a s ?m] that by auto
  ultimately show ?thesis unfolding run by auto
qed

text \<open>A kernel file with one segment of 8 bytes, of which the first 4 are in the file, to be loaded at 0x100000.\<close>

definition demo_elf :: "uchar list" where
  "demo_elf = [0x7f, 0x45, 0x4c, 0x46] @ replicate 20 0 @ [0x0c, 0, 0x10, 0] @ [52, 0, 0, 0] @ replicate 12 0 @ [1, 0] @ replicate 6 0 @
     [1, 0, 0, 0] @ [0, 2, 0, 0] @ [0, 0, 0x10, 0] @ [0, 0, 0x10, 0] @ [4, 0, 0, 0] @ [8, 0, 0, 0] @ replicate 8 0"

definition demo_boot :: kblk where
  "demo_boot = demo_ide\<lparr>ide_status := 0x40, disk := (\<lambda>_. (\<lambda>_. replicate 512 0)
     (1 := demo_elf @ replicate 428 0, 2 := [0xfa, 0xeb, 0xfe, 0x90] @ replicate 508 0))\<rparr>"

lemma demo_kbyte:
  "b < 512 \<Longrightarrow> kbyte demo_boot b = (demo_elf @ replicate 428 0) ! b"
  "kbyte demo_boot 512 = 0xfa"
  by (simp_all add: kbyte_def demo_boot_def)

lemma demo_headers:
  "e_magic (khdr demo_boot) = ELF_MAGIC" "e_phoff (khdr demo_boot) = 52" "e_phnum (khdr demo_boot) = 1" "e_entry (khdr demo_boot) = 0x10000c"
  by (simp_all add: khdr_def elfhdr_at_def ld32_def ld16_def le_uint_def le_ushort_def kpage_def demo_kbyte demo_elf_def nth_append ELF_MAGIC_def)

lemma demo_segment:
  "ksegs demo_boot = [\<lparr>p_type = 1, p_off = 0x200, p_vaddr = 0x100000, p_paddr = 0x100000, p_filesz = 4, p_memsz = 8, p_flags = 0, p_align = 0\<rparr>]"
  by (simp add: ksegs_def demo_headers proghdr_at_def ld32_def le_uint_def kpage_def demo_kbyte demo_elf_def nth_append)

theorem bootmain_loads_witness:
  "\<exists>t. bootmain demo_boot = Inr (Some 0x10000c, t) \<and> mem t 0x100000 = 0xfa \<and> mem t 0x100007 = 0"
proof -
  have r: "load_ready demo_boot" by (auto simp: load_ready_def demo_boot_def demo_elf_def)
  have a: "seg_area (ksegs demo_boot ! 0) \<inter> elf_page = {}"
    by (auto simp: demo_segment seg_area_def elf_page_def copy_from_def copy_sectors_def)
  have "bootable demo_boot"
    using a by (simp add: bootable_def demo_headers demo_segment seg_fits_def copy_fits_def copy_from_def copy_sectors_def)
  from bootmain_loads [OF r this] obtain t where t: "bootmain demo_boot = Inr (Some 0x10000c, t)"
    "\<forall>i<4. mem t (0x100000 + of_nat i) = kbyte demo_boot (512 + i)" "\<forall>i<8. 4 \<le> i \<longrightarrow> mem t (0x100000 + of_nat i) = 0"
    by (auto simp: demo_headers demo_segment)
  from t(2) [rule_format, of 0] t(3) [rule_format, of 7] t(1) show ?thesis by (simp add: demo_kbyte)
qed

end
