(* ===== verification/Fsdemo.thy ===== *)
theory Fsdemo
  imports Kstate
begin

text \<open>
  A small file system in memory and on disk, on which the theorems on files are applied: the layout is the one of \<^verbatim>\<open>mkfs\<close>, the root
  directory holds its two standard entries and one file. The state is the one that the start of the storage stack
  reaches, with the superblock and a cache of inodes filled in.
\<close>

definition demo_S :: superblock where
  "demo_S = \<lparr>sb_size = 1000, sb_nblocks = 941, sb_ninodes = 200, sb_nlog = 30, sb_logstart = 2, sb_inodestart = 32,
     sb_bmapstart = 58\<rparr>"

definition demo_root :: dinode where
  "demo_root = \<lparr>di_type = T_DIR, di_major = 0, di_minor = 0, di_nlink = 1, di_size = 48,
     di_addrs = 59 # replicate 12 0\<rparr>"

definition demo_file :: dinode where
  "demo_file = \<lparr>di_type = T_FILE, di_major = 0, di_minor = 0, di_nlink = 1, di_size = 0, di_addrs = replicate 13 0\<rparr>"

definition demo_entry :: "ushort \<Rightarrow> string \<Rightarrow> uchar list" where
  "demo_entry i name = dirent_bytes \<lparr>de_inum = i, de_name = strncpy_l (str name) DIRSIZ\<rparr>"

definition demo_dir :: block where
  "demo_dir = demo_entry 1 ''.'' @ demo_entry 1 ''..'' @ demo_entry 2 ''a'' @ replicate 464 0"

definition demo_bitmap :: block where
  "demo_bitmap = replicate 7 0xff @ [0x0f] @ replicate 504 0"

definition demo_base :: "uint \<Rightarrow> block" where
  "demo_base n = (if n = 1 then demo_sb else if n = 58 then demo_bitmap else if n = 59 then demo_dir else zero_block)"

definition demo_image :: "uint \<Rightarrow> block" where
  "demo_image = put_dino demo_S 2 demo_file (put_dino demo_S 1 demo_root demo_base)"

definition demo_view :: "uint \<Rightarrow> block" where
  "demo_view = recovered demo_log demo_image"

definition demo_fsys :: "(nat \<Rightarrow> inode) \<Rightarrow> kproc" where
  "demo_fsys I = (case storage_boot (kstart demo_image (\<lambda>_. 0)) of
     Inr (_, t) \<Rightarrow> t\<lparr>sb := demo_S, icache := I\<rparr> | Inl _ \<Rightarrow> kstart demo_image (\<lambda>_. 0))"

section \<open>Facts\<close>

lemma length_zero_block [simp]: "length zero_block = 512"
  by (simp add: zero_block_def)

lemma length_demo_entry [simp]: "length (demo_entry i name) = 16"
  by (simp add: demo_entry_def dirent_bytes_def DIRSIZ_def)

lemma demo_base_length: "length (demo_base n) = 512"
  by (simp add: demo_base_def demo_sb_def demo_bitmap_def demo_dir_def)

lemma demo_IBLOCK: "IBLOCK 1 demo_S = 32" "IBLOCK 2 demo_S = 32"
  by (simp_all add: IBLOCK_def IPB_def BSIZE_def demo_S_def)

lemma put_dino_block: "n \<noteq> IBLOCK i S \<Longrightarrow> put_dino S i d v n = v n"
  by (simp add: put_dino_def)

lemma put_dino_length:
  assumes "length (di_addrs d) = 13" "length (v n) = 512"
  shows "length (put_dino S i d v n) = 512"
  using assms inode_off_le [of i] by (auto simp: put_dino_def)

lemma demo_addrs [simp]: "length (di_addrs demo_root) = 13" "length (di_addrs demo_file) = 13"
  by (simp_all add: demo_root_def demo_file_def)

lemma demo_image_length: "length (demo_image n) = 512"
  unfolding demo_image_def by (intro put_dino_length demo_addrs demo_base_length)

lemma demo_image_block: "n \<noteq> 32 \<Longrightarrow> demo_image n = demo_base n"
  by (simp add: demo_image_def put_dino_block demo_IBLOCK)

lemma demo_image_boot: "sb_on demo_image demo_log" "hdr_ok demo_log (demo_image (log_start demo_log))"
  "hdr_list (demo_image (log_start demo_log)) = []"
proof -
  have "demo_image 1 = demo_disk 1" "demo_image 2 = demo_disk 2"
    by (simp_all add: demo_image_block demo_base_def demo_disk_def)
  moreover have "log_start demo_log = 2" by (simp add: demo_log_def)
  ultimately show "sb_on demo_image demo_log" "hdr_ok demo_log (demo_image (log_start demo_log))"
    "hdr_list (demo_image (log_start demo_log)) = []"
    using demo_disk_facts by (simp_all add: sb_on_def)
qed

lemma demo_view_block: "n \<noteq> 2 \<Longrightarrow> demo_view n = demo_image n"
  unfolding demo_view_def by (rule recovered_other) (simp_all add: demo_image_boot(3), simp add: demo_log_def)

lemma lblk_sb [simp]: "lblk v L H (s\<lparr>sb := S\<rparr>) = lblk v L H s" for s :: "'z kfs_scheme"
proof -
  have "bc v (set L) H (s\<lparr>sb := S\<rparr>) = bc v (set L) H s"
    by (simp add: bc_def lru_def io_ok_def ide_ready_def holds_def is_block_def)
  then show ?thesis by (simp add: lblk_def)
qed

lemma demo_fs:
  "fs demo_S (fctx (demo_fsys I)) demo_view [] (\<lambda>_. 0) I (demo_fsys I)"
  "lcap (fctx (demo_fsys I)) = 30" "larea (fctx (demo_fsys I)) = {n. 2 \<le> unat n \<and> unat n < 32}"
proof -
  obtain t where t: "storage_boot (kstart demo_image (\<lambda>_. 0)) = Inr ((), t)" "lblk demo_view [] (\<lambda>_. 0) t" "same_geom (lg t) demo_log"
    using storage_boot_run [OF kstart_cold demo_image_length demo_geom(1) demo_image_boot(1,2)] by (auto simp: demo_view_def)
  have s: "demo_fsys I = t\<lparr>sb := demo_S, icache := I\<rparr>" by (simp add: demo_fsys_def t(1))
  show "fs demo_S (fctx (demo_fsys I)) demo_view [] (\<lambda>_. 0) I (demo_fsys I)"
    using t(2) by (simp add: fs_def s)
  have "log_start (lg (demo_fsys I)) = 2" "log_size (lg (demo_fsys I)) = 30"
    using t(3) by (simp_all add: s same_geom_def demo_log_def)
  then show "lcap (fctx (demo_fsys I)) = 30" "larea (fctx (demo_fsys I)) = {n. 2 \<le> unat n \<and> unat n < 32}"
    unfolding fctx_caps by (simp_all add: lcap_def larea_def lctx_def)
qed

lemma demo_budget: "k < 30 \<Longrightarrow> fsblk.budget [] (\<lambda>_. 0) (fctx (demo_fsys I)) k"
  by (simp add: fsblk.budget_def demo_fs(2) pinned_def NBUF_def)

lemma demo_iblocks: "n \<in> iblocks demo_S \<Longrightarrow> 32 \<le> unat n \<and> unat n < 58"
proof -
  assume "n \<in> iblocks demo_S"
  then obtain i where i: "i < 200" "n = i div 8 + 32" by (auto simp: iblocks_def IBLOCK_def IPB_def BSIZE_def demo_S_def)
  have "unat (i div 8) \<le> 24" using i(1) by (simp add: unat_div word_less_nat_alt) 
  then show ?thesis using i(2) by (simp add: unat_word_ariths)
qed

lemma demo_geo: "geo demo_S (fctx (demo_fsys I))"
  using demo_iblocks by (fastforce simp: geo_def demo_fs(3) demo_S_def FSSIZE_def word_less_nat_alt word_le_nat_alt)

lemma demo_bit:
  assumes "i < 4096"
  shows "bit_at demo_bitmap i \<longleftrightarrow> i < 60"
proof -
  have m: "(0xff :: uchar) = mask 8" "(0x0f :: uchar) = mask 4" by (simp_all add: mask_eq_exp_minus_1)
  have i: "i = 8 * (i div 8) + i mod 8" "i mod 8 < 8" "i div 8 < 512" using assms by auto
  consider "i div 8 < 7" | "i div 8 = 7" | "7 < i div 8" by linarith
  then show ?thesis
  proof cases
    case 1
    then show ?thesis using i by (simp add: bit_at_iff demo_bitmap_def nth_append m bit_simps)
  next
    case 2
    then show ?thesis using i by (simp add: bit_at_iff demo_bitmap_def nth_append m bit_simps) linarith
  next
    case 3
    then have "demo_bitmap ! (i div 8) = 0" using i(3) by (simp add: demo_bitmap_def nth_append nth_Cons')
    moreover have "60 \<le> i" using 3 by linarith
    ultimately show ?thesis by (simp add: bit_at_iff)
  qed
qed

lemma demo_freeb: "freeb demo_S demo_view = {b. 60 \<le> unat b \<and> unat b < 1000}"
proof -
  have "demo_view 58 = demo_bitmap" by (simp add: demo_view_block demo_image_block demo_base_def)
  then have "freeb demo_S demo_view = {b. b < 1000 \<and> \<not> bit_at demo_bitmap (unat b)}" by (simp add: freeb_def demo_S_def)
  also have "\<dots> = {b. 60 \<le> unat b \<and> unat b < 1000}"
    using demo_bit by (auto simp: word_less_nat_alt)
  finally show ?thesis .
qed

lemma demo_free_card: "n \<le> 940 \<Longrightarrow> n \<le> card (freeb demo_S demo_view)"
proof -
  assume n: "n \<le> 940"
  have "freeb demo_S demo_view = (of_nat :: nat \<Rightarrow> uint) ` {60..<1000}"
  proof (rule set_eqI)
    fix b :: uint
    have "b = of_nat (unat b)" by simp
    then show "b \<in> freeb demo_S demo_view \<longleftrightarrow> b \<in> (of_nat :: nat \<Rightarrow> uint) ` {60..<1000}"
      unfolding demo_freeb using image_eqI [of b "of_nat :: nat \<Rightarrow> uint" "unat b" "{60..<1000}"] by (auto simp: unat_of_nat_uint)
  qed
  moreover have "inj_on (of_nat :: nat \<Rightarrow> uint) {60..<1000}"
    by (rule inj_on_inverseI [of _ unat]) (simp add: unat_of_nat_uint)
  ultimately show ?thesis using n by (simp add: card_image)
qed

lemma demo_bitmap_ok: "bitmap_ok demo_S (fctx (demo_fsys I)) demo_view"
proof -
  have "demo_view 58 = demo_bitmap" by (simp add: demo_view_block demo_image_block demo_base_def)
  then have "length (demo_view 58) = 512" by (simp add: demo_bitmap_def)
  moreover have "sb_bmapstart demo_S = 58" by (simp add: demo_S_def)
  ultimately show ?thesis
    by (auto simp: bitmap_ok_def demo_freeb meta_def demo_fs(3) dest: demo_iblocks)
qed

section \<open>Inodes and the root directory\<close>

lemma zero_dino_type:
  assumes "v (IBLOCK i S) = zero_block"
  shows "di_type (dino S v i) = 0"
proof -
  have "KBytes.slice (inode_off i) 64 (replicate 512 (0 :: uchar)) = replicate 64 0"
    using inode_off_le [of i] by (rule slice_replicate)
  then show ?thesis
    using assms by (simp add: dino_def dinode_of_def zero_block_def slice_replicate le_ushort_def)
qed

lemma demo_dino:
  assumes "i < 200"
  shows "dino demo_S demo_view 1 = demo_root" "dino demo_S demo_view 2 = demo_file"
    "i \<noteq> 1 \<Longrightarrow> i \<noteq> 2 \<Longrightarrow> di_type (dino demo_S demo_view i) = 0"
proof -
  have v: "dino demo_S demo_view j = (if j = 2 then demo_file else if j = 1 then demo_root else dino demo_S demo_base j)"
    if "j < 200" for j
  proof -
    have "IBLOCK j demo_S \<in> iblocks demo_S" using that by (auto simp: iblocks_def demo_S_def)
    then have "IBLOCK j demo_S \<noteq> 2" using demo_iblocks by fastforce
    then have "dino demo_S demo_view j = dino demo_S demo_image j" by (simp add: dino_def demo_view_block)
    then show ?thesis
      by (simp add: demo_image_def dino_put put_dino_length demo_base_length)
  qed
  show "dino demo_S demo_view 1 = demo_root" "dino demo_S demo_view 2 = demo_file" using v [of 1] v [of 2] by simp_all
  show "di_type (dino demo_S demo_view i) = 0" if "i \<noteq> 1" "i \<noteq> 2"
  proof -
    have "IBLOCK i demo_S \<in> iblocks demo_S" using assms by (auto simp: iblocks_def demo_S_def)
    then have "demo_base (IBLOCK i demo_S) = zero_block" using demo_iblocks [of "IBLOCK i demo_S"] by (auto simp: demo_base_def)
    then show ?thesis using v [OF assms] that by (simp add: zero_dino_type)
  qed
qed

abbreviation root_addrs :: "uint list" where
  "root_addrs \<equiv> 59 # replicate 12 0"

lemma root_faddr: "faddr v root_addrs k = (if k = 0 then 59 else 0)"
  by (auto simp: faddr_def nth_Cons')

lemma root_wf: "wf_file demo_S (fctx (demo_fsys I)) demo_view root_addrs"
proof -
  have "usable demo_S (fctx (demo_fsys I)) demo_view 59"
    by (auto simp: usable_def demo_freeb meta_def demo_fs(3) dest: demo_iblocks) (simp_all add: demo_S_def)
  then show ?thesis by (simp add: wf_file_def root_faddr)
qed

lemma root_bytes: "i < 512 \<Longrightarrow> fbyte demo_view root_addrs i = demo_dir ! i"
  by (simp add: fbyte_def root_faddr demo_view_block demo_image_block demo_base_def)

lemma root_dent:
  "dent demo_view root_addrs 0 = \<lparr>de_inum = 1, de_name = strncpy_l (str ''.'') DIRSIZ\<rparr>"
  "dent demo_view root_addrs 1 = \<lparr>de_inum = 1, de_name = strncpy_l (str ''..'') DIRSIZ\<rparr>"
  "dent demo_view root_addrs 2 = \<lparr>de_inum = 2, de_name = strncpy_l (str ''a'') DIRSIZ\<rparr>"
proof -
  have s: "map (fbyte demo_view root_addrs) [16 * k..<16 * k + 16] = KBytes.slice (16 * k) 16 demo_dir" if "k < 3" for k
    using that by (auto simp: list_eq_iff_nth_eq nth_slice root_bytes demo_dir_def)
  have len: "length demo_dir = 512" by (simp add: demo_dir_def)
  have r: "dirent_of (demo_entry i name) = \<lparr>de_inum = i, de_name = strncpy_l (str name) DIRSIZ\<rparr>" for i name
    unfolding demo_entry_def by (rule dirent_roundtrip) (simp add: DIRSIZ_def)
  have e: "KBytes.slice 0 16 demo_dir = demo_entry 1 ''.''" "KBytes.slice 16 16 demo_dir = demo_entry 1 ''..''"
    "KBytes.slice 32 16 demo_dir = demo_entry 2 ''a''"
    by (simp_all add: demo_dir_def slice_append_left slice_append_right slice_full)
  show "dent demo_view root_addrs 0 = \<lparr>de_inum = 1, de_name = strncpy_l (str ''.'') DIRSIZ\<rparr>"
    "dent demo_view root_addrs 1 = \<lparr>de_inum = 1, de_name = strncpy_l (str ''..'') DIRSIZ\<rparr>"
    "dent demo_view root_addrs 2 = \<lparr>de_inum = 2, de_name = strncpy_l (str ''a'') DIRSIZ\<rparr>"
    using s [of 0] s [of 1] s [of 2] e r by (simp_all add: dent_def)
qed

lemma demo_tree: "tree_ok demo_S (fctx (demo_fsys I)) demo_view"
proof -
  have "dnode_ok demo_S (fctx (demo_fsys I)) demo_view 1"
  proof -
    have three: "(\<forall>k < 3. P k) \<longleftrightarrow> P 0 \<and> P 1 \<and> P 2" for P :: "nat \<Rightarrow> bool"
      by (auto simp: less_Suc_eq eval_nat_numeral)
    have "\<forall>k < 3. ucast (de_inum (dent demo_view root_addrs k)) < (200 :: uint) \<and>
        di_type (dino demo_S demo_view (ucast (de_inum (dent demo_view root_addrs k)))) \<noteq> 0 \<and>
        di_nlink (dino demo_S demo_view (ucast (de_inum (dent demo_view root_addrs k)))) \<noteq> 0"
      unfolding three using root_dent demo_dino(1,2) [of 0] by (simp add: demo_root_def demo_file_def T_DIR_def T_FILE_def)
    moreover have "k = 0" if "512 * k < 48" for k :: nat using that by simp
    moreover have "sb_ninodes demo_S = 200" by (simp add: demo_S_def)
    ultimately show ?thesis
      using root_wf [of I] demo_dino(1) [of 0] by (simp add: dnode_ok_def Let_def demo_root_def root_faddr)
  qed
  moreover have "di_type (dino demo_S demo_view i) = T_DIR \<Longrightarrow> i < 200 \<Longrightarrow> i = 1" for i
    using demo_dino [of i] by (cases "i = 1"; cases "i = 2") (auto simp: demo_file_def T_DIR_def T_FILE_def)
  moreover have "sb_ninodes demo_S = 200" by (simp add: demo_S_def)
  ultimately show ?thesis
    using demo_geo [of I] demo_bitmap_ok [of I] demo_dino(1) [of 0]
    by (auto simp: tree_ok_def ROOTINO_def demo_root_def T_DIR_def)
qed

end
