(* ===== verification/Fsthms.thy ===== *)
theory Fsthms
  imports Fsdemo
begin

text \<open>
  The theorems on files: what is written is read back and nothing else changes, names are found, blocks return to the
  free list, and a chunk of a write fits into a transaction. The content of the disk that they speak about is the content that
  the kernel sees, with the blocks in the buffer cache on top.
\<close>

section \<open>Files on other disks\<close>

text \<open>A file is the same on two disks that agree on its blocks.\<close>

lemma file_same:
  assumes A: "wf_file S c v A" and eq: "\<And>b. b \<in> owned v A \<Longrightarrow> v' b = v b"
  shows "k < 140 \<Longrightarrow> faddr v' A k = faddr v A k" "i < 71680 \<Longrightarrow> fbyte v' A i = fbyte v A i"
    "m \<le> 71680 \<Longrightarrow> fdata v' A m = fdata v A m" "freeb S v' \<subseteq> freeb S v \<Longrightarrow> wf_file S c v' A"
proof -
  have 12: "A ! 12 \<noteq> 0 \<Longrightarrow> v' (A ! 12) = v (A ! 12)" using eq by (simp add: owned_def)
  show f: "faddr v' A k = faddr v A k" if "k < 140" for k using 12 by (simp add: faddr_def)
  show b: "fbyte v' A i = fbyte v A i" if "i < 71680" for i
  proof -
    have k: "i div 512 < 140" using that by linarith
    then have "faddr v A (i div 512) \<noteq> 0 \<Longrightarrow> faddr v A (i div 512) \<in> owned v A" by (auto simp: owned_def)
    then show ?thesis using f [OF k] eq by (simp add: fbyte_def)
  qed
  show "fdata v' A m = fdata v A m" if "m \<le> 71680" for m using b that by (simp add: fdata_def)
  show "wf_file S c v' A" if "freeb S v' \<subseteq> freeb S v"
  proof -
    have "usable S c v x \<Longrightarrow> usable S c v' x" for x using that by (auto simp: usable_def)
    then show ?thesis using A f unfolding wf_file_def by (metis (no_types, lifting))
  qed
qed

lemma owned_usable:
  assumes "wf_file S c v A" "b \<in> owned v A"
  shows "usable S c v b"
  using assms wf_fileD(2,3) [OF assms(1)] by (auto simp: owned_def)

text \<open>Writing an inode to the disk leaves files and the bitmap alone.\<close>

lemma put_dino_other: "i < sb_ninodes S \<Longrightarrow> n \<notin> iblocks S \<Longrightarrow> put_dino S i d v n = v n"
  using iblock [of i S] by (auto simp: put_dino_def)

lemma put_dino_file:
  assumes g: "geo S c" and i: "i < sb_ninodes S" and A: "wf_file S c v A"
  shows "freeb S (put_dino S i d v) = freeb S v" "bitmap_ok S c v \<Longrightarrow> bitmap_ok S c (put_dino S i d v)"
    "b \<in> owned v A \<Longrightarrow> put_dino S i d v b = v b"
proof -
  have bm: "put_dino S i d v (sb_bmapstart S) = v (sb_bmapstart S)"
    using put_dino_other [OF i] geoD(4) [OF g] by blast
  then show "freeb S (put_dino S i d v) = freeb S v" by (simp add: freeb_def)
  then show "bitmap_ok S c v \<Longrightarrow> bitmap_ok S c (put_dino S i d v)" using bm by (simp add: bitmap_ok_def)
  show "b \<in> owned v A \<Longrightarrow> put_dino S i d v b = v b"
    using owned_usable [OF A] usableD(5) [OF _ g] put_dino_other [OF i] by blast
qed

section \<open>Writing and reading\<close>

text \<open>The bytes of an open file.\<close>

definition file_bytes :: "'z kfs_scheme \<Rightarrow> nat \<Rightarrow> uchar list" where
  "file_bytes s ip = fdata (view s) (i_addrs (icache s ip)) (unat (i_size (icache s ip)))"

lemma file_bytes_eq: "fs S c v L H I s \<Longrightarrow> file_bytes s ip = fdata v (i_addrs (I ip)) (unat (i_size (I ip)))"
  by (simp add: file_bytes_def view_eq fs_ic)

text \<open>A file after a write can be read again, and its content is the old one with the range replaced.\<close>

lemma written_file:
  assumes o: "open_file S c v L H I ip s" and w: "written S c v (i_addrs (I ip)) (unat off) xs v' A'"
    and fs': "fs S c (saved S (I ip) A' e v') L' H (I(ip := grown A' e (I ip))) t"
    and e: "unat e = unat off + length xs" "unat e \<le> 71680" and off: "unat off \<le> unat (i_size (I ip))"
    and reg: "i_type (I ip) \<noteq> T_DEV" "unat (i_size (I ip)) \<le> 71680" and nh: "no_holes v (I ip)"
  defines "v'' \<equiv> saved S (I ip) A' e v'" and "i \<equiv> grown A' e (I ip)"
  shows "reg_file S c v'' L' H (I(ip := i)) ip t" "no_holes v'' i"
    "fdata v'' A' (unat (i_size i)) = take (unat off) (fdata v (i_addrs (I ip)) (unat (i_size (I ip)))) @ xs @
       drop (unat e) (fdata v (i_addrs (I ip)) (unat (i_size (I ip))))"
    "wf_file S c v B \<Longrightarrow> owned v B \<inter> owned v (i_addrs (I ip)) = {} \<Longrightarrow> m \<le> 71680 \<Longrightarrow> fdata v'' B m = fdata v B m"
proof -
  let ?A = "i_addrs (I ip)" and ?n = "unat (i_size (I ip))"
  note d = open_fileD [OF o] and w' = writtenD [OF w]
  have v'': "v'' = v' \<or> (\<exists>di. v'' = put_dino S (i_inum (I ip)) di v')" by (auto simp: v''_def saved_def)
  have own: "b \<in> owned v' A' \<Longrightarrow> v'' b = v' b" for b using v'' put_dino_file(3) [OF d(2,5) w'(1)] by auto
  have fr: "freeb S v'' = freeb S v'" and bm: "bitmap_ok S c v''"
    using v'' put_dino_file(1,2) [OF d(2,5) w'(1)] w'(2) by auto
  have wf: "wf_file S c v'' A'" by (rule file_same(4) [OF w'(1) own equalityD1 [OF fr]])
  have sz: "unat (i_size i) = max ?n (unat e)" by (simp add: i_def max_def word_le_nat_alt)
  show "reg_file S c v'' L' H (I(ip := i)) ip t"
    using fs' wf bm d reg e(2) sz unfolding reg_file_def open_file_def v''_def i_def by simp
  show "no_holes v'' i"
    unfolding no_holes_def
  proof (intro allI impI)
    fix k assume k: "512 * k < unat (i_size i)"
    then have k140: "k < 140" using sz reg(2) e(2) by simp
    have "faddr v' A' k \<noteq> 0"
    proof (cases "512 * k < ?n")
      case True
      then have "faddr v ?A k \<noteq> 0" using nh by (simp add: no_holes_def)
      then show ?thesis using w'(5) [OF k140] by simp
    next
      case False
      then have "512 * k \<in> {unat off..<unat off + length xs}" using k sz e(1) off by auto
      then have "k \<in> touched (unat off) (length xs)" unfolding touched_def by (auto intro: image_eqI [of _ _ "512 * k"])
      then show ?thesis by (rule w'(7))
    qed
    then show "faddr v'' (i_addrs i) k \<noteq> 0" using file_same(1) [OF w'(1) own k140] by (simp add: i_def)
  qed
  have byte: "fbyte v'' A' j = (if unat off \<le> j \<and> j < unat e then xs ! (j - unat off) else fbyte v ?A j)" if "j < 71680" for j
    using file_same(2) [OF w'(1) own that] w'(4) [OF that] e(1) by simp
  show "fdata v'' A' (unat (i_size i)) = take (unat off) (fdata v ?A ?n) @ xs @ drop (unat e) (fdata v ?A ?n)"
  proof (rule nth_equalityI)
    show "length (fdata v'' A' (unat (i_size i))) = length (take (unat off) (fdata v ?A ?n) @ xs @ drop (unat e) (fdata v ?A ?n))"
      using sz e(1) off by simp
    fix j assume "j < length (fdata v'' A' (unat (i_size i)))"
    then have j: "j < max ?n (unat e)" "j < 71680" using sz reg(2) e(2) by auto
    then show "fdata v'' A' (unat (i_size i)) ! j = (take (unat off) (fdata v ?A ?n) @ xs @ drop (unat e) (fdata v ?A ?n)) ! j"
      using byte [OF j(2)] sz e(1) off by (auto simp: fdata_def nth_append)
  qed
  show "fdata v'' B m = fdata v B m" if B: "wf_file S c v B" "owned v B \<inter> owned v ?A = {}" "m \<le> 71680"
  proof (rule file_same(3) [OF B(1) _ B(3)])
    fix b assume b: "b \<in> owned v B"
    note u = usableD [OF owned_usable [OF B(1) b] d(2)]
    have nb: "b \<notin> owned v ?A" using b B(2) by blast
    then have "b \<noteq> ?A ! 12" "\<And>k. k < 140 \<Longrightarrow> b \<noteq> faddr v ?A k" using u(4) by (auto simp: owned_def)
    then have "v' b = v b" by (intro w'(10) u)
    moreover have "v'' b = v' b" using v'' put_dino_other [OF d(5) u(5)] by auto
    ultimately show "v'' b = v b" by simp
  qed
qed

text \<open>The blocks that a write of \<open>n\<close> bytes puts into the log.\<close>

lemma chunk_card:
  "card (insert x (wrset S v A p n)) \<le> n div 512 + 5" "card (insert x (wrset S v A p n) - X) \<le> n div 512 + 5"
proof -
  show c: "card (insert x (wrset S v A p n)) \<le> n div 512 + 5"
    using card_wrset [of S v A p n] by (simp add: card_insert_if finite_wrset)
  have "card (insert x (wrset S v A p n) - X) \<le> card (insert x (wrset S v A p n))"
    by (rule card_mono) (auto simp: finite_wrset)
  then show "card (insert x (wrset S v A p n) - X) \<le> n div 512 + 5" using c by simp
qed

text \<open>
  C7: what \<open>writei\<close> writes, \<open>readi\<close> reads. On a file without holes, and with room on the disk and in the
  transaction, a write returns the number of bytes; the content of the file is the old one with the range replaced,
  and longer if the range goes beyond its end; reading the range gives the bytes back; and every file that has no block in common
  with this one is unchanged.
\<close>

theorem write_then_read:
  assumes "reg_file S c v L H I ip s" "no_holes v (I ip)" "1 \<le> sint (i_nlink (I ip))"
    and "unat off \<le> unat (i_size (I ip))" "unat off + length xs \<le> 71680"
    and "fsblk.budget L H c (15 + 3 * (length xs div 512))" "2 * (length xs div 512 + 3) \<le> card (freeb S v)"
  shows "\<exists>t u. writei devsw ip xs off (of_nat (length xs)) s = Inr (int (length xs), t) \<and>
    file_bytes t ip = take (unat off) (file_bytes s ip) @ xs @ drop (unat off + length xs) (file_bytes s ip) \<and>
    readi devsw ip off (of_nat (length xs)) t = Inr ((int (length xs), xs), u) \<and>
    (\<forall>B m. wf_file S c v B \<longrightarrow> owned v B \<inter> owned v (i_addrs (I ip)) = {} \<longrightarrow> m \<le> 71680 \<longrightarrow>
      fdata (view t) B m = fdata (view s) B m)"
proof -
  have o: "open_file S c v L H I ip s" "i_type (I ip) \<noteq> T_DEV" "unat (i_size (I ip)) \<le> 71680"
    using assms(1) by (simp_all add: reg_file_def)
  let ?n = "of_nat (length xs) :: uint" let ?e = "off + ?n"
  have n: "unat ?n = length xs" using assms(5) by (simp add: unat_of_nat_uint)
  have e: "unat ?e = unat off + length xs" "unat ?e \<le> 71680" using assms(5) n by (simp_all add: unat_add_uint)
  have "wpK (writei devsw ip xs off ?n) (\<lambda>r t. \<exists>v' A' L'. r = int (length xs) \<and> written S c v (i_addrs (I ip)) (unat off) xs v' A' \<and>
      fs S c (saved S (I ip) A' ?e v') L' H (I(ip := grown A' ?e (I ip))) t \<and>
      grows (wrset S v' A' (unat off) (length xs) \<union> {IBLOCK (i_inum (I ip)) S}) L L') s"
    by (rule writei_wp [OF assms(1,4)]) (use assms n in auto)
  then obtain t v' A' L' where t: "writei devsw ip xs off ?n s = Inr (int (length xs), t)"
    and w: "written S c v (i_addrs (I ip)) (unat off) xs v' A'"
    and fs': "fs S c (saved S (I ip) A' ?e v') L' H (I(ip := grown A' ?e (I ip))) t"
    and g: "grows (wrset S v' A' (unat off) (length xs) \<union> {IBLOCK (i_inum (I ip)) S}) L L'"
    by (auto simp: wpK_iff)
  note r = written_file [OF o(1) w fs' e assms(4) o(2,3) assms(2)]
  have fb: "file_bytes t ip = take (unat off) (file_bytes s ip) @ xs @ drop (unat off + length xs) (file_bytes s ip)"
    using r(3) e(1) by (simp add: file_bytes_eq [OF fs'] file_bytes_eq [OF open_fileD(1) [OF o(1)]])
  have bud: "fsblk.budget L' H c 6"
    by (rule budget_grows [OF assms(6) g]) (use chunk_card(2) [of "IBLOCK (i_inum (I ip)) S" S v' A' "unat off" "length xs" "set L"] in \<open>auto simp: finite_wrset\<close>)
  let ?J = "I(ip := grown A' ?e (I ip))"
  have sz: "unat (i_size (?J ip)) = max (unat (i_size (I ip))) (unat ?e)" by (simp add: max_def word_le_nat_alt)
  have sl: "KBytes.slice (unat off) (length xs) (file_bytes t ip) = xs"
    using assms(4) file_bytes_eq [OF open_fileD(1) [OF o(1)], of ip] unfolding fb by (simp add: KBytes.slice_def)
  have "wpK (readi devsw ip off ?n) (\<lambda>q u. q = (int (length xs), xs)) t"
  proof (rule readi_wp [OF r(1)])
    show "no_holes (saved S (I ip) A' ?e v') (?J ip)" using r(2) by simp
    show "unat off \<le> unat (i_size (?J ip))" using assms(4) sz by simp
    show "unat off + unat ?n < 2 ^ 32" using assms(5) n by simp
    have m: "min (unat ?n) (unat (i_size (?J ip)) - unat off) = length xs" using sz n e(1) by simp
    show "(int (min (unat ?n) (unat (i_size (?J ip)) - unat off)), KBytes.slice (unat off) (min (unat ?n) (unat (i_size (?J ip)) - unat off))
        (fdata (saved S (I ip) A' ?e v') (i_addrs (?J ip)) (unat (i_size (?J ip))))) = (int (length xs), xs)"
      unfolding m using sl file_bytes_eq [OF fs', of ip] by simp
  qed (use assms(3) bud in auto)
  then obtain u where "readi devsw ip off ?n t = Inr ((int (length xs), xs), u)" by (auto simp: wpK_iff)
  then show ?thesis using t fb r(4) by (auto simp: view_eq [OF fs'] view_eq [OF open_fileD(1) [OF o(1)]])
qed

text \<open>An empty file in slot 0 of the inode cache.\<close>

definition demo_icache :: "nat \<Rightarrow> inode" where
  "demo_icache = (\<lambda>_. nil_inode)(0 := \<lparr>i_dev = ROOTDEV, i_inum = 2, i_ref = 1, i_valid = 1, i_type = T_FILE, i_major = 0,
     i_minor = 0, i_nlink = 1, i_size = 0, i_addrs = replicate 13 0\<rparr>)"

lemma empty_file: "faddr v (replicate 13 0) k = 0" if "k < 140"
  using that by (simp add: faddr_def)

lemma demo_reg: "reg_file demo_S (fctx (demo_fsys demo_icache)) demo_view [] (\<lambda>_. 0) demo_icache 0 (demo_fsys demo_icache)"
proof -
  have "wf_file demo_S (fctx (demo_fsys demo_icache)) demo_view (replicate 13 0)"
    by (simp add: wf_file_def empty_file)
  then show ?thesis
    using demo_fs(1) demo_geo demo_bitmap_ok
    by (simp add: reg_file_def open_file_def demo_icache_def demo_S_def T_FILE_def T_DEV_def)
qed

definition demo_devsw :: "kproc devsw" where
  "demo_devsw = \<lparr>dev_read = (\<lambda>_. None), dev_write = (\<lambda>_. None)\<rparr>"

theorem write_then_read_witness:
  "\<exists>t u. writei demo_devsw 0 (str ''hello'') 0 5 (demo_fsys demo_icache) = Inr (5, t) \<and>
    readi demo_devsw 0 0 5 t = Inr ((5, str ''hello''), u)"
proof -
  have len: "length (str ''hello'') = 5" by (simp add: str_def)
  have "no_holes demo_view (demo_icache 0)" "1 \<le> sint (i_nlink (demo_icache 0))"
    by (simp_all add: no_holes_def demo_icache_def)
  with write_then_read [OF demo_reg, of 0 "str ''hello''" demo_devsw] demo_budget [of 15 demo_icache] demo_free_card [of 6]
  show ?thesis by (auto simp: len)
qed

section \<open>Transactions\<close>

lemma fs_log: "fs S c v L H I s \<Longrightarrow> lh_n (lg s) = int (length L)"
  by (simp add: fs_def lblk_def log_rep_def)

text \<open>
  C11: the chunks into which \<open>filewrite\<close> cuts a write fit into a transaction. A \<open>writei\<close> of at most
  \<open>max_write\<close> bytes, as the only operation of its transaction, puts at most 8 blocks into the log: three data blocks for the range
  and one more when it is not aligned, the indirect block, the bitmap and the inode, and so it stays below \<^verbatim>\<open>MAXOPBLOCKS\<close>.
\<close>

theorem write_chunk_fits:
  assumes "reg_file S c v [] H I ip s" "unat off \<le> unat (i_size (I ip))" "unat off + length xs \<le> 71680"
    and "int (length xs) \<le> max_write" "fsblk.budget [] H c 24" "12 \<le> card (freeb S v)"
  shows "\<exists>t. writei devsw ip xs off (of_nat (length xs)) s = Inr (int (length xs), t) \<and> lh_n (lg t) \<le> 8 \<and> lh_n (lg t) < int MAXOPBLOCKS"
proof -
  let ?n = "of_nat (length xs) :: uint" let ?e = "off + ?n"
  have n: "unat ?n = length xs" using assms(3) by (simp add: unat_of_nat_uint)
  have le: "length xs div 512 \<le> 3" using assms(4) by (simp add: max_write_def MAXOPBLOCKS_def)
  have "wpK (writei devsw ip xs off ?n) (\<lambda>r t. r = int (length xs) \<and> lh_n (lg t) \<le> 8) s"
  proof (rule writei_wp [OF assms(1,2)])
    show "fsblk.budget [] H c (15 + 3 * (unat ?n div 512))" by (rule fsblk.budget_mono [OF assms(5)]) (use n le in simp)
    fix v' A' L' t
    assume t: "fs S c (saved S (I ip) A' ?e v') L' H (I(ip := grown A' ?e (I ip))) t"
      and g: "grows (wrset S v' A' (unat off) (unat ?n) \<union> {IBLOCK (i_inum (I ip)) S}) [] L'"
    then have d: "distinct L'" "set L' \<subseteq> insert (IBLOCK (i_inum (I ip)) S) (wrset S v' A' (unat off) (unat ?n))"
      by (auto simp: grows_def)
    have "length L' = card (set L')" using d(1) by (simp add: distinct_card)
    also have "\<dots> \<le> length xs div 512 + 5"
      using card_mono [OF _ d(2)] chunk_card(1) [of "IBLOCK (i_inum (I ip)) S" S v' A' "unat off" "unat ?n"] n
      by (simp add: finite_wrset)
    finally show "int (unat ?n) = int (length xs) \<and> lh_n (lg t) \<le> 8" using fs_log [OF t] le n by simp
  qed (use assms(3,6) n le in auto)
  then show ?thesis by (auto simp: wpK_iff MAXOPBLOCKS_def)
qed

theorem write_chunk_fits_witness:
  "\<exists>t. writei demo_devsw 0 (replicate 1536 7) 0 1536 (demo_fsys demo_icache) = Inr (1536, t) \<and> lh_n (lg t) \<le> 8"
  using write_chunk_fits [OF demo_reg, of 0 "replicate 1536 7" demo_devsw] demo_budget [of 24 demo_icache] demo_free_card [of 12]
  by (auto simp: max_write_def MAXOPBLOCKS_def)

text \<open>
  C10: dropping the last reference to an inode without links gives back what the file occupies, and nothing else. Exactly its
  blocks become free, including the indirect block, the inode on the disk is free, the slot in the cache is empty. Every
  other inode on the disk, every block but the bitmap and the block of this inode, the content of every other file and all other slots of the
  cache are unchanged.
\<close>

theorem unlinked_file_freed:
  assumes "open_file S c v L H I ip s" "i_valid (I ip) \<noteq> 0" "i_nlink (I ip) = 0" "i_ref (I ip) = 1" "fsblk.budget L H c 6"
  shows "\<exists>t. iput ip s = Inr ((), t) \<and> freeb S (view t) = freeb S (view s) \<union> owned (view s) (i_addrs (I ip)) \<and>
    di_type (dino S (view t) (i_inum (I ip))) = 0 \<and> i_ref (icache t ip) = 0 \<and>
    (\<forall>j. j < sb_ninodes S \<longrightarrow> j \<noteq> i_inum (I ip) \<longrightarrow> dino S (view t) j = dino S (view s) j) \<and>
    (\<forall>n. n \<noteq> sb_bmapstart S \<longrightarrow> n \<noteq> IBLOCK (i_inum (I ip)) S \<longrightarrow> view t n = view s n) \<and>
    (\<forall>jp. jp \<noteq> ip \<longrightarrow> icache t jp = icache s jp) \<and>
    (\<forall>B m. wf_file S c v B \<longrightarrow> m \<le> 71680 \<longrightarrow> fdata (view t) B m = fdata (view s) B m)"
proof -
  note d = open_fileD [OF assms(1)]
  let ?di = "to_dinode (dropped (I ip))"
  have "wpK (iput ip) (\<lambda>_ t. \<exists>v' L'. freed S c v (owned v (i_addrs (I ip))) v' \<and>
      fs S c (put_dino S (i_inum (I ip)) ?di v') L' H (I(ip := dropped (I ip))) t) s"
    by (rule iput_last_wp [OF assms]) blast
  then obtain t v' L' where t: "iput ip s = Inr ((), t)" and f: "freed S c v (owned v (i_addrs (I ip))) v'"
    and fs': "fs S c (put_dino S (i_inum (I ip)) ?di v') L' H (I(ip := dropped (I ip))) t"
    by (auto simp: wpK_iff)
  have v': "n \<noteq> sb_bmapstart S \<Longrightarrow> v' n = v n" for n using f by (simp add: freed_def)
  note ib = iblock [OF d(5)]
  have bm: "put_dino S (i_inum (I ip)) ?di v' (sb_bmapstart S) = v' (sb_bmapstart S)"
    by (rule put_dino_other [OF d(5) geoD(4) [OF d(2)]])
  have free: "freeb S (view t) = freeb S (view s) \<union> owned (view s) (i_addrs (I ip))"
    using f bm by (simp add: view_eq [OF fs'] view_eq [OF d(1)] freed_def freeb_def)
  have "length (v' (IBLOCK (i_inum (I ip)) S)) = 512"
    using kf.length_law [OF d(1) geoD(5) [OF d(2) ib]] v' ib geoD(4) [OF d(2)] by metis
  moreover have "length (di_addrs ?di) = 13" by (simp add: to_dinode_def dropped_def emptied_def)
  ultimately have di: "dino S (view t) j = (if j = i_inum (I ip) then ?di else dino S v' j)" for j
    by (simp add: view_eq [OF fs'] dino_put)
  then have ty: "di_type (dino S (view t) (i_inum (I ip))) = 0"
    by (simp add: to_dinode_def dropped_def)
  have other: "dino S (view t) j = dino S (view s) j" if "j < sb_ninodes S" "j \<noteq> i_inum (I ip)" for j
  proof -
    have "IBLOCK j S \<noteq> sb_bmapstart S" using iblock [OF that(1)] geoD(4) [OF d(2)] by metis
    then show ?thesis using that(2) v' by (simp add: di view_eq [OF d(1)]) (simp add: dino_def)
  qed
  have blocks: "view t n = view s n" if "n \<noteq> sb_bmapstart S" "n \<noteq> IBLOCK (i_inum (I ip)) S" for n
    using that v' by (simp add: view_eq [OF fs'] view_eq [OF d(1)] put_dino_def)
  have "fdata (view t) B m = fdata (view s) B m" if B: "wf_file S c v B" "m \<le> 71680" for B m
    unfolding view_eq [OF fs'] view_eq [OF d(1)]
  proof (rule file_same(3) [OF B(1) _ B(2)])
    fix b assume "b \<in> owned v B"
    note u = usableD [OF owned_usable [OF B(1) this] d(2)]
    show "put_dino S (i_inum (I ip)) ?di v' b = v b" using put_dino_other [OF d(5) u(5)] v' [OF u(3)] by simp
  qed
  then show ?thesis using t free ty other blocks
    by (intro exI [of _ t]) (auto simp: fs_ic [OF fs'] fs_ic [OF d(1)] dropped_def)
qed

text \<open>The root directory of the example, as an unlinked file.\<close>

definition demo_unlinked :: "nat \<Rightarrow> inode" where
  "demo_unlinked = (\<lambda>_. nil_inode)(0 := \<lparr>i_dev = ROOTDEV, i_inum = 1, i_ref = 1, i_valid = 1, i_type = T_DIR, i_major = 0,
     i_minor = 0, i_nlink = 0, i_size = 48, i_addrs = root_addrs\<rparr>)"

theorem unlinked_file_freed_witness:
  "\<exists>t. iput 0 (demo_fsys demo_unlinked) = Inr ((), t) \<and> 59 \<in> freeb demo_S (view t) \<and> di_type (dino demo_S (view t) 1) = 0"
proof -
  have "open_file demo_S (fctx (demo_fsys demo_unlinked)) demo_view [] (\<lambda>_. 0) demo_unlinked 0 (demo_fsys demo_unlinked)"
    using demo_fs(1) demo_geo demo_bitmap_ok root_wf by (simp add: open_file_def demo_unlinked_def demo_S_def)
  from unlinked_file_freed [OF this] demo_budget [of 6 demo_unlinked]
  show ?thesis by (auto simp: demo_unlinked_def owned_def root_faddr)
qed

section \<open>Names\<close>

text \<open>
  C9: on a consistent file system, \<open>namei\<close> returns for every path and every depth of directories. It finds the
  inode that the elements of the path lead to from the root, each cut to 14 bytes, or nothing when an element is missing or not
  a directory. It returns one new reference to that inode; the references to all other inodes, and the files, are as before.
\<close>

theorem namei_resolves:
  assumes "tree_ok S c v" "icoh S v I" "card (active I) + 2 \<le> 50" "fsblk.budget L H c 6" "fs S c v L H I s" "0 \<notin> set path"
  shows "\<exists>r t. namei devsw path s = Inr (r, t) \<and> view t = view s \<and>
    (case resolve S v ROOTINO (path_elems path) of
       None \<Rightarrow> r = None \<and> iref (icache t) = iref (icache s)
     | Some i \<Rightarrow> \<exists>ip. r = Some ip \<and> i_inum (icache t ip) = i \<and> 0 < i_ref (icache t ip) \<and>
         iref (icache t) = (iref (icache s))(i := iref (icache s) i + 1))"
proof -
  have "wpK (namei devsw path) (\<lambda>r t. \<exists>J. fs S c v L H J t \<and> found I J (resolve S v ROOTINO (path_elems path)) r) s"
    by (rule namei_wp [OF assms]) blast
  then obtain r t J where "namei devsw path s = Inr (r, t)" "fs S c v L H J t" "found I J (resolve S v ROOTINO (path_elems path)) r"
    by (auto simp: wpK_iff)
  then show ?thesis
    by (auto simp: view_eq [OF assms(5)] view_eq fs_ic [OF assms(5)] fs_ic found_def split: option.splits)
qed

lemma demo_resolve: "resolve demo_S demo_view ROOTINO (path_elems (str ''//a'')) = Some 2"
proof -
  have p: "path_elems (str ''//a'') = [str ''a'']"
    by (simp add: str_def path_elems.simps SLASH_def DIRSIZ_def)
  have m: "dmatch demo_view root_addrs (str ''a'') k \<longleftrightarrow> k = 2" if "k < 3" for k
  proof -
    have "k = 0 \<or> k = 1 \<or> k = 2" using that by linarith
    then show ?thesis
      using root_dent by (auto simp: dmatch_def namecmp_zero cname_strncpy_l) (simp_all add: cname_def str_def DIRSIZ_def)
  qed
  have "dir_find demo_view root_addrs 3 (str ''a'') = Some 2"
    using m by (simp add: dir_find_def eval_nat_numeral)
  then have "child demo_S demo_view 1 (str ''a'') = Some 2"
    using root_dent(3) demo_dino(1) [of 0] by (simp add: child_def demo_root_def dir_inum_def)
  then show ?thesis using demo_dino(1) [of 0] by (simp add: p ROOTINO_def demo_root_def)
qed

theorem namei_resolves_witness:
  "\<exists>ip t. namei demo_devsw (str ''//a'') (demo_fsys (\<lambda>_. nil_inode)) = Inr (Some ip, t) \<and> i_inum (icache t ip) = 2"
proof -
  have "icoh demo_S demo_view (\<lambda>_. nil_inode)" by (simp add: icoh_def nil_inode_def)
  moreover have "active (\<lambda>_. nil_inode) = {}" by (simp add: active_def iref_def islot_def nil_inode_def)
  moreover have "0 \<notin> set (str ''//a'')" by (simp add: str_def)
  ultimately show ?thesis
    using namei_resolves [OF demo_tree _ _ demo_budget demo_fs(1), of "\<lambda>_. nil_inode" "str ''//a''" demo_devsw]
    by (auto simp: demo_resolve)
qed

end
