(* ===== verification/Dirthms.thy ===== *)
theory Dirthms
  imports Fsthms
begin

text \<open>
  The theorems on directories and open files: entries that are linked are found, and the bound on the walk along a path is never
  reached.
\<close>

section \<open>Linking\<close>

lemma dent_same: "wf_file S c v A \<Longrightarrow> (\<And>b. b \<in> owned v A \<Longrightarrow> v' b = v b) \<Longrightarrow> k < 4480 \<Longrightarrow> dent v' A k = dent v A k"
  unfolding dent_def by (rule arg_cong [of _ _ dirent_of]) (auto intro!: file_same(2))

lemma iget_cache_free: "j < 50 \<Longrightarrow> i_ref (I j) = 0 \<Longrightarrow> iget_cache dev i I \<noteq> None"
proof -
  assume "j < 50" "i_ref (I j) = 0"
  then have "find (slot_free I) [0..<50] \<noteq> None" by (auto simp: find_None_iff slot_free_def)
  then show ?thesis by (auto simp: iget_cache_def iget_scan_find NINODE_def split: option.split)
qed

lemma iget_cache_inum: "iget_cache dev i I = Some (ip, J) \<Longrightarrow> i_inum (J ip) = i"
  by (auto simp: iget_cache_def iget_scan_find slot_hit_def find_Some_iff split: option.splits)

text \<open>The directory after \<open>dirlink\<close>: a searchable directory with one more entry.\<close>

lemma linked_dir:
  fixes inum :: uint and name :: "uchar list"
  defines "de \<equiv> \<lparr>de_inum = ucast inum, de_name = strncpy_l name DIRSIZ\<rparr>"
  assumes d: "dir_file S c v L H I dp s" and none: "dir_find v (i_addrs (I dp)) (dir_len (I dp)) name = None"
    and e: "e = dir_slot v (i_addrs (I dp)) (dir_len (I dp))" and fits: "16 * e + 16 \<le> 71680" and nz: "0 < inum" "inum < 0x10000"
    and w: "written S c v (i_addrs (I dp)) (16 * e) (dirent_bytes de) v' A'"
    and fs': "fs S c (saved S (I dp) A' (of_nat (16 * e) + 16) v') L' H (I(dp := grown A' (of_nat (16 * e) + 16) (I dp))) t"
  defines "v'' \<equiv> saved S (I dp) A' (of_nat (16 * e) + 16) v'" and "J \<equiv> I(dp := grown A' (of_nat (16 * e) + 16) (I dp))"
  shows "dir_file S c v'' L' H J dp t"
    "dir_inum v'' (i_addrs (J dp)) (dir_len (J dp)) x = (if cname DIRSIZ x = cname DIRSIZ name then Some inum
       else dir_inum v (i_addrs (I dp)) (dir_len (I dp)) x)"
proof -
  note f = dir_fileD [OF d] and o = open_fileD [OF dir_fileD(9) [OF d]]
  let ?n = "dir_len (I dp)" and ?off = "of_nat (16 * e) :: uint"
  have len: "length (dirent_bytes de) = 16" "length (de_name de) = 14" by (simp_all add: dirent_bytes_def de_def DIRSIZ_def)
  have en: "e \<le> ?n" using dir_slot_le e by simp
  have off: "unat ?off = 16 * e" using fits by (simp add: unat_of_nat_uint del: of_nat_mult)
  have e16: "unat (?off + 16) = 16 * e + 16" using off fits by (simp add: unat_add_uint del: of_nat_mult)
  have ty: "i_type (I dp) \<noteq> T_DEV" using f(2) by (simp add: T_DIR_def T_DEV_def)
  have "written S c v (i_addrs (I dp)) (unat ?off) (dirent_bytes de) v' A'" using w off by simp
  note r = written_file [OF f(9) this fs' _ _ _ ty f(8,3)]
  have pre: "unat (?off + 16) = unat ?off + length (dirent_bytes de)" "unat (?off + 16) \<le> 71680" "unat ?off \<le> unat (i_size (I dp))"
    using e16 off len(1) fits en f(4) by simp_all
  have sz: "unat (i_size (J dp)) = 16 * max ?n (Suc e)"
    using e16 f(4) by (auto simp: J_def max_def word_le_nat_alt)
  then have dl: "dir_len (J dp) = max ?n (Suc e)" by simp
  show "dir_file S c v'' L' H J dp t"
    using r(1,2) [OF pre] sz f(2,5) by (simp add: dir_file_def v''_def J_def)
  have wf': "wf_file S c v' A'" by (rule writtenD(1) [OF w])
  have own: "b \<in> owned v' A' \<Longrightarrow> v'' b = v' b" for b
    using put_dino_file(3) [OF o(2,5) wf'] by (auto simp: v''_def saved_def)
  have ent: "dent v'' A' k = (if k = e then de else dent v (i_addrs (I dp)) k)" if "k < 4480" for k
    using dent_same [OF wf' own that] written_entries [OF w len(2) that] by simp
  have cast: "ucast (ucast inum :: ushort) = inum"
  proof -
    have "unat inum < 65536" using nz(2) by (simp add: word_less_nat_alt)
    then show ?thesis by (simp add: word_unat_eq_iff unsigned_ucast_eq unsigned_take_bit_eq take_bit_nat_eq_self)
  qed
  have "ucast inum \<noteq> (0 :: ushort)" using cast nz(1) by auto
  then have "dir_inum v'' A' (max ?n (Suc e)) x = (if cname DIRSIZ x = cname DIRSIZ name then Some (ucast (de_inum de))
      else dir_inum v (i_addrs (I dp)) ?n x)"
    using f(10) fits none e by (intro dir_inum_link [OF ent]) (simp_all add: de_def cname_strncpy_l)
  then show "dir_inum v'' (i_addrs (J dp)) (dir_len (J dp)) x = (if cname DIRSIZ x = cname DIRSIZ name then Some inum
       else dir_inum v (i_addrs (I dp)) ?n x)"
    unfolding dl by (simp add: J_def de_def cast)
qed

text \<open>The inode number that a directory, open in the cache, has for a name.\<close>

definition entry_of :: "'z kfs_scheme \<Rightarrow> nat \<Rightarrow> uchar list \<Rightarrow> uint option" where
  "entry_of s dp name = dir_inum (view s) (i_addrs (icache s dp)) (dir_len (icache s dp)) name"

lemma entry_of_eq: "fs S c v L H I s \<Longrightarrow> entry_of s dp name = dir_inum v (i_addrs (I dp)) (dir_len (I dp)) name"
  by (simp add: entry_of_def view_eq fs_ic)

text \<open>
  C8: an entry that is linked is found. When a directory has no entry for a name, \<open>dirlink\<close> succeeds; from then
  on the directory has the inode number for this name, where names count up to 14 bytes, and for all other names what it had
  before. \<open>dirlookup\<close> then returns a reference to that inode.
\<close>

theorem dirlink_then_lookup:
  assumes "dir_file S c v L H I dp s" "entry_of s dp name = None" "0 < inum" "inum < 0x10000" "unat (i_size (I dp)) + 16 \<le> 71680"
    and "fsblk.budget L H c 15" "6 \<le> card (freeb S v)" "j < 50" "i_ref (I j) = 0" "j \<noteq> dp"
  shows "\<exists>t ip off u. dirlink devsw dp name inum s = Inr (0, t) \<and>
    (\<forall>x. entry_of t dp x = (if cname DIRSIZ x = cname DIRSIZ name then Some inum else entry_of s dp x)) \<and>
    dirlookup devsw dp name t = Inr (Some (ip, off), u) \<and> i_inum (icache u ip) = inum"
proof -
  note f = dir_fileD [OF assms(1)]
  let ?A = "i_addrs (I dp)" and ?n = "dir_len (I dp)"
  let ?e = "dir_slot v ?A ?n" let ?off = "of_nat (16 * ?e) + 16 :: uint"
  let ?de = "\<lparr>de_inum = ucast inum, de_name = strncpy_l name DIRSIZ\<rparr>"
  have none: "dir_find v ?A ?n name = None" using assms(2) by (simp add: entry_of_eq [OF f(6)] dir_inum_def)
  have "?e \<le> ?n" by (rule dir_slot_le)
  then have fits: "16 * ?e + 16 \<le> 71680" using assms(5) f(4) by linarith
  have "wpK (dirlink devsw dp name inum) (\<lambda>r t. \<exists>v' A' L'. r = 0 \<and> written S c v ?A (16 * ?e) (dirent_bytes ?de) v' A' \<and>
      fs S c (saved S (I dp) A' ?off v') L' H (I(dp := grown A' ?off (I dp))) t \<and>
      grows (wrset S v' A' (16 * ?e) 16 \<union> {IBLOCK (i_inum (I dp)) S}) L L') s"
    by (rule dirlink_wp [OF assms(1,6) none refl fits]) (use assms(7) in auto)
  then obtain t v' A' L' where t: "dirlink devsw dp name inum s = Inr (0, t)"
    and w: "written S c v ?A (16 * ?e) (dirent_bytes ?de) v' A'"
    and fs': "fs S c (saved S (I dp) A' ?off v') L' H (I(dp := grown A' ?off (I dp))) t"
    and g: "grows (wrset S v' A' (16 * ?e) 16 \<union> {IBLOCK (i_inum (I dp)) S}) L L'"
    by (auto simp: wpK_iff)
  note r = linked_dir [OF assms(1) none refl fits assms(3,4) w fs']
  have ent: "entry_of t dp x = (if cname DIRSIZ x = cname DIRSIZ name then Some inum else entry_of s dp x)" for x
    using r(2) by (simp add: entry_of_eq [OF fs'] entry_of_eq [OF f(6)])
  have bud: "fsblk.budget L' H c 6"
    by (rule budget_grows [OF assms(6) g]) (use chunk_card(2) [of "IBLOCK (i_inum (I dp)) S" S v' A' "16 * ?e" 16 "set L"] in \<open>auto simp: finite_wrset\<close>)
  let ?J = "I(dp := grown A' ?off (I dp))" let ?v = "saved S (I dp) A' ?off v'"
  have slot: "iget_cache ROOTDEV i ?J \<noteq> None" for i
    using iget_cache_free [of j ?J] assms(8-10) by simp
  have here: "dir_inum ?v (i_addrs (?J dp)) (dir_len (?J dp)) name = Some inum" using r(2) by simp
  have "wpK (dirlookup devsw dp name) (\<lambda>q u. \<exists>ip off. q = Some (ip, off) \<and> i_inum (icache u ip) = inum) t"
  proof (rule dirlookup_wp [OF r(1) bud])
    fix k ip K u
    assume k: "dir_find ?v (i_addrs (?J dp)) (dir_len (?J dp)) name = Some k"
      and K: "iget_cache ROOTDEV (ucast (de_inum (dent ?v (i_addrs (?J dp)) k))) ?J = Some (ip, K)" "fs S c ?v L' H K u"
    have "ucast (de_inum (dent ?v (i_addrs (?J dp)) k)) = inum" using here k by (simp add: dir_inum_def)
    then have "i_inum (icache u ip) = inum" using iget_cache_inum [OF K(1)] fs_ic [OF K(2)] by simp
    then show "\<exists>ip' off. Some (ip, of_nat (16 * k)) = Some (ip', off) \<and> i_inum (icache u ip') = inum" by blast
  qed (use here slot in \<open>auto simp: dir_inum_def\<close>)
  then obtain u ip off where "dirlookup devsw dp name t = Inr (Some (ip, off), u)" "i_inum (icache u ip) = inum"
    by (auto simp: wpK_iff)
  then show ?thesis using t ent by blast
qed

definition demo_rootcache :: "nat \<Rightarrow> inode" where
  "demo_rootcache = (\<lambda>_. nil_inode)(0 := \<lparr>i_dev = ROOTDEV, i_inum = 1, i_ref = 1, i_valid = 1, i_type = T_DIR, i_major = 0,
     i_minor = 0, i_nlink = 1, i_size = 48, i_addrs = root_addrs\<rparr>)"

lemma demo_rootdir: "dir_file demo_S (fctx (demo_fsys demo_rootcache)) demo_view [] (\<lambda>_. 0) demo_rootcache 0 (demo_fsys demo_rootcache)"
proof -
  have "open_file demo_S (fctx (demo_fsys demo_rootcache)) demo_view [] (\<lambda>_. 0) demo_rootcache 0 (demo_fsys demo_rootcache)"
    using demo_fs(1) demo_geo demo_bitmap_ok root_wf by (simp add: open_file_def demo_rootcache_def demo_S_def)
  moreover have "no_holes demo_view (demo_rootcache 0)" by (auto simp: no_holes_def demo_rootcache_def root_faddr)
  ultimately show ?thesis by (simp add: dir_file_def reg_file_def demo_rootcache_def T_DIR_def T_DEV_def)
qed

theorem dirlink_then_lookup_witness:
  "\<exists>t ip off u. dirlink demo_devsw 0 (str ''b'') 7 (demo_fsys demo_rootcache) = Inr (0, t) \<and>
    dirlookup demo_devsw 0 (str ''b'') t = Inr (Some (ip, off), u) \<and> i_inum (icache u ip) = 7"
proof -
  have m: "\<not> dmatch demo_view root_addrs (str ''b'') k" if "k < 3" for k
  proof -
    have "k = 0 \<or> k = 1 \<or> k = 2" using that by linarith
    then show ?thesis
      using root_dent by (auto simp: dmatch_def namecmp_zero cname_strncpy_l) (simp_all add: cname_def str_def DIRSIZ_def)
  qed
  then have "dir_find demo_view root_addrs 3 (str ''b'') = None" by (simp add: dir_find_def find_None_iff)
  then have "entry_of (demo_fsys demo_rootcache) 0 (str ''b'') = None"
    by (simp add: entry_of_eq [OF demo_fs(1)] dir_inum_def demo_rootcache_def)
  then show ?thesis
    using dirlink_then_lookup [OF demo_rootdir, of "str ''b''" 7 1 demo_devsw] demo_budget [of 15 demo_rootcache] demo_free_card [of 6]
    by (auto simp: demo_rootcache_def nil_inode_def)
qed

section \<open>Paths\<close>

lemma skipelem_shorter:
  assumes "skipelem p name = Some (p', nm)"
  shows "length p' < length p"
proof -
  let ?q = "dropWhile (\<lambda>c. c = SLASH) p" let ?r = "dropWhile (\<lambda>c. c \<noteq> SLASH) ?q"
  have q: "?q \<noteq> []" and p': "p' = dropWhile (\<lambda>c. c = SLASH) ?r"
    using assms by (auto simp: skipelem_def Let_def split: if_splits)
  have "hd ?q \<noteq> SLASH" using q hd_dropWhile [of "\<lambda>c. c = SLASH" p] by simp
  then have "length ?r < length ?q" using q by (cases ?q) (simp_all add: less_Suc_eq_le length_dropWhile_le)
  moreover have "length p' \<le> length ?r" unfolding p' by (rule length_dropWhile_le)
  moreover have "length ?q \<le> length p" by (rule length_dropWhile_le)
  ultimately show ?thesis by simp
qed

lemma namex_loop_fuel:
  "length path < fuel \<Longrightarrow> length path < fuel' \<Longrightarrow> namex_loop fuel devsw path parent name ip = namex_loop fuel' devsw path parent name ip"
proof (induction fuel arbitrary: fuel' path name ip)
  case (Suc fuel)
  then obtain g where g: "fuel' = Suc g" by (cases fuel') auto
  show ?case
  proof (cases "skipelem path name")
    case (Some r)
    obtain p' nm where r: "r = (p', nm)" by (cases r)
    then have "length p' < length path" using skipelem_shorter Some by simp
    then have eq: "namex_loop fuel devsw p' parent nm nxt = namex_loop g devsw p' parent nm nxt" for nxt
      using Suc.prems g by (intro Suc.IH) simp_all
    show ?thesis unfolding g namex_loop.simps Some r option.case prod.case eq ..
  qed (simp add: g)
qed simp

text \<open>
  Every iteration of the walk along a path takes an element off the path. One iteration more than the path has bytes is therefore enough
  for the loop, on every state and also on a damaged disk: a larger bound never changes the outcome.
\<close>

lemma namex_loop_enough:
  "namex_loop (length path + 1 + k) devsw path parent name ip s = namex_loop (length path + 1) devsw path parent name ip s"
  using namex_loop_fuel [of path "length path + 1 + k" "length path + 1" devsw parent name ip] by simp

end
