(* ===== verification/Mkfs.thy ===== *)
theory Mkfs
  imports Dirthms
begin

text \<open>
  \<^verbatim>\<open>mkfs.c\<close>: the program that makes the file system image. The state is the image file, sector by sector, with its length, and the two
  counters. The files to copy are given by their names and by what the calls of \<^verbatim>\<open>read\<close> return for each of them; a
  file that cannot be opened has none. An assertion that fails and an exit with an error are a \<open>Panic\<close>; so is a read behind the end of
  the image. Writes to the image always succeed.
\<close>

record mkfs =
  fsimg :: "uint \<Rightarrow> block"
  fs_len :: nat
  freeinode :: uint
  freeblock :: uint

record hostfile =
  h_name :: "uchar list"
  h_reads :: "uchar list list option"

definition NINODES :: uint where "NINODES = 200"
definition nbitmap :: uint where "nbitmap = FSSIZE div (BSIZE * 8) + 1"
definition ninodeblocks :: uint where "ninodeblocks = NINODES div IPB + 1"
definition nlog :: uint where "nlog = of_nat LOGSIZE"
definition nmeta :: uint where "nmeta = 2 + nlog + ninodeblocks + nbitmap"
definition nblocks :: uint where "nblocks = FSSIZE - nmeta"
definition zeroes :: block where "zeroes = replicate 512 0"

definition xshort :: "ushort \<Rightarrow> ushort" where
  "xshort x = le_ushort [ucast x, ucast (drop_bit 8 x)]"

definition xint :: "uint \<Rightarrow> uint" where
  "xint x = le_uint [ucast x, ucast (drop_bit 8 x), ucast (drop_bit 16 x), ucast (drop_bit 24 x)]"

definition mkfs_sb :: superblock where
  "mkfs_sb = \<lparr>sb_size = xint FSSIZE, sb_nblocks = xint nblocks, sb_ninodes = xint NINODES, sb_nlog = xint nlog,
     sb_logstart = xint 2, sb_inodestart = xint (2 + nlog), sb_bmapstart = xint (2 + nlog + ninodeblocks)\<rparr>"

definition superblock_bytes :: "superblock \<Rightarrow> uchar list" where
  "superblock_bytes S = concat (map uint_bytes [sb_size S, sb_nblocks S, sb_ninodes S, sb_nlog S, sb_logstart S, sb_inodestart S,
     sb_bmapstart S])"

section \<open>Operations\<close>

definition wsect :: "uint \<Rightarrow> block \<Rightarrow> (mkfs, unit) kern" where
  "wsect sec b = modK (\<lambda>m. m\<lparr>fsimg := (fsimg m)(sec := b), fs_len := max (fs_len m) (unat sec + 1)\<rparr>)"

definition rsect :: "uint \<Rightarrow> (mkfs, block) kern" where
  "rsect sec = bindK (getK fs_len) (\<lambda>n. if unat sec < n then getK (\<lambda>m. fsimg m sec) else panic ''read'')"

definition winode :: "uint \<Rightarrow> dinode \<Rightarrow> (mkfs, unit) kern" where
  "winode inum ip =
     (let bn = IBLOCK inum mkfs_sb in
     bindK (rsect bn) (\<lambda>b. wsect bn (overwrite (inode_off inum) (dinode_bytes ip) b)))"

definition rinode :: "uint \<Rightarrow> (mkfs, dinode) kern" where
  "rinode inum =
     (let bn = IBLOCK inum mkfs_sb in
     bindK (rsect bn) (\<lambda>b. ret (dinode_of (slice (inode_off inum) 64 b))))"

definition mkfs_ialloc :: "ushort \<Rightarrow> (mkfs, uint) kern" where
  "mkfs_ialloc type =
     bindK (getK freeinode) (\<lambda>inum.
     thenK (modK (\<lambda>m. m\<lparr>freeinode := inum + 1\<rparr>)) (
     thenK (winode inum \<lparr>di_type = xshort type, di_major = 0, di_minor = 0, di_nlink = xshort 1, di_size = xint 0,
       di_addrs = replicate 13 0\<rparr>)
     (ret inum)))"

definition mkfs_bitmap :: "nat \<Rightarrow> block" where
  "mkfs_bitmap used = fold bit_set [0..<used] zeroes"

definition mkfs_balloc :: "uint \<Rightarrow> (mkfs, unit) kern" where
  "mkfs_balloc used = (if \<not> sint used < int (unat BSIZE) * 8 then panic ''assert''
     else wsect (sb_bmapstart mkfs_sb) (mkfs_bitmap (nat (sint used))))"

text \<open>\<^verbatim>\<open>freeblock++\<close>\<close>

definition next_block :: "(mkfs, uint) kern" where
  "next_block = bindK (getK freeblock) (\<lambda>b. thenK (modK (\<lambda>m. m\<lparr>freeblock := b + 1\<rparr>)) (ret b))"

text \<open>The block of the file with number \<open>fbn\<close>: the inode with a new block, if it needs one, and the block.\<close>

definition iappend_slot :: "dinode \<Rightarrow> nat \<Rightarrow> (mkfs, dinode) kern" where
  "iappend_slot din k = (if xint (di_addrs din ! k) = 0
     then bindK next_block (\<lambda>b. ret (din\<lparr>di_addrs := (di_addrs din)[k := xint b]\<rparr>)) else ret din)"

definition iappend_block :: "dinode \<Rightarrow> nat \<Rightarrow> (mkfs, dinode \<times> uint) kern" where
  "iappend_block din fbn = (if fbn < NDIRECT
     then bindK (iappend_slot din fbn) (\<lambda>din. ret (din, xint (di_addrs din ! fbn)))
     else
       bindK (iappend_slot din NDIRECT) (\<lambda>din.
       bindK (rsect (xint (di_addrs din ! NDIRECT))) (\<lambda>indirect.
       if get_uint (fbn - NDIRECT) indirect = 0 then
         bindK next_block (\<lambda>b.
         thenK (wsect (xint (di_addrs din ! NDIRECT)) (put_uint (fbn - NDIRECT) (xint b) indirect))
         (ret (din, xint (xint b))))
       else ret (din, xint (get_uint (fbn - NDIRECT) indirect)))))"

text \<open>Every iteration takes at least one byte, so that one iteration more than there are bytes is enough.\<close>

primrec iappend_loop :: "nat \<Rightarrow> dinode \<Rightarrow> uint \<Rightarrow> uchar list \<Rightarrow> (mkfs, dinode \<times> uint) kern" where
  "iappend_loop 0 = (\<lambda>din off p. spin)"
| "iappend_loop (Suc fuel) = (\<lambda>din off p. if p = [] then ret (din, off) else
     let fbn = off div BSIZE in
     if \<not> unat fbn < MAXFILE then panic ''assert'' else
     bindK (iappend_block din (unat fbn)) (\<lambda>(din, x).
     let n1 = min (length p) (unat ((fbn + 1) * BSIZE - off)) in
     bindK (rsect x) (\<lambda>b.
     thenK (wsect x (overwrite (unat (off - fbn * BSIZE)) (take n1 p) b))
     (iappend_loop fuel din (off + of_nat n1) (drop n1 p)))))"

definition iappend :: "uint \<Rightarrow> uchar list \<Rightarrow> (mkfs, unit) kern" where
  "iappend inum xp =
     bindK (rinode inum) (\<lambda>din.
     bindK (iappend_loop (length xp + 1) din (xint (di_size din)) xp) (\<lambda>(din, off).
     winode inum (din\<lparr>di_size := xint off\<rparr>)))"

definition mkfs_entry :: "uint \<Rightarrow> uchar list \<Rightarrow> uchar list" where
  "mkfs_entry inum name = dirent_bytes \<lparr>de_inum = xshort (ucast inum), de_name = strncpy_l name DIRSIZ\<rparr>"

fun append_reads :: "uint \<Rightarrow> uchar list list \<Rightarrow> (mkfs, unit) kern" where
  "append_reads inum [] = ret ()"
| "append_reads inum (r # rs) = (if r = [] then ret () else thenK (iappend inum r) (append_reads inum rs))"

definition image_name :: "uchar list \<Rightarrow> uchar list" where
  "image_name name = (if name \<noteq> [] \<and> hd name = 95 then tl name else name)"

definition add_file :: "uint \<Rightarrow> hostfile \<Rightarrow> (mkfs, unit) kern" where
  "add_file rootino f = (if SLASH \<in> set (h_name f) then panic ''assert'' else
     case h_reads f of None \<Rightarrow> panic ''open'' | Some rs \<Rightarrow>
     bindK (mkfs_ialloc T_FILE) (\<lambda>inum.
     thenK (iappend rootino (mkfs_entry inum (image_name (h_name f))))
     (append_reads inum rs)))"

fun add_files :: "uint \<Rightarrow> hostfile list \<Rightarrow> (mkfs, unit) kern" where
  "add_files rootino [] = ret ()"
| "add_files rootino (f # files) = thenK (add_file rootino f) (add_files rootino files)"

text \<open>\<^verbatim>\<open>main\<close>: an empty disk, the root directory, the files, and at the end the size of the root directory and the bitmap.\<close>

definition mkfs_init :: "(mkfs, unit) kern" where
  "mkfs_init =
     thenK (modK (\<lambda>m. m\<lparr>freeblock := nmeta\<rparr>)) (
     thenK (for_range 0 (unat FSSIZE) (\<lambda>i. wsect (of_nat i) zeroes))
     (wsect 1 (overwrite 0 (superblock_bytes mkfs_sb) zeroes)))"

definition mkfs_finish :: "uint \<Rightarrow> (mkfs, unit) kern" where
  "mkfs_finish rootino =
     bindK (rinode rootino) (\<lambda>din.
     let off = xint (di_size din) in
     let off = (off div BSIZE + 1) * BSIZE in
     thenK (winode rootino (din\<lparr>di_size := xint off\<rparr>)) (
     bindK (getK freeblock) mkfs_balloc))"

definition mkfs_main :: "hostfile list \<Rightarrow> (mkfs, unit) kern" where
  "mkfs_main files =
     (if unat BSIZE mod 64 \<noteq> 0 \<or> unat BSIZE mod 16 \<noteq> 0 then panic ''assert'' else
     thenK mkfs_init (
     bindK (mkfs_ialloc T_DIR) (\<lambda>rootino.
     if rootino \<noteq> ROOTINO then panic ''assert'' else
     thenK (iappend rootino (mkfs_entry rootino (str ''.''))) (
     thenK (iappend rootino (mkfs_entry rootino (str ''..''))) (
     thenK (add_files rootino files)
     (mkfs_finish rootino))))))"

definition mkfs_state :: mkfs where
  "mkfs_state = \<lparr>fsimg = (\<lambda>_. []), fs_len = 0, freeinode = 1, freeblock = 0\<rparr>"

end
