(* ===== verification/Mkfsok.thy ===== *)
theory Mkfsok
  imports Mkfs
begin

text \<open>
  The image that \<^verbatim>\<open>mkfs\<close> makes is a file system for the kernel. While it works, \<^verbatim>\<open>mkfs\<close> allocates blocks by counting and writes the
  bitmap only at the end. \<open>vw m\<close> is the image with the bitmap that would be written now; on it, the allocation of a block is
  the one of the kernel, so that the lemmas on the block map of a file and on writing apply.
\<close>

section \<open>The layout\<close>

lemma xint [simp]: "xint x = x"
  using le_uint_bytes [of x] by (simp add: xint_def uint_bytes_def)

lemma xshort [simp]: "xshort x = x"
  using le_ushort_bytes [of x] by (simp add: xshort_def ushort_bytes_def)

lemma mkfs_layout: "mkfs_sb = demo_S" "nmeta = 59"
  by (simp_all add: mkfs_sb_def demo_S_def nblocks_def nmeta_def nlog_def ninodeblocks_def nbitmap_def NINODES_def IPB_def BSIZE_def
      FSSIZE_def LOGSIZE_def MAXOPBLOCKS_def)

lemma demo_S_simps [simp]: "sb_size demo_S = 1000" "sb_bmapstart demo_S = 58" "sb_ninodes demo_S = 200" "sb_inodestart demo_S = 32"
  by (simp_all add: demo_S_def)

definition log_area :: "uint set" where
  "log_area = {n. 2 \<le> unat n \<and> unat n < 32}"

lemma mkfs_geo: "larea c = log_area \<Longrightarrow> geo demo_S c"
  using demo_iblocks by (fastforce simp: geo_def log_area_def FSSIZE_def word_less_nat_alt word_le_nat_alt)

lemma mkfs_meta: "larea c = log_area \<Longrightarrow> b \<in> meta demo_S c \<Longrightarrow> unat b < 59"
  using demo_iblocks by (fastforce simp: meta_def log_area_def)

section \<open>The bitmap\<close>

lemma mkfs_bitmap_Suc: "mkfs_bitmap (Suc n) = bit_set n (mkfs_bitmap n)"
  by (simp add: mkfs_bitmap_def)

lemma length_mkfs_bitmap [simp]: "length (mkfs_bitmap n) = 512"
  by (induction n) (simp_all add: mkfs_bitmap_Suc, simp add: mkfs_bitmap_def zeroes_def)

lemma bit_mkfs_bitmap: "n \<le> 4096 \<Longrightarrow> bit_at (mkfs_bitmap n) j \<longleftrightarrow> j < n" if "j < 4096"
proof (induction n)
  case 0
  then show ?case using that by (simp add: mkfs_bitmap_def zeroes_def bit_at_iff)
next
  case (Suc n)
  then show ?case by (auto simp: mkfs_bitmap_Suc bit_at_set)
qed

definition vw :: "mkfs \<Rightarrow> uint \<Rightarrow> block" where
  "vw m = (fsimg m)(58 := mkfs_bitmap (unat (freeblock m)))"

definition mk_ok :: "mkfs \<Rightarrow> bool" where
  "mk_ok m \<longleftrightarrow> fs_len m = 1000 \<and> 59 \<le> unat (freeblock m) \<and> unat (freeblock m) \<le> 1000 \<and>
     (\<forall>b<1000. length (fsimg m b) = 512) \<and> (\<forall>b. freeblock m \<le> b \<longrightarrow> b < 1000 \<longrightarrow> fsimg m b = zeroes)"

lemma freeb_vw: "mk_ok m \<Longrightarrow> freeb demo_S (vw m) = {b. freeblock m \<le> b \<and> b < 1000}"
  using bit_mkfs_bitmap [of _ "unat (freeblock m)"]
  by (auto simp: freeb_def vw_def mk_ok_def word_less_nat_alt word_le_nat_alt)

lemma bitmap_vw: "mk_ok m \<Longrightarrow> larea c = log_area \<Longrightarrow> bitmap_ok demo_S c (vw m)"
proof -
  assume m: "mk_ok m" and c: "larea c = log_area"
  have "59 \<le> unat b" if "b \<in> freeb demo_S (vw m)" for b
    using that m by (auto simp: freeb_vw) (simp add: mk_ok_def word_le_nat_alt)
  then have "freeb demo_S (vw m) \<inter> meta demo_S c = {}" using mkfs_meta [OF c] by fastforce
  then show ?thesis by (simp add: bitmap_ok_def) (simp add: vw_def)
qed

lemma take_vw:
  assumes "mk_ok m" "unat (freeblock m) < 1000"
  shows "take_block demo_S (freeblock m) (vw m) = vw (m\<lparr>freeblock := freeblock m + 1\<rparr>)"
    "mk_ok (m\<lparr>freeblock := freeblock m + 1\<rparr>)" "freeblock m \<in> freeb demo_S (vw m)" "unat (freeblock m + 1) = unat (freeblock m) + 1"
proof -
  show u: "unat (freeblock m + 1) = unat (freeblock m) + 1" using assms(2) by (simp add: unat_word_ariths)
  have z: "fsimg m (freeblock m) = zeroes" using assms by (auto simp: mk_ok_def word_less_nat_alt)
  have "freeblock m \<noteq> 58" using assms by (auto simp: mk_ok_def)
  then show "take_block demo_S (freeblock m) (vw m) = vw (m\<lparr>freeblock := freeblock m + 1\<rparr>)"
    using z unfolding take_block_def vw_def by (auto simp: fun_eq_iff u mkfs_bitmap_Suc zeroes_def)
  show "mk_ok (m\<lparr>freeblock := freeblock m + 1\<rparr>)" using assms u by (auto simp: mk_ok_def word_less_nat_alt word_le_nat_alt)
  show "freeblock m \<in> freeb demo_S (vw m)" using assms by (auto simp: freeb_vw word_less_nat_alt)
qed

section \<open>Sectors\<close>

lemma rsect_wp: "mk_ok m \<Longrightarrow> b < 1000 \<Longrightarrow> Q (fsimg m b) m \<Longrightarrow> wpK (rsect b) Q m"
  by (simp add: rsect_def mk_ok_def wpK_iff word_less_nat_alt bindK_def getK_def)

lemma wsect_wp:
  assumes m: "mk_ok m" and b: "b < freeblock m" "b \<noteq> 58" "length x = 512"
    and Q: "\<And>t. mk_ok t \<Longrightarrow> vw t = (vw m)(b := x) \<Longrightarrow> freeblock t = freeblock m \<Longrightarrow> freeinode t = freeinode m \<Longrightarrow> Q () t"
  shows "wpK (wsect b x) Q m"
proof -
  let ?t = "m\<lparr>fsimg := (fsimg m)(b := x), fs_len := max (fs_len m) (unat b + 1)\<rparr>"
  have "unat b < 1000" using m b(1) by (auto simp: mk_ok_def word_less_nat_alt)
  then have "fs_len ?t = 1000" using m by (simp add: mk_ok_def)
  then have "mk_ok ?t" using m b by (auto simp: mk_ok_def)
  moreover have "vw ?t = (vw m)(b := x)" using b(2) by (simp add: vw_def fun_upd_twist)
  ultimately have "Q () ?t" by (intro Q) simp_all
  then show ?thesis by (simp add: wsect_def wpK_iff modK_def)
qed

lemma next_block_wp:
  assumes m: "mk_ok m" "unat (freeblock m) < 1000"
    and Q: "\<And>b t. b \<in> freeb demo_S (vw m) \<Longrightarrow> mk_ok t \<Longrightarrow> vw t = take_block demo_S b (vw m) \<Longrightarrow> b < freeblock t \<Longrightarrow>
      unat (freeblock t) = unat (freeblock m) + 1 \<Longrightarrow> freeinode t = freeinode m \<Longrightarrow> Q b t"
  shows "wpK next_block Q m"
proof -
  note t = take_vw [OF m]
  have "Q (freeblock m) (m\<lparr>freeblock := freeblock m + 1\<rparr>)"
    using t by (intro Q) (simp_all add: word_less_nat_alt)
  then show ?thesis by (simp add: next_block_def wpK_iff bindK_def thenK_def getK_def modK_def ret_def)
qed

text \<open>Below the first free block, the image is what the view shows.\<close>

lemma usable_below:
  assumes "mk_ok m" "usable demo_S c (vw m) b" "larea c = log_area"
  shows "b < freeblock m" "b < 1000" "b \<noteq> 58" "fsimg m b = vw m b"
proof -
  show "b < freeblock m" "b < 1000" "b \<noteq> 58" using assms by (auto simp: usable_def freeb_vw meta_def)
  then show "fsimg m b = vw m b" by (simp add: vw_def)
qed

section \<open>The block map\<close>

definition needed :: "(uint \<Rightarrow> block) \<Rightarrow> uint list \<Rightarrow> nat \<Rightarrow> nat" where
  "needed v A k = (if faddr v A k = 0 then 1 else 0) + (if 12 \<le> k \<and> A ! 12 = 0 then 1 else 0)"

lemma iappend_slot_wp:
  assumes m: "mk_ok m" and f: "di_addrs din ! k = 0 \<Longrightarrow> unat (freeblock m) < 1000"
    and hit: "di_addrs din ! k \<noteq> 0 \<Longrightarrow> Q din m"
    and new: "\<And>b t. di_addrs din ! k = 0 \<Longrightarrow> b \<in> freeb demo_S (vw m) \<Longrightarrow> mk_ok t \<Longrightarrow> vw t = take_block demo_S b (vw m) \<Longrightarrow>
      unat (freeblock t) = unat (freeblock m) + 1 \<Longrightarrow> freeinode t = freeinode m \<Longrightarrow>
      Q (din\<lparr>di_addrs := (di_addrs din)[k := b]\<rparr>) t"
  shows "wpK (iappend_slot din k) Q m"
proof (cases "di_addrs din ! k = 0")
  case True
  show ?thesis
    unfolding iappend_slot_def using True
    by (simp add: wpK_bindK) (rule next_block_wp [OF m f [OF True]], use new True in \<open>simp add: wpK_iff ret_def\<close>)
qed (use hit in \<open>simp add: iappend_slot_def wpK_iff ret_def\<close>)

lemma iappend_entry_wp:
  assumes t: "mk_ok t" and c: "larea c = log_area" and p: "prepared demo_S c v A (vw t) (di_addrs din)" and k: "12 \<le> k" "k < 140"
    and room: "faddr (vw t) (di_addrs din) k = 0 \<Longrightarrow> unat (freeblock t) < 1000"
    and Q: "\<And>x u. mapped demo_S c v A k (vw u) (di_addrs din) x \<Longrightarrow> mk_ok u \<Longrightarrow>
      unat (freeblock u) = unat (freeblock t) + (if faddr (vw t) (di_addrs din) k = 0 then 1 else 0) \<Longrightarrow> freeinode u = freeinode t \<Longrightarrow>
      Q (din, x) u"
  shows "wpK (bindK (rsect (xint (di_addrs din ! 12))) (\<lambda>indirect.
       if get_uint (k - 12) indirect = 0 then
         bindK next_block (\<lambda>b. thenK (wsect (xint (di_addrs din ! 12)) (put_uint (k - 12) (xint b) indirect)) (ret (din, xint (xint b))))
       else ret (din, xint (get_uint (k - 12) indirect)))) Q t"
proof -
  let ?A = "di_addrs din" and ?a = "di_addrs din ! 12"
  have q: "?a \<noteq> 0" "wf_file demo_S c (vw t) ?A" using p by (auto simp: prepared_def)
  note us = wf_fileD(2) [OF q(2,1)] and g = mkfs_geo [OF c]
  note a = usable_below [OF t us c]
  have f: "get_uint (k - 12) (fsimg t ?a) = faddr (vw t) ?A k" using k q(1) a(4) by (simp add: faddr_def)
  have len: "length (vw t ?a) = 512" using a(2,4) t by (auto simp: mk_ok_def)
  show ?thesis
    unfolding xint wpK_bindK [of "rsect ?a"]
  proof (rule rsect_wp [OF t a(2)], cases "faddr (vw t) ?A k = 0")
    case True
    show "wpK (if get_uint (k - 12) (fsimg t ?a) = 0 then
        bindK next_block (\<lambda>b. thenK (wsect ?a (put_uint (k - 12) b (fsimg t ?a))) (ret (din, b)))
      else ret (din, get_uint (k - 12) (fsimg t ?a))) Q t"
      unfolding f if_P [OF True] wpK_bindK [of next_block]
    proof (rule next_block_wp [OF t room [OF True]])
      fix b u assume b: "b \<in> freeb demo_S (vw t)" and u: "mk_ok u" "vw u = take_block demo_S b (vw t)"
        "unat (freeblock u) = unat (freeblock t) + 1" "freeinode u = freeinode t"
      have a': "?a < freeblock u" using a(1) u(3) by (simp add: word_less_nat_alt)
      have ind: "vw u ?a = vw t ?a"
        using b a(1,3) t by (auto simp: u(2) take_block_def freeb_vw)
      note map = mapped_entry_alloc [OF p k True b g len, folded u(2)]
      show "wpK (thenK (wsect ?a (put_uint (k - 12) b (fsimg t ?a))) (ret (din, b))) Q u"
        unfolding wpK_thenK
      proof (rule wsect_wp [OF u(1) a' a(3)])
        show "length (put_uint (k - 12) b (fsimg t ?a)) = 512" using len a(4) k by simp
        fix w assume w: "mk_ok w" "vw w = (vw u)(?a := put_uint (k - 12) b (fsimg t ?a))" "freeblock w = freeblock u"
          "freeinode w = freeinode u"
        show "wpK (ret (din, b)) Q w"
          using Q [of w b] map w u True a(4) ind by (simp add: wpK_iff ret_def)
      qed
    qed
  next
    case False
    then show "wpK (if get_uint (k - 12) (fsimg t ?a) = 0 then
        bindK next_block (\<lambda>b. thenK (wsect ?a (put_uint (k - 12) b (fsimg t ?a))) (ret (din, b)))
      else ret (din, get_uint (k - 12) (fsimg t ?a))) Q t"
      unfolding f using Q [OF mapped_entry_hit [OF p k(2) False] t] by (simp add: wpK_iff ret_def)
  qed
qed

lemma iappend_block_wp:
  assumes m: "mk_ok m" and c: "larea c = log_area" and A: "wf_file demo_S c (vw m) (di_addrs din)" and k: "k < 140"
    and room: "unat (freeblock m) + needed (vw m) (di_addrs din) k \<le> 1000"
    and Q: "\<And>A' x t. mapped demo_S c (vw m) (di_addrs din) k (vw t) A' x \<Longrightarrow> mk_ok t \<Longrightarrow>
      unat (freeblock t) = unat (freeblock m) + needed (vw m) (di_addrs din) k \<Longrightarrow> freeinode t = freeinode m \<Longrightarrow>
      (A' ! 12 \<noteq> 0 \<longleftrightarrow> di_addrs din ! 12 \<noteq> 0 \<or> 12 \<le> k) \<Longrightarrow> Q (din\<lparr>di_addrs := A'\<rparr>, x) t"
  shows "wpK (iappend_block din k) Q m"
proof (cases "k < 12")
  case True
  let ?A = "di_addrs din"
  note ok = bitmap_vw [OF m c] and g = mkfs_geo [OF c]
  have f: "faddr (vw m) ?A k = ?A ! k" using True by (simp add: faddr_def)
  have n: "needed (vw m) ?A k = (if ?A ! k = 0 then 1 else 0)" using True by (simp add: needed_def f)
  have len: "length ?A = 13" using wf_fileD(1) [OF A] .
  show ?thesis
    unfolding iappend_block_def N_consts if_P [OF True] wpK_bindK [of "iappend_slot din k"]
  proof (rule iappend_slot_wp [OF m])
    show "unat (freeblock m) < 1000" if "?A ! k = 0" using room n that by simp
    show "wpK (ret (din, xint (?A ! k))) Q m" if "?A ! k \<noteq> 0"
      using Q [OF mapped_same [OF A ok] m] that f n True by (simp add: wpK_iff ret_def)
    show "wpK (ret (din\<lparr>di_addrs := ?A[k := b]\<rparr>, xint (di_addrs (din\<lparr>di_addrs := ?A[k := b]\<rparr>) ! k))) Q t"
      if t: "?A ! k = 0" "b \<in> freeb demo_S (vw m)" "mk_ok t" "vw t = take_block demo_S b (vw m)"
        "unat (freeblock t) = unat (freeblock m) + 1" "freeinode t = freeinode m" for b t
      using Q [OF mapped_direct [OF A ok g True t(1,2), folded t(4)] t(3)] t n True len by (simp add: wpK_iff ret_def)
  qed
next
  case False
  let ?A = "di_addrs din"
  note ok = bitmap_vw [OF m c] and g = mkfs_geo [OF c]
  have k12: "12 \<le> k" using False by simp
  have n: "needed (vw m) ?A k = (if ?A ! 12 = 0 then 2 else if faddr (vw m) ?A k = 0 then 1 else 0)"
    using k12 by (simp add: needed_def) (simp add: faddr_def)
  have len: "length ?A = 13" using wf_fileD(1) [OF A] .
  show ?thesis
    unfolding iappend_block_def N_consts if_not_P [OF False] wpK_bindK [of "iappend_slot din 12"]
  proof (rule iappend_slot_wp [OF m])
    show "unat (freeblock m) < 1000" if "?A ! 12 = 0" using room n that by simp
    show "wpK (bindK (rsect (xint (?A ! 12))) (\<lambda>indirect.
       if get_uint (k - 12) indirect = 0 then
         bindK next_block (\<lambda>b. thenK (wsect (xint (?A ! 12)) (put_uint (k - 12) (xint b) indirect)) (ret (din, xint (xint b))))
       else ret (din, xint (get_uint (k - 12) indirect)))) Q m" if "?A ! 12 \<noteq> 0"
    proof (rule iappend_entry_wp [OF m c prepared_hit [OF A ok that] k12 k])
      show "unat (freeblock m) < 1000" if "faddr (vw m) ?A k = 0" using room n that \<open>?A ! 12 \<noteq> 0\<close> by simp
      fix x u assume "mapped demo_S c (vw m) ?A k (vw u) ?A x" "mk_ok u" "freeinode u = freeinode m"
        "unat (freeblock u) = unat (freeblock m) + (if faddr (vw m) ?A k = 0 then 1 else 0)"
      then show "Q (din, x) u" using Q [of u ?A x] n that by simp
    qed
    fix b t assume t: "?A ! 12 = 0" "b \<in> freeb demo_S (vw m)" "mk_ok t" "vw t = take_block demo_S b (vw m)"
      "unat (freeblock t) = unat (freeblock m) + 1" "freeinode t = freeinode m"
    let ?d = "din\<lparr>di_addrs := ?A[12 := b]\<rparr>"
    have p: "prepared demo_S c (vw m) ?A (vw t) (di_addrs ?d)"
      using prepared_alloc [OF A ok g t(1,2)] by (simp add: t(4))
    have z: "faddr (vw t) (di_addrs ?d) k = 0" using p k k12 t(1) by (auto simp: prepared_def faddr_def)
    show "wpK (bindK (rsect (xint (di_addrs ?d ! 12))) (\<lambda>indirect.
       if get_uint (k - 12) indirect = 0 then
         bindK next_block (\<lambda>b. thenK (wsect (xint (di_addrs ?d ! 12)) (put_uint (k - 12) (xint b) indirect)) (ret (?d, xint (xint b))))
       else ret (?d, xint (get_uint (k - 12) indirect)))) Q t"
    proof (rule iappend_entry_wp [OF t(3) c p k12 k])
      show "unat (freeblock t) < 1000" using room n t(1,5) by simp
      fix x u assume u: "mapped demo_S c (vw m) ?A k (vw u) (di_addrs ?d) x" "mk_ok u" "freeinode u = freeinode t"
        "unat (freeblock u) = unat (freeblock t) + (if faddr (vw t) (di_addrs ?d) k = 0 then 1 else 0)"
      have "?A[12 := b] ! 12 \<noteq> 0" using p by (simp add: prepared_def)
      then show "Q (?d, x) u" using Q [of u "?A[12 := b]" x] u n z t k12 by simp
    qed
  qed
qed

section \<open>Appending\<close>

text \<open>A file on the image with its content: it has the blocks that it needs and no others, and the rest of its last block is zero.\<close>

definition mk_file where
  "mk_file c v A cont \<longleftrightarrow> wf_file demo_S c v A \<and> length cont \<le> 71680 \<and>
     (\<forall>k<140. faddr v A k \<noteq> 0 \<longleftrightarrow> 512 * k < length cont) \<and> (A ! 12 \<noteq> 0 \<longleftrightarrow> 6144 < length cont) \<and>
     (\<forall>i<71680. fbyte v A i = (if i < length cont then cont ! i else 0))"

lemma mk_fileD:
  assumes "mk_file c v A cont"
  shows "wf_file demo_S c v A" "length cont \<le> 71680" "k < 140 \<Longrightarrow> faddr v A k \<noteq> 0 \<longleftrightarrow> 512 * k < length cont"
    "A ! 12 \<noteq> 0 \<longleftrightarrow> 6144 < length cont" "i < 71680 \<Longrightarrow> fbyte v A i = (if i < length cont then cont ! i else 0)"
  using assms by (auto simp: mk_file_def)

text \<open>The number of blocks of a file of \<open>n\<close> bytes, with the indirect block.\<close>

definition nblk :: "nat \<Rightarrow> nat" where
  "nblk n = (n + 511) div 512 + (if 6144 < n then 1 else 0)"

lemma nblk_mono: "m \<le> n \<Longrightarrow> nblk m \<le> nblk n"
  by (auto simp: nblk_def intro: add_mono div_le_mono)

lemma append_arith:
  fixes q n :: nat
  assumes "0 < n" "q mod 512 + n \<le> 512"
  shows "nblk (q + n) = nblk q + (if q mod 512 = 0 then 1 else 0) + (if q = 6144 then 1 else 0)"
    "j \<noteq> q div 512 \<Longrightarrow> 512 * j < q + n \<longleftrightarrow> 512 * j < q" "512 * (q div 512) < q + n" "512 * (q div 512) < q \<longleftrightarrow> q mod 512 \<noteq> 0"
    "6144 < q + n \<longleftrightarrow> 6144 \<le> q" "12 \<le> q div 512 \<longleftrightarrow> 6144 \<le> q"
proof -
  define d r where "d = q div 512" and "r = q mod 512"
  have q: "q = 512 * d + r" "r < 512" "r + n \<le> 512" using assms(2) by (auto simp: d_def r_def)
  show "512 * (q div 512) < q + n" "512 * (q div 512) < q \<longleftrightarrow> q mod 512 \<noteq> 0"
    using q assms(1) by (auto simp: d_def [symmetric] r_def [symmetric])
  show "12 \<le> q div 512 \<longleftrightarrow> 6144 \<le> q" using q by (cases "12 \<le> d") (auto simp: d_def [symmetric])
  show six: "6144 < q + n \<longleftrightarrow> 6144 \<le> q" using q assms(1) by (cases "12 \<le> d") auto
  show "j \<noteq> q div 512 \<Longrightarrow> 512 * j < q + n \<longleftrightarrow> 512 * j < q" using q by (auto simp: d_def [symmetric])
  have "(q + n + 511) div 512 = d + 1" using q assms(1) by (intro div_nat_eqI) auto
  moreover have "(q + 511) div 512 = (if r = 0 then d else d + 1)" using q by (auto intro!: div_nat_eqI)
  ultimately show "nblk (q + n) = nblk q + (if q mod 512 = 0 then 1 else 0) + (if q = 6144 then 1 else 0)"
    using six by (auto simp: nblk_def r_def [symmetric])
qed

lemma append_step:
  assumes f: "mk_file c v A cont" and m: "mapped demo_S c v A (length cont div 512) v1 A1 x" and c: "larea c = log_area"
    and xs: "0 < length xs" "length cont mod 512 + length xs \<le> 512" "length cont < 71680" and len: "length (v1 x) = 512"
    and ind: "A1 ! 12 \<noteq> 0 \<longleftrightarrow> A ! 12 \<noteq> 0 \<or> 12 \<le> length cont div 512"
  defines "v2 \<equiv> v1(x := overwrite (length cont mod 512) xs (v1 x))"
  shows "written demo_S c v A (length cont) xs v2 A1" "mk_file c v2 A1 (cont @ xs)"
    "needed v A (length cont div 512) + nblk (length cont) = nblk (length (cont @ xs))"
proof -
  note d = mk_fileD [OF f] and a = append_arith [OF xs(1,2)]
  have k: "length cont div 512 < 140" using xs(3) by simp
  note w = written_step [OF d(1) m mkfs_geo [OF c] k xs(2) len xs(1), folded v2_def]
  show wr: "written demo_S c v A (length cont) xs v2 A1" by (rule w(1))
  have m': "\<And>j. j < 140 \<Longrightarrow> j \<noteq> length cont div 512 \<Longrightarrow> faddr v1 A1 j = faddr v A j" "faddr v1 A1 (length cont div 512) \<noteq> 0"
    using m by (auto simp: mapped_def)
  have "length cont + length xs \<le> 71680" using xs(2) k mult_div_mod_eq [of 512 "length cont"] by linarith
  moreover have "faddr v2 A1 j \<noteq> 0 \<longleftrightarrow> 512 * j < length cont + length xs" if "j < 140" for j
    using w(2) m' d(3) [OF that] a(2,3) that by (cases "j = length cont div 512") auto
  moreover have "fbyte v2 A1 i = (if i < length (cont @ xs) then (cont @ xs) ! i else 0)" if "i < 71680" for i
    using writtenD(4) [OF wr that] d(5) [OF that] by (auto simp: nth_append)
  ultimately show "mk_file c v2 A1 (cont @ xs)"
    unfolding mk_file_def using writtenD(1) [OF wr] ind d(4) a(5,6) by auto
  show "needed v A (length cont div 512) + nblk (length cont) = nblk (length (cont @ xs))"
    using d(3) [OF k] d(4) a(1,4,6) by (auto simp: needed_def)
qed

lemma off_arith:
  assumes "q < 71680"
  shows "unat (of_nat q div BSIZE :: uint) = q div 512" "unat ((of_nat q div BSIZE + 1) * BSIZE - of_nat q :: uint) = 512 - q mod 512"
    "unat (of_nat q - of_nat q div BSIZE * BSIZE :: uint) = q mod 512"
proof -
  have q: "unat (of_nat q :: uint) = q" using assms by (simp add: unat_of_nat_uint)
  show d: "unat (of_nat q div BSIZE :: uint) = q div 512" by (simp add: unat_div q BSIZE_def)
  have m: "of_nat q = of_nat (q div 512) * 512 + (of_nat (q mod 512) :: uint)"
    by (metis div_mult_mod_eq of_nat_add of_nat_mult of_nat_numeral)
  have k: "(of_nat q div BSIZE :: uint) = of_nat (q div 512)" unfolding d [symmetric] by simp
  have "(of_nat q div BSIZE + 1) * BSIZE - of_nat q = (of_nat (512 - q mod 512) :: uint)"
    unfolding k by (subst m) (simp add: BSIZE_def algebra_simps of_nat_diff)
  then show "unat ((of_nat q div BSIZE + 1) * BSIZE - of_nat q :: uint) = 512 - q mod 512"
    using unat_of_nat_uint [of "512 - q mod 512"] by (simp del: of_nat_diff)
  have "of_nat q - of_nat q div BSIZE * BSIZE = (of_nat (q mod 512) :: uint)"
    unfolding k by (subst m) (simp add: BSIZE_def)
  then show "unat (of_nat q - of_nat q div BSIZE * BSIZE :: uint) = q mod 512" by (simp add: unat_of_nat_uint)
qed

lemma iappend_loop_wp:
  assumes "mk_ok m" "larea c = log_area" "mk_file c (vw m) (di_addrs din) cont" "length cont + length p \<le> 71680" "length p < fuel"
    "unat (freeblock m) + nblk (length cont + length p) \<le> 1000 + nblk (length cont)"
    "\<And>A' t. written demo_S c (vw m) (di_addrs din) (length cont) p (vw t) A' \<Longrightarrow> mk_file c (vw t) A' (cont @ p) \<Longrightarrow> mk_ok t \<Longrightarrow>
      unat (freeblock t) + nblk (length cont) = unat (freeblock m) + nblk (length cont + length p) \<Longrightarrow> freeinode t = freeinode m \<Longrightarrow>
      Q (din\<lparr>di_addrs := A'\<rparr>, of_nat (length cont + length p)) t"
  shows "wpK (iappend_loop fuel din (of_nat (length cont)) p) Q m"
  using assms
proof (induction fuel arbitrary: m din cont p)
  case (Suc fuel)
  note m = Suc.prems(1) and c = Suc.prems(2) and f = Suc.prems(3) and fits = Suc.prems(4) and room = Suc.prems(6) and Q = Suc.prems(7)
  show ?case
  proof (cases "p = []")
    case True
    show ?thesis
      using Q [OF written_nil [OF mk_fileD(1) [OF f] bitmap_vw [OF m c], of "length cont", folded True] _ m] f True
      by (simp add: wpK_iff ret_def)
  next
    case False
    let ?k = "length cont div 512" and ?n = "min (length p) (512 - length cont mod 512)"
    let ?xs = "take ?n p"
    have lt: "length cont < 71680" using fits False by (cases p) auto
    have k: "?k < 140" using lt by simp
    have xs: "0 < length ?xs" "length cont mod 512 + length ?xs \<le> 512" using False by auto
    have lx: "length ?xs = ?n" by simp
    note off = off_arith [OF lt]
    have cond: "\<not> \<not> ?k < MAXFILE" using k by simp
    have need: "needed (vw m) (di_addrs din) ?k + nblk (length cont) = nblk (length cont + length ?xs)"
      using mk_fileD(3) [OF f k] mk_fileD(4) [OF f] append_arith(1,4,6) [OF xs] by (auto simp: needed_def)
    have mono: "nblk (length cont + length ?xs) \<le> nblk (length cont + length p)" by (rule nblk_mono) simp
    show ?thesis
      unfolding iappend_loop.simps if_not_P [OF False] Let_def off if_not_P [OF cond] wpK_bindK [of "iappend_block din ?k"]
    proof (rule iappend_block_wp [OF m c mk_fileD(1) [OF f] k])
      show "unat (freeblock m) + needed (vw m) (di_addrs din) ?k \<le> 1000" using room need mono by linarith
      fix A1 x t
      assume map: "mapped demo_S c (vw m) (di_addrs din) ?k (vw t) A1 x" and t: "mk_ok t"
        "unat (freeblock t) = unat (freeblock m) + needed (vw m) (di_addrs din) ?k" "freeinode t = freeinode m"
        and ind: "A1 ! 12 \<noteq> 0 \<longleftrightarrow> di_addrs din ! 12 \<noteq> 0 \<or> 12 \<le> ?k"
      have "usable demo_S c (vw t) x" using wf_fileD(3) [OF mappedD(3) [OF map] k] mappedD(1,2) [OF map] by simp
      note x = usable_below [OF t(1) this c]
      have len: "length (vw t x) = 512" using x(2,4) t(1) by (auto simp: mk_ok_def)
      note st = append_step [OF f map c xs lt len ind]
      show "wpK (case (din\<lparr>di_addrs := A1\<rparr>, x) of (din, x) \<Rightarrow>
          bindK (rsect x) (\<lambda>b. thenK (wsect x (overwrite (length cont mod 512) ?xs b))
            (iappend_loop fuel din (of_nat (length cont) + of_nat ?n) (drop ?n p)))) Q t"
        unfolding prod.case wpK_bindK [of "rsect x"]
      proof (rule rsect_wp [OF t(1) x(2)], unfold wpK_thenK x(4), rule wsect_wp [OF t(1) x(1,3)])
        show "length (overwrite (length cont mod 512) ?xs (vw t x)) = 512" using len xs(2) by simp
        fix u assume u: "mk_ok u" "vw u = (vw t)(x := overwrite (length cont mod 512) ?xs (vw t x))" "freeblock u = freeblock t"
          "freeinode u = freeinode t"
        note wr = st(1) [folded u(2)] and f' = st(2) [folded u(2)]
        have eq: "of_nat (length cont) + of_nat ?n = (of_nat (length (cont @ ?xs)) :: uint)" by simp
        have tot: "length (cont @ ?xs) + length (drop ?n p) = length cont + length p" by simp
        have "wpK (iappend_loop fuel (din\<lparr>di_addrs := A1\<rparr>) (of_nat (length (cont @ ?xs))) (drop ?n p)) Q u"
        proof (rule Suc.IH [OF u(1) c])
          show "mk_file c (vw u) (di_addrs (din\<lparr>di_addrs := A1\<rparr>)) (cont @ ?xs)" using f' by simp
          show "length (cont @ ?xs) + length (drop ?n p) \<le> 71680" using fits tot by simp
          show "length (drop ?n p) < fuel" using Suc.prems(5) xs(1) unfolding length_drop length_take by linarith
          show "unat (freeblock u) + nblk (length (cont @ ?xs) + length (drop ?n p)) \<le> 1000 + nblk (length (cont @ ?xs))"
            using room need t(2) u(3) unfolding tot by simp
          fix A' w
          assume w: "written demo_S c (vw u) (di_addrs (din\<lparr>di_addrs := A1\<rparr>)) (length (cont @ ?xs)) (drop ?n p) (vw w) A'"
            "mk_file c (vw w) A' ((cont @ ?xs) @ drop ?n p)" "mk_ok w"
            "unat (freeblock w) + nblk (length (cont @ ?xs)) = unat (freeblock u) + nblk (length (cont @ ?xs) + length (drop ?n p))"
            "freeinode w = freeinode u"
          have "written demo_S c (vw m) (di_addrs din) (length cont) (?xs @ drop ?n p) (vw w) A'"
            by (rule written_trans [OF wr]) (use w(1) fits in simp_all)
          then have "written demo_S c (vw m) (di_addrs din) (length cont) p (vw w) A'" unfolding append_take_drop_id .
          moreover have "mk_file c (vw w) A' (cont @ p)" using w(2) by (simp add: append_assoc)
          moreover have "unat (freeblock w) + nblk (length cont) = unat (freeblock m) + nblk (length cont + length p)"
            using w(4) need t(2) u(3) unfolding tot by simp
          ultimately show "Q (din\<lparr>di_addrs := A1\<rparr>\<lparr>di_addrs := A'\<rparr>, of_nat (length (cont @ ?xs) + length (drop ?n p))) w"
            unfolding tot using Q [of w A'] w(3,5) u(4) t(3) by simp
        qed
        then show "wpK (iappend_loop fuel (din\<lparr>di_addrs := A1\<rparr>) (of_nat (length cont) + of_nat ?n) (drop ?n p)) Q u"
          unfolding eq .
      qed
    qed
  qed
qed simp

end
