(* ===== verification/Mkfsimg.thy ===== *)
theory Mkfsimg
  imports Mkfsok
begin

text \<open>
  The inodes and files on the image while \<^verbatim>\<open>mkfs\<close> works, and the theorem on the finished image.
\<close>

section \<open>The image\<close>

text \<open>\<open>F\<close> lists the inodes that have been made, from number 1 on: the type and the content of each.\<close>

definition inode_is where
  "inode_is c v i f \<longleftrightarrow> (let d = dino demo_S v i in di_type d = fst f \<and> di_nlink d = 1 \<and> di_size d = of_nat (length (snd f)) \<and>
     mk_file c v (di_addrs d) (snd f))"

abbreviation inum_of :: "nat \<Rightarrow> uint" where
  "inum_of i \<equiv> of_nat (Suc i)"

abbreviation addrs_of where
  "addrs_of v i \<equiv> di_addrs (dino demo_S v (inum_of i))"

definition blocks_of :: "(ushort \<times> uchar list) list \<Rightarrow> nat" where
  "blocks_of F = sum_list (map (\<lambda>f. nblk (length (snd f))) F)"

definition mk_img where
  "mk_img c m F \<longleftrightarrow> mk_ok m \<and> unat (freeinode m) = Suc (length F) \<and> length F < 200 \<and> unat (freeblock m) = 59 + blocks_of F \<and>
     (\<forall>i<length F. inode_is c (vw m) (inum_of i) (F ! i)) \<and>
     (\<forall>i<length F. \<forall>j<length F. i \<noteq> j \<longrightarrow> owned (vw m) (addrs_of (vw m) i) \<inter> owned (vw m) (addrs_of (vw m) j) = {}) \<and>
     (\<forall>i. unat i \<notin> {1..length F} \<longrightarrow> unat i < 200 \<longrightarrow> di_type (dino demo_S (vw m) i) = 0) \<and>
     vw m 1 = overwrite 0 (superblock_bytes demo_S) zeroes \<and> (\<forall>b\<in>log_area. vw m b = zeroes)"

lemma mk_imgD:
  assumes "mk_img c m F"
  shows "mk_ok m" "unat (freeinode m) = Suc (length F)" "length F < 200" "unat (freeblock m) = 59 + blocks_of F"
    "i < length F \<Longrightarrow> inode_is c (vw m) (inum_of i) (F ! i)"
    "i < length F \<Longrightarrow> j < length F \<Longrightarrow> i \<noteq> j \<Longrightarrow> owned (vw m) (addrs_of (vw m) i) \<inter> owned (vw m) (addrs_of (vw m) j) = {}"
    "unat x \<notin> {1..length F} \<Longrightarrow> unat x < 200 \<Longrightarrow> di_type (dino demo_S (vw m) x) = 0"
    "vw m 1 = overwrite 0 (superblock_bytes demo_S) zeroes" "b \<in> log_area \<Longrightarrow> vw m b = zeroes"
  using assms unfolding mk_img_def by blast+

lemma inode_isD:
  assumes "inode_is c v i f"
  shows "di_type (dino demo_S v i) = fst f" "di_nlink (dino demo_S v i) = 1" "di_size (dino demo_S v i) = of_nat (length (snd f))"
    "mk_file c v (di_addrs (dino demo_S v i)) (snd f)"
  using assms by (simp_all add: inode_is_def Let_def)

lemma mk_file_same:
  assumes f: "mk_file c v A cont" and eq: "\<And>b. b \<in> owned v A \<Longrightarrow> v' b = v b" and fr: "freeb demo_S v' \<subseteq> freeb demo_S v"
  shows "mk_file c v' A cont" "owned v' A = owned v A"
proof -
  have fa: "faddr v' A k = faddr v A k" if "k < 140" for k by (rule file_same(1) [OF mk_fileD(1) [OF f] eq that])
  have fb: "fbyte v' A i = fbyte v A i" if "i < 71680" for i by (rule file_same(2) [OF mk_fileD(1) [OF f] eq that])
  have "wf_file demo_S c v' A" by (rule file_same(4) [OF mk_fileD(1) [OF f] eq fr])
  then show "mk_file c v' A cont" using f fa fb by (simp add: mk_file_def)
  have "faddr v' A ` {..<140} = faddr v A ` {..<140}" using fa by (intro image_cong) simp_all
  then show "owned v' A = owned v A" by (simp add: owned_def)
qed

lemma inode_block:
  assumes "unat i < 200"
  shows "IBLOCK i demo_S < 1000" "IBLOCK i demo_S \<noteq> 58" "unat (IBLOCK i demo_S) < 58" "IBLOCK i demo_S \<in> iblocks demo_S"
    "32 \<le> unat (IBLOCK i demo_S)"
proof -
  show i: "IBLOCK i demo_S \<in> iblocks demo_S" using iblock [of i demo_S] assms by (simp add: word_less_nat_alt)
  from demo_iblocks [OF this] show "IBLOCK i demo_S < 1000" "IBLOCK i demo_S \<noteq> 58" "unat (IBLOCK i demo_S) < 58"
    "32 \<le> unat (IBLOCK i demo_S)" by (auto simp: word_less_nat_alt)
qed

lemma rinode_wp:
  assumes "mk_ok m" "unat i < 200" "Q (dino demo_S (vw m) i) m"
  shows "wpK (rinode i) Q m"
  unfolding rinode_def mkfs_layout Let_def wpK_bindK [of "rsect (IBLOCK i demo_S)"]
  using rsect_wp [OF assms(1) inode_block(1) [OF assms(2)]] inode_block(2) [OF assms(2)] assms(3)
  by (simp add: wpK_iff ret_def dino_def vw_def)

lemma winode_wp:
  assumes m: "mk_ok m" and i: "unat i < 200" and d: "length (di_addrs d) = 13"
    and Q: "\<And>t. mk_ok t \<Longrightarrow> vw t = put_dino demo_S i d (vw m) \<Longrightarrow> freeblock t = freeblock m \<Longrightarrow> freeinode t = freeinode m \<Longrightarrow> Q () t"
  shows "wpK (winode i d) Q m"
proof -
  let ?b = "IBLOCK i demo_S"
  note b = inode_block [OF i]
  have len: "length (fsimg m ?b) = 512" "?b < freeblock m" "fsimg m ?b = vw m ?b"
    using m b by (auto simp: mk_ok_def word_less_nat_alt vw_def)
  show ?thesis
    unfolding winode_def mkfs_layout Let_def wpK_bindK [of "rsect ?b"]
  proof (rule rsect_wp [OF m b(1)], rule wsect_wp [OF m len(2) b(2)])
    show "length (overwrite (inode_off i) (dinode_bytes d) (fsimg m ?b)) = 512" using len d inode_off_le [of i] by simp
    fix t assume "mk_ok t" "vw t = (vw m)(?b := overwrite (inode_off i) (dinode_bytes d) (fsimg m ?b))" "freeblock t = freeblock m"
      "freeinode t = freeinode m"
    then show "Q () t" using Q [of t] len(3) by (simp add: put_dino_def)
  qed
qed

text \<open>Blocks that neither are free nor belong to the file stay as they are when the file grows.\<close>

lemma written_frame:
  assumes "written demo_S c v A p xs v' A'" "b \<notin> freeb demo_S v" "b \<noteq> 58" "b \<noteq> 0" "b \<notin> owned v A"
  shows "v' b = v b"
  using assms(2-5) by (intro writtenD(10) [OF assms(1)]) (auto simp: owned_def)

lemma written_owned:
  assumes "written demo_S c v A p xs v' A'"
  shows "owned v' A' \<subseteq> owned v A \<union> freeb demo_S v"
proof -
  have "faddr v' A' k \<in> owned v A \<union> freeb demo_S v" if "k < 140" "faddr v' A' k \<noteq> 0" for k
    using writtenD(5,6) [OF assms that(1)] that by (cases "faddr v A k = 0") (auto simp: owned_def)
  moreover have "A' ! 12 \<in> owned v A \<union> freeb demo_S v" if "A' ! 12 \<noteq> 0"
    using writtenD(8,9) [OF assms] that by (cases "A ! 12 = 0") (auto simp: owned_def)
  ultimately show ?thesis by (auto simp: owned_def [of v' A'])
qed

lemma blocks_of_upd: "i < length F \<Longrightarrow> blocks_of (F[i := f]) + nblk (length (snd (F ! i))) = blocks_of F + nblk (length (snd f))"
proof (induction F arbitrary: i)
  case (Cons g F)
  then show ?case by (cases i) (simp_all add: blocks_of_def)
qed simp

lemma inum_small: "i < 200 \<Longrightarrow> unat (inum_of i) = Suc i" "i < 199 \<Longrightarrow> unat (inum_of i) < 200"
  using unat_of_nat_uint [of "Suc i"] by simp_all

lemma inum_inj: "i < 200 \<Longrightarrow> j < 200 \<Longrightarrow> inum_of i = inum_of j \<longleftrightarrow> i = j"
  by (metis inum_small(1) nat.inject)

lemma meta_not_owned:
  assumes "mk_file c v A cont" "larea c = log_area" "b \<in> owned v A"
  shows "b \<notin> freeb demo_S v" "b \<noteq> 58" "b \<noteq> 0" "b \<noteq> 1" "b \<notin> iblocks demo_S" "b \<notin> log_area"
  using owned_usable [OF mk_fileD(1) [OF assms(1)] assms(3)] assms(2) by (auto simp: usable_def meta_def)

lemma low_not_free: "mk_ok m \<Longrightarrow> unat b < 59 \<Longrightarrow> b \<notin> freeb demo_S (vw m)"
  by (auto simp: freeb_vw) (simp add: mk_ok_def word_le_nat_alt)

lemma mk_img_grow:
  assumes img: "mk_img c m F" and c: "larea c = log_area" and i: "i < length F"
    and w: "written demo_S c (vw m) (addrs_of (vw m) i) (length (snd (F ! i))) xs (vw t) A'"
    and f: "mk_file c (vw t) A' (snd (F ! i) @ xs)" and t: "mk_ok t"
    and fb: "unat (freeblock t) + nblk (length (snd (F ! i))) = unat (freeblock m) + nblk (length (snd (F ! i)) + length xs)"
    and u: "mk_ok u" "vw u = put_dino demo_S (inum_of i) d (vw t)" "freeblock u = freeblock t" "freeinode u = freeinode m"
    and d: "di_type d = fst (F ! i)" "di_nlink d = 1" "di_size d = of_nat (length (snd (F ! i) @ xs))" "di_addrs d = A'"
  shows "mk_img c u (F[i := (fst (F ! i), snd (F ! i) @ xs)])"
proof -
  let ?v = "vw m" and ?A = "addrs_of (vw m)"
  note im = mk_imgD [OF img] and g = mkfs_geo [OF c]
  have n: "length F < 200" by (rule im(3))
  have fl: "mk_file c ?v (?A j) (snd (F ! j))" if "j < length F" for j using inode_isD(4) [OF im(5) [OF that]] .
  have i': "i < 199" using i n by simp
  have inum: "unat (inum_of i) < 200" by (rule inum_small(2) [OF i'])
  have low: "vw t b = ?v b" if "unat b < 59" "b \<in> iblocks demo_S \<union> log_area \<union> {1}" for b
  proof (rule written_frame [OF w low_not_free [OF im(1) that(1)]])
    show "b \<noteq> 58" "b \<noteq> 0" using that(2) by (auto simp: log_area_def dest: demo_iblocks)
    show "b \<notin> owned ?v (?A i)" using meta_not_owned [OF fl [OF i] c] that(2) by blast
  qed
  have put: "vw u b = vw t b" if "b \<notin> iblocks demo_S" for b
    using put_dino_other [of "inum_of i" demo_S] inum that by (simp add: u(2) word_less_nat_alt)
  have dino: "dino demo_S (vw u) j = (if j = inum_of i then d else dino demo_S ?v j)" if "unat j < 200" for j
  proof -
    note b = inode_block [OF that] and b' = inode_block [OF inum]
    have "length (vw t (IBLOCK (inum_of i) demo_S)) = 512" using t b' by (auto simp: mk_ok_def vw_def)
    moreover have "vw t (IBLOCK j demo_S) = ?v (IBLOCK j demo_S)" using b by (intro low) auto
    ultimately show ?thesis using dino_put [of d "vw t" "inum_of i" demo_S j] wf_fileD(1) [OF mk_fileD(1) [OF f]]
      by (simp add: u(2) d(4)) (simp add: dino_def)
  qed
  have fr: "freeb demo_S (vw u) = freeb demo_S (vw t)" "freeb demo_S (vw t) \<subseteq> freeb demo_S ?v"
    using put_dino_file(1) [OF g _ mk_fileD(1) [OF f], of "inum_of i"] inum u(2) writtenD(3) [OF w] by (simp_all add: word_less_nat_alt)
  have fi: "mk_file c (vw u) A' (snd (F ! i) @ xs)" "owned (vw u) A' = owned (vw t) A'"
    using mk_file_same [OF f, of "vw u"] put meta_not_owned(5) [OF f c] fr(1) by auto
  have fj: "mk_file c (vw u) (?A j) (snd (F ! j))" "owned (vw u) (?A j) = owned ?v (?A j)" if j: "j < length F" "j \<noteq> i" for j
  proof -
    have "vw u b = ?v b" if b: "b \<in> owned ?v (?A j)" for b
    proof -
      note o = meta_not_owned [OF fl [OF j(1)] c b]
      have "b \<notin> owned ?v (?A i)" using im(6) [OF j(1) i j(2)] b by blast
      then show ?thesis using written_frame [OF w o(1-3)] put [OF o(5)] by simp
    qed
    then show "mk_file c (vw u) (?A j) (snd (F ! j))" "owned (vw u) (?A j) = owned ?v (?A j)"
      using mk_file_same [OF fl [OF j(1)], of "vw u"] fr by auto
  qed
  have A: "addrs_of (vw u) j = (if j = i then A' else ?A j)" if "j < length F" for j
    using dino [of "inum_of j"] inum_inj [of j i] inum_small [of j] that n i' d(4) by (cases "j = 199") auto
  let ?F = "F[i := (fst (F ! i), snd (F ! i) @ xs)]"
  have nodes: "inode_is c (vw u) (inum_of j) (?F ! j)" if "j < length F" for j
  proof (cases "j = i")
    case True
    then show ?thesis using dino [OF inum] fi(1) d i by (simp add: inode_is_def)
  next
    case False
    have "dino demo_S (vw u) (inum_of j) = dino demo_S ?v (inum_of j)"
      using dino [of "inum_of j"] inum_inj [of j i] inum_small(2) [of j] that n i' False by simp
    then show ?thesis using inode_isD [OF im(5) [OF that]] fj(1) [OF that False] False by (simp add: inode_is_def)
  qed
  have own: "owned (vw u) A' \<subseteq> owned ?v (?A i) \<union> freeb demo_S ?v" using written_owned [OF w] fi(2) by simp
  have disj: "owned (vw u) (addrs_of (vw u) j) \<inter> owned (vw u) (addrs_of (vw u) k) = {}"
    if jk: "j < length F" "k < length F" "j \<noteq> k" for j k
  proof -
    have ik: "owned (vw u) A' \<inter> owned ?v (?A k) = {}" if "k < length F" "k \<noteq> i" for k
      using own im(6) [OF i that(1)] that meta_not_owned(1) [OF fl [OF that(1)] c] by blast
    show ?thesis
      unfolding A [OF jk(1)] A [OF jk(2)]
      using ik [OF jk(1)] ik [OF jk(2)] im(6) [OF jk] fj(2) [OF jk(1)] fj(2) [OF jk(2)] jk(3)
      by (cases "j = i"; cases "k = i") (simp_all add: Int_commute)
  qed
  have "di_type (dino demo_S (vw u) x) = 0" if "unat x \<notin> {1..length F}" "unat x < 200" for x
  proof -
    have "x \<noteq> inum_of i" using that inum_small(1) [of i] i i' by auto
    then show ?thesis using dino [OF that(2)] im(7) [OF that] by simp
  qed
  moreover have "vw u 1 = vw m 1"
  proof -
    have "1 \<notin> iblocks demo_S" by (auto dest: demo_iblocks)
    then show ?thesis using low [of 1] put [of 1] by simp
  qed
  moreover have "vw u b = vw m b" if "b \<in> log_area" for b
  proof -
    have "b \<notin> iblocks demo_S" using that by (auto simp: log_area_def dest: demo_iblocks)
    then show ?thesis using low [of b] put [of b] that by (auto simp: log_area_def)
  qed
  moreover have "unat (freeblock u) = 59 + blocks_of ?F"
    using blocks_of_upd [OF i, of "(fst (F ! i), snd (F ! i) @ xs)"] fb im(4) u(3) by simp
  ultimately show ?thesis
    unfolding mk_img_def length_list_update using u(1,4) im(2,3,8,9) nodes disj by simp
qed

lemma iappend_wp:
  assumes img: "mk_img c m F" and c: "larea c = log_area" and i: "i < length F"
    and fits: "length (snd (F ! i)) + length xs \<le> 71680"
    and room: "59 + blocks_of (F[i := (fst (F ! i), snd (F ! i) @ xs)]) \<le> 1000"
    and Q: "\<And>t. mk_img c t (F[i := (fst (F ! i), snd (F ! i) @ xs)]) \<Longrightarrow> Q () t"
  shows "wpK (iappend (inum_of i) xs) Q m"
proof -
  note im = mk_imgD [OF img] and n = inode_isD [OF mk_imgD(5) [OF img i]]
  let ?d = "dino demo_S (vw m) (inum_of i)" and ?len = "length (snd (F ! i))"
  have inum: "unat (inum_of i) < 200" using inum_small(2) [of i] i im(3) by simp
  have up: "blocks_of (F[i := (fst (F ! i), snd (F ! i) @ xs)]) + nblk ?len = blocks_of F + nblk (?len + length xs)"
    using blocks_of_upd [OF i, of "(fst (F ! i), snd (F ! i) @ xs)"] by simp
  show ?thesis
    unfolding iappend_def wpK_bindK [of "rinode (inum_of i)"]
  proof (rule rinode_wp [OF im(1) inum], unfold xint n(3),
      unfold wpK_bindK [of "iappend_loop (length xs + 1) ?d (of_nat ?len) xs"], rule iappend_loop_wp [OF im(1) c n(4) fits])
    show "unat (freeblock m) + nblk (?len + length xs) \<le> 1000 + nblk ?len" using room up im(4) by simp
    fix A' t
    assume w: "written demo_S c (vw m) (di_addrs ?d) ?len xs (vw t) A'" and f: "mk_file c (vw t) A' (snd (F ! i) @ xs)" and t: "mk_ok t"
      and fb: "unat (freeblock t) + nblk ?len = unat (freeblock m) + nblk (?len + length xs)" and fi: "freeinode t = freeinode m"
    show "wpK (case (?d\<lparr>di_addrs := A'\<rparr>, of_nat (?len + length xs)) of (din, off) \<Rightarrow> winode (inum_of i) (din\<lparr>di_size := off\<rparr>)) Q t"
      unfolding prod.case
    proof (rule winode_wp [OF t inum])
      show "length (di_addrs (?d\<lparr>di_addrs := A', di_size := of_nat (?len + length xs)\<rparr>)) = 13" using wf_fileD(1) [OF mk_fileD(1) [OF f]] by simp
      fix u assume u: "mk_ok u" "vw u = put_dino demo_S (inum_of i) (?d\<lparr>di_addrs := A', di_size := of_nat (?len + length xs)\<rparr>) (vw t)"
        "freeblock u = freeblock t" "freeinode u = freeinode t"
      show "Q () u"
        by (rule Q, rule mk_img_grow [OF img c i w f t fb u(1,2,3)]) (use u(4) fi n in simp_all)
    qed
  qed simp
qed

text \<open>Writing an inode keeps all other inodes, and the blocks of the files.\<close>

lemma put_frame:
  assumes m: "mk_ok m" and i: "unat i < 200" and d: "length (di_addrs d) = 13" and c: "larea c = log_area"
  defines "w \<equiv> put_dino demo_S i d (vw m)"
  shows "b \<notin> iblocks demo_S \<Longrightarrow> w b = vw m b"
    and "unat j < 200 \<Longrightarrow> dino demo_S w j = (if j = i then d else dino demo_S (vw m) j)"
    and "freeb demo_S w = freeb demo_S (vw m)"
    and "mk_file c (vw m) A cont \<Longrightarrow> mk_file c w A cont"
    and "mk_file c (vw m) A cont \<Longrightarrow> owned w A = owned (vw m) A"
proof -
  have i': "i < sb_ninodes demo_S" using i by (simp add: word_less_nat_alt)
  show fr: "freeb demo_S w = freeb demo_S (vw m)"
    unfolding w_def by (rule put_dino_file(1) [OF mkfs_geo [OF c] i', of "vw m" "replicate 13 0"]) (simp add: wf_file_def empty_file)
  show o: "w b = vw m b" if "b \<notin> iblocks demo_S" for b using put_dino_other [OF i' that] by (simp add: w_def)
  show "mk_file c w A cont" "owned w A = owned (vw m) A" if "mk_file c (vw m) A cont"
    using mk_file_same [OF that, of w] o meta_not_owned(5) [OF that c] fr by auto
  have "length (vw m (IBLOCK i demo_S)) = 512" using m inode_block [OF i] by (auto simp: mk_ok_def vw_def)
  then show "unat j < 200 \<Longrightarrow> dino demo_S w j = (if j = i then d else dino demo_S (vw m) j)"
    using dino_put [of d "vw m" i demo_S j] d by (simp add: w_def)
qed

lemma mk_file_empty: "mk_file c v (replicate 13 0) []" "owned v (replicate 13 0) = {}"
  by (simp_all add: mk_file_def wf_file_def empty_file owned_def fbyte_def image_subset_iff)

lemma freeinode_inum: "unat (x :: uint) = Suc n \<Longrightarrow> x = inum_of n"
proof -
  assume "unat x = Suc n"
  then have "of_nat (unat x) = inum_of n" by simp
  then show "x = inum_of n" by simp
qed

lemma mk_img_new:
  assumes img: "mk_img c m F" and c: "larea c = log_area" and n: "length F < 199"
    and u: "mk_ok u" "vw u = put_dino demo_S (inum_of (length F)) d (vw m)" "freeblock u = freeblock m" "freeinode u = freeinode m + 1"
    and d: "d = \<lparr>di_type = type, di_major = 0, di_minor = 0, di_nlink = 1, di_size = 0, di_addrs = replicate 13 0\<rparr>"
  shows "mk_img c u (F @ [(type, [])])"
proof -
  let ?F = "F @ [(type, [])]"
  note im = mk_imgD [OF img]
  note k = inum_small(2) [OF n]
  have d13: "length (di_addrs d) = 13" by (simp add: d)
  note put = put_frame [OF im(1) k d13 c, folded u(2)]
  have dino: "dino demo_S (vw u) (inum_of j) = (if j = length F then d else dino demo_S (vw m) (inum_of j))" if "j \<le> length F" for j
    using put(2) [of "inum_of j"] inum_inj [of j "length F"] inum_small(2) [of j] that n by simp
  have nodes: "inode_is c (vw u) (inum_of j) (?F ! j)" if "j < Suc (length F)" for j
  proof (cases "j = length F")
    case True
    then show ?thesis using dino [of j] mk_file_empty by (simp add: inode_is_def d)
  next
    case False
    then have j: "j < length F" using that by simp
    then show ?thesis using inode_isD [OF im(5) [OF j]] put(4) dino [of j] by (simp add: inode_is_def nth_append)
  qed
  have own: "owned (vw u) (addrs_of (vw u) j) = (if j = length F then {} else owned (vw m) (addrs_of (vw m) j))" if "j < Suc (length F)" for j
    using dino [of j] that mk_file_empty(2) put(5) [OF inode_isD(4) [OF im(5)]] by (simp add: d)
  have disj: "owned (vw u) (addrs_of (vw u) i) \<inter> owned (vw u) (addrs_of (vw u) j) = {}" if "i < Suc (length F)" "j < Suc (length F)" "i \<noteq> j" for i j
    unfolding own [OF that(1)] own [OF that(2)] using im(6) [of i j] that by (simp add: less_Suc_eq) blast
  have high: "di_type (dino demo_S (vw u) x) = 0" if "unat x \<notin> {1..Suc (length F)}" "unat x < 200" for x
  proof -
    have "x \<noteq> inum_of (length F)" using that inum_small(1) [of "length F"] n by auto
    moreover have "unat x \<notin> {1..length F}" using that(1) by auto
    ultimately show ?thesis using put(2) [OF that(2)] im(7) [OF _ that(2)] by simp
  qed
  have "unat (freeinode u) = Suc (Suc (length F))"
    using im(2) n u(4) unat_of_nat_uint [of "Suc (Suc (length F))"] freeinode_inum [OF im(2)] by (simp add: add.commute)
  moreover have "b \<in> log_area \<union> {1} \<Longrightarrow> b \<notin> iblocks demo_S" for b by (auto simp: log_area_def dest: demo_iblocks)
  ultimately show ?thesis
    unfolding mk_img_def length_append_singleton using u(1,3) im(4,8,9) n nodes disj high put(1) by (simp add: blocks_of_def nblk_def)
qed

lemma mkfs_ialloc_wp:
  assumes img: "mk_img c m F" and c: "larea c = log_area" and n: "length F < 199"
    and Q: "\<And>t. mk_img c t (F @ [(type, [])]) \<Longrightarrow> Q (inum_of (length F)) t"
  shows "wpK (mkfs_ialloc type) Q m"
proof -
  note im = mk_imgD [OF img]
  let ?m = "m\<lparr>freeinode := freeinode m + 1\<rparr>"
  have fi: "freeinode m = inum_of (length F)" by (rule freeinode_inum [OF im(2)])
  have m: "mk_ok ?m" "vw ?m = vw m" using im(1) by (simp_all add: mk_ok_def vw_def)
  let ?d = "\<lparr>di_type = type, di_major = 0, di_minor = 0, di_nlink = 1, di_size = 0, di_addrs = replicate 13 0\<rparr>"
  have "wpK (winode (freeinode m) ?d) (\<lambda>_. Q (freeinode m)) ?m"
    unfolding fi
  proof (rule winode_wp [OF m(1) [unfolded fi] inum_small(2) [OF n]])
    fix t assume t: "mk_ok t" "vw t = put_dino demo_S (inum_of (length F)) ?d (vw (m\<lparr>freeinode := inum_of (length F) + 1\<rparr>))"
      "freeblock t = freeblock (m\<lparr>freeinode := inum_of (length F) + 1\<rparr>)" "freeinode t = freeinode (m\<lparr>freeinode := inum_of (length F) + 1\<rparr>)"
    show "Q (inum_of (length F)) t"
      by (rule Q, rule mk_img_new [OF img c n t(1) _ _ _ refl]) (use t m(2) fi in simp_all)
  qed simp
  then show ?thesis
    by (simp add: mkfs_ialloc_def)
qed

end
