(* ===== verification/Mkfsthms.thy ===== *)
theory Mkfsthms
  imports Mkfsimg
begin

text \<open>
  What \<^verbatim>\<open>mkfs\<close> leaves in the image: for every list of files that fits, the finished image is a consistent file system
  with each file under its name.
\<close>

section \<open>The files that are made\<close>

text \<open>What the calls of \<open>read\<close> give of a file, the entries of the root directory and all files, with the root directory first.\<close>

definition file_data :: "hostfile \<Rightarrow> uchar list" where
  "file_data f = concat (takeWhile (\<lambda>r. r \<noteq> []) (the (h_reads f)))"

definition root_names :: "hostfile list \<Rightarrow> uchar list list" where
  "root_names hs = [str ''.'', str ''..''] @ map (\<lambda>f. image_name (h_name f)) hs"

definition root_inum :: "nat \<Rightarrow> uint" where
  "root_inum k = (if k < 2 then 1 else of_nat k)"

definition root_data :: "hostfile list \<Rightarrow> uchar list" where
  "root_data hs = concat (map (\<lambda>k. mkfs_entry (root_inum k) (root_names hs ! k)) [0..<length hs + 2])"

definition all_files :: "hostfile list \<Rightarrow> (ushort \<times> uchar list) list" where
  "all_files hs = (T_DIR, root_data hs) # map (\<lambda>f. (T_FILE, file_data f)) hs"

definition copyable :: "hostfile list \<Rightarrow> bool" where
  "copyable hs \<longleftrightarrow> length hs \<le> 198 \<and> 59 + blocks_of (all_files hs) \<le> 1000 \<and>
     (\<forall>f\<in>set hs. SLASH \<notin> set (h_name f) \<and> h_reads f \<noteq> None \<and> length (file_data f) \<le> 71680)"

lemma length_mkfs_entry [simp]: "length (mkfs_entry i n) = 16"
  by (simp add: mkfs_entry_def dirent_bytes_def ushort_bytes_def DIRSIZ_def)

lemma root_data_append:
  "root_data (hs @ [f]) = root_data hs @ mkfs_entry (inum_of (Suc (length hs))) (image_name (h_name f))"
proof -
  have "map (\<lambda>k. mkfs_entry (root_inum k) (root_names (hs @ [f]) ! k)) [0..<length hs + 2] =
    map (\<lambda>k. mkfs_entry (root_inum k) (root_names hs ! k)) [0..<length hs + 2]"
    by (rule map_cong) (auto simp: root_names_def nth_append nth_Cons split: nat.splits)
  moreover have "root_names (hs @ [f]) ! (length hs + 2) = image_name (h_name f)" by (simp add: root_names_def nth_append)
  moreover have "[0..<length (hs @ [f]) + 2] = [0..<length hs + 2] @ [length hs + 2]" by simp
  moreover have "root_inum (length hs + 2) = inum_of (Suc (length hs))" by (simp add: root_inum_def)
  ultimately show ?thesis unfolding root_data_def by (simp only: map_append concat_append list.map concat.simps append_Nil2)
qed

lemma length_root_data [simp]: "length (root_data hs) = 16 * (length hs + 2)"
  by (simp add: root_data_def length_concat comp_def sum_list_triv)

lemma length_all_files [simp]: "length (all_files hs) = Suc (length hs)"
  by (simp add: all_files_def)

lemma all_files_append:
  "all_files (hs @ [f]) = ((all_files hs)[0 := (T_DIR, root_data (hs @ [f]))]) @ [(T_FILE, file_data f)]"
  by (simp add: all_files_def)

lemma blocks_of_append [simp]: "blocks_of (F @ G) = blocks_of F + blocks_of G"
  by (simp add: blocks_of_def)

lemma blocks_of_mono: "blocks_of (all_files hs) \<le> blocks_of (all_files (hs @ gs))"
proof -
  have "nblk (length (root_data hs)) \<le> nblk (length (root_data (hs @ gs)))" by (rule nblk_mono) simp
  then show ?thesis by (simp add: all_files_def blocks_of_def)
qed

section \<open>Copying\<close>

lemma append_reads_wp:
  assumes c: "larea c = log_area"
  shows "mk_img c m F \<Longrightarrow> i < length F \<Longrightarrow> G = F[i := (fst (F ! i), snd (F ! i) @ concat (takeWhile (\<lambda>r. r \<noteq> []) rs))] \<Longrightarrow>
    length (snd (G ! i)) \<le> 71680 \<Longrightarrow> 59 + blocks_of G \<le> 1000 \<Longrightarrow> (\<And>t. mk_img c t G \<Longrightarrow> Q () t) \<Longrightarrow> wpK (append_reads (inum_of i) rs) Q m"
proof (induction rs arbitrary: m F)
  case Nil
  then show ?case by simp
next
  case (Cons r rs)
  note i = Cons.prems(2) and G = Cons.prems(3) and room = Cons.prems(4,5)
  show ?case
  proof (cases "r = []")
    case True
    then show ?thesis using Cons.prems by simp
  next
    case False
    let ?F = "F[i := (fst (F ! i), snd (F ! i) @ r)]" and ?rs = "concat (takeWhile (\<lambda>r. r \<noteq> []) rs)"
    have G': "G = ?F[i := (fst (?F ! i), snd (?F ! i) @ ?rs)]" using G i False by simp
    have "blocks_of ?F \<le> blocks_of G"
      using blocks_of_upd [of i ?F "(fst (?F ! i), snd (?F ! i) @ ?rs)"] i nblk_mono [of "length (snd (?F ! i))" "length (snd (?F ! i) @ ?rs)"]
      unfolding G' by simp
    then have r: "59 + blocks_of ?F \<le> 1000" "length (snd (F ! i)) + length r \<le> 71680" using room G i False by simp_all
    have "wpK (iappend (inum_of i) r) (\<lambda>_. wpK (append_reads (inum_of i) rs) Q) m"
      by (rule iappend_wp [OF Cons.prems(1) c i r(2,1)], rule Cons.IH [OF _ _ G' room Cons.prems(6)]) (use i in simp_all)
    then show ?thesis using False by simp
  qed
qed

lemma add_file_wp:
  assumes img: "mk_img c m (all_files hs)" and c: "larea c = log_area" and n: "copyable (hs @ f # gs)"
    and Q: "\<And>t. mk_img c t (all_files (hs @ [f])) \<Longrightarrow> Q () t"
  shows "wpK (add_file 1 f) Q m"
proof -
  obtain rs where rs: "h_reads f = Some rs" using n by (auto simp: copyable_def)
  have len: "length hs < 198" "SLASH \<notin> set (h_name f)" "length (file_data f) \<le> 71680" using n by (auto simp: copyable_def)
  have room: "59 + blocks_of (all_files (hs @ [f])) \<le> 1000"
    using blocks_of_mono [of "hs @ [f]" gs] n by (simp add: copyable_def)
  let ?F = "all_files hs @ [(T_FILE, [])]" and ?e = "mkfs_entry (inum_of (Suc (length hs))) (image_name (h_name f))"
  let ?G = "?F[0 := (fst (?F ! 0), snd (?F ! 0) @ ?e)]"
  have G: "?G = (all_files hs)[0 := (T_DIR, root_data (hs @ [f]))] @ [(T_FILE, [])]"
    by (simp add: all_files_def root_data_append)
  have H: "all_files (hs @ [f]) = ?G[Suc (length hs) := (fst (?G ! Suc (length hs)), snd (?G ! Suc (length hs)) @ file_data f)]"
    unfolding G by (simp add: all_files_def root_data_append nth_append list_update_append)
  have b: "59 + blocks_of ?G \<le> 1000" using room by (simp add: G all_files_append blocks_of_def nblk_def all_files_def)
  have ap: "wpK (append_reads (inum_of (Suc (length hs))) rs) Q t" if "mk_img c t ?G" for t
  proof (rule append_reads_wp [where G = "all_files (hs @ [f])", OF c that])
    show "all_files (hs @ [f]) = ?G[Suc (length hs) := (fst (?G ! Suc (length hs)), snd (?G ! Suc (length hs)) @
      concat (takeWhile (\<lambda>r. r \<noteq> []) rs))]" using H by (simp add: file_data_def rs)
    show "length (snd (all_files (hs @ [f]) ! Suc (length hs))) \<le> 71680" using len by (simp add: all_files_def nth_append)
  qed (use room Q in simp_all)
  have "wpK (mkfs_ialloc T_FILE) (\<lambda>x. wpK (iappend 1 (mkfs_entry x (image_name (h_name f)))) (\<lambda>_. wpK (append_reads x rs) Q)) m"
  proof (rule mkfs_ialloc_wp [OF img c])
    fix t assume t: "mk_img c t ?F"
    have "wpK (iappend (inum_of 0) ?e) (\<lambda>_. wpK (append_reads (inum_of (Suc (length hs))) rs) Q) t"
      by (rule iappend_wp [OF t c _ _ b ap]) (use len in \<open>simp_all add: all_files_def\<close>)
    then show "wpK (iappend 1 (mkfs_entry (inum_of (length (all_files hs))) (image_name (h_name f))))
      (\<lambda>_. wpK (append_reads (inum_of (length (all_files hs))) rs) Q) t" by simp
  qed (use len in simp)
  then show ?thesis using len rs by (simp add: add_file_def) (erule wpK_mono, simp)
qed

lemma add_files_wp:
  assumes c: "larea c = log_area"
  shows "mk_img c m (all_files hs) \<Longrightarrow> copyable (hs @ gs) \<Longrightarrow> (\<And>t. mk_img c t (all_files (hs @ gs)) \<Longrightarrow> Q () t) \<Longrightarrow>
    wpK (add_files 1 gs) Q m"
proof (induction gs arbitrary: m hs)
  case Nil
  then show ?case by simp
next
  case (Cons f gs)
  have "wpK (add_file 1 f) (\<lambda>_. wpK (add_files 1 gs) Q) m"
  proof (rule add_file_wp [OF Cons.prems(1) c Cons.prems(2)], rule Cons.IH)
    show "copyable ((hs @ [f]) @ gs)" using Cons.prems(2) by simp
    show "Q () t" if "mk_img c t (all_files ((hs @ [f]) @ gs))" for t using Cons.prems(3) [of t] that by simp
  qed
  then show ?case by simp
qed

end
