(* ===== verification/Mkfsfin.thy ===== *)
theory Mkfsfin
  imports Mkfsthms
begin

text \<open>
  The empty image, the end of \<^verbatim>\<open>main\<close>, and the theorem on the finished image.
\<close>

section \<open>The empty image and the end\<close>

lemma zero_slice: "off + 64 \<le> 512 \<Longrightarrow> slice off 64 zeroes = replicate 64 0"
  by (simp add: slice_def zeroes_def)

lemma zero_dinode: "di_type (dinode_of (replicate 64 0)) = 0"
  by (simp add: dinode_of_def le_ushort_def slice_def)

lemma mkfs_init_wp:
  assumes m: "fs_len m = 0" "freeinode m = 1" and Q: "\<And>t. mk_img c t [] \<Longrightarrow> Q () t"
  shows "wpK mkfs_init Q m"
proof -
  define I where "I k t \<longleftrightarrow> fs_len t = k \<and> freeinode t = 1 \<and> freeblock t = 59 \<and> (\<forall>b. unat b < k \<longrightarrow> fsimg t b = zeroes)" for k and t :: mkfs
  have "wpK (for_range 0 1000 (\<lambda>i. wsect (of_nat i) zeroes)) (\<lambda>_. I 1000) (m\<lparr>freeblock := nmeta\<rparr>)"
  proof (rule wpK_for_range)
    fix k t assume k: "k < 1000" and t: "I k t"
    have u: "unat (of_nat k :: uint) = k" using k unat_of_nat_uint [of k] by simp
    have "((fsimg t)(of_nat k := zeroes)) b = zeroes" if "unat b < Suc k" for b
    proof (cases "unat b = k")
      case True
      then have "b = of_nat k" by auto
      then show ?thesis by simp
    next
      case False
      then show ?thesis using t that by (simp add: I_def)
    qed
    then show "wpK (wsect (of_nat k) zeroes) (\<lambda>_. I (Suc k)) t" using t u by (simp add: wsect_def I_def)
  qed (use m in \<open>simp_all add: I_def mkfs_layout\<close>)
  then show ?thesis
    unfolding mkfs_init_def wpK_thenK wpK_modK unat_consts
  proof (rule wpK_mono)
    fix x t assume "I 1000 t"
    then have t: "fs_len t = 1000" "freeinode t = 1" "freeblock t = 59" "\<And>b. unat b < 1000 \<Longrightarrow> fsimg t b = zeroes" by (auto simp: I_def)
    have ok: "mk_ok t" using t by (simp add: mk_ok_def zeroes_def word_less_nat_alt)
    show "wpK (wsect 1 (overwrite 0 (superblock_bytes mkfs_sb) zeroes)) Q t"
    proof (rule wsect_wp [OF ok])
      show "length (overwrite 0 (superblock_bytes mkfs_sb) zeroes) = 512"
        by (simp add: superblock_bytes_def zeroes_def uint_bytes_def)
      fix u assume u: "mk_ok u" "vw u = (vw t)(1 := overwrite 0 (superblock_bytes mkfs_sb) zeroes)" "freeblock u = freeblock t" "freeinode u = freeinode t"
      have zero: "vw u b = zeroes" if "unat b < 58" "2 \<le> unat b" for b
      proof -
        have "b \<noteq> 58" "b \<noteq> 1" using that by auto
        moreover have "fsimg t b = zeroes" using that t(4) by simp
        ultimately show ?thesis unfolding u(2) by (simp add: vw_def)
      qed
      have "di_type (dino demo_S (vw u) i) = 0" if "unat i < 200" for i
      proof -
        note b = inode_block [OF that]
        have "vw u (IBLOCK i demo_S) = zeroes" using b by (intro zero) simp_all
        then show ?thesis using inode_off_le [of i] by (simp add: dino_def zero_slice zero_dinode)
      qed
      moreover have "vw u b = zeroes" if "b \<in> log_area" for b
        using that by (intro zero) (simp_all add: log_area_def)
      ultimately show "Q () u" using u t by (intro Q) (simp add: mk_img_def blocks_of_def mkfs_layout)
    qed (use t in \<open>simp_all add: word_less_nat_alt\<close>)
  qed
qed

text \<open>The rounded size of the root directory.\<close>

definition root_size :: "hostfile list \<Rightarrow> nat" where
  "root_size hs = (16 * (length hs + 2) div 512 + 1) * 512"

lemma mkfs_finish_wp:
  assumes img: "mk_img c m (all_files hs)" and n: "length hs \<le> 198"
    and Q: "\<And>t. fsimg t = put_dino demo_S 1 ((dino demo_S (vw m) 1)\<lparr>di_size := of_nat (root_size hs)\<rparr>) (vw m) \<Longrightarrow> Q () t"
  shows "wpK (mkfs_finish 1) Q m"
proof -
  note im = mk_imgD [OF img]
  have f: "inode_is c (vw m) 1 (T_DIR, root_data hs)" using im(5) [of 0] by (simp add: all_files_def)
  note nd = inode_isD [OF f]
  let ?d = "dino demo_S (vw m) 1"
  have one: "unat (1 :: uint) < 200" by simp
  have sz: "(di_size ?d div BSIZE + 1) * BSIZE = of_nat (root_size hs)"
  proof -
    let ?q = "16 * (length hs + 2)"
    have d: "unat (of_nat ?q div BSIZE :: uint) = ?q div 512" by (rule off_arith(1)) (use n in simp)
    have "(of_nat ?q div BSIZE :: uint) = of_nat (?q div 512)" unfolding d [symmetric] by simp
    moreover have "(of_nat k + 1) * BSIZE = (of_nat ((k + 1) * 512) :: uint)" for k by (simp add: BSIZE_def algebra_simps)
    ultimately show ?thesis unfolding nd(3) snd_conv length_root_data root_size_def by metis
  qed
  show ?thesis
    unfolding mkfs_finish_def wpK_bindK [of "rinode 1"]
  proof (rule rinode_wp [OF im(1) one], unfold Let_def xint sz wpK_thenK, rule winode_wp [OF im(1) one])
    show "length (di_addrs (?d\<lparr>di_size := of_nat (root_size hs)\<rparr>)) = 13" using wf_fileD(1) [OF mk_fileD(1) [OF nd(4)]] by simp
    fix t assume t: "mk_ok t" "vw t = put_dino demo_S 1 (?d\<lparr>di_size := of_nat (root_size hs)\<rparr>) (vw m)"
    have "unat (freeblock t) \<le> 1000" using t(1) by (simp add: mk_ok_def)
    then have s: "sint (freeblock t) = int (unat (freeblock t))" by (intro small_sint) simp
    have "sint (freeblock t) < 4096" "nat (sint (freeblock t)) = unat (freeblock t)" unfolding s using \<open>unat (freeblock t) \<le> 1000\<close> by linarith+
    moreover have "Q () (t\<lparr>fsimg := (fsimg t)(58 := mkfs_bitmap (unat (freeblock t))), fs_len := x\<rparr>)" for x
      using t(2) by (intro Q) (simp add: vw_def)
    ultimately show "wpK (bindK (getK freeblock) mkfs_balloc) Q t"
      by (simp add: mkfs_balloc_def mkfs_layout wsect_def)
  qed
qed

lemma mkfs_main_wp:
  assumes hs: "copyable hs" and c: "larea c = log_area"
  shows "wpK (mkfs_main hs) (\<lambda>_ t. \<exists>m. mk_img c m (all_files hs) \<and>
    fsimg t = put_dino demo_S 1 ((dino demo_S (vw m) 1)\<lparr>di_size := of_nat (root_size hs)\<rparr>) (vw m)) mkfs_state"
proof -
  let ?Q = "\<lambda>_ t. \<exists>m. mk_img c m (all_files hs) \<and> fsimg t = put_dino demo_S 1 ((dino demo_S (vw m) 1)\<lparr>di_size := of_nat (root_size hs)\<rparr>) (vw m)"
  have n: "length hs \<le> 198" using hs by (simp add: copyable_def)
  let ?e1 = "mkfs_entry 1 (str ''.'')" and ?e2 = "mkfs_entry 1 (str ''..'')"
  have root: "all_files [] = [(T_DIR, ?e1 @ ?e2)]"
    by (simp add: all_files_def root_data_def root_names_def root_inum_def upt_rec)
  have files: "wpK (thenK (add_files 1 hs) (mkfs_finish 1)) ?Q t" if "mk_img c t (all_files [])" for t
    unfolding wpK_thenK
    by (rule add_files_wp [OF c that]) (use hs in \<open>auto intro!: mkfs_finish_wp [OF _ n]\<close>)
  have d2: "wpK (iappend 1 ?e2) (\<lambda>_. wpK (thenK (add_files 1 hs) (mkfs_finish 1)) ?Q) t" if "mk_img c t [(T_DIR, ?e1)]" for t
    using iappend_wp [OF that c, of 0 ?e2 "\<lambda>_. wpK (thenK (add_files 1 hs) (mkfs_finish 1)) ?Q"] files
    by (simp add: root blocks_of_def nblk_def)
  have d1: "wpK (iappend 1 ?e1) (\<lambda>_. wpK (iappend 1 ?e2) (\<lambda>_. wpK (thenK (add_files 1 hs) (mkfs_finish 1)) ?Q)) t" if "mk_img c t [(T_DIR, [])]" for t
    using iappend_wp [OF that c, of 0 ?e1 "\<lambda>_. wpK (iappend 1 ?e2) (\<lambda>_. wpK (thenK (add_files 1 hs) (mkfs_finish 1)) ?Q)"] d2
    by (simp add: blocks_of_def nblk_def)
  have "wpK mkfs_init (\<lambda>_. wpK (mkfs_ialloc T_DIR) (\<lambda>r u. r = 1 \<and> mk_img c u [(T_DIR, [])])) mkfs_state"
  proof (rule mkfs_init_wp)
    show "wpK (mkfs_ialloc T_DIR) (\<lambda>r u. r = 1 \<and> mk_img c u [(T_DIR, [])]) t" if "mk_img c t []" for t
      by (rule mkfs_ialloc_wp [OF that c]) simp_all
  qed (simp_all add: mkfs_state_def)
  note init = this
  have body: "wpK (if r \<noteq> ROOTINO then panic ''assert'' else
       thenK (iappend r (mkfs_entry r (str ''.''))) (thenK (iappend r (mkfs_entry r (str ''..''))) (thenK (add_files r hs) (mkfs_finish r)))) ?Q u"
    if "r = 1 \<and> mk_img c u [(T_DIR, [])]" for r u
    using d1 [of u] that by (simp add: ROOTINO_def) (erule wpK_mono, simp)
  have "wpK (thenK mkfs_init (bindK (mkfs_ialloc T_DIR) (\<lambda>r. if r \<noteq> ROOTINO then panic ''assert'' else
       thenK (iappend r (mkfs_entry r (str ''.''))) (thenK (iappend r (mkfs_entry r (str ''..''))) (thenK (add_files r hs) (mkfs_finish r)))))) ?Q mkfs_state"
    unfolding wpK_thenK by (rule wpK_mono [OF init]) (rule wpK_let, assumption, rule body)
  then show ?thesis by (simp add: mkfs_main_def)
qed

lemma mkfs_main_run:
  assumes "copyable hs" "larea c = log_area"
  obtains t m where "mkfs_main hs mkfs_state = Inr ((), t)" "mk_img c m (all_files hs)"
    "fsimg t = put_dino demo_S 1 ((dino demo_S (vw m) 1)\<lparr>di_size := of_nat (root_size hs)\<rparr>) (vw m)"
proof -
  from mkfs_main_wp [OF assms] obtain x t m where "mkfs_main hs mkfs_state = Inr (x, t)" "mk_img c m (all_files hs)"
    "fsimg t = put_dino demo_S 1 ((dino demo_S (vw m) 1)\<lparr>di_size := of_nat (root_size hs)\<rparr>) (vw m)"
    unfolding wpK_iff by blast
  then show thesis using that by simp
qed

section \<open>The finished image\<close>

lemma concat_nth:
  assumes "\<And>k. length (g k) = 16" "k < n" "j < 16"
  shows "concat (map g [0..<n]) ! (16 * k + j) = g k ! j"
  using assms(2)
proof (induction n)
  case (Suc n)
  have len: "length (concat (map g [0..<n])) = 16 * n" using assms(1) by (simp add: length_concat comp_def sum_list_triv)
  show ?case
  proof (cases "k = n")
    case True
    then show ?thesis using len by (simp add: nth_append)
  next
    case False
    then have "k < n" using Suc.prems by simp
    then show ?thesis using Suc.IH len assms(3) by (simp add: nth_append)
  qed
qed simp

text \<open>The entries of the root directory; those behind the last one are empty.\<close>

lemma root_dents:
  assumes f: "mk_file c v A (root_data hs)" and n: "length hs \<le> 198"
  shows "k < length hs + 2 \<Longrightarrow> dent v A k = \<lparr>de_inum = ucast (root_inum k), de_name = strncpy_l (root_names hs ! k) DIRSIZ\<rparr>"
    and "length hs + 2 \<le> k \<Longrightarrow> k < 1000 \<Longrightarrow> de_inum (dent v A k) = 0"
proof -
  have byte: "fbyte v A i = (if i < 16 * (length hs + 2) then root_data hs ! i else 0)" if "i < 71680" for i
    using mk_fileD(5) [OF f that] by simp
  show "dent v A k = \<lparr>de_inum = ucast (root_inum k), de_name = strncpy_l (root_names hs ! k) DIRSIZ\<rparr>" if k: "k < length hs + 2"
  proof -
    let ?e = "mkfs_entry (root_inum k) (root_names hs ! k)"
    have "map (fbyte v A) [16 * k..<16 * k + 16] = ?e"
    proof (rule nth_equalityI)
      fix j assume "j < length (map (fbyte v A) [16 * k..<16 * k + 16])"
      then have j: "j < 16" by simp
      have "root_data hs ! (16 * k + j) = ?e ! j" unfolding root_data_def by (rule concat_nth) (use k j in simp_all)
      then show "map (fbyte v A) [16 * k..<16 * k + 16] ! j = ?e ! j" using byte [of "16 * k + j"] j k n by simp
    qed simp
    then show ?thesis by (simp add: dent_def mkfs_entry_def dirent_roundtrip DIRSIZ_def xshort)
  qed
  show "de_inum (dent v A k) = 0" if "length hs + 2 \<le> k" "k < 1000"
  proof -
    have "map (fbyte v A) [16 * k..<16 * k + 16] = replicate 16 0"
      by (rule nth_equalityI) (use byte that in auto)
    then show ?thesis by (simp add: dent_def dirent_of_def slice_def le_ushort_def)
  qed
qed

lemma superblock_written: "superblock_of (overwrite 0 (superblock_bytes demo_S) zeroes) = demo_S"
  by code_simp

lemma root_inum_simps:
  assumes "k < 200"
  shows "ucast (root_inum k) \<noteq> (0 :: ushort)" "ucast (ucast (root_inum k) :: ushort) = root_inum k" "unat (root_inum k) = (if k < 2 then 1 else k)"
proof -
  show u: "unat (root_inum k) = (if k < 2 then 1 else k)" using assms unat_of_nat_uint [of k] by (simp add: root_inum_def)
  then have "unat (root_inum k) < 2 ^ 16" using assms by simp
  then show e: "ucast (ucast (root_inum k) :: ushort) = root_inum k"
    by (simp add: word_unat_eq_iff unsigned_ucast_eq unsigned_take_bit_eq take_bit_nat_eq_self)
  have "root_inum k \<noteq> 0" using u by (auto split: if_splits)
  then show "ucast (root_inum k) \<noteq> (0 :: ushort)" using e by auto
qed

lemma find_append_None: "find P ys = None \<Longrightarrow> find P (xs @ ys) = find P xs"
  by (induction xs) simp_all

lemma root_child:
  assumes f: "mk_file c v A (root_data hs)" and n: "length hs \<le> 198" and s: "length hs + 2 \<le> len" "len < 1000"
  shows "dir_inum v A len name =
    map_option root_inum (find (\<lambda>k. cname DIRSIZ name = cname DIRSIZ (root_names hs ! k)) [0..<length hs + 2])"
proof -
  note d = root_dents [OF f n]
  let ?P = "\<lambda>k. cname DIRSIZ name = cname DIRSIZ (root_names hs ! k)"
  have m: "dmatch v A name k \<longleftrightarrow> ?P k" if "k < length hs + 2" for k
    using d(1) [OF that] root_inum_simps(1) [of k] that n by (simp add: dmatch_def namecmp_zero)
  have "\<not> dmatch v A name k" if "length hs + 2 \<le> k" "k < len" for k using d(2) [of k] that s by (simp add: dmatch_def)
  then have "find (dmatch v A name) [length hs + 2..<len] = None" by (auto simp: find_None_iff)
  moreover have "find (dmatch v A name) [0..<length hs + 2] = find ?P [0..<length hs + 2]" by (rule find_cong) (use m in auto)
  moreover have "[0..<len] = [0..<length hs + 2] @ [length hs + 2..<len]" using s(1) by (metis le_add_diff_inverse upt_add_eq_append zero_le)
  ultimately have find: "dir_find v A len name = find ?P [0..<length hs + 2]"
    unfolding dir_find_def by (simp only: find_append_None)
  show ?thesis
  proof (cases "find ?P [0..<length hs + 2]")
    case (Some k)
    then have "k < length hs + 2" by (auto simp: find_Some_iff simp del: upt_Suc)
    then show ?thesis using Some find d(1) root_inum_simps(2) [of k] n by (simp add: dir_inum_def)
  qed (use find in \<open>simp add: dir_inum_def\<close>)
qed

lemma mkfs_nodes:
  assumes img: "mk_img c m (all_files hs)" and c: "larea c = log_area"
    and w: "w = put_dino demo_S 1 ((dino demo_S (vw m) 1)\<lparr>di_size := of_nat (root_size hs)\<rparr>) (vw m)"
  shows "dino demo_S w 1 = (dino demo_S (vw m) 1)\<lparr>di_size := of_nat (root_size hs)\<rparr>"
    "0 < i \<Longrightarrow> i \<le> length hs \<Longrightarrow> dino demo_S w (inum_of i) = dino demo_S (vw m) (inum_of i)"
    "i \<le> length hs \<Longrightarrow> mk_file c w (addrs_of w i) (snd (all_files hs ! i))"
    "i \<le> length hs \<Longrightarrow> owned w (addrs_of w i) = owned (vw m) (addrs_of (vw m) i)"
    "unat x \<notin> {1..Suc (length hs)} \<Longrightarrow> unat x < 200 \<Longrightarrow> di_type (dino demo_S w x) = 0"
    "b \<notin> iblocks demo_S \<Longrightarrow> w b = vw m b" "freeb demo_S w = freeb demo_S (vw m)"
proof -
  note im = mk_imgD [OF img]
  have n: "length hs < 199" using im(3) by simp
  have f: "mk_file c (vw m) (addrs_of (vw m) i) (snd (all_files hs ! i))" if "i \<le> length hs" for i
    using inode_isD(4) [OF im(5) [of i]] that by simp
  have one: "unat (1 :: uint) < 200" by simp
  have d13: "length (di_addrs ((dino demo_S (vw m) 1)\<lparr>di_size := of_nat (root_size hs)\<rparr>)) = 13"
    using wf_fileD(1) [OF mk_fileD(1) [OF f [of 0]]] by simp
  note put = put_frame [OF im(1) one d13 c, folded w]
  show r: "dino demo_S w 1 = (dino demo_S (vw m) 1)\<lparr>di_size := of_nat (root_size hs)\<rparr>" using put(2) [OF one] by simp
  show o: "dino demo_S w (inum_of i) = dino demo_S (vw m) (inum_of i)" if "0 < i" "i \<le> length hs" for i
    using put(2) [OF inum_small(2)] inum_inj [of i 0] that n by simp
  have a: "addrs_of w i = addrs_of (vw m) i" if "i \<le> length hs" for i
    using r o [of i] that by (cases "i = 0") simp_all
  show "mk_file c w (addrs_of w i) (snd (all_files hs ! i))" "owned w (addrs_of w i) = owned (vw m) (addrs_of (vw m) i)" if "i \<le> length hs"
    using put(4,5) [OF f [OF that]] a [OF that] by simp_all
  show "di_type (dino demo_S w x) = 0" if "unat x \<notin> {1..Suc (length hs)}" "unat x < 200"
  proof -
    have "x \<noteq> 1" using that(1) by auto
    then show ?thesis using put(2) [OF that(2)] im(7) that by simp
  qed
  show "b \<notin> iblocks demo_S \<Longrightarrow> w b = vw m b" "freeb demo_S w = freeb demo_S (vw m)" by (fact put)+
qed

lemma root_size:
  assumes "length hs \<le> 198"
  shows "unat (of_nat (root_size hs) :: uint) = root_size hs" "16 * (length hs + 2) \<le> root_size hs" "root_size hs \<le> 3584" "16 dvd root_size hs"
    "(length hs + 2) mod 32 \<noteq> 0 \<Longrightarrow> 512 * k < root_size hs \<Longrightarrow> 512 * k < 16 * (length hs + 2)" "length hs + 2 \<le> root_size hs div 16" "root_size hs div 16 < 1000"
proof -
  obtain q r where q: "root_size hs = 512 * q + 512" and l: "length hs + 2 = 32 * q + r" "r < 32"
  proof
    show "root_size hs = 512 * ((length hs + 2) div 32) + 512" unfolding root_size_def using div_mult_mult1 [of 16 "length hs + 2" 32] by simp
    show "length hs + 2 = 32 * ((length hs + 2) div 32) + (length hs + 2) mod 32" "(length hs + 2) mod 32 < 32" by simp_all
  qed
  have "q < 7" using l(1) assms by simp
  then show le: "root_size hs \<le> 3584" using q by simp
  then show "unat (of_nat (root_size hs) :: uint) = root_size hs" by (simp add: unat_of_nat_uint)
  show g: "16 * (length hs + 2) \<le> root_size hs" using q l by simp
  have "root_size hs = 16 * (32 * q + 32)" using q by simp
  then show "16 dvd root_size hs" by (rule dvdI)
  show "512 * k < 16 * (length hs + 2)" if "(length hs + 2) mod 32 \<noteq> 0" "512 * k < root_size hs"
  proof -
    have "r \<noteq> 0" using that(1) unfolding l(1) by auto
    moreover have "k < q + 1" using that(2) q by simp
    ultimately show ?thesis using l by simp
  qed
  have "root_size hs div 16 = 32 * q + 32" unfolding q by simp
  then show "length hs + 2 \<le> root_size hs div 16" "root_size hs div 16 < 1000" using l \<open>q < 7\<close> by linarith+
qed

text \<open>
  When the entries fill the last block of the root directory, the rounded size reaches into a block that the directory does not have.
\<close>

lemma mkfs_root_hole:
  assumes img: "mk_img c m (all_files hs)" and c: "larea c = log_area" and n: "(length hs + 2) mod 32 = 0" "length hs \<le> 198"
    and w: "w = put_dino demo_S 1 ((dino demo_S (vw m) 1)\<lparr>di_size := of_nat (root_size hs)\<rparr>) (vw m)"
  shows "\<exists>k<140. 512 * k < unat (di_size (dino demo_S w 1)) \<and> faddr w (di_addrs (dino demo_S w 1)) k = 0"
proof -
  note nd = mkfs_nodes [OF img c w]
  have root: "mk_file c w (di_addrs (dino demo_S w 1)) (root_data hs)" using nd(3) [of 0] by (simp add: all_files_def)
  obtain q where q: "length hs + 2 = 32 * q" using mult_div_mod_eq [of 32 "length hs + 2"] n(1) by auto
  have q': "16 * (length hs + 2) = 512 * q" unfolding q by simp
  have q140: "q < 140" using q n(2) by linarith
  have "root_size hs = 512 * q + 512" unfolding root_size_def q' by simp
  then have "512 * q < unat (di_size (dino demo_S w 1))" using nd(1) root_size(1) [OF n(2)] by simp
  moreover have "faddr w (di_addrs (dino demo_S w 1)) q = 0" using mk_fileD(3) [OF root q140] q' by simp
  ultimately show ?thesis using q140 by blast
qed

lemma mkfs_tree:
  assumes img: "mk_img c m (all_files hs)" and c: "larea c = log_area" and n: "(length hs + 2) mod 32 \<noteq> 0" "length hs \<le> 198"
    and w: "w = put_dino demo_S 1 ((dino demo_S (vw m) 1)\<lparr>di_size := of_nat (root_size hs)\<rparr>) (vw m)"
  shows "tree_ok demo_S c w"
proof -
  note im = mk_imgD [OF img] and nd = mkfs_nodes [OF img c w] and rs = root_size [OF n(2)]
  have node: "di_type (dino demo_S w (inum_of i)) = fst (all_files hs ! i)" "di_nlink (dino demo_S w (inum_of i)) = 1" if "i \<le> length hs" for i
    using nd(1) nd(2) [of i] inode_isD(1,2) [OF im(5) [of i]] that by (cases "i = 0"; simp)+
  have root: "mk_file c w (di_addrs (dino demo_S w 1)) (root_data hs)" using nd(3) [of 0] by (simp add: all_files_def)
  note de = root_dents [OF root n(2)]
  have ent: "ucast (de_inum (dent w (di_addrs (dino demo_S w 1)) k)) < sb_ninodes demo_S \<and>
      di_type (dino demo_S w (ucast (de_inum (dent w (di_addrs (dino demo_S w 1)) k)))) \<noteq> 0 \<and>
      di_nlink (dino demo_S w (ucast (de_inum (dent w (di_addrs (dino demo_S w 1)) k)))) \<noteq> 0"
    if k: "k < root_size hs div 16" "de_inum (dent w (di_addrs (dino demo_S w 1)) k) \<noteq> 0" for k
  proof -
    have k': "k < length hs + 2" using de(2) [of k] k rs(7) by linarith
    then have i: "ucast (de_inum (dent w (di_addrs (dino demo_S w 1)) k)) = root_inum k"
      using de(1) root_inum_simps(2) [of k] n(2) by simp
    let ?j = "if k < 2 then 0 else k - 1"
    have j: "root_inum k = inum_of ?j" "?j \<le> length hs" using k' by (auto simp: root_inum_def)
    have "di_type (dino demo_S w (inum_of ?j)) \<noteq> 0" "di_nlink (dino demo_S w (inum_of ?j)) \<noteq> 0"
      using node [OF j(2)] j(2) by (auto simp: all_files_def T_DIR_def T_FILE_def nth_Cons split: nat.splits if_splits)
    moreover have "root_inum k < 200" using root_inum_simps(3) [of k] k' n(2) by (auto simp: word_less_nat_alt)
    ultimately show ?thesis unfolding i j(1) by simp
  qed
  have "dnode_ok demo_S c w 1"
    unfolding dnode_ok_def Let_def
    using mk_fileD(1) [OF root] mk_fileD(3) [OF root] rs n(1) ent nd(1) node(2) [of 0] by simp
  moreover have "i = 1" if "i < 200" "di_type (dino demo_S w i) = T_DIR" for i
  proof (rule ccontr)
    assume ne: "i \<noteq> 1"
    have "unat i \<in> {1..Suc (length hs)}" using nd(5) [of i] that by (auto simp: T_DIR_def word_less_nat_alt)
    then obtain j where j: "unat i = Suc j" "j \<le> length hs" by (cases "unat i") auto
    have i: "i = inum_of j" by (rule freeinode_inum [OF j(1)])
    then have "0 < j" using ne by (cases j) auto
    then show False using node(1) [OF j(2)] that(2) j(2) i by (simp add: all_files_def T_DIR_def T_FILE_def)
  qed
  moreover have "58 \<notin> iblocks demo_S" by (auto dest: demo_iblocks)
  then have "bitmap_ok demo_S c w" using bitmap_vw [OF im(1) c] nd(7) nd(6) [of 58] by (simp add: bitmap_ok_def)
  ultimately show ?thesis
    using mkfs_geo [OF c] node [of 0] unfolding tree_ok_def by (auto simp: ROOTINO_def all_files_def T_DIR_def word_less_nat_alt)
qed

lemma mkfs_file:
  assumes img: "mk_img c m (all_files hs)" and c: "larea c = log_area"
    and w: "w = put_dino demo_S 1 ((dino demo_S (vw m) 1)\<lparr>di_size := of_nat (root_size hs)\<rparr>) (vw m)" and i: "i < length hs"
  defines "d \<equiv> dino demo_S w (of_nat (i + 2))"
  shows "di_type d = T_FILE" "di_nlink d = 1" "unat (di_size d) = length (file_data (hs ! i))" "mk_file c w (di_addrs d) (file_data (hs ! i))"
    "fdata w (di_addrs d) (unat (di_size d)) = file_data (hs ! i)"
proof -
  have e: "(of_nat (i + 2) :: uint) = inum_of (Suc i)" by simp
  have g: "all_files hs ! Suc i = (T_FILE, file_data (hs ! i))" using i by (simp add: all_files_def)
  note im = mk_imgD [OF img] and nd = mkfs_nodes [OF img c w]
  have k: "inode_is c (vw m) (inum_of (Suc i)) (T_FILE, file_data (hs ! i))" using im(5) [of "Suc i"] i g by simp
  have dd: "d = dino demo_S (vw m) (inum_of (Suc i))" unfolding d_def e using nd(2) [of "Suc i"] i by simp
  show f: "mk_file c w (di_addrs d) (file_data (hs ! i))" using nd(3) [of "Suc i"] i g unfolding d_def e by simp
  note n = inode_isD [OF k, folded dd, simplified]
  show "di_type d = T_FILE" "di_nlink d = 1" by (fact n)+
  show sz: "unat (di_size d) = length (file_data (hs ! i))" using mk_fileD(2) [OF f] n(3) by (simp add: unat_of_nat_uint)
  show "fdata w (di_addrs d) (unat (di_size d)) = file_data (hs ! i)" unfolding sz
    by (rule nth_equalityI) (use mk_fileD(2,5) [OF f] in \<open>simp_all add: fdata_def\<close>)
qed

lemma mkfs_child:
  assumes img: "mk_img c m (all_files hs)" and c: "larea c = log_area" and n: "length hs \<le> 198"
    and w: "w = put_dino demo_S 1 ((dino demo_S (vw m) 1)\<lparr>di_size := of_nat (root_size hs)\<rparr>) (vw m)"
  shows "child demo_S w ROOTINO name =
    map_option root_inum (find (\<lambda>k. cname DIRSIZ name = cname DIRSIZ (root_names hs ! k)) [0..<length hs + 2])"
proof -
  note nd = mkfs_nodes [OF img c w] and rs = root_size [OF n]
  have root: "mk_file c w (di_addrs (dino demo_S w 1)) (root_data hs)" using nd(3) [of 0] by (simp add: all_files_def)
  have "unat (di_size (dino demo_S w 1)) = root_size hs" using nd(1) rs(1) by simp
  then show ?thesis unfolding child_def ROOTINO_def using root_child [OF root n rs(6,7)] by simp
qed

lemma mkfs_tree_iff:
  assumes img: "mk_img c m (all_files hs)" and c: "larea c = log_area" and n: "length hs \<le> 198"
    and w: "w = put_dino demo_S 1 ((dino demo_S (vw m) 1)\<lparr>di_size := of_nat (root_size hs)\<rparr>) (vw m)"
  shows "tree_ok demo_S c w \<longleftrightarrow> (length hs + 2) mod 32 \<noteq> 0"
proof (cases "(length hs + 2) mod 32 = 0")
  case True
  have "di_type (dino demo_S w 1) = T_DIR"
    using mkfs_nodes(1) [OF img c w] inode_isD(1) [OF mk_imgD(5) [OF img, of 0]] by (simp add: all_files_def)
  moreover have "\<not> dnode_ok demo_S c w 1" using mkfs_root_hole [OF img c True n w] by (auto simp: dnode_ok_def Let_def)
  moreover have "1 < sb_ninodes demo_S" by (simp add: word_less_nat_alt)
  ultimately show ?thesis using True by (auto simp: tree_ok_def)
qed (use mkfs_tree [OF img c _ n w] in simp)

text \<open>
  C6: what \<^verbatim>\<open>mkfs\<close> makes of the files it is given. For every list of files that can be opened,
  have no slash in their names, are at most 198, fit into a file each and together into the blocks of the disk,
  the program runs to its end without a failed assertion. The image has the superblock that the
  kernel reads and an empty log; the number of blocks that
  the bitmap marks as used is the number of the blocks before the data and of those that the files need; file \<open>i\<close> is inode \<open>i + 2\<close>,
  with one link, its size and exactly the bytes that were read; no two inodes share a block; and a name is found in the root directory
  exactly when it is a dot, two dots or the name of a file, up to 14 characters, where the first file with the name counts. The
  image is a consistent tree of directories, the one on which \<open>namei\<close> works, exactly if the number of entries of the root directory is not a multiple of 32: otherwise
  the rounded size of the root directory covers a block that it does not have.
\<close>

theorem mkfs_image:
  assumes hs: "copyable hs" and c: "larea c = log_area"
  shows "\<exists>t. mkfs_main hs mkfs_state = Inr ((), t) \<and> superblock_of (fsimg t 1) = mkfs_sb \<and> (\<forall>b\<in>log_area. fsimg t b = zeroes) \<and>
    (tree_ok mkfs_sb c (fsimg t) \<longleftrightarrow> (length hs + 2) mod 32 \<noteq> 0) \<and>
    freeb mkfs_sb (fsimg t) = {b. 59 + blocks_of (all_files hs) \<le> unat b \<and> unat b < 1000} \<and>
    (\<forall>i<length hs. let d = dino mkfs_sb (fsimg t) (of_nat (i + 2)) in di_type d = T_FILE \<and> di_nlink d = 1 \<and>
       unat (di_size d) = length (file_data (hs ! i)) \<and> fdata (fsimg t) (di_addrs d) (unat (di_size d)) = file_data (hs ! i)) \<and>
    (\<forall>i\<in>{1..length hs + 1}. \<forall>j\<in>{1..length hs + 1}. i \<noteq> j \<longrightarrow>
       owned (fsimg t) (di_addrs (dino mkfs_sb (fsimg t) (of_nat i))) \<inter> owned (fsimg t) (di_addrs (dino mkfs_sb (fsimg t) (of_nat j))) = {}) \<and>
    (\<forall>name. child mkfs_sb (fsimg t) ROOTINO name =
       map_option root_inum (find (\<lambda>k. cname DIRSIZ name = cname DIRSIZ (root_names hs ! k)) [0..<length hs + 2]))"
proof -
  have len: "length hs \<le> 198" using hs by (simp add: copyable_def)
  obtain t m where run: "mkfs_main hs mkfs_state = Inr ((), t)" and img: "mk_img c m (all_files hs)"
    and w: "fsimg t = put_dino demo_S 1 ((dino demo_S (vw m) 1)\<lparr>di_size := of_nat (root_size hs)\<rparr>) (vw m)"
    by (rule mkfs_main_run [OF hs c])
  note im = mk_imgD [OF img] and nd = mkfs_nodes [OF img c w]
  have low: "b \<notin> iblocks demo_S" if "b \<in> log_area \<union> {1}" for b using that by (auto simp: log_area_def dest: demo_iblocks)
  have "superblock_of (fsimg t 1) = demo_S" using nd(6) [of 1] low [of 1] im(8) superblock_written by simp
  moreover have "\<forall>b\<in>log_area. fsimg t b = zeroes" using nd(6) low im(9) by simp
  moreover have "freeb demo_S (fsimg t) = {b. 59 + blocks_of (all_files hs) \<le> unat b \<and> unat b < 1000}"
    unfolding nd(7) freeb_vw [OF im(1)] by (simp add: word_le_nat_alt word_less_nat_alt im(4))
  moreover have "let d = dino demo_S (fsimg t) (of_nat (i + 2)) in di_type d = T_FILE \<and> di_nlink d = 1 \<and>
       unat (di_size d) = length (file_data (hs ! i)) \<and> fdata (fsimg t) (di_addrs d) (unat (di_size d)) = file_data (hs ! i)"
    if "i < length hs" for i using mkfs_file [OF img c w that] by (simp add: Let_def)
  moreover have "owned (fsimg t) (di_addrs (dino demo_S (fsimg t) (of_nat i))) \<inter> owned (fsimg t) (di_addrs (dino demo_S (fsimg t) (of_nat j))) = {}"
    if "i \<in> {1..length hs + 1}" "j \<in> {1..length hs + 1}" "i \<noteq> j" for i j
  proof -
    have ab: "i = Suc (i - 1)" "j = Suc (j - 1)" "i - 1 \<le> length hs" "j - 1 \<le> length hs" "i - 1 \<noteq> j - 1" using that by auto
    have "owned (fsimg t) (addrs_of (fsimg t) (i - 1)) \<inter> owned (fsimg t) (addrs_of (fsimg t) (j - 1)) = {}"
      unfolding nd(4) [OF ab(3)] nd(4) [OF ab(4)] by (rule im(6)) (use ab(3-5) in simp_all)
    then show ?thesis unfolding ab(1,2) [symmetric] .
  qed
  moreover note mkfs_child [OF img c len w]
  moreover note mkfs_tree_iff [OF img c len w]
  ultimately show ?thesis unfolding mkfs_layout using run by blast
qed

definition demo_files :: "hostfile list" where
  "demo_files = [\<lparr>h_name = str ''README'', h_reads = Some [str ''hello'', str '' world'', []]\<rparr>,
     \<lparr>h_name = str ''_init'', h_reads = Some [str ''code'']\<rparr>]"

theorem mkfs_image_witness:
  "\<exists>t. mkfs_main demo_files mkfs_state = Inr ((), t) \<and> child mkfs_sb (fsimg t) ROOTINO (str ''init'') = Some 3 \<and>
    fdata (fsimg t) (di_addrs (dino mkfs_sb (fsimg t) 2)) 11 = str ''hello world''"
proof -
  have d: "length demo_files = 2" "file_data (demo_files ! 0) = str ''hello world''" "demo_files \<noteq> []"
    by (simp_all add: demo_files_def file_data_def str_def)
  have cp: "copyable demo_files"
    unfolding copyable_def by (simp add: demo_files_def all_files_def blocks_of_def file_data_def nblk_def SLASH_def str_def)
  have names: "find (\<lambda>k. cname DIRSIZ (str ''init'') = cname DIRSIZ (root_names demo_files ! k)) [0..<length demo_files + 2] = Some 3"
    unfolding d by (simp add: upt_rec root_names_def demo_files_def image_name_def str_def DIRSIZ_def cname_def)
  have len: "length (str ''hello world'') = 11" by (simp add: str_def)
  have r: "root_inum 3 = 3" by (simp add: root_inum_def)
  have c: "larea (fctx (demo_fsys demo_icache)) = log_area" by (simp add: demo_fs log_area_def)
  from mkfs_image [OF cp c] show ?thesis
  proof (elim exE conjE)
    fix t assume run: "mkfs_main demo_files mkfs_state = Inr ((), t)"
      and files: "\<forall>i<length demo_files. let d = dino mkfs_sb (fsimg t) (of_nat (i + 2)) in di_type d = T_FILE \<and> di_nlink d = 1 \<and>
        unat (di_size d) = length (file_data (demo_files ! i)) \<and> fdata (fsimg t) (di_addrs d) (unat (di_size d)) = file_data (demo_files ! i)"
      and found: "\<forall>name. child mkfs_sb (fsimg t) ROOTINO name =
        map_option root_inum (find (\<lambda>k. cname DIRSIZ name = cname DIRSIZ (root_names demo_files ! k)) [0..<length demo_files + 2])"
    have "child mkfs_sb (fsimg t) ROOTINO (str ''init'') = Some 3" using found names r by simp
    moreover have "fdata (fsimg t) (di_addrs (dino mkfs_sb (fsimg t) 2)) 11 = str ''hello world''"
      using spec [OF files, of 0] d len by (simp add: Let_def) metis
    ultimately show ?thesis using run by blast
  qed
qed

end
