(* ===== verification/Mkboot.thy ===== *)
theory Mkboot
  imports Mkfsfin
begin

text \<open>
  The image that \<^verbatim>\<open>mkfs\<close> makes and the kernel that starts on it: the part of \<^verbatim>\<open>main\<close> that brings up the file
  system, and the theorem that a file copied into the image is found and read by the kernel.
\<close>

section \<open>Bringing up the file system\<close>

definition fs_boot :: "('z kfs_scheme, unit) kern" where
  "fs_boot =
     thenK (thenK binit sti) (
     thenK (iinit ROOTDEV)
     (initlog ROOTDEV))"

lemma fold_emit_ports: "\<exists>p q. fold emit xs s = s\<lparr>ports := p, uart_tx := q\<rparr>" for s :: "'z kcon_scheme"
proof (induction xs arbitrary: s)
  case Nil
  show ?case by (intro exI [of _ "ports s"] exI [of _ "uart_tx s"]) simp
next
  case (Cons x xs)
  have "s = s\<lparr>ports := ports s, uart_tx := uart_tx s\<rparr>" by simp
  then obtain p q where "emit x s = s\<lparr>ports := p, uart_tx := q\<rparr>" unfolding emit_def by metis
  then show ?case using Cons [of "emit x s"] by auto
qed

lemma cprintf_bst:
  fixes s :: "'z kcon_scheme"
  assumes st: "bst v D H d W r s" and f: "fmt_ok f args"
  shows "wpK (cprintf (Some f) args) (\<lambda>_ t. bst v D H d W (rest t) t \<and> (\<exists>q. rest t = rest (s\<lparr>uart_tx := q\<rparr>))) s"
proof -
  obtain xs where xs: "\<forall>s :: 'z kcon_scheme. cprintf_loop f args s = Inr ((), fold emit xs s)"
    using cprintf_loop_prints [OF f] by blast
  have io: "io_ok s" using st by (simp add: bst_def bc_def)
  then have "cpu_wf s" by (simp add: io_ok_def cpu_wf_def)
  from cprintf_prints [OF xs this] obtain p q where run: "cprintf (Some f) args s = Inr ((), (settle s)\<lparr>ports := p, uart_tx := q\<rparr>)"
    using fold_emit_ports [of xs "settle s"] by auto
  let ?t = "(settle s)\<lparr>ports := p, uart_tx := q\<rparr>"
  have "bc v D H ?t = bc v D H s" by (simp add: settle_def bc_def lru_def io_ok_def ide_ready_def holds_def is_block_def)
  moreover have "rest ?t = rest (s\<lparr>uart_tx := q\<rparr>)" by (cases s) (simp add: rest_def settle_def)
  ultimately show ?thesis using st run by (auto simp: wpK_iff bst_def settle_def)
qed

text \<open>The superblock can be printed: none of its numbers is the most negative one.\<close>

definition sb_prints :: "superblock \<Rightarrow> bool" where
  "sb_prints S \<longleftrightarrow> 0x80000000 \<notin> {sb_size S, sb_nblocks S, sb_ninodes S, sb_nlog S, sb_logstart S, sb_inodestart S, sb_bmapstart S}"

lemma iinit_bst:
  fixes s :: "'z kfs_scheme"
  assumes st: "bst v D H d W r s" and fr: "free_refs D H" and pr: "sb_prints (superblock_of (v 1))"
  shows "wpK (iinit ROOTDEV) (\<lambda>_ t. bst v D H d W (rest t) t \<and> (\<exists>q. rest t = rest (s\<lparr>sb := superblock_of (v 1), uart_tx := q\<rparr>))) s"
  unfolding iinit_def
proof (rule wpK_let [OF readsb_run [OF st fr]], elim conjE)
  fix S t assume S: "S = superblock_of (v 1)" and t: "bst v D H d W r t"
  let ?t = "t\<lparr>sb := S\<rparr>"
  have "bc v D H ?t = bc v D H t" by (simp add: bc_def lru_def io_ok_def ide_ready_def holds_def is_block_def)
  then have t': "bst v D H d W (rest ?t) ?t" using t by (simp add: bst_def)
  have "rest t = rest s" using t st by (simp add: bst_def)
  then have e: "rest (?t\<lparr>uart_tx := q\<rparr>) = rest (s\<lparr>sb := S, uart_tx := q\<rparr>)" for q
    by (cases s; cases t) (simp add: rest_def)
  show "wpK (thenK (modK (\<lambda>s. s\<lparr>sb := S\<rparr>))
     (cprintf (Some (str ''sb: size %d nblocks %d ninodes %d nlog %d logstart %d inodestart %d bmap start %d'' @ [0x0a]))
       [CInt (sb_size S), CInt (sb_nblocks S), CInt (sb_ninodes S), CInt (sb_nlog S), CInt (sb_logstart S),
        CInt (sb_inodestart S), CInt (sb_bmapstart S)]))
     (\<lambda>_ t. bst v D H d W (rest t) t \<and> (\<exists>q. rest t = rest (s\<lparr>sb := superblock_of (v 1), uart_tx := q\<rparr>))) t"
    unfolding wpK_thenK wpK_modK S [symmetric] e [symmetric]
    by (rule cprintf_bst [OF t']) (use pr S in \<open>simp add: str_def sb_prints_def\<close>)
qed

lemma fs_boot_run:
  fixes s :: "'z kfs_scheme"
  assumes cold: "cold d s" and len: "\<And>n. n < FSSIZE \<Longrightarrow> length (d n) = 512"
    and l: "log_geom l" "sb_on d l" "hdr_ok l (d (log_start l))" and pr: "sb_prints (superblock_of (d 1))"
  shows "\<exists>t. fs_boot s = Inr ((), t) \<and> lblk (recovered l d) [] (\<lambda>_. 0) t \<and> sb t = superblock_of (d 1) \<and> icache t = icache s \<and>
    same_geom (lg t) l"
proof -
  have fr: "free_refs {} (\<lambda>_. 0)" by (simp add: free_refs_def pinned_def NBUF_def)
  have "io_ok (s\<lparr>eflags_if := True\<rparr>)"
    using cold by (simp add: cold_def io_ok_def ide_ready_def)
  then obtain t where t: "thenK binit sti s = Inr ((), t)" "bc d {} (\<lambda>_. 0) t" "disk t = disk s"
      "dwrites t = dwrites s" "blk_frame (s\<lparr>eflags_if := True\<rparr>) t"
    using binit_bc [of s] cold len by (auto simp: cold_def)
  then have st: "bst d {} (\<lambda>_. 0) d (dwrites s) (rest t) t"
    using cold by (simp add: bst_def cold_def)
  have rt: "rest t = rest s" using blk_frame_rest [OF t(5)] by (simp add: rest_def)
  obtain w q where w: "iinit ROOTDEV t = Inr ((), w)" "bst d {} (\<lambda>_. 0) d (dwrites s) (rest w) w"
    "rest w = rest (t\<lparr>sb := superblock_of (d 1), uart_tx := q\<rparr>)"
    using iinit_bst [OF st fr pr] by (auto simp: wpK_iff)
  let ?l = "sb_log (superblock_of (d 1)) (lg w)"
  have g: "same_geom ?l l" using l by (simp add: same_geom_def sb_log_def sb_on_def log_geom_def)
  note eq = same_geom_facts [OF g]
  have h: "log_geom ?l" "hdr_ok ?l (d (log_start ?l))" using l by (simp_all add: eq)
  obtain u where u: "initlog ROOTDEV w = Inr ((), u)"
    "bst (recovered l d) {} (\<lambda>_. 0) (recovered l d) (dwrites s @ on_disk (recover_trace l d)) (rest (w\<lparr>lg := lg u\<rparr>)) u"
    "log_rep [] (lg u)" "lg u = ?l\<lparr>lh_n := 0, lh_block := lh_block (lg u)\<rparr>"
    using initlog_run [OF w(2) refl h] by (auto simp: wpK_iff eq recovered_def)
  have g': "same_geom (lg u) l" by (subst u(4)) (use g in \<open>simp add: same_geom_def\<close>)
  have "lblk (recovered l d) [] (\<lambda>_. 0) u"
    using u(2,3) same_geom_facts [OF g'] l(1) by (auto simp: lblk_def bst_def log_fits_def log_geom_def)
  moreover have "sb u = superblock_of (d 1)" "icache u = icache s"
  proof -
    have "rest u = rest (w\<lparr>lg := lg u\<rparr>)" using u(2) by (simp add: bst_def)
    with w(3) rt show "sb u = superblock_of (d 1)" "icache u = icache s"
      by (cases s; cases t; cases w; cases u; simp add: rest_def)+
  qed
  ultimately show ?thesis using t(1) w(1) u(1) g' by (intro exI [of _ u]) (simp add: fs_boot_def)
qed

section \<open>Starting on the image\<close>

text \<open>The log of the image is empty, so that recovery leaves the image as it is.\<close>

lemma zero_header: "hdr_list zeroes = []" "hdr_ok demo_log zeroes" "hdr zeroes [] = zeroes"
proof -
  have z: "get_uint 0 zeroes = 0" by (simp add: get_uint_def le_uint_def slice_def zeroes_def)
  then show "hdr_list zeroes = []" by (simp add: hdr_list_def)
  then show "hdr_ok demo_log zeroes" using z by (simp add: hdr_ok_def log_fits_def demo_log_def)
  show "hdr zeroes [] = zeroes" by code_simp
qed

lemma recovered_zero: "d 2 = zeroes \<Longrightarrow> recovered demo_log d = d"
  using zero_header by (simp add: recovered_def recover_trace_def demo_log_def Let_def apply_writes_def fun_upd_idem)

lemma mkfs_boots:
  assumes img: "mk_img c m (all_files hs)" and w: "w = put_dino demo_S 1 ((dino demo_S (vw m) 1)\<lparr>di_size := of_nat (root_size hs)\<rparr>) (vw m)"
    and c: "larea c = log_area"
  shows "\<exists>t. fs_boot (kstart w pm) = Inr ((), t) \<and> fs demo_S (fctx t) w [] (\<lambda>_. 0) (\<lambda>_. nil_inode) t \<and>
    larea (fctx t) = log_area \<and> fsblk.budget [] (\<lambda>_. 0) (fctx t) 6"
proof -
  note im = mk_imgD [OF img] and nd = mkfs_nodes [OF img c w]
  have low: "b \<notin> iblocks demo_S" if "b \<in> log_area \<union> {1}" for b using that by (auto simp: log_area_def dest: demo_iblocks)
  have sb: "superblock_of (w 1) = demo_S" using nd(6) [of 1] low [of 1] im(8) superblock_written by simp
  have two: "w 2 = zeroes" using nd(6) [of 2] low [of 2] im(9) [of 2] by (simp add: log_area_def)
  have len: "length (w n) = 512" if "n < FSSIZE" for n
    unfolding w
  proof (rule put_dino_length)
    show "length (di_addrs ((dino demo_S (vw m) 1)\<lparr>di_size := of_nat (root_size hs)\<rparr>)) = 13"
      using wf_fileD(1) [OF mk_fileD(1) [OF inode_isD(4) [OF im(5) [of 0]]]] by simp
    have "n < 1000" using that by (simp add: FSSIZE_def)
    then show "length (vw m n) = 512" using im(1) by (simp add: mk_ok_def vw_def)
  qed
  have on: "sb_on w demo_log" by (simp add: sb_on_def sb demo_S_def demo_log_def)
  have h: "hdr_ok demo_log (w (log_start demo_log))" using zero_header(2) two by (simp add: demo_log_def)
  have pr: "sb_prints (superblock_of (w 1))" by (simp add: sb sb_prints_def demo_S_def)
  obtain t where t: "fs_boot (kstart w pm) = Inr ((), t)" "lblk (recovered demo_log w) [] (\<lambda>_. 0) t" "sb t = superblock_of (w 1)"
    "icache t = icache (kstart w pm)" "same_geom (lg t) demo_log"
    using fs_boot_run [OF kstart_cold len demo_geom(1) on h pr] by blast
  have g: "log_start (lg t) = 2" "log_size (lg t) = 30" using t(5) by (simp_all add: same_geom_def demo_log_def)
  have ca: "larea (fctx t) = log_area" "lcap (fctx t) = 30"
    unfolding fctx_caps log_area_def by (simp_all add: larea_def lcap_def lctx_def g)
  have "fs demo_S (fctx t) w [] (\<lambda>_. 0) (\<lambda>_. nil_inode) t"
    using t(2-4) sb recovered_zero [of w] two by (simp add: fs_def kstart_def)
  moreover have "fsblk.budget [] (\<lambda>_. 0) (fctx t) 6" by (simp add: fsblk.budget_def ca pinned_def NBUF_def)
  ultimately show ?thesis using t(1) ca(1) by blast
qed

lemma single_elem:
  assumes "name \<noteq> []" "SLASH \<notin> set name" "0 \<notin> set name"
  shows "path_elems name = [cname DIRSIZ name]"
proof -
  have "dropWhile (\<lambda>c. c = SLASH) name = name" using assms(1,2) by (cases name) auto
  moreover have "takeWhile (\<lambda>c. c \<noteq> SLASH) name = name" "dropWhile (\<lambda>c. c \<noteq> SLASH) name = []" using assms(2) by auto
  moreover have "cname DIRSIZ name = take DIRSIZ name"
    using assms(3) by (auto simp: cname_def takeWhile_eq_all_conv dest: in_set_takeD)
  ultimately show ?thesis by (subst path_elems.simps) (simp only: Let_def assms(1) if_False path_elems_Nil)
qed

text \<open>The first entry with the name of a file.\<close>

lemma find_first:
  assumes "P i" "i < n" "\<And>k. k < i \<Longrightarrow> \<not> P k"
  shows "find P [0..<n] = Some i"
  using assms by (auto simp: find_Some_iff intro!: exI [of _ i] simp del: upt_Suc)

text \<open>A regular file of a consistent file system is found, loaded and read.\<close>

lemma namei_read_wp:
  assumes tr: "tree_ok S c v" and s: "fs S c v L H (\<lambda>_. nil_inode) s" and bud: "fsblk.budget L H c 6" and path: "0 \<notin> set path"
    and r: "resolve S v ROOTINO (path_elems path) = Some n" and d: "d = dino S v n" "n < sb_ninodes S"
    and ty: "di_type d \<noteq> 0" "di_type d \<noteq> T_DEV" and link: "1 \<le> sint (di_nlink d)" and sz: "unat (di_size d) \<le> 71680"
    and f: "wf_file S c v (di_addrs d)" "\<And>k. 512 * k < unat (di_size d) \<Longrightarrow> faddr v (di_addrs d) k \<noteq> 0"
  shows "\<exists>ip t u w. namei devsw path s = Inr (Some ip, t) \<and> iread (Some ip) t = Inr ((), u) \<and>
    readi devsw ip 0 (di_size d) u = Inr ((int (unat (di_size d)), fdata v (di_addrs d) (unat (di_size d))), w)"
proof -
  have nil: "icoh S v (\<lambda>_. nil_inode)" by (simp add: icoh_def nil_inode_def)
  have act: "card (active (\<lambda>_. nil_inode)) + 2 \<le> 50" by (simp add: active_def iref_def islot_def nil_inode_def)
  have "wpK (namei devsw path) (\<lambda>r t. \<exists>J. fs S c v L H J t \<and> icoh S v J \<and> found (\<lambda>_. nil_inode) J (Some n) r) s"
    by (rule namei_wp [OF tr nil act bud s path]) (use r in auto)
  then obtain ip t J where t: "namei devsw path s = Inr (Some ip, t)" "fs S c v L H J t" "icoh S v J" "ip < 50" "0 < i_ref (J ip)" "i_inum (J ip) = n"
    by (auto simp: wpK_iff found_def)
  note g = tr [unfolded tree_ok_def, THEN conjunct1] and bm = tr [unfolded tree_ok_def, THEN conjunct2, THEN conjunct1]
  have dev: "i_dev (J ip) = ROOTDEV" by (rule icohD(2) [OF t(3-5)])
  let ?I = "J(ip := loaded S v (J ip))"
  have "to_dinode (?I ip) = d"
    using loaded_coh(3) [OF t(3-5)] t(6) d(1) by simp
  then have fields: "i_type (?I ip) = di_type d" "i_nlink (?I ip) = di_nlink d" "i_size (?I ip) = di_size d" "i_addrs (?I ip) = di_addrs d"
    by (auto simp: to_dinode_def)
  have keep: "i_dev (?I ip) = ROOTDEV" "i_inum (?I ip) = n" using dev t(6) by (simp_all add: loaded_def Let_def)
  have b0: "fsblk.budget L H c 0" by (rule fsblk.budget_mono [OF bud]) simp
  have "wpK (iread (Some ip)) (\<lambda>_. fs S c v L H ?I) t"
    by (rule iread_wp [OF t(2) g dev _ t(5) _ b0]) (use t(6) d ty in simp_all)
  then obtain u where u: "iread (Some ip) t = Inr ((), u)" "fs S c v L H ?I u" by (auto simp: wpK_iff)
  have reg: "reg_file S c v L H ?I ip u"
    unfolding reg_file_def open_file_def fields keep using u(2) g bm d(2) f(1) ty sz by blast
  have "wpK (readi devsw ip 0 (di_size d)) (\<lambda>q w. q = (int (unat (di_size d)), fdata v (di_addrs d) (unat (di_size d)))) u"
  proof (rule readi_wp [OF reg])
    show "no_holes v (?I ip)" unfolding no_holes_def fields using f(2) by blast
    show "(int (min (unat (di_size d)) (unat (i_size (?I ip)) - unat (0 :: uint))),
       slice (unat (0 :: uint)) (min (unat (di_size d)) (unat (i_size (?I ip)) - unat (0 :: uint)))
         (fdata v (i_addrs (?I ip)) (unat (i_size (?I ip))))) = (int (unat (di_size d)), fdata v (di_addrs d) (unat (di_size d)))"
      unfolding fields by (simp add: slice_def)
  qed (unfold fields, use link bud unat_uint_less in simp_all)
  then show ?thesis using t(1) u(1) by (auto simp: wpK_iff)
qed

text \<open>
  C5: from the host to the kernel. A file that \<^verbatim>\<open>mkfs\<close> has copied into the image is read back by the kernel that
  starts on it, under two conditions: no entry of the root directory before that of the file has the same first 14 bytes (else the kernel finds that one), and the
  number of entries is not a multiple of 32 (else the image is not consistent). Then \<^verbatim>\<open>mkfs\<close> ends, the buffer cache, the superblock and the log come
  up on the image, \<open>namei\<close> finds the name that the file has in the image, \<open>iread\<close> loads its inode, and \<open>readi\<close> returns exactly the bytes that
  \<^verbatim>\<open>mkfs\<close> read from the host.
\<close>

theorem mkfs_boot_read:
  assumes hs: "copyable hs" and n: "(length hs + 2) mod 32 \<noteq> 0" and i: "i < length hs"
    and name: "name = image_name (h_name (hs ! i))" "name \<noteq> []" "0 \<notin> set name"
    and first: "\<And>k. k < i + 2 \<Longrightarrow> cname DIRSIZ (root_names hs ! k) \<noteq> cname DIRSIZ name"
  shows "\<exists>m t ip u w x. mkfs_main hs mkfs_state = Inr ((), m) \<and> fs_boot (kstart (fsimg m) pm) = Inr ((), t) \<and>
    namei devsw name t = Inr (Some ip, u) \<and> iread (Some ip) u = Inr ((), w) \<and>
    readi devsw ip 0 (of_nat (length (file_data (hs ! i)))) w = Inr ((int (length (file_data (hs ! i))), file_data (hs ! i)), x)"
proof -
  have len: "length hs \<le> 198" using hs by (simp add: copyable_def)
  let ?d = "fctx (demo_fsys demo_icache)"
  have d: "larea ?d = log_area" by (simp add: demo_fs log_area_def)
  then obtain m q where run: "mkfs_main hs mkfs_state = Inr ((), m)" and img0: "mk_img ?d q (all_files hs)"
    and w0: "fsimg m = put_dino demo_S 1 ((dino demo_S (vw q) 1)\<lparr>di_size := of_nat (root_size hs)\<rparr>) (vw q)"
    by (rule mkfs_main_run [OF hs])
  obtain t where t: "fs_boot (kstart (fsimg m) pm) = Inr ((), t)" "fs demo_S (fctx t) (fsimg m) [] (\<lambda>_. 0) (\<lambda>_. nil_inode) t"
    "larea (fctx t) = log_area" "fsblk.budget [] (\<lambda>_. 0) (fctx t) 6"
    using mkfs_boots [OF img0 w0 d] by blast
  obtain p where img: "mk_img (fctx t) p (all_files hs)"
    and w: "fsimg m = put_dino demo_S 1 ((dino demo_S (vw p) 1)\<lparr>di_size := of_nat (root_size hs)\<rparr>) (vw p)"
    using mkfs_main_run [OF hs t(3)] run by (metis Inr_inject prod.inject)
  note f = mkfs_file [OF img t(3) w i] and tr = mkfs_tree [OF img t(3) n len w]
  let ?v = "fsimg m" and ?n = "of_nat (i + 2) :: uint" and ?b = "file_data (hs ! i)"
  have nm: "root_names hs ! (i + 2) = name" using i name(1) by (simp add: root_names_def)
  have sl: "SLASH \<notin> set name" using hs i name(1) by (auto simp: copyable_def image_name_def dest!: nth_mem list.set_sel(2))
  have "find (\<lambda>k. cname DIRSIZ name = cname DIRSIZ (root_names hs ! k)) [0..<length hs + 2] = Some (i + 2)"
    by (rule find_first) (use nm i first in fastforce)+
  then have "child demo_S ?v ROOTINO (cname DIRSIZ name) = Some ?n"
    unfolding mkfs_child [OF img t(3) len w] by (simp add: root_inum_def cname_idem)
  moreover have "di_type (dino demo_S ?v ROOTINO) = T_DIR"
    using mkfs_nodes(1) [OF img t(3) w] inode_isD(1) [OF mk_imgD(5) [OF img, of 0]] by (simp add: ROOTINO_def all_files_def)
  ultimately have res: "resolve demo_S ?v ROOTINO (path_elems name) = Some ?n" by (simp add: single_elem [OF name(2) sl name(3)])
  have sz: "length ?b \<le> 71680" by (rule mk_fileD(2) [OF f(4)])
  have there: "faddr ?v (di_addrs (dino demo_S ?v ?n)) k \<noteq> 0" if "512 * k < unat (di_size (dino demo_S ?v ?n))" for k
  proof -
    have "k < 140" using that f(3) sz by simp
    then show ?thesis using mk_fileD(3) [OF f(4)] that f(3) by simp
  qed
  have "di_size (dino demo_S ?v ?n) = of_nat (length ?b)" unfolding f(3) [symmetric] by simp
  moreover have "uint (of_nat (length ?b) :: uint) = int (length ?b)"
    using sz unat_of_nat_uint [of "length ?b"] by (metis calculation f(3) uint_nat)
  moreover have "unat ?n = i + 2" using i len unat_of_nat_uint [of "i + 2"] by simp
  then have "?n < sb_ninodes demo_S" using i len by (simp only: demo_S_simps word_less_nat_alt) simp
  ultimately show ?thesis
    using namei_read_wp [OF tr t(2,4) name(3) res refl _ _ _ _ _ mk_fileD(1) [OF f(4)] there, of devsw] f(1-3,5) sz run t(1)
    by (auto simp: T_FILE_def T_DEV_def)
qed

theorem mkfs_boot_read_witness:
  "\<exists>m t ip u w x. mkfs_main demo_files mkfs_state = Inr ((), m) \<and> fs_boot (kstart (fsimg m) (\<lambda>_. 0)) = Inr ((), t) \<and>
    namei demo_devsw (str ''init'') t = Inr (Some ip, u) \<and> iread (Some ip) u = Inr ((), w) \<and>
    readi demo_devsw ip 0 4 w = Inr ((4, str ''code''), x)"
proof -
  have cp: "copyable demo_files"
    unfolding copyable_def by (simp add: demo_files_def all_files_def blocks_of_def file_data_def nblk_def SLASH_def str_def)
  have d: "length demo_files = 2" "file_data (demo_files ! 1) = str ''code''" "length (str ''code'') = 4"
    by (simp_all add: demo_files_def file_data_def str_def)
  have nm: "str ''init'' = image_name (h_name (demo_files ! 1))" "str ''init'' \<noteq> []" "0 \<notin> set (str ''init'')"
    by (simp_all add: demo_files_def image_name_def str_def)
  have first: "cname DIRSIZ (root_names demo_files ! k) \<noteq> cname DIRSIZ (str ''init'')" if "k < 1 + 2" for k
  proof -
    have "k = 0 \<or> k = 1 \<or> k = 2" using that by linarith
    then show ?thesis by (auto simp: root_names_def demo_files_def image_name_def str_def DIRSIZ_def cname_def)
  qed
  show ?thesis using mkfs_boot_read [OF cp _ _ nm first, of "\<lambda>_. 0" demo_devsw] d by simp
qed

end
