(* ===== verification/Threads.thy ===== *)
theory Threads
  imports KPrelude
begin

text \<open>
  Threads with shared memory. A thread is given by its atomic steps: from the shared state and its own state (program counter and
  local variables) to the possible next ones; no step means that the thread waits or has returned. The steps of the threads
  interleave in any order. Semaphores and mutexes of the C library are counters of the shared state: a wait is
  a step that is possible only when the counter is positive. A \<open>schedule\<close> names for each step the thread and which
  of its steps it takes, so that a particular run can be computed.
\<close>

record ('g, 'l) sys =
  glob :: 'g
  locs :: "nat \<Rightarrow> 'l"

type_synonym ('g, 'l) threads = "nat \<Rightarrow> 'g \<Rightarrow> 'l \<Rightarrow> ('g \<times> 'l) list"

definition put_thread :: "nat \<Rightarrow> 'g \<times> 'l \<Rightarrow> ('g, 'l) sys \<Rightarrow> ('g, 'l) sys" where
  "put_thread i r s = \<lparr>glob = fst r, locs = (locs s)(i := snd r)\<rparr>"

lemma put_thread_simps [simp]:
  "glob (put_thread i (g, l) s) = g" "locs (put_thread i (g, l) s) = (locs s)(i := l)"
  by (simp_all add: put_thread_def)

inductive tstep :: "('g, 'l) threads \<Rightarrow> nat \<Rightarrow> ('g, 'l) sys \<Rightarrow> ('g, 'l) sys \<Rightarrow> bool" for P N where
  tstep: "i < N \<Longrightarrow> r \<in> set (P i (glob s) (locs s i)) \<Longrightarrow> tstep P N s (put_thread i r s)"

inductive reaches :: "('g, 'l) threads \<Rightarrow> nat \<Rightarrow> ('g, 'l) sys \<Rightarrow> ('g, 'l) sys \<Rightarrow> bool" for P N s where
  start: "reaches P N s s"
| more: "reaches P N s t \<Longrightarrow> tstep P N t u \<Longrightarrow> reaches P N s u"

inductive_cases tstepE: "tstep P N s t"

lemma reaches_trans: "reaches P N s t \<Longrightarrow> reaches P N t u \<Longrightarrow> reaches P N s u"
  by (rotate_tac, induction rule: reaches.induct) (auto intro: reaches.intros)

text \<open>\<^verbatim>\<open>sem_wait\<close> and \<^verbatim>\<open>sem_post\<close> on a semaphore with value \<open>v\<close>; \<open>k\<close> makes the next state from the new value.\<close>

definition sem_wait :: "nat \<Rightarrow> (nat \<Rightarrow> 'r) \<Rightarrow> 'r list" where
  "sem_wait v k = (if v = 0 then [] else [k (v - 1)])"

definition sem_post :: "nat \<Rightarrow> (nat \<Rightarrow> 'r) \<Rightarrow> 'r list" where
  "sem_post v k = [k (v + 1)]"

section \<open>Runs\<close>

fun run_schedule :: "('g, 'l) threads \<Rightarrow> nat \<Rightarrow> (nat \<times> nat) list \<Rightarrow> ('g, 'l) sys \<Rightarrow> ('g, 'l) sys option" where
  "run_schedule P N [] s = Some s"
| "run_schedule P N ((i, k) # w) s = (let rs = P i (glob s) (locs s i) in
     if i < N \<and> k < length rs then run_schedule P N w (put_thread i (rs ! k) s) else None)"

lemma run_schedule_reaches: "run_schedule P N w s = Some t \<Longrightarrow> reaches P N s t"
proof (induction P N w s rule: run_schedule.induct)
  case (2 P N i k w s)
  let ?rs = "P i (glob s) (locs s i)"
  have k: "i < N" "k < length ?rs" and r: "run_schedule P N w (put_thread i (?rs ! k) s) = Some t"
    using 2(2) by (auto simp: Let_def split: if_splits)
  have "reaches P N (put_thread i (?rs ! k) s) t" by (rule 2(1)) (use k r in auto)
  moreover have "tstep P N s (put_thread i (?rs ! k) s)" by (rule tstep) (use k in auto)
  ultimately show ?case using reaches_trans [OF more [OF start]] by blast
qed (auto intro: start)

text \<open>No thread can make a step.\<close>

definition stuck :: "('g, 'l) threads \<Rightarrow> nat \<Rightarrow> ('g, 'l) sys \<Rightarrow> bool" where
  "stuck P N s \<longleftrightarrow> list_all (\<lambda>i. P i (glob s) (locs s i) = []) [0..<N]"

lemma stuckD: "stuck P N s \<Longrightarrow> i < N \<Longrightarrow> P i (glob s) (locs s i) = []"
  by (simp add: stuck_def list_all_iff)

lemma not_stuck: "\<not> stuck P N s \<Longrightarrow> \<exists>t. tstep P N s t"
  by (fastforce simp: stuck_def list_all_iff neq_Nil_conv intro: tstep)

lemma runs_end:
  assumes "wf {(t, s). tstep P N s t}"
  shows "\<exists>t. reaches P N s t \<and> stuck P N t"
  using assms
proof (induction s rule: wf_induct_rule)
  case (less s)
  show ?case
  proof (cases "stuck P N s")
    case False
    then obtain t where "tstep P N s t" using not_stuck by blast
    with less [of t] show ?thesis by (blast intro: reaches_trans more start)
  qed (blast intro: start)
qed

lemma sum_upd: "x < n \<Longrightarrow> (\<Sum>a<n. (f(x := v)) a) = (\<Sum>a<n. f a) - f x + v" for f :: "nat \<Rightarrow> int"
  by (simp add: sum.remove [of "{..<n}" x])

text \<open>Threads that wait for each other in an ascending order do not form a circle.\<close>

lemma no_circular_wait:
  fixes f :: "'t \<Rightarrow> nat"
  assumes "finite W" "\<And>i. i \<in> W \<Longrightarrow> \<exists>j\<in>W. f i < f j"
  shows "W = {}"
proof (rule ccontr)
  assume "W \<noteq> {}"
  then have "Max (f ` W) \<in> f ` W" using assms(1) by simp
  then obtain i where "i \<in> W" "f i = Max (f ` W)" by auto
  moreover from assms(2) [OF this(1)] obtain j where "j \<in> W" "f i < f j" by blast
  ultimately show False using Max_ge [OF finite_imageI [OF assms(1)], of "f j" f] by force
qed

section \<open>Invariants\<close>

text \<open>An invariant of a program: it holds at the start, and each step of each thread keeps it.\<close>

locale thread_invariant =
  fixes P :: "('g, 'l) threads" and N :: nat and s0 :: "('g, 'l) sys" and Inv :: "'g \<Rightarrow> (nat \<Rightarrow> 'l) \<Rightarrow> bool"
  assumes init: "Inv (glob s0) (locs s0)"
    and keep: "Inv g ls \<Longrightarrow> i < N \<Longrightarrow> (g', l') \<in> set (P i g (ls i)) \<Longrightarrow> Inv g' (ls(i := l'))"
begin

lemma invariant: "reaches P N s0 s \<Longrightarrow> Inv (glob s) (locs s)"
proof (induction rule: reaches.induct)
  case (more t u)
  from more(2) obtain i g' l' where i: "i < N" "(g', l') \<in> set (P i (glob t) (locs t i))" and u: "u = put_thread i (g', l') t"
    by (auto elim: tstepE)
  show ?case unfolding u put_thread_simps by (rule keep [OF more(3) i])
qed (rule init)

end

end
