(* ===== verification/Peterson.thy ===== *)
theory Peterson
  imports Threads
begin

text \<open>
  \<^verbatim>\<open>09/peterson-fence.c\<close> and \<^verbatim>\<open>09/peterson-breaks.c\<close>: Peterson's algorithm for two threads, on a processor with store buffers. A store
  goes into the buffer of the thread and reaches the memory later, in order; a load sees the newest store of its own thread in
  the buffer and otherwise the memory; the barrier waits until the buffer is empty. The variables are volatile, so
  that the compiler keeps every access and its order. With the barrier the counter is never
  updated by both threads at once; without it the loads overtake the stores and the threads exclude each other no more.
\<close>

section \<open>The memory\<close>

datatype var = Flag nat | Turn | Counter

record tso =
  pmem :: "var \<Rightarrow> int"
  sbuf :: "nat \<Rightarrow> (var \<times> int) list"

definition tso_load :: "nat \<Rightarrow> var \<Rightarrow> tso \<Rightarrow> int" where
  "tso_load i x g = (case map_of (rev (sbuf g i)) x of Some v \<Rightarrow> v | None \<Rightarrow> pmem g x)"

definition tso_store :: "nat \<Rightarrow> var \<Rightarrow> int \<Rightarrow> tso \<Rightarrow> tso" where
  "tso_store i x v g = g\<lparr>sbuf := (sbuf g)(i := sbuf g i @ [(x, v)])\<rparr>"

definition tso_drain :: "nat \<Rightarrow> tso \<Rightarrow> tso list" where
  "tso_drain i g = (case sbuf g i of [] \<Rightarrow> []
     | (x, v) # b \<Rightarrow> [g\<lparr>pmem := (pmem g)(x := v), sbuf := (sbuf g)(i := b)\<rparr>])"

section \<open>The threads\<close>

definition PRODUCER :: nat where "PRODUCER = 0"
definition CONSUMER :: nat where "CONSUMER = 1"

text \<open>
  The points between the accesses of a thread: both tests of the loop condition are loads, and the update of the
  counter is a load and a store.
\<close>

datatype ppc = SetFlag | SetTurn | Barrier | TestFlag | TestTurn | LoadCounter | StoreCounter int | ClearFlag | Returned

fun peterson :: "bool \<Rightarrow> nat \<Rightarrow> nat \<Rightarrow> int \<Rightarrow> tso \<Rightarrow> ppc \<Rightarrow> (tso \<times> ppc) list" where
  "peterson fence me other d g SetFlag = [(tso_store me (Flag me) 1 g, SetTurn)]"
| "peterson fence me other d g SetTurn = [(tso_store me Turn (int other) g, Barrier)]"
| "peterson fence me other d g Barrier = (if fence \<and> sbuf g me \<noteq> [] then [] else [(g, TestFlag)])"
| "peterson fence me other d g TestFlag = [(g, if tso_load me (Flag other) g \<noteq> 0 then TestTurn else LoadCounter)]"
| "peterson fence me other d g TestTurn = [(g, if tso_load me Turn g = int other then TestFlag else LoadCounter)]"
| "peterson fence me other d g LoadCounter = [(g, StoreCounter (tso_load me Counter g))]"
| "peterson fence me other d g (StoreCounter v) = [(tso_store me Counter (v + d) g, ClearFlag)]"
| "peterson fence me other d g ClearFlag = [(tso_store me (Flag me) 0 g, Returned)]"
| "peterson fence me other d g Returned = []"

definition producer :: "tso \<Rightarrow> ppc \<Rightarrow> (tso \<times> ppc) list" where
  "producer = peterson True PRODUCER CONSUMER 1"

definition consumer :: "tso \<Rightarrow> ppc \<Rightarrow> (tso \<times> ppc) list" where
  "consumer = peterson True CONSUMER PRODUCER (- 1)"

definition producer_breaks :: "tso \<Rightarrow> ppc \<Rightarrow> (tso \<times> ppc) list" where
  "producer_breaks = peterson False PRODUCER CONSUMER 1"

definition consumer_breaks :: "tso \<Rightarrow> ppc \<Rightarrow> (tso \<times> ppc) list" where
  "consumer_breaks = peterson False CONSUMER PRODUCER (- 1)"

text \<open>An iteration of \<^verbatim>\<open>main\<close>: the variables are reset, the two threads run, and their buffers drain at any time.\<close>

definition with_drain :: "nat \<Rightarrow> (tso \<Rightarrow> ppc \<Rightarrow> (tso \<times> ppc) list) \<Rightarrow> tso \<Rightarrow> ppc \<Rightarrow> (tso \<times> ppc) list" where
  "with_drain i th g l = th g l @ map (\<lambda>g'. (g', l)) (tso_drain i g)"

definition peterson_fence :: "(tso, ppc) threads" where
  "peterson_fence i = with_drain i (if i = PRODUCER then producer else consumer)"

definition peterson_breaks :: "(tso, ppc) threads" where
  "peterson_breaks i = with_drain i (if i = PRODUCER then producer_breaks else consumer_breaks)"

definition peterson_start :: "(tso, ppc) sys" where
  "peterson_start = \<lparr>glob = \<lparr>pmem = (\<lambda>_. 0), sbuf = (\<lambda>_. [])\<rparr>, locs = (\<lambda>_. SetFlag)\<rparr>"

text \<open>Both threads have returned and their stores are in the memory, as after the two calls of \<^verbatim>\<open>pthread_join\<close>.\<close>

definition joined :: "(tso, ppc) sys \<Rightarrow> bool" where
  "joined s \<longleftrightarrow> list_all (\<lambda>i. locs s i = Returned \<and> sbuf (glob s) i = []) [PRODUCER, CONSUMER]"

fun in_critical :: "ppc \<Rightarrow> bool" where
  "in_critical LoadCounter = True"
| "in_critical (StoreCounter v) = True"
| "in_critical ClearFlag = True"
| "in_critical _ = False"

section \<open>The invariant\<close>

text \<open>
  What the buffer of a thread can hold at each point. A store of the counter that is under way
  continues from the counter in the memory.
\<close>

fun buffer_ok :: "nat \<Rightarrow> nat \<Rightarrow> int \<Rightarrow> tso \<Rightarrow> ppc \<Rightarrow> bool" where
  "buffer_ok me other d g SetFlag = (sbuf g me = [])"
| "buffer_ok me other d g SetTurn = (sbuf g me = [(Flag me, 1)] \<or> sbuf g me = [] \<and> pmem g (Flag me) = 1)"
| "buffer_ok me other d g Barrier =
    (sbuf g me = [(Flag me, 1), (Turn, int other)] \<or> sbuf g me = [(Turn, int other)] \<and> pmem g (Flag me) = 1 \<or>
     sbuf g me = [] \<and> pmem g (Flag me) = 1)"
| "buffer_ok me other d g (StoreCounter v) = (sbuf g me = [] \<and> pmem g (Flag me) = 1 \<and> v = pmem g Counter)"
| "buffer_ok me other d g ClearFlag =
    ((sbuf g me = [(Counter, pmem g Counter + d)] \<or> sbuf g me = []) \<and> pmem g (Flag me) = 1)"
| "buffer_ok me other d g Returned =
    (sbuf g me = [(Counter, pmem g Counter + d), (Flag me, 0)] \<and> pmem g (Flag me) = 1 \<or>
     sbuf g me = [(Flag me, 0)] \<and> pmem g (Flag me) = 1 \<or> sbuf g me = [] \<and> pmem g (Flag me) = 0)"
| "buffer_ok me other d g _ = (sbuf g me = [] \<and> pmem g (Flag me) = 1)"

definition entered :: "ppc \<Rightarrow> bool" where
  "entered l \<longleftrightarrow> in_critical l \<or> l = Returned"

definition turn_pending :: "nat \<Rightarrow> tso \<Rightarrow> ppc \<Rightarrow> bool" where
  "turn_pending me g l \<longleftrightarrow> l = SetFlag \<or> l = SetTurn \<or> l = Barrier \<and> sbuf g me \<noteq> []"

text \<open>A thread that is past its loop and has not cleared its flag has seen that the other one does not compete or has to wait.\<close>

definition excludes :: "nat \<Rightarrow> nat \<Rightarrow> tso \<Rightarrow> ppc \<Rightarrow> ppc \<Rightarrow> bool" where
  "excludes me other g a b \<longleftrightarrow> (entered a \<and> pmem g (Flag me) = 1 \<longrightarrow>
     pmem g (Flag other) = 0 \<or> pmem g Turn = int me \<or> turn_pending other g b)"

text \<open>What a thread has contributed to the counter in the memory.\<close>

definition counted :: "nat \<Rightarrow> int \<Rightarrow> tso \<Rightarrow> ppc \<Rightarrow> int" where
  "counted me d g l = (if l = ClearFlag \<and> sbuf g me = [] \<or> l = Returned \<and> length (sbuf g me) < 2 then d else 0)"

definition peterson_inv :: "nat \<Rightarrow> nat \<Rightarrow> int \<Rightarrow> tso \<Rightarrow> ppc \<Rightarrow> ppc \<Rightarrow> bool" where
  "peterson_inv me other d g a b \<longleftrightarrow> buffer_ok me other d g a \<and> buffer_ok other me (- d) g b \<and>
     excludes me other g a b \<and> excludes other me g b a \<and> pmem g Turn \<in> {int me, int other} \<and>
     pmem g Counter = counted me d g a + counted other (- d) g b"

lemma peterson_inv_sym: "peterson_inv me other d g a b \<Longrightarrow> peterson_inv other me (- d) g b a"
  by (auto simp: peterson_inv_def)

lemma peterson_exclusive:
  assumes "peterson_inv me other d g a b" "me \<noteq> other" "entered a" "pmem g (Flag me) = 1" "entered b"
  shows "pmem g (Flag other) \<noteq> 1"
  using assms by (auto simp: peterson_inv_def excludes_def entered_def turn_pending_def)

lemmas peterson_defs = peterson_inv_def excludes_def entered_def turn_pending_def counted_def tso_store_def tso_load_def

lemma peterson_step:
  assumes "peterson_inv me other d g a b" "me \<noteq> other" "(g', a') \<in> set (peterson True me other d g a)"
  shows "peterson_inv me other d g' a' b"
  using assms by (cases a; cases b) (auto simp: peterson_defs split: if_splits)

lemma tso_drainE:
  assumes "g' \<in> set (tso_drain me g)"
  obtains x v b where "sbuf g me = (x, v) # b" "g' = g\<lparr>pmem := (pmem g)(x := v), sbuf := (sbuf g)(me := b)\<rparr>"
proof (cases "sbuf g me")
  case (Cons p b)
  then show thesis using assms that [of "fst p" "snd p" b] by (simp add: tso_drain_def case_prod_unfold)
qed (use assms in \<open>simp add: tso_drain_def\<close>)

lemma peterson_drain:
  assumes "peterson_inv me other d g a b" "me \<noteq> other" "g' \<in> set (tso_drain me g)"
  shows "peterson_inv me other d g' a b"
proof -
  obtain x v r where r: "sbuf g me = (x, v) # r" and g': "g' = g\<lparr>pmem := (pmem g)(x := v), sbuf := (sbuf g)(me := r)\<rparr>"
    using assms(3) by (rule tso_drainE)
  have ex: "entered a \<Longrightarrow> pmem g (Flag me) = 1 \<Longrightarrow> entered b \<Longrightarrow> pmem g (Flag other) \<noteq> 1"
    using peterson_exclusive [OF assms(1,2)] by auto
  have me: "buffer_ok me other d g a" and ot: "buffer_ok other me (- d) g b" using assms(1) by (simp_all add: peterson_inv_def)
  have x: "x = Flag me \<or> x = Turn \<and> v = int other \<or> x = Counter \<and> entered a \<and> pmem g (Flag me) = 1"
    using me r by (cases a) (auto simp: entered_def)
  have "buffer_ok me other d g' a" using me r by (cases a) (auto simp: g')
  moreover have "buffer_ok other me (- d) g' b" using ot ex x assms(2) by (cases b) (auto simp: g' entered_def)
  moreover have "excludes me other g' a b"
    using assms(1,2) me r by (cases a) (auto simp: g' peterson_inv_def excludes_def entered_def turn_pending_def)
  moreover have "excludes other me g' b a"
    using assms(1,2) me r by (cases a) (auto simp: g' peterson_inv_def excludes_def turn_pending_def)
  moreover have "pmem g' Turn \<in> {int me, int other}" using assms(1) x by (auto simp: g' peterson_inv_def)
  moreover have "pmem g' Counter = counted me d g' a + counted other (- d) g' b"
    using assms(1,2) me r by (cases a) (auto simp: g' peterson_inv_def counted_def)
  ultimately show ?thesis by (simp add: peterson_inv_def)
qed

lemma peterson_keeps:
  assumes "peterson_inv me other d g a b" "me \<noteq> other" "(g', a') \<in> set (with_drain me (peterson True me other d) g a)"
  shows "peterson_inv me other d g' a' b"
  using assms(3) peterson_step [OF assms(1,2)] peterson_drain [OF assms(1,2)] by (auto simp: with_drain_def)

interpretation pf: thread_invariant peterson_fence 2 peterson_start
  "\<lambda>g ls. peterson_inv PRODUCER CONSUMER 1 g (ls PRODUCER) (ls CONSUMER)"
proof
  show "peterson_inv PRODUCER CONSUMER 1 (glob peterson_start) (locs peterson_start PRODUCER) (locs peterson_start CONSUMER)"
    by (simp add: peterson_start_def peterson_defs in_critical.simps PRODUCER_def CONSUMER_def)
  fix g ls i g' l'
  assume inv: "peterson_inv PRODUCER CONSUMER 1 g (ls PRODUCER) (ls CONSUMER)" and i: "i < 2"
    and r: "(g', l') \<in> set (peterson_fence i g (ls i))"
  have ne: "PRODUCER \<noteq> CONSUMER" "CONSUMER \<noteq> PRODUCER" by (simp_all add: PRODUCER_def CONSUMER_def)
  consider "i = PRODUCER" | "i = CONSUMER" using i by (auto simp: PRODUCER_def CONSUMER_def less_2_cases_iff)
  then show "peterson_inv PRODUCER CONSUMER 1 g' ((ls(i := l')) PRODUCER) ((ls(i := l')) CONSUMER)"
  proof cases
    case 1
    then show ?thesis using peterson_keeps [OF inv ne(1)] r ne by (simp add: peterson_fence_def producer_def)
  next
    case 2
    then show ?thesis using peterson_keeps [OF peterson_inv_sym [OF inv] ne(2), THEN peterson_inv_sym] r ne
      by (simp add: peterson_fence_def consumer_def)
  qed
qed

section \<open>Progress\<close>

text \<open>
  Every step lowers the rank of a thread, except for going around the loop. A thread has to do that only while it is the
  other one's turn, and then the other one is not waiting.
\<close>

fun pc_rank :: "ppc \<Rightarrow> nat" where
  "pc_rank SetFlag = 16"
| "pc_rank SetTurn = 14"
| "pc_rank Barrier = 12"
| "pc_rank TestFlag = 10"
| "pc_rank TestTurn = 8"
| "pc_rank LoadCounter = 6"
| "pc_rank (StoreCounter v) = 4"
| "pc_rank ClearFlag = 2"
| "pc_rank Returned = 0"

definition finished :: "nat \<Rightarrow> tso \<Rightarrow> ppc \<Rightarrow> bool" where
  "finished me g a \<longleftrightarrow> a = Returned \<and> sbuf g me = []"

definition waits :: "nat \<Rightarrow> tso \<Rightarrow> ppc \<Rightarrow> bool" where
  "waits other g a \<longleftrightarrow> a = TestTurn \<and> pmem g Turn = int other"

lemma peterson_moves:
  assumes "peterson_inv me other d g a b" "\<not> finished me g a" "\<not> waits other g a"
  shows "\<exists>g' a'. (g', a') \<in> set (with_drain me (peterson True me other d) g a) \<and>
    pc_rank a' + length (sbuf g' me) < pc_rank a + length (sbuf g me) \<and> (\<forall>i. i \<noteq> me \<longrightarrow> sbuf g' i = sbuf g i)"
proof -
  have ok: "buffer_ok me other d g a" using assms(1) by (simp add: peterson_inv_def)
  show ?thesis
    using ok assms(2,3)
    by (cases a) (auto simp: with_drain_def finished_def waits_def tso_drain_def tso_store_def tso_load_def
        conj_disj_distribR ex_disj_distrib)
qed

text \<open>A thread whose turn it is not, while the other one has returned, leaves the loop at the next test of the flag.\<close>

lemma waits_leaves:
  assumes "peterson_inv me other d g a b" "waits other g a" "finished other g b"
  shows "(g, TestFlag) \<in> set (with_drain me (peterson True me other d) g a)"
    and "(g, LoadCounter) \<in> set (with_drain me (peterson True me other d) g TestFlag)"
  using assms by (auto simp: peterson_inv_def with_drain_def finished_def waits_def tso_load_def)

definition peterson_rank :: "(tso, ppc) sys \<Rightarrow> nat" where
  "peterson_rank s = (\<Sum>i\<in>{PRODUCER, CONSUMER}. pc_rank (locs s i) + length (sbuf (glob s) i))"

lemma peterson_rank_less:
  assumes "me \<in> {PRODUCER, CONSUMER}" "pc_rank a' + length (sbuf g' me) < pc_rank (locs s me) + length (sbuf (glob s) me)"
    and "\<forall>i. i \<noteq> me \<longrightarrow> sbuf g' i = sbuf (glob s) i"
  shows "peterson_rank (put_thread me (g', a') s) < peterson_rank s"
  using assms by (auto simp: peterson_rank_def PRODUCER_def CONSUMER_def)

text \<open>The threads by number, with the roles they play in the invariant.\<close>

lemma thread_roles:
  assumes "peterson_inv PRODUCER CONSUMER 1 g (ls PRODUCER) (ls CONSUMER)" "me \<in> {PRODUCER, CONSUMER}"
  obtains d where "peterson_fence me = with_drain me (peterson True me (1 - me) d)" "me < 2" "1 - me \<in> {PRODUCER, CONSUMER}"
    "me \<noteq> 1 - me" "peterson_inv me (1 - me) d g (ls me) (ls (1 - me))"
  using assms peterson_inv_sym [OF assms(1)]
  by (auto simp: peterson_fence_def producer_def consumer_def PRODUCER_def CONSUMER_def)

lemma peterson_one_moves:
  assumes inv: "peterson_inv PRODUCER CONSUMER 1 (glob s) (locs s PRODUCER) (locs s CONSUMER)" and me: "me \<in> {PRODUCER, CONSUMER}"
    and "\<not> finished me (glob s) (locs s me)" "\<not> waits (1 - me) (glob s) (locs s me)"
  shows "\<exists>t. reaches peterson_fence 2 s t \<and> peterson_rank t < peterson_rank s"
proof -
  obtain d where d: "peterson_fence me = with_drain me (peterson True me (1 - me) d)" "me < 2"
    and i: "peterson_inv me (1 - me) d (glob s) (locs s me) (locs s (1 - me))"
    using thread_roles [OF inv me] by metis
  obtain g' a' where r: "(g', a') \<in> set (peterson_fence me (glob s) (locs s me))"
    and less: "peterson_rank (put_thread me (g', a') s) < peterson_rank s"
    using peterson_moves [OF i assms(3,4)] peterson_rank_less [OF me] d(1) by metis
  show ?thesis using more [OF start tstep [where P = peterson_fence, OF d(2) r]] less by blast
qed

lemma peterson_waiter_moves:
  assumes inv: "peterson_inv PRODUCER CONSUMER 1 (glob s) (locs s PRODUCER) (locs s CONSUMER)" and me: "me \<in> {PRODUCER, CONSUMER}"
    and w: "waits (1 - me) (glob s) (locs s me)" and f: "finished (1 - me) (glob s) (locs s (1 - me))"
  shows "\<exists>t. reaches peterson_fence 2 s t \<and> peterson_rank t < peterson_rank s"
proof -
  obtain d where d: "peterson_fence me = with_drain me (peterson True me (1 - me) d)" "me < 2"
    and i: "peterson_inv me (1 - me) d (glob s) (locs s me) (locs s (1 - me))"
    using thread_roles [OF inv me] by metis
  let ?u = "put_thread me (glob s, TestFlag) s"
  have "tstep peterson_fence 2 s ?u" using waits_leaves(1) [OF i w f] d by (intro tstep) simp_all
  moreover have "tstep peterson_fence 2 ?u (put_thread me (glob s, LoadCounter) ?u)"
    using waits_leaves(2) [OF i w f] d by (intro tstep) simp_all
  ultimately have "reaches peterson_fence 2 s (put_thread me (glob s, LoadCounter) ?u)" by (blast intro: start more)
  moreover have "put_thread me (glob s, LoadCounter) ?u = put_thread me (glob s, LoadCounter) s"
    by (simp add: put_thread_def)
  moreover have "peterson_rank (put_thread me (glob s, LoadCounter) s) < peterson_rank s"
    by (rule peterson_rank_less [OF me]) (use w in \<open>auto simp: waits_def\<close>)
  ultimately show ?thesis by metis
qed

lemma peterson_progress:
  assumes inv: "peterson_inv PRODUCER CONSUMER 1 (glob s) (locs s PRODUCER) (locs s CONSUMER)" and "\<not> joined s"
  shows "\<exists>t. reaches peterson_fence 2 s t \<and> peterson_rank t < peterson_rank s"
proof (rule ccontr)
  let ?f = "\<lambda>i. finished i (glob s) (locs s i)" and ?w = "\<lambda>i. waits (1 - i) (glob s) (locs s i)"
  assume no: "\<nexists>t. reaches peterson_fence 2 s t \<and> peterson_rank t < peterson_rank s"
  have roles: "1 - PRODUCER = CONSUMER" "1 - CONSUMER = PRODUCER" by (simp_all add: PRODUCER_def CONSUMER_def)
  have "?f PRODUCER \<or> ?w PRODUCER" "?f CONSUMER \<or> ?w CONSUMER"
    using no peterson_one_moves [OF inv] by blast+
  moreover have "\<not> (?w PRODUCER \<and> ?f CONSUMER)" "\<not> (?w CONSUMER \<and> ?f PRODUCER)"
    using no peterson_waiter_moves [OF inv] roles by (metis insertCI)+
  moreover have "\<not> (?w PRODUCER \<and> ?w CONSUMER)" by (auto simp: waits_def PRODUCER_def CONSUMER_def)
  ultimately have "?f PRODUCER" "?f CONSUMER" by blast+
  then show False using assms(2) by (simp add: joined_def finished_def)
qed

lemma peterson_can_join:
  assumes "reaches peterson_fence 2 peterson_start s"
  shows "\<exists>t. reaches peterson_fence 2 s t \<and> joined t"
  using assms
proof (induction "peterson_rank s" arbitrary: s rule: less_induct)
  case less
  show ?case
  proof (cases "joined s")
    case False
    then obtain t where t: "reaches peterson_fence 2 s t" "peterson_rank t < peterson_rank s"
      using peterson_progress [OF pf.invariant [OF less(2)]] by blast
    with less(1) [OF t(2) reaches_trans [OF less(2) t(1)]] show ?thesis by (blast intro: reaches_trans)
  qed (blast intro: start)
qed

section \<open>The programs\<close>

text \<open>
  C17: with the barrier, the two threads are never both between their loop and the clearing of their flag, in any
  interleaving and with stores delayed in any way; when both have been joined, the counter is 0, so
  that the loop in \<^verbatim>\<open>main\<close> goes on; and the threads never block each other for good: from every state they can still return.
\<close>

theorem peterson_excludes:
  assumes "reaches peterson_fence 2 peterson_start s"
  shows "\<not> (in_critical (locs s PRODUCER) \<and> in_critical (locs s CONSUMER)) \<and> (joined s \<longrightarrow> pmem (glob s) Counter = 0) \<and>
    (\<exists>t. reaches peterson_fence 2 s t \<and> joined t)"
proof -
  have ne: "PRODUCER \<noteq> CONSUMER" by (simp add: PRODUCER_def CONSUMER_def)
  note inv = pf.invariant [OF assms]
  have flag: "buffer_ok me other d g l \<Longrightarrow> in_critical l \<Longrightarrow> pmem g (Flag me) = 1" for me other d g l by (cases l) auto
  have "\<not> (in_critical (locs s PRODUCER) \<and> in_critical (locs s CONSUMER))"
    using peterson_exclusive [OF inv ne] inv flag by (auto simp: peterson_inv_def entered_def)
  moreover have "joined s \<longrightarrow> pmem (glob s) Counter = 0"
    using inv by (simp add: peterson_inv_def counted_def joined_def)
  ultimately show ?thesis using peterson_can_join [OF assms] by blast
qed

text \<open>A run of the producer and then of the consumer.\<close>

definition one_after_other :: "(nat \<times> nat) list" where
  "one_after_other = replicate 11 (0, 0) @ replicate 11 (1, 0)"

lemma one_after_other_run:
  "run_schedule peterson_fence 2 one_after_other peterson_start \<noteq> None"
  "joined (the (run_schedule peterson_fence 2 one_after_other peterson_start))"
  by code_simp+

theorem peterson_excludes_witness:
  "\<exists>s. reaches peterson_fence 2 peterson_start s \<and> joined s \<and> pmem (glob s) Counter = 0"
proof -
  obtain s where s: "run_schedule peterson_fence 2 one_after_other peterson_start = Some s" and j: "joined s"
    using one_after_other_run by auto
  show ?thesis using peterson_excludes [OF run_schedule_reaches [OF s]] run_schedule_reaches [OF s] j by blast
qed

text \<open>Runs without the barrier.\<close>

definition both_enter :: "(nat \<times> nat) list" where
  "both_enter = replicate 4 (0, 0) @ replicate 4 (1, 0)"

definition both_update :: "(nat \<times> nat) list" where
  "both_update = both_enter @ [(0, 0), (1, 0), (0, 0), (1, 0), (0, 0), (1, 0)] @ replicate 4 (0, 0) @ replicate 4 (1, 0)"

lemma both_enter_run:
  "run_schedule peterson_breaks 2 both_enter peterson_start \<noteq> None"
  "in_critical (locs (the (run_schedule peterson_breaks 2 both_enter peterson_start)) PRODUCER)"
  "in_critical (locs (the (run_schedule peterson_breaks 2 both_enter peterson_start)) CONSUMER)"
  by code_simp+

lemma both_update_run:
  "run_schedule peterson_breaks 2 both_update peterson_start \<noteq> None"
  "joined (the (run_schedule peterson_breaks 2 both_update peterson_start))"
  "pmem (glob (the (run_schedule peterson_breaks 2 both_update peterson_start))) Counter = - 1"
  by code_simp+

text \<open>
  Without the barrier, both threads read the other's flag while the stores to the
  flags are still in the buffers. There is a run in which both update the counter at once, and one after which the counter is not 0.
\<close>

lemma peterson_breaks_excludes_not:
  "(\<exists>s. reaches peterson_breaks 2 peterson_start s \<and> in_critical (locs s PRODUCER) \<and> in_critical (locs s CONSUMER)) \<and>
   (\<exists>s. reaches peterson_breaks 2 peterson_start s \<and> joined s \<and> pmem (glob s) Counter \<noteq> 0)"
proof
  show "\<exists>s. reaches peterson_breaks 2 peterson_start s \<and> in_critical (locs s PRODUCER) \<and> in_critical (locs s CONSUMER)"
    using both_enter_run run_schedule_reaches by fastforce
  show "\<exists>s. reaches peterson_breaks 2 peterson_start s \<and> joined s \<and> pmem (glob s) Counter \<noteq> 0"
    using both_update_run run_schedule_reaches by fastforce
qed

end
