(* ===== verification/Bank.thy ===== *)
theory Bank
  imports Threads
begin

text \<open>
  \<^verbatim>\<open>09/dead.c\<close> and \<^verbatim>\<open>09/dead-fix.c\<close>: transfers between accounts, each by its own thread and under the mutexes of the two accounts. An
  account is its number; \<open>mutex a\<close> says whether its mutex is locked. The updates of a balance are a load and a
  store. The first program locks the source and then the destination, and can deadlock; the second one locks in the order of the numbers.
\<close>

definition ACCS :: nat where "ACCS = 10"
definition TXNS :: nat where "TXNS = 100"

record bank =
  mutex :: "nat \<Rightarrow> bool"
  balance :: "nat \<Rightarrow> int"

record txn_t =
  src :: nat
  dst :: nat
  amount :: int

datatype tpc = Lock1 | Lock2 | Check | LoadDst | StoreDst int | LoadSrc | StoreSrc int | UnlockSrc | UnlockDst | Ended

definition mutex_lock :: "nat \<Rightarrow> bank \<Rightarrow> tpc \<Rightarrow> (bank \<times> tpc) list" where
  "mutex_lock a g l = (if mutex g a then [] else [(g\<lparr>mutex := (mutex g)(a := True)\<rparr>, l)])"

definition mutex_unlock :: "nat \<Rightarrow> bank \<Rightarrow> tpc \<Rightarrow> (bank \<times> tpc) list" where
  "mutex_unlock a g l = [(g\<lparr>mutex := (mutex g)(a := False)\<rparr>, l)]"

text \<open>The thread: \<open>a\<close> and \<open>b\<close> are the accounts whose mutexes it locks first and second.\<close>

fun transfer_from :: "nat \<Rightarrow> nat \<Rightarrow> txn_t \<Rightarrow> bank \<Rightarrow> tpc \<Rightarrow> (bank \<times> tpc) list" where
  "transfer_from a b t g Lock1 = mutex_lock a g Lock2"
| "transfer_from a b t g Lock2 = mutex_lock b g Check"
| "transfer_from a b t g Check = [(g, if amount t < balance g (src t) then LoadDst else UnlockSrc)]"
| "transfer_from a b t g LoadDst = [(g, StoreDst (balance g (dst t)))]"
| "transfer_from a b t g (StoreDst v) = [(g\<lparr>balance := (balance g)(dst t := v + amount t)\<rparr>, LoadSrc)]"
| "transfer_from a b t g LoadSrc = [(g, StoreSrc (balance g (src t)))]"
| "transfer_from a b t g (StoreSrc v) = [(g\<lparr>balance := (balance g)(src t := v - amount t)\<rparr>, UnlockSrc)]"
| "transfer_from a b t g UnlockSrc = mutex_unlock (src t) g UnlockDst"
| "transfer_from a b t g UnlockDst = mutex_unlock (dst t) g Ended"
| "transfer_from a b t g Ended = []"

definition transfer_dead :: "txn_t \<Rightarrow> bank \<Rightarrow> tpc \<Rightarrow> (bank \<times> tpc) list" where
  "transfer_dead t = transfer_from (src t) (dst t) t"

definition transfer :: "txn_t \<Rightarrow> bank \<Rightarrow> tpc \<Rightarrow> (bank \<times> tpc) list" where
  "transfer t = (if src t < dst t then transfer_from (src t) (dst t) t else transfer_from (dst t) (src t) t)"

text \<open>\<^verbatim>\<open>main\<close>: the accounts, and the transaction number \<open>i\<close> when \<^verbatim>\<open>rand()\<close> returns \<open>r\<close>.\<close>

definition make_txn :: "nat \<Rightarrow> nat \<Rightarrow> txn_t" where
  "make_txn i r = (let s = r mod ACCS; d = i mod ACCS in
     \<lparr>src = s, dst = (if s = d then (s + 1) mod ACCS else d), amount = 10\<rparr>)"

definition bank_start :: "(bank, tpc) sys" where
  "bank_start = \<lparr>glob = \<lparr>mutex = (\<lambda>_. False), balance = (\<lambda>_. 1000)\<rparr>, locs = (\<lambda>_. Lock1)\<rparr>"

definition bank_fix :: "(nat \<Rightarrow> nat) \<Rightarrow> (bank, tpc) threads" where
  "bank_fix rnd i = transfer (make_txn i (rnd i))"

definition bank_dead :: "(nat \<Rightarrow> nat) \<Rightarrow> (bank, tpc) threads" where
  "bank_dead rnd i = transfer_dead (make_txn i (rnd i))"

section \<open>The invariant\<close>

text \<open>The mutexes a thread holds, and what it has taken from the sum of the balances or put on top of it.\<close>

fun held :: "nat \<Rightarrow> txn_t \<Rightarrow> tpc \<Rightarrow> nat set" where
  "held a t Lock1 = {}"
| "held a t Lock2 = {a}"
| "held a t UnlockDst = {dst t}"
| "held a t Ended = {}"
| "held a t _ = {src t, dst t}"

fun excess :: "txn_t \<Rightarrow> tpc \<Rightarrow> int" where
  "excess t LoadSrc = amount t"
| "excess t (StoreSrc v) = amount t"
| "excess t _ = 0"

fun loaded :: "txn_t \<Rightarrow> bank \<Rightarrow> tpc \<Rightarrow> bool" where
  "loaded t g LoadDst = (amount t < balance g (src t))"
| "loaded t g (StoreDst v) = (amount t < balance g (src t) \<and> v = balance g (dst t))"
| "loaded t g LoadSrc = (amount t < balance g (src t))"
| "loaded t g (StoreSrc v) = (amount t < balance g (src t) \<and> v = balance g (src t))"
| "loaded t g _ = True"

definition first :: "txn_t \<Rightarrow> nat" where "first t = min (src t) (dst t)"
definition second :: "txn_t \<Rightarrow> nat" where "second t = max (src t) (dst t)"

lemma transfer_ordered: "src t \<noteq> dst t \<Longrightarrow> transfer t = transfer_from (first t) (second t) t"
  by (auto simp: transfer_def first_def second_def)

lemma make_txn: "src (make_txn i r) \<noteq> dst (make_txn i r)" "src (make_txn i r) < ACCS" "dst (make_txn i r) < ACCS"
    "amount (make_txn i r) = 10"
  by (auto simp: make_txn_def Let_def ACCS_def mod_Suc)

definition bank_inv :: "(nat \<Rightarrow> txn_t) \<Rightarrow> nat \<Rightarrow> bank \<Rightarrow> (nat \<Rightarrow> tpc) \<Rightarrow> bool" where
  "bank_inv T N g ls \<longleftrightarrow>
     (\<forall>a. mutex g a \<longleftrightarrow> (\<exists>i<N. a \<in> held (first (T i)) (T i) (ls i))) \<and>
     (\<forall>i<N. \<forall>j<N. i \<noteq> j \<longrightarrow> held (first (T i)) (T i) (ls i) \<inter> held (first (T j)) (T j) (ls j) = {}) \<and>
     (\<forall>i<N. loaded (T i) g (ls i)) \<and> (\<forall>a. 0 < balance g a) \<and>
     (\<Sum>a<ACCS. balance g a) = 1000 * int ACCS + (\<Sum>i<N. excess (T i) (ls i))"

lemma loaded_other:
  assumes "held f t l \<inter> X = {}" "\<And>a. a \<notin> X \<Longrightarrow> balance g' a = balance g a" "loaded t g l"
  shows "loaded t g' l"
  using assms by (cases l) auto

text \<open>What a step of one thread does: it locks or unlocks a mutex, or it changes balances under the mutexes that it holds.\<close>

lemma transfer_from_mutexes:
  assumes "(g', l') \<in> set (transfer_from x y t g l)" "src t \<noteq> dst t" "x = src t \<and> y = dst t \<or> x = dst t \<and> y = src t"
    and "\<And>a. a \<in> held x t l \<Longrightarrow> mutex g a"
  shows "(mutex g' a \<longleftrightarrow> a \<in> held x t l' \<or> mutex g a \<and> a \<notin> held x t l) \<and>
    (a \<in> held x t l' \<longrightarrow> a \<in> held x t l \<or> \<not> mutex g a)"
  using assms by (cases l) (auto simp: mutex_lock_def mutex_unlock_def split: if_splits)

lemma transfer_mutexes:
  fixes t :: txn_t
  defines "h \<equiv> held (first t) t"
  assumes r: "(g', l') \<in> set (transfer t g l)" and ne: "src t \<noteq> dst t" and m: "\<And>a. a \<in> h l \<Longrightarrow> mutex g a"
  shows "mutex g' a \<longleftrightarrow> a \<in> h l' \<or> mutex g a \<and> a \<notin> h l" "a \<in> h l' \<Longrightarrow> a \<in> h l \<or> \<not> mutex g a"
proof -
  have "first t = src t \<and> second t = dst t \<or> first t = dst t \<and> second t = src t"
    by (auto simp: first_def second_def min_def max_def)
  from transfer_from_mutexes [OF r [unfolded transfer_ordered [OF ne]] ne this m [unfolded h_def], of a]
  show "mutex g' a \<longleftrightarrow> a \<in> h l' \<or> mutex g a \<and> a \<notin> h l" "a \<in> h l' \<Longrightarrow> a \<in> h l \<or> \<not> mutex g a"
    unfolding h_def by blast+
qed

lemma transfer_balances:
  assumes r: "(g', l') \<in> set (transfer t g l)" and ne: "src t \<noteq> dst t" "src t < ACCS" "dst t < ACCS" "0 \<le> amount t"
    and l: "loaded t g l"
  shows "a \<notin> held (first t) t l \<Longrightarrow> balance g' a = balance g a" "loaded t g' l'" "(\<And>a. 0 < balance g a) \<Longrightarrow> 0 < balance g' a"
    "(\<Sum>a<ACCS. balance g' a) - excess t l' = (\<Sum>a<ACCS. balance g a) - excess t l"
proof -
  have r: "(g', l') \<in> set (transfer_from (first t) (second t) t g l)" using r ne by (simp add: transfer_ordered)
  show "a \<notin> held (first t) t l \<Longrightarrow> balance g' a = balance g a" "loaded t g' l'"
    using r ne l by (cases l; auto simp: mutex_lock_def mutex_unlock_def split: if_splits)+
  show "0 < balance g' a" if "\<And>a. 0 < balance g a"
    using r ne l that [of "dst t"] that [of a] by (cases l) (auto simp: mutex_lock_def mutex_unlock_def split: if_splits)
  show "(\<Sum>a<ACCS. balance g' a) - excess t l' = (\<Sum>a<ACCS. balance g a) - excess t l"
    using r ne l by (cases l) (auto simp: mutex_lock_def mutex_unlock_def sum_upd simp del: fun_upd_apply split: if_splits)
qed

definition good_txn :: "txn_t \<Rightarrow> bool" where
  "good_txn t \<longleftrightarrow> src t \<noteq> dst t \<and> src t < ACCS \<and> dst t < ACCS \<and> 0 \<le> amount t"

lemma bank_keeps:
  assumes inv: "bank_inv T N g ls" and T: "\<And>i. good_txn (T i)" and i: "i < N" and r: "(g', l') \<in> set (transfer (T i) g (ls i))"
  shows "bank_inv T N g' (ls(i := l'))"
proof -
  let ?h = "\<lambda>j. held (first (T j)) (T j)"
  have m: "\<And>a. mutex g a \<longleftrightarrow> (\<exists>j<N. a \<in> ?h j (ls j))" and d: "\<And>j k. j < N \<Longrightarrow> k < N \<Longrightarrow> j \<noteq> k \<Longrightarrow> ?h j (ls j) \<inter> ?h k (ls k) = {}"
    and l: "\<And>j. j < N \<Longrightarrow> loaded (T j) g (ls j)" and b: "\<And>a. 0 < balance g a"
    and sum: "(\<Sum>a<ACCS. balance g a) = 1000 * int ACCS + (\<Sum>j<N. excess (T j) (ls j))"
    using inv by (auto simp: bank_inv_def)
  have t: "src (T i) \<noteq> dst (T i)" "src (T i) < ACCS" "dst (T i) < ACCS" "0 \<le> amount (T i)" using T [of i] by (simp_all add: good_txn_def)
  have hm: "\<And>a. a \<in> ?h i (ls i) \<Longrightarrow> mutex g a" using m i by blast
  note mx = transfer_mutexes [OF r t(1) hm] and bal = transfer_balances [OF r t l [OF i]]
  have own: "?h i l' \<inter> ?h j (ls j) = {}" if "j < N" "j \<noteq> i" for j
    using mx(2) m that d [OF i that(1)] by blast
  have "mutex g' a \<longleftrightarrow> (\<exists>j<N. a \<in> ?h j ((ls(i := l')) j))" for a
    using mx(1) [of a] m [of a] i d by (auto simp: disjoint_iff) metis+
  moreover have "?h j ((ls(i := l')) j) \<inter> ?h k ((ls(i := l')) k) = {}" if "j < N" "k < N" "j \<noteq> k" for j k
    using that d [OF that] own [of k] own [of j] by (cases "j = i"; cases "k = i") (simp_all add: Int_commute)
  moreover have "loaded (T j) g' ((ls(i := l')) j)" if "j < N" for j
    using bal(2) l [OF that] loaded_other [OF d [OF that i] bal(1)] by (cases "j = i") auto
  moreover have "(\<Sum>a<ACCS. balance g' a) = 1000 * int ACCS + (\<Sum>j<N. excess (T j) ((ls(i := l')) j))"
  proof -
    have "(\<Sum>j<N. excess (T j) ((ls(i := l')) j)) = (\<Sum>j<N. ((\<lambda>j. excess (T j) (ls j))(i := excess (T i) l')) j)"
      by (rule sum.cong) auto
    then show ?thesis using bal(4) sum by (simp add: sum_upd [OF i] del: fun_upd_apply)
  qed
  ultimately show ?thesis using bal(3) [OF b] by (simp add: bank_inv_def)
qed

interpretation bf: thread_invariant "bank_fix rnd" TXNS bank_start "bank_inv (\<lambda>i. make_txn i (rnd i)) TXNS" for rnd
proof
  show "bank_inv (\<lambda>i. make_txn i (rnd i)) TXNS (glob bank_start) (locs bank_start)"
    by (simp add: bank_inv_def bank_start_def)
  show "bank_inv (\<lambda>i. make_txn i (rnd i)) TXNS g' (ls(i := l'))"
    if "bank_inv (\<lambda>i. make_txn i (rnd i)) TXNS g ls" "i < TXNS" "(g', l') \<in> set (bank_fix rnd i g (ls i))" for g ls i g' l'
    by (rule bank_keeps [OF that(1) _ that(2)]) (use that(3) make_txn in \<open>simp_all add: bank_fix_def good_txn_def\<close>)
qed

section \<open>Progress\<close>

text \<open>A thread that cannot make a step has returned or waits for a mutex.\<close>

lemma transfer_waits:
  assumes "transfer t g l = []" "src t \<noteq> dst t" "l \<noteq> Ended"
  shows "l = Lock1 \<and> mutex g (first t) \<or> l = Lock2 \<and> mutex g (second t)"
  using assms by (cases l) (auto simp: transfer_ordered mutex_lock_def mutex_unlock_def split: if_splits)

definition wanted :: "txn_t \<Rightarrow> tpc \<Rightarrow> nat" where
  "wanted t l = (if l = Lock1 then first t else second t)"

text \<open>
  In a deadlock, the greatest mutex that a thread waits for would be held by a thread that waits for a greater one.
\<close>

lemma bank_no_deadlock:
  assumes inv: "bank_inv T N g ls" and T: "\<And>i. good_txn (T i)" and stuck: "\<And>i. i < N \<Longrightarrow> transfer (T i) g (ls i) = []"
  shows "\<forall>i<N. ls i = Ended"
proof -
  have ne: "src (T i) \<noteq> dst (T i)" for i using T [of i] by (simp add: good_txn_def)
  have "{i. i < N \<and> ls i \<noteq> Ended} = {}"
  proof (rule no_circular_wait [where f = "\<lambda>i. wanted (T i) (ls i)"])
    fix i assume i: "i \<in> {i. i < N \<and> ls i \<noteq> Ended}"
    then have "mutex g (wanted (T i) (ls i))" using transfer_waits [OF stuck [of i] ne] by (auto simp: wanted_def)
    then obtain j where j: "j < N" "wanted (T i) (ls i) \<in> held (first (T j)) (T j) (ls j)" using inv by (auto simp: bank_inv_def)
    then have nj: "ls j \<noteq> Ended" by auto
    then have "ls j = Lock2" using transfer_waits [OF stuck [OF j(1)] ne] j(2) by auto
    then have "wanted (T i) (ls i) < wanted (T j) (ls j)" using j(2) ne [of j] by (auto simp: wanted_def first_def second_def)
    then show "\<exists>j\<in>{i. i < N \<and> ls i \<noteq> Ended}. wanted (T i) (ls i) < wanted (T j) (ls j)" using j(1) nj by blast
  qed simp
  then show ?thesis by blast
qed

fun tpc_rank :: "tpc \<Rightarrow> nat" where
  "tpc_rank Lock1 = 9"
| "tpc_rank Lock2 = 8"
| "tpc_rank Check = 7"
| "tpc_rank LoadDst = 6"
| "tpc_rank (StoreDst v) = 5"
| "tpc_rank LoadSrc = 4"
| "tpc_rank (StoreSrc v) = 3"
| "tpc_rank UnlockSrc = 2"
| "tpc_rank UnlockDst = 1"
| "tpc_rank Ended = 0"

lemma transfer_rank: "(g', l') \<in> set (transfer t g l) \<Longrightarrow> tpc_rank l' < tpc_rank l"
  by (cases l) (auto simp: transfer_def mutex_lock_def mutex_unlock_def split: if_splits)

lemma bank_terminates: "wf {(t, s). tstep (bank_fix rnd) TXNS s t}"
proof (rule wf_subset [OF wf_measure [of "\<lambda>s. \<Sum>i<TXNS. tpc_rank (locs s i)"]], clarify)
  fix t s assume "tstep (bank_fix rnd) TXNS s t"
  then obtain i g' l' where i: "i < TXNS" "(g', l') \<in> set (bank_fix rnd i (glob s) (locs s i))" and t: "t = put_thread i (g', l') s"
    by (auto elim: tstepE)
  have less: "tpc_rank l' < tpc_rank (locs s i)" using i(2) by (auto simp: bank_fix_def dest: transfer_rank)
  have "(\<Sum>j<TXNS. tpc_rank (locs t j)) < (\<Sum>j<TXNS. tpc_rank (locs s j))"
    using i(1) less by (intro sum_strict_mono_ex1) (auto simp: t)
  then show "(t, s) \<in> measure (\<lambda>s. \<Sum>i<TXNS. tpc_rank (locs s i))" by simp
qed

section \<open>The programs\<close>

text \<open>
  C18: with the mutexes locked in the order of the accounts, all transfers complete, whatever \<^verbatim>\<open>rand()\<close> returns
  and however the threads interleave. Every run ends; when no thread can make a step, all threads have
  returned and the sum of the balances is what it was at the start; and at no time is an account overdrawn.
\<close>

theorem transfers_complete:
  assumes "reaches (bank_fix rnd) TXNS bank_start s"
  shows "wf {(t, s). tstep (bank_fix rnd) TXNS s t} \<and> (\<forall>a. 0 < balance (glob s) a) \<and>
    (stuck (bank_fix rnd) TXNS s \<longrightarrow> (\<forall>i<TXNS. locs s i = Ended) \<and> (\<Sum>a<ACCS. balance (glob s) a) = 1000 * int ACCS)"
proof -
  note inv = bf.invariant [OF assms]
  have "\<forall>i<TXNS. locs s i = Ended" if "stuck (bank_fix rnd) TXNS s"
    by (rule bank_no_deadlock [OF inv]) (use stuckD [OF that] make_txn in \<open>simp_all add: bank_fix_def good_txn_def\<close>)
  then show ?thesis using inv bank_terminates by (auto simp: bank_inv_def)
qed

theorem transfers_complete_witness:
  "\<exists>s. reaches (bank_fix (\<lambda>i. 7 * i)) TXNS bank_start s \<and> (\<forall>i<TXNS. locs s i = Ended) \<and> (\<Sum>a<ACCS. balance (glob s) a) = 10000"
proof -
  obtain s where s: "reaches (bank_fix (\<lambda>i. 7 * i)) TXNS bank_start s" "stuck (bank_fix (\<lambda>i. 7 * i)) TXNS s"
    using runs_end [OF bank_terminates] by blast
  then show ?thesis using transfers_complete [OF s(1)] by (auto simp: ACCS_def)
qed

text \<open>
  The program that locks the source first. Transactions 0 and 1 go in opposite directions between the accounts 0 and 1. When each has
  locked its source, both wait for good, whatever the other threads do.
\<close>

definition opposite :: "nat \<Rightarrow> nat" where
  "opposite i = (if i = 0 then 1 else 0)"

definition crossed :: "(bank, tpc) sys" where
  "crossed = the (run_schedule (bank_dead opposite) TXNS [(0, 0), (1, 0)] bank_start)"

definition crossed_inv :: "bank \<Rightarrow> (nat \<Rightarrow> tpc) \<Rightarrow> bool" where
  "crossed_inv g ls \<longleftrightarrow> ls 0 = Lock2 \<and> ls 1 = Lock2 \<and> (\<forall>a\<in>{0, 1}. mutex g a \<and>
     (\<forall>i\<ge>2. a \<notin> held (src (make_txn i 0)) (make_txn i 0) (ls i)))"

lemma crossed_run: "run_schedule (bank_dead opposite) TXNS [(0, 0), (1, 0)] bank_start = Some crossed"
  by (simp add: crossed_def bank_dead_def transfer_dead_def make_txn_def opposite_def mutex_lock_def bank_start_def TXNS_def ACCS_def)

lemma crossed_waits:
  assumes "crossed_inv g ls"
  shows "bank_dead opposite 0 g (ls 0) = []" "bank_dead opposite 1 g (ls 1) = []"
  using assms
  by (simp_all add: crossed_inv_def bank_dead_def transfer_dead_def make_txn_def opposite_def mutex_lock_def ACCS_def)

lemma others_mutexes:
  assumes "(g', l') \<in> set (transfer_from x y t g l)" "x = src t \<and> y = dst t \<or> x = dst t \<and> y = src t" "mutex g a" "a \<notin> held x t l"
  shows "mutex g' a \<and> a \<notin> held x t l'"
  using assms by (cases l) (auto simp: mutex_lock_def mutex_unlock_def split: if_splits)

interpretation cr: thread_invariant "bank_dead opposite" TXNS crossed crossed_inv
proof
  have "crossed_inv (glob (the (run_schedule (bank_dead opposite) TXNS [(0, 0), (1, 0)] bank_start)))
      (locs (the (run_schedule (bank_dead opposite) TXNS [(0, 0), (1, 0)] bank_start)))"
    by (simp add: crossed_inv_def bank_dead_def transfer_dead_def make_txn_def opposite_def mutex_lock_def bank_start_def TXNS_def ACCS_def)
  then show "crossed_inv (glob crossed) (locs crossed)" by (simp add: crossed_def)
  fix g ls i g' l'
  assume inv: "crossed_inv g ls" and r: "(g', l') \<in> set (bank_dead opposite i g (ls i))"
  have ne: "i \<noteq> 0" "i \<noteq> 1" using r crossed_waits [OF inv] by (metis empty_iff empty_set)+
  then have "(g', l') \<in> set (transfer_from (src (make_txn i 0)) (dst (make_txn i 0)) (make_txn i 0) g (ls i))"
    using r by (simp add: bank_dead_def transfer_dead_def opposite_def)
  note step = others_mutexes [OF this]
  show "crossed_inv g' (ls(i := l'))" using inv ne step by (auto simp: crossed_inv_def)
qed

text \<open>
  With the source locked first, the transfers can deadlock: there are return values of \<^verbatim>\<open>rand()\<close> and a reachable
  state from which the first two transactions never complete, whatever the other threads do.
\<close>

lemma transfers_deadlock:
  "\<exists>rnd s. reaches (bank_dead rnd) TXNS bank_start s \<and>
    (\<forall>t. reaches (bank_dead rnd) TXNS s t \<longrightarrow> locs t 0 = Lock2 \<and> locs t 1 = Lock2)"
  using run_schedule_reaches [OF crossed_run] cr.invariant by (auto simp: crossed_inv_def)

end
