(* ===== verification/Dining.thy ===== *)
theory Dining
  imports Threads
begin

text \<open>
  \<^verbatim>\<open>09/dine.c\<close> and \<^verbatim>\<open>09/dine-dead.c\<close>: five philosophers and five forks, each fork a semaphore, and the main thread, which initialises the
  forks and creates the philosophers in turn. When all take the right fork first they
  can all end up with one fork. When philosopher 0 takes the left fork first there is always one who can go on, once the forks are initialised: but a
  philosopher can be faster than the main thread and wait on a semaphore that has no value yet, whose outcome is undefined.
\<close>

definition PHIL :: nat where "PHIL = 5"

definition left :: "nat \<Rightarrow> nat" where "left p = p"
definition right :: "nat \<Rightarrow> nat" where "right p = (p + 1) mod PHIL"

text \<open>The shared state: the values of the semaphores, \<open>None\<close> before \<^verbatim>\<open>sem_init\<close>, and the number of threads created.\<close>

record table =
  forks :: "nat \<Rightarrow> nat option"
  born :: nat

text \<open>
  The positions of a philosopher and of the main thread. \<open>Undef\<close> is where a thread ends up that has used a semaphore without a value.
\<close>

datatype dpc = First | Second | PostLeft | PostRight | Undef | Init nat | Create nat | Join

definition wait_fork :: "nat \<Rightarrow> dpc \<Rightarrow> table \<Rightarrow> (table \<times> dpc) list" where
  "wait_fork f l g = (case forks g f of None \<Rightarrow> [(g, Undef)]
     | Some v \<Rightarrow> sem_wait v (\<lambda>v. (g\<lparr>forks := (forks g)(f := Some v)\<rparr>, l)))"

definition post_fork :: "nat \<Rightarrow> dpc \<Rightarrow> table \<Rightarrow> (table \<times> dpc) list" where
  "post_fork f l g = (case forks g f of None \<Rightarrow> [(g, Undef)]
     | Some v \<Rightarrow> sem_post v (\<lambda>v. (g\<lparr>forks := (forks g)(f := Some v)\<rparr>, l)))"

fun dine :: "nat \<Rightarrow> table \<Rightarrow> dpc \<Rightarrow> (table \<times> dpc) list" where
  "dine p g First = wait_fork (if p = 0 then left p else right p) Second g"
| "dine p g Second = wait_fork (if p = 0 then right p else left p) PostLeft g"
| "dine p g PostLeft = post_fork (left p) PostRight g"
| "dine p g PostRight = post_fork (right p) First g"
| "dine p g _ = []"

fun dine_dead :: "nat \<Rightarrow> table \<Rightarrow> dpc \<Rightarrow> (table \<times> dpc) list" where
  "dine_dead p g First = wait_fork (right p) Second g"
| "dine_dead p g Second = wait_fork (left p) PostLeft g"
| "dine_dead p g PostLeft = post_fork (left p) PostRight g"
| "dine_dead p g PostRight = post_fork (right p) First g"
| "dine_dead p g _ = []"

text \<open>\<^verbatim>\<open>main\<close>: the philosophers never return, so that it waits in the first \<^verbatim>\<open>pthread_join\<close> for ever.\<close>

fun dine_main :: "table \<Rightarrow> dpc \<Rightarrow> (table \<times> dpc) list" where
  "dine_main g (Init i) = [(g\<lparr>forks := (forks g)(i := Some 1)\<rparr>, Create i)]"
| "dine_main g (Create i) = [(g\<lparr>born := Suc i\<rparr>, if Suc i < PHIL then Init (Suc i) else Join)]"
| "dine_main g _ = []"

text \<open>Thread \<open>PHIL\<close> is the main thread; the others exist once it has created them.\<close>

definition with_main :: "(nat \<Rightarrow> table \<Rightarrow> dpc \<Rightarrow> (table \<times> dpc) list) \<Rightarrow> (table, dpc) threads" where
  "with_main phil i g l = (if i = PHIL then dine_main g l else if i < born g then phil i g l else [])"

definition dine_start :: "(table, dpc) sys" where
  "dine_start = \<lparr>glob = \<lparr>forks = (\<lambda>_. None), born = 0\<rparr>, locs = (\<lambda>_. First)(PHIL := Init 0)\<rparr>"

section \<open>The invariant\<close>

definition dfirst :: "nat \<Rightarrow> nat" where "dfirst p = (if p = 0 then left p else right p)"
definition dsecond :: "nat \<Rightarrow> nat" where "dsecond p = (if p = 0 then right p else left p)"

fun holding :: "nat \<Rightarrow> dpc \<Rightarrow> nat set" where
  "holding p Second = {dfirst p}"
| "holding p PostLeft = {left p, right p}"
| "holding p PostRight = {right p}"
| "holding p _ = {}"

text \<open>How many forks and philosophers there are, by the position of the main thread.\<close>

fun main_at :: "dpc \<Rightarrow> nat \<Rightarrow> nat \<Rightarrow> bool" where
  "main_at (Init i) n k \<longleftrightarrow> n = i \<and> k = i \<and> i < PHIL"
| "main_at (Create i) n k \<longleftrightarrow> n = Suc i \<and> k = i \<and> i < PHIL"
| "main_at Join n k \<longleftrightarrow> n = PHIL \<and> k = PHIL"
| "main_at _ n k \<longleftrightarrow> False"

text \<open>
  A fork that is initialised lies on the table or is held by exactly one philosopher; philosophers that do not exist hold nothing.
\<close>

definition dine_good :: "nat \<Rightarrow> table \<Rightarrow> (nat \<Rightarrow> dpc) \<Rightarrow> bool" where
  "dine_good n g ls \<longleftrightarrow> main_at (ls PHIL) n (born g) \<and>
     (\<forall>f. forks g f = (if f < n then Some (if \<exists>p<PHIL. f \<in> holding p (ls p) then 0 else 1) else None)) \<and>
     (\<forall>p<PHIL. \<forall>q<PHIL. p \<noteq> q \<longrightarrow> holding p (ls p) \<inter> holding q (ls q) = {}) \<and>
     (\<forall>p<PHIL. holding p (ls p) \<subseteq> {..<n}) \<and>
     (\<forall>p<PHIL. ls p \<in> (if born g \<le> p then {First} else {First, Second, PostLeft, PostRight}))"

definition dine_inv :: "table \<Rightarrow> (nat \<Rightarrow> dpc) \<Rightarrow> bool" where
  "dine_inv g ls \<longleftrightarrow> (\<exists>p<PHIL. ls p = Undef) \<or> (\<exists>n. dine_good n g ls)"

lemma forks_differ: "p < PHIL \<Longrightarrow> left p \<noteq> right p"
  by (auto simp: left_def right_def PHIL_def mod_Suc)

lemma wait_forkD:
  "(g', l') \<in> set (wait_fork f l g) \<Longrightarrow>
   l' = Undef \<or> (\<exists>v. v \<noteq> 0 \<and> forks g f = Some v \<and> g' = g\<lparr>forks := (forks g)(f := Some (v - 1))\<rparr> \<and> l' = l)"
  by (auto simp: wait_fork_def sem_wait_def split: option.splits if_splits)

lemma post_forkD:
  "(g', l') \<in> set (post_fork f l g) \<Longrightarrow> forks g f \<noteq> None \<Longrightarrow>
   \<exists>v. forks g f = Some v \<and> g' = g\<lparr>forks := (forks g)(f := Some (v + 1))\<rparr> \<and> l' = l"
  by (auto simp: post_fork_def sem_post_def)

text \<open>
  A step of a philosopher takes a fork from the table, puts one back, or uses a fork that is not initialised.
\<close>

lemma dine_step:
  assumes "(g', l') \<in> set (dine p g l)" "p < PHIL" "\<forall>f\<in>holding p l. forks g f \<noteq> None"
  shows "l' = Undef \<or>
    (\<exists>f v. v \<noteq> 0 \<and> forks g f = Some v \<and> g' = g\<lparr>forks := (forks g)(f := Some (v - 1))\<rparr> \<and>
       holding p l' = insert f (holding p l) \<and> l' \<in> {Second, PostLeft}) \<or>
    (\<exists>f v. f \<in> holding p l \<and> forks g f = Some v \<and> g' = g\<lparr>forks := (forks g)(f := Some (v + 1))\<rparr> \<and>
       holding p l' = holding p l - {f} \<and> l' \<in> {First, PostRight})"
proof (cases l)
  case First
  then have "(g', l') \<in> set (wait_fork (dfirst p) Second g)" using assms(1) by (simp add: dfirst_def)
  from wait_forkD [OF this] First show ?thesis by fastforce
next
  case Second
  then have "(g', l') \<in> set (wait_fork (dsecond p) PostLeft g)" using assms(1) by (simp add: dsecond_def)
  moreover have "holding p PostLeft = insert (dsecond p) (holding p Second)" by (auto simp: dfirst_def dsecond_def)
  ultimately show ?thesis using wait_forkD [of g' l' "dsecond p" PostLeft g] Second by fastforce
next
  case PostLeft
  then obtain v where "forks g (left p) = Some v" "g' = g\<lparr>forks := (forks g)(left p := Some (v + 1))\<rparr>" "l' = PostRight"
    using post_forkD [of g' l' "left p" PostRight g] assms(1,3) by auto
  then show ?thesis using PostLeft forks_differ [OF assms(2)] by (intro disjI2 exI [of _ "left p"] exI [of _ v]) auto
next
  case PostRight
  then obtain v where "forks g (right p) = Some v" "g' = g\<lparr>forks := (forks g)(right p := Some (v + 1))\<rparr>" "l' = First"
    using post_forkD [of g' l' "right p" First g] assms(1,3) by auto
  then show ?thesis using PostRight by (intro disjI2 exI [of _ "right p"] exI [of _ v]) auto
qed (use assms(1) in simp_all)

lemma dine_goodD:
  assumes "dine_good n g ls"
  shows "main_at (ls PHIL) n (born g)"
    "forks g f = (if f < n then Some (if \<exists>q<PHIL. f \<in> holding q (ls q) then 0 else 1) else None)"
    "p < PHIL \<Longrightarrow> q < PHIL \<Longrightarrow> p \<noteq> q \<Longrightarrow> holding p (ls p) \<inter> holding q (ls q) = {}"
    "p < PHIL \<Longrightarrow> holding p (ls p) \<subseteq> {..<n}"
    "p < PHIL \<Longrightarrow> ls p \<in> (if born g \<le> p then {First} else {First, Second, PostLeft, PostRight})"
  using assms unfolding dine_good_def by blast+

lemma dine_goodI:
  assumes "main_at (ls PHIL) n (born g)"
    "\<And>f. forks g f = (if f < n then Some (if \<exists>q<PHIL. f \<in> holding q (ls q) then 0 else 1) else None)"
    "\<And>p q. p < PHIL \<Longrightarrow> q < PHIL \<Longrightarrow> p \<noteq> q \<Longrightarrow> holding p (ls p) \<inter> holding q (ls q) = {}"
    "\<And>p. p < PHIL \<Longrightarrow> holding p (ls p) \<subseteq> {..<n}"
    "\<And>p. p < PHIL \<Longrightarrow> ls p \<in> (if born g \<le> p then {First} else {First, Second, PostLeft, PostRight})"
  shows "dine_good n g ls"
  unfolding dine_good_def using assms by blast

lemma phil_keeps:
  assumes good: "dine_good n g ls" and p: "p < PHIL" "p < born g" and r: "(g', l') \<in> set (dine p g (ls p))" and l': "l' \<noteq> Undef"
  shows "dine_good n g' (ls(p := l'))"
proof -
  let ?h = "\<lambda>q. holding q (ls q)" let ?h' = "\<lambda>q. holding q ((ls(p := l')) q)"
  note d = dine_goodD [OF good]
  have ex: "(\<exists>q<PHIL. f \<in> ?h' q) \<longleftrightarrow> f \<in> holding p l' \<or> (\<exists>q<PHIL. q \<noteq> p \<and> f \<in> ?h q)" for f using p by auto
  have ex0: "(\<exists>q<PHIL. f \<in> ?h q) \<longleftrightarrow> f \<in> ?h p \<or> (\<exists>q<PHIL. q \<noteq> p \<and> f \<in> ?h q)" for f using p by auto
  have there: "\<forall>f\<in>holding p (ls p). forks g f \<noteq> None" using d(4) [OF p(1)] d(2) by auto
  note g = d(2) [unfolded ex0]
  have m: "main_at ((ls(p := l')) PHIL) n (born g)" using d(1) p(1) by simp
  have k: "(ls(p := l')) q \<in> (if born g \<le> q then {First} else {First, Second, PostLeft, PostRight})"
    if "q < PHIL" "l' \<in> {First, Second, PostLeft, PostRight}" for q using d(5) [OF that(1)] that(2) p(2) by auto
  consider f v where "v \<noteq> 0" "forks g f = Some v" "g' = g\<lparr>forks := (forks g)(f := Some (v - 1))\<rparr>"
      "holding p l' = insert f (?h p)" "l' \<in> {Second, PostLeft}"
    | f v where "f \<in> ?h p" "forks g f = Some v" "g' = g\<lparr>forks := (forks g)(f := Some (v + 1))\<rparr>"
      "holding p l' = ?h p - {f}" "l' \<in> {First, PostRight}"
    using dine_step [OF r p(1) there] l' by blast
  then show ?thesis
  proof cases
    case (1 f v)
    have fn: "f < n" "v = 1" "\<not> (\<exists>q<PHIL. f \<in> ?h q)" using 1(1,2) d(2) [of f] by (auto split: if_splits)
    have g': "forks g' x = (if x = f then Some 0 else forks g x)" "born g' = born g" for x using fn(2) by (simp_all add: 1(3))
    show ?thesis
    proof (rule dine_goodI)
      show "forks g' x = (if x < n then Some (if \<exists>q<PHIL. x \<in> ?h' q then 0 else 1) else None)" for x
        unfolding ex g'(1) 1(4) using g [of x] fn(1,3) by auto
      show "?h' q \<inter> ?h' r = {}" if "q < PHIL" "r < PHIL" "q \<noteq> r" for q r
        using d(3) [OF that] fn(3) that by (cases "q = p"; cases "r = p") (auto simp: 1(4))
      show "?h' q \<subseteq> {..<n}" if "q < PHIL" for q using d(4) [OF that] fn(1) by (cases "q = p") (auto simp: 1(4))
      show "(ls(p := l')) q \<in> (if born g' \<le> q then {First} else {First, Second, PostLeft, PostRight})" if "q < PHIL" for q
        unfolding g'(2) by (rule k) (use that 1(5) in auto)
      show "main_at ((ls(p := l')) PHIL) n (born g')" unfolding g'(2) by (rule m)
    qed
  next
    case (2 f v)
    have own: "f \<notin> ?h q" if "q < PHIL" "q \<noteq> p" for q using d(3) [OF p(1) that(1)] that(2) 2(1) by auto
    have fn: "f < n" "v = 0" using 2(1,2) g [of f] by (auto split: if_splits)
    have g': "forks g' x = (if x = f then Some 1 else forks g x)" "born g' = born g" for x using fn(2) by (simp_all add: 2(3))
    show ?thesis
    proof (rule dine_goodI)
      show "forks g' x = (if x < n then Some (if \<exists>q<PHIL. x \<in> ?h' q then 0 else 1) else None)" for x
        unfolding ex g'(1) 2(4) using g [of x] own fn(1) by auto
      show "?h' q \<inter> ?h' r = {}" if "q < PHIL" "r < PHIL" "q \<noteq> r" for q r
        using d(3) [OF that] that by (cases "q = p"; cases "r = p") (auto simp: 2(4))
      show "?h' q \<subseteq> {..<n}" if "q < PHIL" for q using d(4) [OF that] by (cases "q = p") (auto simp: 2(4))
      show "(ls(p := l')) q \<in> (if born g' \<le> q then {First} else {First, Second, PostLeft, PostRight})" if "q < PHIL" for q
        unfolding g'(2) by (rule k) (use that 2(5) in auto)
      show "main_at ((ls(p := l')) PHIL) n (born g')" unfolding g'(2) by (rule m)
    qed
  qed
qed

lemma main_keeps:
  assumes good: "dine_good n g ls" and r: "(g', l') \<in> set (dine_main g (ls PHIL))"
  shows "\<exists>n'. dine_good n' g' (ls(PHIL := l'))"
proof -
  note d = dine_goodD [OF good]
  have h: "(\<exists>q<PHIL. x \<in> holding q ((ls(PHIL := l')) q)) \<longleftrightarrow> (\<exists>q<PHIL. x \<in> holding q (ls q))" for x
    by (metis fun_upd_other less_irrefl)
  show ?thesis
  proof (cases "ls PHIL")
    case (Init i)
    then have i: "n = i" "born g = i" "i < PHIL" "g' = g\<lparr>forks := (forks g)(i := Some 1)\<rparr>" "l' = Create i" using d(1) r by auto
    have no: "\<not> (\<exists>q<PHIL. i \<in> holding q (ls q))" using d(4) i(1) by fastforce
    have "dine_good (Suc n) g' (ls(PHIL := l'))"
    proof (rule dine_goodI)
      show "forks g' f = (if f < Suc n then Some (if \<exists>q<PHIL. f \<in> holding q ((ls(PHIL := l')) q) then 0 else 1) else None)" for f
        unfolding h using d(2) [of f] i no by auto
      show "holding p ((ls(PHIL := l')) p) \<subseteq> {..<Suc n}" if "p < PHIL" for p using d(4) [OF that] that by auto
      show "(ls(PHIL := l')) p \<in> (if born g' \<le> p then {First} else {First, Second, PostLeft, PostRight})" if "p < PHIL" for p
        using d(5) [OF that] that i(4) by simp
    qed (use d(3) i in auto)
    then show ?thesis ..
  next
    case (Create i)
    then have i: "n = Suc i" "born g = i" "i < PHIL" "g' = g\<lparr>born := Suc i\<rparr>" "l' = (if Suc i < PHIL then Init (Suc i) else Join)"
      using d(1) r by auto
    have "dine_good n g' (ls(PHIL := l'))"
    proof (rule dine_goodI)
      show "forks g' f = (if f < n then Some (if \<exists>q<PHIL. f \<in> holding q ((ls(PHIL := l')) q) then 0 else 1) else None)" for f
        unfolding h using d(2) [of f] i(4) by simp
      show "holding p ((ls(PHIL := l')) p) \<subseteq> {..<n}" if "p < PHIL" for p using d(4) [OF that] that by auto
      show "(ls(PHIL := l')) p \<in> (if born g' \<le> p then {First} else {First, Second, PostLeft, PostRight})" if "p < PHIL" for p
        using d(5) [OF that] that i(2,4) by (auto split: if_splits)
    qed (use d(3) i in auto)
    then show ?thesis ..
  qed (use d(1) r in auto)
qed

lemma dine_keeps:
  assumes inv: "dine_inv g ls" and i: "i < Suc PHIL" and r: "(g', l') \<in> set (with_main dine i g (ls i))"
  shows "dine_inv g' (ls(i := l'))"
proof (cases "\<exists>p<PHIL. ls p = Undef")
  case True
  then obtain p where p: "p < PHIL" "ls p = Undef" by blast
  then have "p \<noteq> i" using r by (auto simp: with_main_def split: if_splits)
  then show ?thesis using p by (auto simp: dine_inv_def)
next
  case False
  then obtain n where good: "dine_good n g ls" using inv by (auto simp: dine_inv_def)
  show ?thesis
  proof (cases "i = PHIL")
    case True
    then show ?thesis using main_keeps [OF good] r by (auto simp: with_main_def dine_inv_def)
  next
    case False
    then have p: "i < PHIL" "i < born g" "(g', l') \<in> set (dine i g (ls i))" using i r by (auto simp: with_main_def split: if_splits)
    show ?thesis
    proof (cases "l' = Undef")
      case True
      then show ?thesis using p(1) by (auto simp: dine_inv_def)
    qed (use phil_keeps [OF good p] in \<open>auto simp: dine_inv_def\<close>)
  qed
qed

interpretation dp: thread_invariant "with_main dine" "Suc PHIL" dine_start dine_inv
proof
  have "dine_good 0 (glob dine_start) (locs dine_start)" by (auto simp: dine_good_def dine_start_def PHIL_def)
  then show "dine_inv (glob dine_start) (locs dine_start)" by (auto simp: dine_inv_def)
qed (rule dine_keeps)

section \<open>Progress\<close>

text \<open>The order in which the forks are taken: fork 0 before fork 4, then 3, 2 and 1.\<close>

definition fork_rank :: "nat \<Rightarrow> nat" where
  "fork_rank f = (PHIL - f) mod PHIL"

lemma forks_ordered:
  assumes "p < PHIL"
  shows "fork_rank (dfirst p) < fork_rank (dsecond p)"
proof -
  from assms have "p = 0 \<or> p = 1 \<or> p = 2 \<or> p = 3 \<or> p = 4" unfolding PHIL_def by linarith
  then show ?thesis by (elim disjE) (simp_all add: fork_rank_def dfirst_def dsecond_def left_def right_def PHIL_def)
qed

lemma dine_waits:
  assumes "dine p g l = []" "l \<in> {First, Second, PostLeft, PostRight}"
  shows "l = First \<and> forks g (dfirst p) = Some 0 \<or> l = Second \<and> forks g (dsecond p) = Some 0"
  using assms by (cases l) (auto simp: wait_fork_def post_fork_def sem_wait_def sem_post_def dfirst_def dsecond_def split: if_splits option.splits)

definition wanted_fork :: "nat \<Rightarrow> dpc \<Rightarrow> nat" where
  "wanted_fork p l = (if l = First then dfirst p else dsecond p)"

lemma dine_not_stuck:
  assumes good: "dine_good n g ls"
  shows "\<exists>i<Suc PHIL. with_main dine i g (ls i) \<noteq> []"
proof (rule ccontr)
  assume "\<not> (\<exists>i<Suc PHIL. with_main dine i g (ls i) \<noteq> [])"
  then have none: "with_main dine i g (ls i) = []" if "i < Suc PHIL" for i using that by blast
  note m = dine_goodD(1) [OF good] and d = dine_goodD(2) [OF good] and k = dine_goodD(5) [OF good]
  have "ls PHIL = Join" using none [of PHIL] m by (cases "ls PHIL") (auto simp: with_main_def)
  then have born: "born g = PHIL" using m by simp
  have stuck: "dine p g (ls p) = []" "ls p \<in> {First, Second, PostLeft, PostRight}" if "p < PHIL" for p
    using none [of p] k [OF that] that born by (auto simp: with_main_def)
  have "{..<PHIL} = {}"
  proof (rule no_circular_wait [where f = "\<lambda>p. fork_rank (wanted_fork p (ls p))"])
    fix p assume "p \<in> {..<PHIL}"
    then have p: "p < PHIL" by simp
    have "forks g (wanted_fork p (ls p)) = Some 0" using dine_waits [OF stuck [OF p]] by (auto simp: wanted_fork_def)
    then obtain q where q: "q < PHIL" "wanted_fork p (ls p) \<in> holding q (ls q)" using d by (auto split: if_splits)
    then have "ls q = Second" using dine_waits [OF stuck [OF q(1)]] by auto
    then have "fork_rank (wanted_fork p (ls p)) < fork_rank (wanted_fork q (ls q))"
      using q forks_ordered by (simp add: wanted_fork_def)
    then show "\<exists>q\<in>{..<PHIL}. fork_rank (wanted_fork p (ls p)) < fork_rank (wanted_fork q (ls q))" using q(1) by blast
  qed simp
  then show False by (simp add: PHIL_def lessThan_empty_iff)
qed

section \<open>The programs\<close>

text \<open>The main thread creates philosopher 0, who takes fork 0 and then fork 1, which is not initialised.\<close>

lemma dine_undefined: "\<exists>s. reaches (with_main dine) (Suc PHIL) dine_start s \<and> locs s 0 = Undef"
proof -
  let ?w = "[(5, 0), (5, 0), (0, 0), (0, 0)]"
  have "run_schedule (with_main dine) (Suc PHIL) ?w dine_start \<noteq> None"
    "locs (the (run_schedule (with_main dine) (Suc PHIL) ?w dine_start)) 0 = Undef"
    by code_simp+
  then show ?thesis using run_schedule_reaches by fastforce
qed

text \<open>
  C21: the philosophers of \<^verbatim>\<open>dine.c\<close>, together with the main thread that initialises the forks and creates
  them. A philosopher can use a fork before the main thread has initialised it. As long as that has not happened, there is no
  deadlock: in every such reachable state some thread can make a step. No fork is then in two hands, so that two neighbours never eat at
  the same time.
\<close>

theorem dine_goes_on:
  "(\<exists>s. reaches (with_main dine) (Suc PHIL) dine_start s \<and> locs s 0 = Undef) \<and>
   (\<forall>s. reaches (with_main dine) (Suc PHIL) dine_start s \<longrightarrow> (\<forall>p<PHIL. locs s p \<noteq> Undef) \<longrightarrow>
      \<not> stuck (with_main dine) (Suc PHIL) s \<and> (\<forall>p<PHIL. \<not> (locs s p = PostLeft \<and> locs s (right p) = PostLeft)))"
proof (intro conjI allI impI)
  fix s assume s: "reaches (with_main dine) (Suc PHIL) dine_start s" "\<forall>p<PHIL. locs s p \<noteq> Undef"
  obtain n where good: "dine_good n (glob s) (locs s)" using dp.invariant [OF s(1)] s(2) by (auto simp: dine_inv_def)
  show "\<not> stuck (with_main dine) (Suc PHIL) s"
    using dine_not_stuck [OF good] by (auto simp: stuck_def list_all_iff simp del: upt_Suc)
  fix p assume "p < PHIL"
  moreover have "right p < PHIL" "p \<noteq> right p" using \<open>p < PHIL\<close> forks_differ by (auto simp: left_def right_def PHIL_def)
  moreover have "right p \<in> holding p PostLeft \<inter> holding (right p) PostLeft" by (simp add: left_def)
  ultimately show "\<not> (locs s p = PostLeft \<and> locs s (right p) = PostLeft)" using good by (fastforce simp: dine_good_def)
qed (rule dine_undefined)

text \<open>A run in which all are created, philosopher 1 has eaten and philosopher 0 holds its first fork.\<close>

definition dine_run :: "(nat \<times> nat) list" where
  "dine_run = replicate 10 (5, 0) @ replicate 4 (1, 0) @ [(0, 0)]"

lemma dine_run:
  "run_schedule (with_main dine) (Suc PHIL) dine_run dine_start \<noteq> None"
  "list_all (\<lambda>p. locs (the (run_schedule (with_main dine) (Suc PHIL) dine_run dine_start)) p \<noteq> Undef) [0..<PHIL]"
  by code_simp+

theorem dine_goes_on_witness: "\<not> stuck (with_main dine) (Suc PHIL) (the (run_schedule (with_main dine) (Suc PHIL) dine_run dine_start))"
  using conjunct2 [OF dine_goes_on] run_schedule_reaches [of "with_main dine" "Suc PHIL" dine_run dine_start] dine_run
  by (auto simp: list_all_iff)

text \<open>
  When all take the right fork first, all of them can come to wait for the left one, after all forks have been initialised.
\<close>

lemma dine_dead_deadlock:
  "\<exists>s. reaches (with_main dine_dead) (Suc PHIL) dine_start s \<and> stuck (with_main dine_dead) (Suc PHIL) s \<and> 
     list_all (\<lambda>p. locs s p \<noteq> Undef) [0..<PHIL]"
proof -
  let ?w = "replicate 10 (5, 0) @ [(0, 0), (1, 0), (2, 0), (3, 0), (4, 0)]"
  let ?s = "run_schedule (with_main dine_dead) (Suc PHIL) ?w dine_start"
  have "?s \<noteq> None" "stuck (with_main dine_dead) (Suc PHIL) (the ?s)"
    "list_all (\<lambda>p. locs (the ?s) p \<noteq> Undef) [0..<PHIL]" by code_simp+
  then show ?thesis using run_schedule_reaches by fastforce
qed

end
