(* ===== verification/Sempipe.thy ===== *)
theory Sempipe
  imports Threads
begin

text \<open>
  \<^verbatim>\<open>09/sempipe.c\<close>: a pipe of ten characters between a producer and a consumer, with a semaphore that counts the free slots and one that
  counts the filled ones. Every access to the shared variables is a step of its own. The output is what the consumer prints.
\<close>

definition SZ :: nat where "SZ = 10"

record pipe =
  buf :: "nat \<Rightarrow> int"
  reader :: nat
  writer :: nat
  write_slots :: nat
  read_slots :: nat
  stdout :: "int list"

text \<open>
  The points of the two threads; the producer carries the character of its loop and the consumer the character it has read. The
  producer runs from a to z over and over.
\<close>

datatype pipc = WWait int | WStore int | WAdvance int | WPost int | Written int | RWait | RLoad | RAdvance int | RPost int | Print int

definition char_a :: int where "char_a = 97"
definition char_z :: int where "char_z = 122"
definition char_A :: int where "char_A = 65"

fun pipe_write :: "pipe \<Rightarrow> pipc \<Rightarrow> (pipe \<times> pipc) list" where
  "pipe_write g (WWait c) = sem_wait (write_slots g) (\<lambda>v. (g\<lparr>write_slots := v\<rparr>, WStore c))"
| "pipe_write g (WStore c) = [(g\<lparr>buf := (buf g)(writer g := c)\<rparr>, WAdvance c)]"
| "pipe_write g (WAdvance c) = [(g\<lparr>writer := (writer g + 1) mod SZ\<rparr>, WPost c)]"
| "pipe_write g (WPost c) = sem_post (read_slots g) (\<lambda>v. (g\<lparr>read_slots := v\<rparr>, Written c))"
| "pipe_write g _ = []"

fun pipe_read :: "pipe \<Rightarrow> pipc \<Rightarrow> (pipe \<times> pipc) list" where
  "pipe_read g RWait = sem_wait (read_slots g) (\<lambda>v. (g\<lparr>read_slots := v\<rparr>, RLoad))"
| "pipe_read g RLoad = [(g, RAdvance (buf g (reader g)))]"
| "pipe_read g (RAdvance c) = [(g\<lparr>reader := (reader g + 1) mod SZ\<rparr>, RPost c)]"
| "pipe_read g (RPost c) = sem_post (write_slots g) (\<lambda>v. (g\<lparr>write_slots := v\<rparr>, Print c))"
| "pipe_read g _ = []"

text \<open>The loops of the two threads around these functions.\<close>

definition pipe_producer :: "pipe \<Rightarrow> pipc \<Rightarrow> (pipe \<times> pipc) list" where
  "pipe_producer g l = (case l of Written c \<Rightarrow> [(g, WWait (if c + 1 \<le> char_z then c + 1 else char_a))] | _ \<Rightarrow> pipe_write g l)"

definition pipe_consumer :: "pipe \<Rightarrow> pipc \<Rightarrow> (pipe \<times> pipc) list" where
  "pipe_consumer g l = (case l of Print c \<Rightarrow> [(g\<lparr>stdout := stdout g @ [c - char_a + char_A]\<rparr>, RWait)] | _ \<Rightarrow> pipe_read g l)"

definition sempipe :: "(pipe, pipc) threads" where
  "sempipe i = (if i = 0 then pipe_producer else pipe_consumer)"

definition sempipe_start :: "(pipe, pipc) sys" where
  "sempipe_start = \<lparr>glob = \<lparr>buf = (\<lambda>_. 0), reader = 0, writer = 0, write_slots = SZ, read_slots = 0, stdout = []\<rparr>,
     locs = (\<lambda>i. if i = 0 then WWait char_a else RWait)\<rparr>"

section \<open>The invariant\<close>

text \<open>The characters by their position in the stream, as they are written and as they are printed.\<close>

definition written_char :: "nat \<Rightarrow> int" where "written_char k = char_a + int (k mod 26)"
definition printed_char :: "nat \<Rightarrow> int" where "printed_char k = char_A + int (k mod 26)"

text \<open>
  \<open>w\<close> characters have been stored and \<open>r\<close> have been loaded. The four numbers that the semaphores are off by are the steps between
  the change of a semaphore and the access that it stands for.
\<close>

fun writer_at :: "nat \<Rightarrow> pipe \<Rightarrow> pipc \<Rightarrow> bool" where
  "writer_at w g (WWait c) = (writer g = w mod SZ \<and> c = written_char w)"
| "writer_at w g (WStore c) = (writer g = w mod SZ \<and> c = written_char w)"
| "writer_at w g (WAdvance c) = (0 < w \<and> writer g = (w - 1) mod SZ \<and> c = written_char (w - 1))"
| "writer_at w g (WPost c) = (0 < w \<and> writer g = w mod SZ \<and> c = written_char (w - 1))"
| "writer_at w g (Written c) = (0 < w \<and> writer g = w mod SZ \<and> c = written_char (w - 1))"
| "writer_at w g _ = False"

fun reader_at :: "nat \<Rightarrow> pipe \<Rightarrow> pipc \<Rightarrow> bool" where
  "reader_at r g RWait = (reader g = r mod SZ \<and> stdout g = map printed_char [0..<r])"
| "reader_at r g RLoad = (reader g = r mod SZ \<and> stdout g = map printed_char [0..<r])"
| "reader_at r g (RAdvance c) = (0 < r \<and> reader g = (r - 1) mod SZ \<and> c = written_char (r - 1) \<and> stdout g = map printed_char [0..<r - 1])"
| "reader_at r g (RPost c) = (0 < r \<and> reader g = r mod SZ \<and> c = written_char (r - 1) \<and> stdout g = map printed_char [0..<r - 1])"
| "reader_at r g (Print c) = (0 < r \<and> reader g = r mod SZ \<and> c = written_char (r - 1) \<and> stdout g = map printed_char [0..<r - 1])"
| "reader_at r g _ = False"

fun reserved :: "pipc \<Rightarrow> nat" where
  "reserved (WStore c) = 1"
| "reserved RLoad = 1"
| "reserved _ = 0"

fun unposted :: "pipc \<Rightarrow> nat" where
  "unposted (WAdvance c) = 1"
| "unposted (WPost c) = 1"
| "unposted (RAdvance c) = 1"
| "unposted (RPost c) = 1"
| "unposted _ = 0"

definition pipe_inv :: "nat \<Rightarrow> nat \<Rightarrow> pipe \<Rightarrow> pipc \<Rightarrow> pipc \<Rightarrow> bool" where
  "pipe_inv w r g p c \<longleftrightarrow> writer_at w g p \<and> reader_at r g c \<and> (\<forall>k. r \<le> k \<and> k < w \<longrightarrow> buf g (k mod SZ) = written_char k) \<and>
     write_slots g + w + reserved p + unposted c = SZ + r \<and> read_slots g + r + reserved c + unposted p = w"

lemma next_char: "(if written_char w + 1 \<le> char_z then written_char w + 1 else char_a) = written_char (Suc w)"
  by (auto simp: written_char_def char_a_def char_z_def mod_Suc)

lemma slots_differ: "k < w \<Longrightarrow> w < k + SZ \<Longrightarrow> k mod SZ \<noteq> w mod SZ"
proof
  assume "k < w" "w < k + SZ" "k mod SZ = w mod SZ"
  then have "SZ dvd w - k" using mod_eq_dvd_iff_nat [of k w SZ] by simp
  then show False using \<open>k < w\<close> \<open>w < k + SZ\<close> by (auto dest: dvd_imp_le)
qed

lemma produce_keeps:
  assumes inv: "pipe_inv w r g p c" and s: "(g', p') \<in> set (pipe_producer g p)"
  shows "\<exists>w'. pipe_inv w' r g' p' c"
proof (cases p)
  case (WWait x)
  then have "pipe_inv w r g' p' c"
    using inv s by (cases c) (auto simp: pipe_inv_def pipe_producer_def sem_wait_def split: if_splits)
  then show ?thesis ..
next
  case (WStore x)
  have "k mod SZ \<noteq> w mod SZ" if "r \<le> k" "k < w" for k
    using slots_differ [of k w] inv that by (auto simp: WStore pipe_inv_def)
  then have "pipe_inv (Suc w) r g' p' c"
    using inv s by (cases c) (auto simp: WStore pipe_inv_def pipe_producer_def less_Suc_eq)
  then show ?thesis ..
next
  case (WAdvance x)
  then have "pipe_inv w r g' p' c"
    using inv s by (cases c) (auto simp: pipe_inv_def pipe_producer_def mod_Suc_eq Suc_pred)
  then show ?thesis ..
next
  case (WPost x)
  then have "pipe_inv w r g' p' c"
    using inv s by (cases c) (auto simp: pipe_inv_def pipe_producer_def sem_post_def)
  then show ?thesis ..
next
  case (Written x)
  then have "pipe_inv w r g' p' c"
    using inv s next_char [of "w - 1"] by (cases c) (auto simp: pipe_inv_def pipe_producer_def)
  then show ?thesis ..
qed (use inv in \<open>auto simp: pipe_inv_def\<close>)

lemma consume_keeps:
  assumes inv: "pipe_inv w r g p c" and s: "(g', c') \<in> set (pipe_consumer g c)"
  shows "\<exists>r'. pipe_inv w r' g' p c'"
proof (cases c)
  case RWait
  then have "pipe_inv w r g' p c'"
    using inv s by (cases p) (auto simp: pipe_inv_def pipe_consumer_def sem_wait_def split: if_splits)
  then show ?thesis ..
next
  case RLoad
  then have "pipe_inv w (Suc r) g' p c'"
    using inv s by (cases p) (auto simp: pipe_inv_def pipe_consumer_def)
  then show ?thesis ..
next
  case (RAdvance x)
  then have "pipe_inv w r g' p c'"
    using inv s by (cases p) (auto simp: pipe_inv_def pipe_consumer_def mod_Suc_eq Suc_pred)
  then show ?thesis ..
next
  case (RPost x)
  then have "pipe_inv w r g' p c'"
    using inv s by (cases p) (auto simp: pipe_inv_def pipe_consumer_def sem_post_def)
  then show ?thesis ..
next
  case (Print x)
  have "0 < r \<Longrightarrow> map printed_char [0..<r - 1] @ [written_char (r - 1) - char_a + char_A] = map printed_char [0..<r]"
    by (cases r) (auto simp: written_char_def printed_char_def)
  then have "pipe_inv w r g' p c'"
    using inv s Print by (cases p) (auto simp: pipe_inv_def pipe_consumer_def)
  then show ?thesis ..
qed (use inv in \<open>auto simp: pipe_inv_def\<close>)

interpretation sp: thread_invariant sempipe 2 sempipe_start "\<lambda>g ls. \<exists>w r. pipe_inv w r g (ls 0) (ls 1)"
proof
  show "\<exists>w r. pipe_inv w r (glob sempipe_start) (locs sempipe_start 0) (locs sempipe_start 1)"
    by (intro exI [of _ 0]) (simp add: pipe_inv_def sempipe_start_def written_char_def)
  show "\<exists>w r. pipe_inv w r g' ((ls(i := l')) 0) ((ls(i := l')) 1)"
    if "\<exists>w r. pipe_inv w r g (ls 0) (ls 1)" "i < 2" "(g', l') \<in> set (sempipe i g (ls i))" for g ls i g' l'
    using that produce_keeps consume_keeps by (auto simp: sempipe_def less_2_cases_iff split: if_splits) blast+
qed

section \<open>The program\<close>

text \<open>
  C20: in every interleaving the consumer prints the characters A to Z in order, over and over: no character
  is lost, repeated, or overwritten in the buffer before it is read. And the program never deadlocks.
\<close>

theorem pipe_prints_alphabet:
  assumes "reaches sempipe 2 sempipe_start s"
  shows "stdout (glob s) = map printed_char [0..<length (stdout (glob s))] \<and> \<not> stuck sempipe 2 s"
proof -
  obtain w r where inv: "pipe_inv w r (glob s) (locs s 0) (locs s 1)" using sp.invariant [OF assms] by blast
  then have "\<exists>n. stdout (glob s) = map printed_char [0..<n]" by (cases "locs s 1") (auto simp: pipe_inv_def)
  moreover have "sempipe 0 (glob s) (locs s 0) \<noteq> [] \<or> sempipe 1 (glob s) (locs s 1) \<noteq> []"
    using inv by (cases "locs s 0"; cases "locs s 1")
      (auto simp: pipe_inv_def sempipe_def pipe_producer_def pipe_consumer_def sem_wait_def sem_post_def SZ_def)
  ultimately show ?thesis using stuckD [of sempipe 2 s 0] stuckD [of sempipe 2 s 1] by auto
qed

text \<open>The producer fills two slots and the consumer prints both characters.\<close>

definition pipe_run :: "(nat \<times> nat) list" where
  "pipe_run = replicate 10 (0, 0) @ replicate 10 (1, 0)"

lemma pipe_run:
  "run_schedule sempipe 2 pipe_run sempipe_start \<noteq> None"
  "length (stdout (glob (the (run_schedule sempipe 2 pipe_run sempipe_start)))) = 2"
  by code_simp+

theorem pipe_prints_alphabet_witness:
  "stdout (glob (the (run_schedule sempipe 2 pipe_run sempipe_start))) = [65, 66]"
  using pipe_prints_alphabet [OF run_schedule_reaches [of sempipe 2 pipe_run sempipe_start]] pipe_run
  by (auto simp: printed_char_def char_A_def numeral_2_eq_2)

end
