(* ===== verification/Rwlock.thy ===== *)
theory Rwlock
  imports Threads
begin

text \<open>
  \<^verbatim>\<open>09/rw-using-sems.c\<close>: a lock for many readers or one writer, made of two semaphores and a counter, and the program that uses it: one
  thread moves a unit between two random elements of an array, the others add all elements up and stop the program when the sum is not
  0. Every access to a shared variable is a step of its own. The return values of \<^verbatim>\<open>rand()\<close> are an argument.
\<close>

definition RW_SZ :: nat where "RW_SZ = 1000000"
definition ITER :: nat where "ITER = 1000"
definition num_threads :: nat where "num_threads = 8"

record rwlock =
  rw_lock :: nat
  rw_writelock :: nat
  rw_readers :: int
  rw_x :: "nat \<Rightarrow> int"

text \<open>
  The points of the threads, with the local variables: \<open>k\<close> counts the iterations, \<open>i\<close> the elements that have been added up to the sum
  \<open>s\<close>; a store carries the value that was loaded before it.
\<close>

datatype rwpc =
    WWait nat | IncLoad nat | IncStore nat int | DecLoad nat | DecStore nat int | WPost nat
  | AWait nat | ALoad nat | AStore nat int | ATest nat | AWaitW nat | APost nat
  | Add nat nat int
  | QWait nat int | QLoad nat int | QStore nat int int | QTest nat int | QPostW nat int | QPost nat int
  | CheckSum nat int | Oops int | Exited

fun rwlock_acquire_readlock :: "rwlock \<Rightarrow> rwpc \<Rightarrow> (rwlock \<times> rwpc) list" where
  "rwlock_acquire_readlock g (AWait k) = sem_wait (rw_lock g) (\<lambda>v. (g\<lparr>rw_lock := v\<rparr>, ALoad k))"
| "rwlock_acquire_readlock g (ALoad k) = [(g, AStore k (rw_readers g))]"
| "rwlock_acquire_readlock g (AStore k r) = [(g\<lparr>rw_readers := r + 1\<rparr>, ATest k)]"
| "rwlock_acquire_readlock g (ATest k) = [(g, if rw_readers g = 1 then AWaitW k else APost k)]"
| "rwlock_acquire_readlock g (AWaitW k) = sem_wait (rw_writelock g) (\<lambda>v. (g\<lparr>rw_writelock := v\<rparr>, APost k))"
| "rwlock_acquire_readlock g (APost k) = sem_post (rw_lock g) (\<lambda>v. (g\<lparr>rw_lock := v\<rparr>, Add k 0 0))"
| "rwlock_acquire_readlock g _ = []"

fun rwlock_release_readlock :: "rwlock \<Rightarrow> rwpc \<Rightarrow> (rwlock \<times> rwpc) list" where
  "rwlock_release_readlock g (QWait k s) = sem_wait (rw_lock g) (\<lambda>v. (g\<lparr>rw_lock := v\<rparr>, QLoad k s))"
| "rwlock_release_readlock g (QLoad k s) = [(g, QStore k s (rw_readers g))]"
| "rwlock_release_readlock g (QStore k s r) = [(g\<lparr>rw_readers := r - 1\<rparr>, QTest k s)]"
| "rwlock_release_readlock g (QTest k s) = [(g, if rw_readers g = 0 then QPostW k s else QPost k s)]"
| "rwlock_release_readlock g (QPostW k s) = sem_post (rw_writelock g) (\<lambda>v. (g\<lparr>rw_writelock := v\<rparr>, QPost k s))"
| "rwlock_release_readlock g (QPost k s) = sem_post (rw_lock g) (\<lambda>v. (g\<lparr>rw_lock := v\<rparr>, CheckSum k s))"
| "rwlock_release_readlock g _ = []"

fun rwlock_acquire_writelock :: "rwlock \<Rightarrow> rwpc \<Rightarrow> (rwlock \<times> rwpc) list" where
  "rwlock_acquire_writelock g (WWait k) = sem_wait (rw_writelock g) (\<lambda>v. (g\<lparr>rw_writelock := v\<rparr>, IncLoad k))"
| "rwlock_acquire_writelock g _ = []"

fun rwlock_release_writelock :: "rwlock \<Rightarrow> rwpc \<Rightarrow> (rwlock \<times> rwpc) list" where
  "rwlock_release_writelock g (WPost k) = sem_post (rw_writelock g)
     (\<lambda>v. (g\<lparr>rw_writelock := v\<rparr>, if k + 1 < ITER then WWait (k + 1) else Exited))"
| "rwlock_release_writelock g _ = []"

fun inc :: "(nat \<Rightarrow> nat) \<Rightarrow> rwlock \<Rightarrow> rwpc \<Rightarrow> (rwlock \<times> rwpc) list" where
  "inc rnd g (IncLoad k) = [(g, IncStore k (rw_x g (rnd (2 * k) mod RW_SZ)))]"
| "inc rnd g (IncStore k v) = [(g\<lparr>rw_x := (rw_x g)(rnd (2 * k) mod RW_SZ := v + 1)\<rparr>, DecLoad k)]"
| "inc rnd g (DecLoad k) = [(g, DecStore k (rw_x g (rnd (2 * k + 1) mod RW_SZ)))]"
| "inc rnd g (DecStore k v) = [(g\<lparr>rw_x := (rw_x g)(rnd (2 * k + 1) mod RW_SZ := v - 1)\<rparr>, WPost k)]"
| "inc rnd g l = rwlock_acquire_writelock g l @ rwlock_release_writelock g l"

fun rw_sum :: "rwlock \<Rightarrow> rwpc \<Rightarrow> (rwlock \<times> rwpc) list" where
  "rw_sum g (Add k i s) = [(g, if i < RW_SZ then Add k (i + 1) (s + rw_x g i) else QWait k s)]"
| "rw_sum g (CheckSum k s) = [(g, if s \<noteq> 0 then Oops s else if k + 1 < ITER then AWait (k + 1) else Exited)]"
| "rw_sum g l = rwlock_acquire_readlock g l @ rwlock_release_readlock g l"

definition rw_prog :: "(nat \<Rightarrow> nat) \<Rightarrow> (rwlock, rwpc) threads" where
  "rw_prog rnd i = (if i = 0 then inc rnd else rw_sum)"

definition rwlock_init :: "rwlock \<Rightarrow> rwlock" where
  "rwlock_init g = g\<lparr>rw_readers := 0, rw_lock := 1, rw_writelock := 1\<rparr>"

definition rw_start :: "(rwlock, rwpc) sys" where
  "rw_start = \<lparr>glob = rwlock_init \<lparr>rw_lock = 0, rw_writelock = 0, rw_readers = 0, rw_x = (\<lambda>_. 0)\<rparr>,
     locs = (\<lambda>i. if i = 0 then WWait 0 else AWait 0)\<rparr>"

section \<open>The invariant\<close>

text \<open>The threads inside the first semaphore, the writer inside the lock, and the readers that the counter counts.\<close>

fun in_lock :: "rwpc \<Rightarrow> bool" where
  "in_lock (ALoad k) = True"
| "in_lock (AStore k r) = True"
| "in_lock (ATest k) = True"
| "in_lock (AWaitW k) = True"
| "in_lock (APost k) = True"
| "in_lock (QLoad k s) = True"
| "in_lock (QStore k s r) = True"
| "in_lock (QTest k s) = True"
| "in_lock (QPostW k s) = True"
| "in_lock (QPost k s) = True"
| "in_lock _ = False"

fun writing :: "rwpc \<Rightarrow> bool" where
  "writing (IncLoad k) = True"
| "writing (IncStore k v) = True"
| "writing (DecLoad k) = True"
| "writing (DecStore k v) = True"
| "writing (WPost k) = True"
| "writing _ = False"

fun rw_counted :: "rwpc \<Rightarrow> int" where
  "rw_counted (ATest k) = 1"
| "rw_counted (AWaitW k) = 1"
| "rw_counted (APost k) = 1"
| "rw_counted (Add k i s) = 1"
| "rw_counted (QWait k s) = 1"
| "rw_counted (QLoad k s) = 1"
| "rw_counted (QStore k s r) = 1"
| "rw_counted _ = 0"

text \<open>
  Whether the readers hold the second semaphore: they do when the counter is positive, except between the
  change of the counter and of the semaphore.
\<close>

fun group_holds :: "rwpc \<Rightarrow> int \<Rightarrow> bool \<Rightarrow> bool" where
  "group_holds (ATest k) n G = (G \<longleftrightarrow> 1 < n)"
| "group_holds (AWaitW k) n G = (n = 1 \<and> \<not> G)"
| "group_holds (QTest k s) n G = G"
| "group_holds (QPostW k s) n G = (n = 0 \<and> G)"
| "group_holds (AStore k r) n G = (r = n \<and> (G \<longleftrightarrow> 0 < n))"
| "group_holds (QStore k s r) n G = (r = n \<and> (G \<longleftrightarrow> 0 < n))"
| "group_holds _ n G = (G \<longleftrightarrow> 0 < n)"

fun sum_ok :: "(nat \<Rightarrow> int) \<Rightarrow> rwpc \<Rightarrow> bool" where
  "sum_ok x (Add k i s) = (i \<le> RW_SZ \<and> s = (\<Sum>a<i. x a))"
| "sum_ok x (QWait k s) = (s = 0)"
| "sum_ok x (QLoad k s) = (s = 0)"
| "sum_ok x (QStore k s r) = (s = 0)"
| "sum_ok x (QTest k s) = (s = 0)"
| "sum_ok x (QPostW k s) = (s = 0)"
| "sum_ok x (QPost k s) = (s = 0)"
| "sum_ok x (CheckSum k s) = (s = 0)"
| "sum_ok x (Oops s) = False"
| "sum_ok x _ = True"

fun write_ok :: "(nat \<Rightarrow> nat) \<Rightarrow> (nat \<Rightarrow> int) \<Rightarrow> rwpc \<Rightarrow> bool" where
  "write_ok rnd x (IncStore k v) = (v = x (rnd (2 * k) mod RW_SZ) \<and> (\<Sum>a<RW_SZ. x a) = 0)"
| "write_ok rnd x (DecLoad k) = ((\<Sum>a<RW_SZ. x a) = 1)"
| "write_ok rnd x (DecStore k v) = (v = x (rnd (2 * k + 1) mod RW_SZ) \<and> (\<Sum>a<RW_SZ. x a) = 1)"
| "write_ok rnd x (Oops s) = False"
| "write_ok rnd x _ = ((\<Sum>a<RW_SZ. x a) = 0)"

definition rw_inv :: "(nat \<Rightarrow> nat) \<Rightarrow> nat \<Rightarrow> rwlock \<Rightarrow> (nat \<Rightarrow> rwpc) \<Rightarrow> bool" where
  "rw_inv rnd N g ls \<longleftrightarrow>
     rw_lock g = (if \<exists>i<N. in_lock (ls i) then 0 else 1) \<and> (\<forall>i<N. \<forall>j<N. in_lock (ls i) \<and> in_lock (ls j) \<longrightarrow> i = j) \<and>
     rw_readers g = (\<Sum>i<N. rw_counted (ls i)) \<and> \<not> in_lock (ls 0) \<and> rw_counted (ls 0) = 0 \<and>
     write_ok rnd (rw_x g) (ls 0) \<and> (\<forall>i<N. 0 < i \<longrightarrow> sum_ok (rw_x g) (ls i) \<and> \<not> writing (ls i)) \<and>
     (\<exists>G. rw_writelock g = (if writing (ls 0) \<or> G then 0 else 1) \<and> \<not> (writing (ls 0) \<and> G) \<and>
       (\<forall>i<N. in_lock (ls i) \<longrightarrow> group_holds (ls i) (rw_readers g) G) \<and>
       ((\<forall>i<N. \<not> in_lock (ls i)) \<longrightarrow> (G \<longleftrightarrow> 0 < rw_readers g)))"

lemma rw_counted_01: "0 \<le> rw_counted l" "rw_counted l \<le> 1"
  by (cases l; simp)+

lemma counted_le: "i < N \<Longrightarrow> rw_counted (ls i) \<le> (\<Sum>i<N. rw_counted (ls i))" for N :: nat
  by (rule member_le_sum) (auto simp: rw_counted_01)

lemma counted_le2:
  fixes N :: nat
  assumes "i < N" "j < N" "i \<noteq> j"
  shows "rw_counted (ls i) + rw_counted (ls j) \<le> (\<Sum>i<N. rw_counted (ls i))"
proof -
  have "(\<Sum>i\<in>{i, j}. rw_counted (ls i)) \<le> (\<Sum>i<N. rw_counted (ls i))"
    by (rule sum_mono2) (use assms in \<open>auto simp: rw_counted_01\<close>)
  then show ?thesis using assms(3) by simp
qed

lemma counted_upd: "i < N \<Longrightarrow> (\<Sum>j<N. rw_counted ((ls(i := l)) j)) = (\<Sum>j<N. rw_counted (ls j)) - rw_counted (ls i) + rw_counted l"
  for N :: nat
  by (simp add: sum.remove [of "{..<N}" i])

text \<open>While a reader adds up, the writer is outside.\<close>

lemma readers_exclude:
  assumes inv: "rw_inv rnd N g ls" and i: "i < N" "rw_counted (ls i) = 1" "\<not> in_lock (ls i)"
  shows "\<not> writing (ls 0)"
proof -
  obtain G where G: "\<not> (writing (ls 0) \<and> G)" "\<And>j. j < N \<Longrightarrow> in_lock (ls j) \<Longrightarrow> group_holds (ls j) (rw_readers g) G"
      "(\<forall>j<N. \<not> in_lock (ls j)) \<Longrightarrow> (G \<longleftrightarrow> 0 < rw_readers g)" and n: "rw_readers g = (\<Sum>i<N. rw_counted (ls i))"
    using inv unfolding rw_inv_def by blast
  have "G"
  proof (cases "\<exists>j<N. in_lock (ls j)")
    case True
    then obtain j where j: "j < N" "in_lock (ls j)" by blast
    with i(3) have "i \<noteq> j" by auto
    from counted_le2 [OF i(1) j(1) this, of ls] G(2) [OF j] n i(2) show ?thesis by (cases "ls j") auto
  next
    case False
    then show ?thesis using G(3) counted_le [OF i(1), of ls] n i(2) by auto
  qed
  then show ?thesis using G(1) by blast
qed

text \<open>A step of a reader, with the other threads outside the first semaphore.\<close>

lemma reader_step:
  assumes "(g', l') \<in> set (rw_sum g l)" "rw_lock g = (if in_lock l then 0 else 1)" "rw_readers g = m + rw_counted l" "0 \<le> m"
    "rw_writelock g = (if w \<or> G then 0 else 1)" "\<not> (w \<and> G)"
    "if in_lock l then group_holds l (rw_readers g) G else G \<longleftrightarrow> 0 < rw_readers g"
  shows "rw_lock g' = (if in_lock l' then 0 else 1) \<and> rw_readers g' = m + rw_counted l' \<and> (\<exists>G'. rw_writelock g' = (if w \<or> G' then 0 else 1) \<and> \<not> (w \<and> G') \<and>
    (if in_lock l' then group_holds l' (rw_readers g') G' else G' \<longleftrightarrow> 0 < rw_readers g'))"
  using assms by (cases l) (auto simp: sem_wait_def sem_post_def split: if_splits)

text \<open>A reader that waits or is outside the semaphore changes nothing that is shared.\<close>

lemma reader_outside:
  assumes "(g', l') \<in> set (rw_sum g l)" "rw_lock g = 0" "\<not> in_lock l"
  shows "g' = g \<and> \<not> in_lock l' \<and> rw_counted l' = rw_counted l"
  using assms by (cases l) (auto simp: sem_wait_def split: if_splits)

lemma reader_sum:
  assumes "(g', l') \<in> set (rw_sum g l)" "sum_ok (rw_x g) l" "\<not> writing l" "rw_counted l = 1 \<Longrightarrow> \<not> in_lock l \<Longrightarrow> (\<Sum>a<RW_SZ. rw_x g a) = 0"
  shows "rw_x g' = rw_x g \<and> sum_ok (rw_x g) l' \<and> \<not> writing l'"
  using assms by (cases l) (auto simp: sem_wait_def sem_post_def le_Suc_eq split: if_splits)

lemma reader_keeps:
  assumes inv: "rw_inv rnd N g ls" and i: "i < N" "0 < i" and r: "(g', l') \<in> set (rw_sum g (ls i))"
  shows "rw_inv rnd N g' (ls(i := l'))"
proof -
  obtain G where G: "rw_writelock g = (if writing (ls 0) \<or> G then 0 else 1)" "\<not> (writing (ls 0) \<and> G)"
      "\<And>j. j < N \<Longrightarrow> in_lock (ls j) \<Longrightarrow> group_holds (ls j) (rw_readers g) G"
      "(\<forall>j<N. \<not> in_lock (ls j)) \<Longrightarrow> (G \<longleftrightarrow> 0 < rw_readers g)"
    and lock: "rw_lock g = (if \<exists>i<N. in_lock (ls i) then 0 else 1)" "\<And>j k. j < N \<Longrightarrow> k < N \<Longrightarrow> in_lock (ls j) \<Longrightarrow> in_lock (ls k) \<Longrightarrow> j = k"
    and n: "rw_readers g = (\<Sum>i<N. rw_counted (ls i))" and zero: "\<not> in_lock (ls 0)" "rw_counted (ls 0) = 0" "write_ok rnd (rw_x g) (ls 0)"
    and x: "\<And>j. j < N \<Longrightarrow> 0 < j \<Longrightarrow> sum_ok (rw_x g) (ls j) \<and> \<not> writing (ls j)"
    using inv unfolding rw_inv_def by blast
  have "(\<Sum>a<RW_SZ. rw_x g a) = 0" if "rw_counted (ls i) = 1" "\<not> in_lock (ls i)"
    using readers_exclude [OF inv i(1) that] zero(3) by (cases "ls 0") auto
  note rs = reader_sum [OF r _ _ this]
  then have x': "rw_x g' = rw_x g" "sum_ok (rw_x g) l'" "\<not> writing l'" using x [OF i] by blast+
  let ?ls = "ls(i := l')"
  have z: "?ls 0 = ls 0" using i(2) by simp
  have x'': "\<And>j. j < N \<Longrightarrow> 0 < j \<Longrightarrow> sum_ok (rw_x g') (?ls j) \<and> \<not> writing (?ls j)" using x x' by simp
  let ?m = "(\<Sum>j<N. rw_counted (ls j)) - rw_counted (ls i)"
  show ?thesis
  proof (cases "\<exists>j<N. j \<noteq> i \<and> in_lock (ls j)")
    case True
    then obtain j where j: "j < N" "j \<noteq> i" "in_lock (ls j)" by blast
    then have li: "\<not> in_lock (ls i)" using lock(2) i(1) by blast
    have "rw_lock g = 0" using lock(1) j by auto
    from reader_outside [OF r this li] have o: "g' = g" "\<not> in_lock l'" "rw_counted l' = rw_counted (ls i)" by auto
    have eq: "in_lock (?ls k) \<longleftrightarrow> in_lock (ls k)" "in_lock (ls k) \<Longrightarrow> ?ls k = ls k" for k using li o(2) by auto
    have n': "rw_readers g = (\<Sum>j<N. rw_counted (?ls j))" unfolding counted_upd [OF i(1)] using n o(3) by simp
    have "\<forall>j<N. in_lock (ls j) \<longrightarrow> group_holds (?ls j) (rw_readers g) G" using G(3) eq(2) by simp
    then show ?thesis unfolding rw_inv_def z o(1) eq(1) using lock n' zero x'' [unfolded o(1)] G(1,2,4) by blast
  next
    case False
    then have ol: "(\<exists>j<N. in_lock (ls j)) \<longleftrightarrow> in_lock (ls i)" "\<And>j. j < N \<Longrightarrow> in_lock (?ls j) \<longleftrightarrow> j = i \<and> in_lock l'"
      using i(1) by auto
    have step: "rw_lock g' = (if in_lock l' then 0 else 1) \<and> rw_readers g' = ?m + rw_counted l' \<and>
      (\<exists>G'. rw_writelock g' = (if writing (ls 0) \<or> G' then 0 else 1) \<and> \<not> (writing (ls 0) \<and> G') \<and>
        (if in_lock l' then group_holds l' (rw_readers g') G' else G' \<longleftrightarrow> 0 < rw_readers g'))"
    proof (rule reader_step [OF r _ _ _ G(1,2)])
      show "if in_lock (ls i) then group_holds (ls i) (rw_readers g) G else G \<longleftrightarrow> 0 < rw_readers g"
        using G(3) [OF i(1)] G(4) ol(1) by auto
      show "0 \<le> ?m" using counted_le [OF i(1), of ls] by simp
    qed (use lock(1) ol(1) n in auto)
    then obtain G' where G': "rw_writelock g' = (if writing (ls 0) \<or> G' then 0 else 1)" "\<not> (writing (ls 0) \<and> G')"
      "if in_lock l' then group_holds l' (rw_readers g') G' else G' \<longleftrightarrow> 0 < rw_readers g'" by blast
    have ex: "(\<exists>j<N. in_lock (?ls j)) \<longleftrightarrow> in_lock l'" using ol(2) i(1) by metis
    have "rw_readers g' = (\<Sum>j<N. rw_counted (?ls j))" unfolding counted_upd [OF i(1)] using step by blast
    moreover have "rw_lock g' = (if \<exists>j<N. in_lock (?ls j) then 0 else 1)" using step ex by simp
    moreover have "\<forall>j<N. \<forall>k<N. in_lock (?ls j) \<and> in_lock (?ls k) \<longrightarrow> j = k" using ol(2) by blast
    moreover have "\<forall>j<N. in_lock (?ls j) \<longrightarrow> group_holds (?ls j) (rw_readers g') G'" using ol(2) G'(3) by auto
    moreover have "(\<forall>j<N. \<not> in_lock (?ls j)) \<longrightarrow> (G' \<longleftrightarrow> 0 < rw_readers g')" using ex G'(3) by auto
    ultimately show ?thesis unfolding rw_inv_def z x'(1) using zero x'' [unfolded x'(1)] G'(1,2) by blast
  qed
qed

lemma writer_step:
  assumes "(g', l') \<in> set (inc rnd g l)" "\<not> in_lock l" "rw_counted l = 0" "write_ok rnd (rw_x g) l"
    "rw_writelock g = (if writing l \<or> G then 0 else 1)" "\<not> (writing l \<and> G)"
  shows "rw_lock g' = rw_lock g \<and> rw_readers g' = rw_readers g \<and> \<not> in_lock l' \<and> rw_counted l' = 0 \<and> write_ok rnd (rw_x g') l' \<and>
    rw_writelock g' = (if writing l' \<or> G then 0 else 1) \<and> \<not> (writing l' \<and> G) \<and> (rw_x g' = rw_x g \<or> writing l)"
proof -
  have "rnd (2 * k) mod RW_SZ < RW_SZ" "rnd (2 * k + 1) mod RW_SZ < RW_SZ" for k by (simp_all add: RW_SZ_def)
  note upd = sum_upd [OF this(1)] sum_upd [OF this(2)]
  show ?thesis
    using assms upd by (cases l) (auto simp: sem_wait_def sem_post_def simp del: fun_upd_apply split: if_splits)
qed

lemma sum_ok_x: "sum_ok x l \<Longrightarrow> \<not> (rw_counted l = 1 \<and> \<not> in_lock l) \<Longrightarrow> sum_ok x' l"
  by (cases l) auto

lemma writer_keeps:
  assumes inv: "rw_inv rnd N g ls" and N: "0 < N" and r: "(g', l') \<in> set (inc rnd g (ls 0))"
  shows "rw_inv rnd N g' (ls(0 := l'))"
proof -
  obtain G where G: "rw_writelock g = (if writing (ls 0) \<or> G then 0 else 1)" "\<not> (writing (ls 0) \<and> G)"
      "\<forall>j<N. in_lock (ls j) \<longrightarrow> group_holds (ls j) (rw_readers g) G"
      "(\<forall>j<N. \<not> in_lock (ls j)) \<longrightarrow> (G \<longleftrightarrow> 0 < rw_readers g)"
    and lock: "rw_lock g = (if \<exists>i<N. in_lock (ls i) then 0 else 1)" "\<forall>j<N. \<forall>k<N. in_lock (ls j) \<and> in_lock (ls k) \<longrightarrow> j = k"
    and n: "rw_readers g = (\<Sum>i<N. rw_counted (ls i))" and zero: "\<not> in_lock (ls 0)" "rw_counted (ls 0) = 0" "write_ok rnd (rw_x g) (ls 0)"
    and x: "\<And>j. j < N \<Longrightarrow> 0 < j \<Longrightarrow> sum_ok (rw_x g) (ls j) \<and> \<not> writing (ls j)"
    using inv unfolding rw_inv_def by blast
  let ?ls = "ls(0 := l')"
  from writer_step [OF r zero G(1,2)]
  have w: "rw_lock g' = rw_lock g" "rw_readers g' = rw_readers g" "\<not> in_lock l'" "rw_counted l' = 0" "write_ok rnd (rw_x g') l'"
    "rw_writelock g' = (if writing l' \<or> G then 0 else 1)" "\<not> (writing l' \<and> G)" "rw_x g' = rw_x g \<or> writing (ls 0)" by blast+
  have eq: "in_lock (?ls k) \<longleftrightarrow> in_lock (ls k)" "in_lock (ls k) \<Longrightarrow> ?ls k = ls k" for k using zero(1) w(3) by auto
  have n': "rw_readers g = (\<Sum>j<N. rw_counted (?ls j))" unfolding counted_upd [OF N] using n w(4) zero(2) by simp
  have "sum_ok (rw_x g') (?ls j) \<and> \<not> writing (?ls j)" if "j < N" "0 < j" for j
    using w(8) x [OF that] sum_ok_x [of "rw_x g" "ls j" "rw_x g'"] readers_exclude [OF inv that(1)] that(2) by auto
  moreover have "\<forall>j<N. in_lock (ls j) \<longrightarrow> group_holds (?ls j) (rw_readers g) G" using G(3) eq(2) by simp
  moreover have z: "?ls 0 = l'" by simp
  ultimately show ?thesis unfolding rw_inv_def eq(1) z w(1,2) using lock n' G(4) w(3-7) by blast
qed

interpretation rw: thread_invariant "rw_prog rnd" num_threads rw_start "rw_inv rnd num_threads" for rnd
proof
  show "rw_inv rnd num_threads (glob rw_start) (locs rw_start)"
    by (auto simp: rw_inv_def rw_start_def rwlock_init_def intro!: sum.neutral exI [of _ False])
  show "rw_inv rnd num_threads g' (ls(i := l'))"
    if "rw_inv rnd num_threads g ls" "i < num_threads" "(g', l') \<in> set (rw_prog rnd i g (ls i))" for g ls i g' l'
    using writer_keeps [OF that(1)] reader_keeps [OF that(1,2)] that(2,3) by (cases "i = 0") (auto simp: rw_prog_def)
qed

section \<open>The program\<close>

text \<open>
  C19: in every interleaving and for all return values of \<^verbatim>\<open>rand()\<close>, the readers add up to 0, so that no thread ever
  prints the message and exits: while a reader is between \<^verbatim>\<open>rwlock_acquire_readlock\<close> and \<^verbatim>\<open>rwlock_release_readlock\<close>, the
  writer is not inside its lock.
\<close>

theorem readers_see_zero:
  assumes "reaches (rw_prog rnd) num_threads rw_start s" "i < num_threads"
  shows "locs s i \<noteq> Oops v \<and> (locs s i = Add k j t \<longrightarrow> \<not> writing (locs s 0) \<and> t = (\<Sum>a<j. rw_x (glob s) a))"
proof -
  note inv = rw.invariant [OF assms(1)]
  have "write_ok rnd (rw_x (glob s)) (locs s 0)" "rw_counted (locs s 0) = 0" "0 < i \<Longrightarrow> sum_ok (rw_x (glob s)) (locs s i)"
    using inv assms(2) by (auto simp: rw_inv_def)
  then show ?thesis using readers_exclude [OF inv assms(2)] by (cases "i = 0") auto
qed

text \<open>Two readers are inside the lock and the writer waits.\<close>

definition rw_run :: "(nat \<times> nat) list" where
  "rw_run = replicate 6 (1, 0) @ replicate 5 (2, 0)"

lemma rw_run:
  "run_schedule (rw_prog (\<lambda>_. 0)) num_threads rw_run rw_start \<noteq> None"
  "locs (the (run_schedule (rw_prog (\<lambda>_. 0)) num_threads rw_run rw_start)) 2 = Add 0 0 0"
  by (simp_all add: rw_run_def num_threads_def rw_prog_def rw_start_def rwlock_init_def sem_wait_def sem_post_def numeral_eq_Suc)

theorem readers_see_zero_witness:
  "\<not> writing (locs (the (run_schedule (rw_prog (\<lambda>_. 0)) num_threads rw_run rw_start)) 0)"
  using readers_see_zero [OF run_schedule_reaches [of "rw_prog (\<lambda>_. 0)" num_threads rw_run rw_start], of _ 2] rw_run
  by (auto simp: num_threads_def)

end
