(* ===== verification/Spec2Isabelle.thy ===== *)
theory Spec2Isabelle
  imports Newproc Bootmain Mkboot Peterson Bank Dining Sempipe Rwlock
begin

text \<open>
  Verification of an xv6-derived teaching kernel and of the concurrency demos that come with it.

  \<^bold>\<open>The program.\<close> The kernel runs on one processor. From the bottom up it consists of interrupt sections
  (\<^verbatim>\<open>spinlock.c\<close>), byte routines (\<^verbatim>\<open>string.c\<close>), the page allocator (\<^verbatim>\<open>kalloc.c\<close>), the disk driver (\<^verbatim>\<open>ide.c\<close>), the
  buffer cache (\<^verbatim>\<open>bio.c\<close>), the write-ahead log (\<^verbatim>\<open>log.c\<close>), the console and the serial port (\<^verbatim>\<open>console.c\<close>, \<^verbatim>\<open>uart.c\<close>), the interrupt
  controllers and the multiprocessor tables (\<^verbatim>\<open>lapic.c\<close>, \<^verbatim>\<open>ioapic.c\<close>, \<^verbatim>\<open>picirq.c\<close>, \<^verbatim>\<open>mp.c\<close>), the file system (\<^verbatim>\<open>fs.c\<close>), open
  files (\<^verbatim>\<open>file.c\<close>), segments (\<^verbatim>\<open>vm.c\<close>), processes and the scheduler (\<^verbatim>\<open>proc.c\<close>, \<^verbatim>\<open>swtch.S\<close>), system calls (\<^verbatim>\<open>syscall.c\<close>,
  \<^verbatim>\<open>sysfile.c\<close>, \<^verbatim>\<open>sysproc.c\<close>) and traps (\<^verbatim>\<open>trap.c\<close>, \<^verbatim>\<open>trapasm.S\<close>, \<^verbatim>\<open>vectors.pl\<close>). \<^verbatim>\<open>main.c\<close> initialises them in order. The
  boot loader \<^verbatim>\<open>bootmain.c\<close> brings the kernel into memory, and \<^verbatim>\<open>mkfs.c\<close> makes the disk image that the kernel starts on. The
  directory \<^verbatim>\<open>09\<close> has programs for threads, semaphores and mutexes.

  \<^bold>\<open>The model.\<close> A C function is a function in the monad of \<^verbatim>\<open>KPrelude\<close>: it takes the state, and returns a value and the new
  state or stops with \<open>Panic\<close>, \<open>Spin\<close> (a loop that never ends) or \<open>Fault\<close> (undefined behaviour: an access outside an array or through a
  null pointer, or an overflow of \<^verbatim>\<open>ncli\<close> or in \<^verbatim>\<open>printint\<close>). The state is one record
  that each component extends: \<open>kcpu\<close>, \<open>kmem\<close>, \<open>kblk\<close>, \<open>klog\<close>, \<open>kcon\<close>, \<open>kplat\<close>, \<open>kfs\<close>, \<open>kfile\<close>, \<open>kproc\<close>. Unsigned integers,
  bytes, addresses and fields on the disk have their width and wrap around. Signed counters are integers of HOL: for \<^verbatim>\<open>ncli\<close>, whose range a caller could leave, the bounds of \<^verbatim>\<open>int\<close> are
  written out. The others do not reach their bounds: \<^verbatim>\<open>ref\<close> of an inode or a file counts pointers held in tables of fixed size, \<^verbatim>\<open>log.lh.n\<close> and \<^verbatim>\<open>log.size\<close> are at most
  the length of the log in the theorems, and \<^verbatim>\<open>ncpu\<close> is at most \<^verbatim>\<open>NCPU\<close>. \<^verbatim>\<open>nextpid\<close> is not bounded by the code; that it would wrap after 2147483647 processes is left out. Memory is a function from 32-bit addresses to bytes; a block is a list of 512 bytes; pointers into tables
  are indices. \<open>wpK m Q s\<close> says that \<open>m\<close>, started in \<open>s\<close>, returns and establishes \<open>Q\<close>: all results are about total
  correctness. The hardware (the two drives with their ports, the serial line, the controllers' registers) is part of the state.
  The effect of \<^verbatim>\<open>swtch\<close> on the state of the kernel, the code of the user, the table of the devices and the addresses that the
  linker assigns are arguments.

  \<^bold>\<open>The theories.\<close>

  \<^item> \<^verbatim>\<open>KPrelude\<close>, \<^verbatim>\<open>KBytes\<close>: the monad, its rules, chains of pointers; fields of byte arrays (\<^verbatim>\<open>types.h\<close>).
  \<^item> \<^verbatim>\<open>Spinlock\<close>, \<^verbatim>\<open>Cstring\<close>: \<^verbatim>\<open>spinlock.c\<close> and \<^verbatim>\<open>string.c\<close>. Sections nest; the routines agree with functions on byte lists.
  \<^item> \<^verbatim>\<open>Allocator\<close>, \<^verbatim>\<open>Kalloc\<close>: the contract of an allocator as a locale, and \<^verbatim>\<open>kalloc.c\<close>, which implements it with a list that is
    threaded through the free pages. \<^verbatim>\<open>Balloc\<close> interprets the same contract on the blocks of the disk.
  \<^item> \<^verbatim>\<open>Ide\<close>, \<^verbatim>\<open>Bio\<close>, \<^verbatim>\<open>Bcache\<close>: \<^verbatim>\<open>ide.c\<close> and \<^verbatim>\<open>bio.c\<close>. Requests are served in order; the ring of buffers is a list in the order of use;
    the cache is transparent: \<open>bc v D H s\<close> relates a state to the contents of the blocks.
  \<^item> \<^verbatim>\<open>Wal\<close>, \<^verbatim>\<open>Crash\<close>, \<^verbatim>\<open>Durable\<close>: \<^verbatim>\<open>log.c\<close>, the sequence of the disk writes of a commit, and what a power failure at any point leaves
    after recovery. \<^verbatim>\<open>Logged\<close> is the interface to the layers above: an array of blocks that is read and written under a
    transaction, as a locale that the cache and the log satisfy.
  \<^item> \<^verbatim>\<open>Console\<close>, \<^verbatim>\<open>Platform\<close>: \<^verbatim>\<open>console.c\<close> and \<^verbatim>\<open>uart.c\<close>, the line editor as a pair of byte sequences, in every interleaving of
    interrupts and reads; numerals; the controllers and the tables. A turn of the loop of \<^verbatim>\<open>consoleread\<close> is one step there.
  \<^item> \<^verbatim>\<open>Bootmain\<close>: \<^verbatim>\<open>bootmain.c\<close> and \<^verbatim>\<open>elf.h\<close>. The segments of the kernel file are loaded as its headers say.
  \<^item> \<^verbatim>\<open>Balloc\<close>, \<^verbatim>\<open>Inode\<close>, \<^verbatim>\<open>Filedata\<close>, \<^verbatim>\<open>Filerw\<close>, \<^verbatim>\<open>Filewr\<close>, \<^verbatim>\<open>Filefree\<close>, \<^verbatim>\<open>Dir\<close>, \<^verbatim>\<open>Names\<close>: \<^verbatim>\<open>fs.c\<close> by layers: bitmap, inodes, the block map of a
    file, reading, writing, truncation, directories, paths. \<open>fs S c v L H I s\<close> describes a state by what is on the disk and in the
    caches. \<^verbatim>\<open>Fsdemo\<close> is a small concrete file system, and \<^verbatim>\<open>Fsthms\<close> and \<^verbatim>\<open>Dirthms\<close> hold the theorems.
  \<^item> \<^verbatim>\<open>File\<close>, \<^verbatim>\<open>Segment\<close>, \<^verbatim>\<open>Proc\<close>, \<^verbatim>\<open>Kstate\<close>, \<^verbatim>\<open>Syscall\<close>, \<^verbatim>\<open>Trap\<close>: \<^verbatim>\<open>file.c\<close>, \<^verbatim>\<open>mmu.h\<close>, \<^verbatim>\<open>vm.c\<close>, \<^verbatim>\<open>proc.c\<close>, the state before the first
    instruction, the system calls, \<^verbatim>\<open>trap.c\<close> and \<^verbatim>\<open>main.c\<close>. Arguments that a process passes are confined to its memory.
  \<^item> \<^verbatim>\<open>Sched\<close>: the scheduler gives each runnable process one slice per pass. What a slice keeps is a locale, which the
    trap handler and \<^verbatim>\<open>yield\<close> satisfy whatever the user code computes.
  \<^item> \<^verbatim>\<open>Mkfs\<close>, \<^verbatim>\<open>Mkfsok\<close>, \<^verbatim>\<open>Mkfsimg\<close>, \<^verbatim>\<open>Mkfsthms\<close>, \<^verbatim>\<open>Mkfsfin\<close>, \<^verbatim>\<open>Mkboot\<close>: \<^verbatim>\<open>mkfs.c\<close>, the invariant of the image while it grows, the finished
    image, and the kernel that starts on it and reads a file back.
  \<^item> \<^verbatim>\<open>Swtch\<close>, \<^verbatim>\<open>Newproc\<close>: the assembly programs on a machine with registers, which enters the kernel from user and from kernel
    mode; which exceptions have an error code is stated for the processor apart from the list of \<^verbatim>\<open>vectors.pl\<close>. A switch and a trap restore what they save, and the
    stack that \<^verbatim>\<open>allocproc\<close> lays out is what they expect.
  \<^item> \<^verbatim>\<open>Threads\<close>: interleaving of threads, schedules, invariants as a locale. \<^verbatim>\<open>Peterson\<close>, \<^verbatim>\<open>Bank\<close>, \<^verbatim>\<open>Dining\<close>, \<^verbatim>\<open>Sempipe\<close>, \<^verbatim>\<open>Rwlock\<close>: the programs of
    \<^verbatim>\<open>09\<close> with the same names, each with its invariant, and with the runs in which the broken variants fail. In \<^verbatim>\<open>Dining\<close> the main thread, which initialises
    the semaphores while philosophers run, is one of the threads.

  \<^bold>\<open>Bounds.\<close> A loop over a table is a recursion over its size. The search along a linked list, the walk over the
  multiprocessor tables, the copying of sectors and the walk along a path have a bound on the number of steps. Where the bound is reached
  the function stops with \<open>Spin\<close>. The buffer ring has at most \<^verbatim>\<open>NBUF\<close> nodes; an entry of the tables has at least 8 bytes and a
  table less than 65536; a copied sector advances the address by 512 bytes; an iteration along a path consumes a byte of it. The theorems say that the functions
  return, so that on the states they speak about no bound is reached. \<open>namex_loop_enough\<close> shows that a larger bound never changes the outcome of the walk along a path, and
  the theorem on unknown table entries holds for every bound.

  \<^bold>\<open>Not modelled.\<close> \<^verbatim>\<open>bootasm.S\<close> and \<^verbatim>\<open>entry.S\<close> switch the processor to protected mode and have no state that the
  model has. \<^verbatim>\<open>init.c\<close>, \<^verbatim>\<open>initcode.S\<close>, \<^verbatim>\<open>usys.S\<close> and \<^verbatim>\<open>printf.c\<close> run in user mode, and the kernel is modelled for arbitrary user code.
  \<^verbatim>\<open>Makefile\<close>, \<^verbatim>\<open>kernel.ld\<close>, \<^verbatim>\<open>sign.pl\<close> and the scripts build and publish the program. The demos in \<^verbatim>\<open>02\<close>, \<^verbatim>\<open>05\<close>, \<^verbatim>\<open>06\<close> and \<^verbatim>\<open>08\<close>
  show calls of the host system (processes, pipes, memory errors) and have no logic of their own; \<^verbatim>\<open>04\<close> is a simulator with a graphical
  interface; the other programs of \<^verbatim>\<open>09\<close> use the same primitives as the five that are modelled. An interrupt between the increment of \<^verbatim>\<open>input.r\<close> and the
  read of the byte in \<^verbatim>\<open>consoleread\<close>, whose order C leaves open, is not considered.
\<close>

end
